(* ===== verification/Prelude.thy ===== *)
theory Prelude
  imports Main "HOL-Library.Multiset"
begin

text \<open>
  Shared vocabulary of the development.

  \<^item> \<open>py_error\<close> and \<open>result\<close>: a Python call that may raise is a value of a sum type;
    \<open>Inl\<close> carries the class of the exception. \<open>bindR\<close> sequences two such calls and
    \<open>assertR\<close> is Python's \<^verbatim>\<open>assert\<close>.
  \<^item> \<open>cdiv\<close>, \<open>pyslice\<close>, \<open>assign_slice\<close>: the integer and slice
    idioms that the cache and allocator code uses throughout.
  \<^item> generic lemmas on lists and on \<open>result\<close>, collected in \<open>result_simps\<close>.
\<close>

named_theorems result_simps \<open>elimination of the error monad\<close>
named_theorems slice_simps \<open>Python slices as take and drop\<close>

section \<open>Exceptions as values\<close>

text \<open>
  \<open>OutOfFuel\<close> is not a Python exception: it is the value of a bounded loop that has not
  ended within its bound.
\<close>

datatype py_error =
    AssertionError
  | IndexError
  | KeyError
  | ValueError
  | RuntimeError
  | NotImplementedError
  | AttributeError
  | ZeroDivisionError
  | TypeError
  | OverflowError
  | OutOfFuel

type_synonym 'a result = "py_error + 'a"

definition bindR :: "'a result \<Rightarrow> ('a \<Rightarrow> 'b result) \<Rightarrow> 'b result" where
  "bindR m f = (case m of Inl e \<Rightarrow> Inl e | Inr x \<Rightarrow> f x)"

definition assertR :: "bool \<Rightarrow> 'a result \<Rightarrow> 'a result" where
  "assertR b k = (if b then k else Inl AssertionError)"

definition is_ok :: "'a result \<Rightarrow> bool" where
  "is_ok m = (case m of Inl _ \<Rightarrow> False | Inr _ \<Rightarrow> True)"

text \<open>A \<^verbatim>\<open>for\<close> loop over a list whose body may raise.\<close>

fun foldR :: "('a \<Rightarrow> 's \<Rightarrow> 's result) \<Rightarrow> 'a list \<Rightarrow> 's \<Rightarrow> 's result" where
  "foldR f [] s = Inr s"
| "foldR f (x # xs) s = bindR (f x s) (foldR f xs)"

text \<open>A comprehension whose element expression may raise.\<close>

fun mapR :: "('a \<Rightarrow> 'b result) \<Rightarrow> 'a list \<Rightarrow> 'b list result" where
  "mapR f [] = Inr []"
| "mapR f (x # xs) = bindR (f x) (\<lambda>y. bindR (mapR f xs) (\<lambda>ys. Inr (y # ys)))"

text \<open>Reading an attribute of something that may be \<^verbatim>\<open>None\<close>.\<close>

definition the_attr :: "'a option \<Rightarrow> 'a result" where
  "the_attr x = (case x of None \<Rightarrow> Inl AttributeError | Some y \<Rightarrow> Inr y)"

section \<open>Integers and slices\<close>

text \<open>\<^verbatim>\<open>(x + n - 1) // n\<close>, the ceiling division written out all over the allocator.\<close>

definition cdiv :: "int \<Rightarrow> int \<Rightarrow> int" where
  "cdiv x n = (x + n - 1) div n"

text \<open>\<^verbatim>\<open>sys.maxsize\<close> on a 64-bit platform.\<close>

definition maxsize :: int where
  "maxsize = 2 ^ 63 - 1"

text \<open>\<^verbatim>\<open>xs[a:b]\<close> for non-negative bounds.\<close>

definition pyslice :: "'a list \<Rightarrow> nat \<Rightarrow> nat \<Rightarrow> 'a list" where
  "pyslice xs a b = drop a (take b xs)"

text \<open>
  \<^verbatim>\<open>out[a:b] = vs\<close> on a tensor: the bounds are clipped to the tensor; the shapes have to
  agree, except that a single value is broadcast; otherwise torch raises a RuntimeError.
\<close>

definition assign_slice :: "'a list \<Rightarrow> nat \<Rightarrow> nat \<Rightarrow> 'a list \<Rightarrow> 'a list result" where
  "assign_slice out a b vs =
     (let n = length (pyslice out a b)
      in if n = length vs then Inr (take a out @ vs @ drop (a + n) out)
         else if length vs = 1 then Inr (take a out @ replicate n (hd vs) @ drop (a + n) out)
         else Inl RuntimeError)"

text \<open>\<^verbatim>\<open>torch.cumsum(xs, 0)\<close>.\<close>

definition cumsum :: "int list \<Rightarrow> int list" where
  "cumsum xs = map (\<lambda>i. sum_list (take (Suc i) xs)) [0..<length xs]"

text \<open>Python indexing of a list or tensor by a non-negative position.\<close>

definition nthR :: "'a list \<Rightarrow> nat \<Rightarrow> 'a result" where
  "nthR xs i = (if i < length xs then Inr (xs ! i) else Inl IndexError)"

section \<open>Lemmas on results\<close>

lemma bindR_simps [simp, result_simps]:
  "bindR (Inr x) f = f x"
  "bindR (Inl e) f = Inl e"
  by (simp_all add: bindR_def)

lemma bindR_eq_Inr [result_simps]:
  "bindR m f = Inr y \<longleftrightarrow> (\<exists>x. m = Inr x \<and> f x = Inr y)"
  by (cases m) simp_all

lemma bindR_assoc: "bindR (bindR m f) g = bindR m (\<lambda>x. bindR (f x) g)"
  by (cases m) simp_all

lemma assertR_True [simp]: "assertR True k = k"
  by (simp add: assertR_def)

lemma assertR_eq_Inr [result_simps]: "assertR b k = Inr y \<longleftrightarrow> b \<and> k = Inr y"
  by (simp add: assertR_def)

lemma is_ok_simps [simp, result_simps]: "is_ok (Inr x)" "\<not> is_ok (Inl e)"
  by (simp_all add: is_ok_def)

lemma is_ok_iff: "is_ok m \<longleftrightarrow> (\<exists>x. m = Inr x)"
  by (cases m) simp_all

lemma nthR_eq_Inr [result_simps]: "nthR xs i = Inr y \<longleftrightarrow> i < length xs \<and> y = xs ! i"
  by (auto simp: nthR_def)

lemma mapR_eq_Inr:
  "mapR f xs = Inr ys \<longleftrightarrow> length ys = length xs \<and> (\<forall>i < length xs. f (xs ! i) = Inr (ys ! i))"
proof (induction xs arbitrary: ys)
  case (Cons x xs)
  show ?case
    by (cases ys) (auto simp: bindR_eq_Inr Cons.IH nth_Cons' less_Suc_eq_0_disj)
qed auto

lemma mapR_total: "(\<And>x. x \<in> set xs \<Longrightarrow> f x = Inr (g x)) \<Longrightarrow> mapR f xs = Inr (map g xs)"
  by (induction xs) simp_all

lemma the_attr_simps [simp, result_simps]:
  "the_attr (Some y) = Inr y" "the_attr None = Inl AttributeError"
  by (simp_all add: the_attr_def)

lemma foldR_append: "foldR f (xs @ ys) s = bindR (foldR f xs s) (foldR f ys)"
proof (induction xs arbitrary: s)
  case (Cons x xs)
  then show ?case by (cases "f x s") simp_all
qed simp

text \<open>The loop rule: an invariant indexed by the prefix already processed.\<close>

lemma foldR_invariant:
  assumes "\<And>k s. k < length xs \<Longrightarrow> I k s \<Longrightarrow> \<exists>s'. f (xs ! k) s = Inr s' \<and> I (Suc k) s'"
    and "I 0 s"
  shows "\<exists>s'. foldR f xs s = Inr s' \<and> I (length xs) s'"
  using assms
proof (induction xs arbitrary: s I)
  case Nil
  then show ?case by simp
next
  case (Cons x xs)
  from Cons.prems(1)[of 0 s] Cons.prems(2) obtain s1 where
    s1: "f x s = Inr s1" "I (Suc 0) s1" by auto
  have "\<exists>s'. foldR f xs s1 = Inr s' \<and> I (Suc (length xs)) s'"
    by (rule Cons.IH[of "\<lambda>k. I (Suc k)" s1]) (use Cons.prems(1) s1(2) in force)+
  then show ?case using s1 by simp
qed

section \<open>Lemmas on slices and sums\<close>

lemma length_pyslice [simp]: "length (pyslice xs a b) = min b (length xs) - a"
  by (simp add: pyslice_def)

lemma pyslice_nth: "i < min b (length xs) - a \<Longrightarrow> pyslice xs a b ! i = xs ! (a + i)"
  unfolding pyslice_def by (subst nth_drop) auto

lemma length_cumsum [simp]: "length (cumsum xs) = length xs"
  by (simp add: cumsum_def)

lemma cumsum_nth: "i < length xs \<Longrightarrow> cumsum xs ! i = sum_list (take (Suc i) xs)"
  by (simp add: cumsum_def)

lemma cumsum_start:
  "i < length xs \<Longrightarrow> cumsum xs ! i - xs ! i = sum_list (take i xs)"
  by (simp add: cumsum_nth take_Suc_conv_app_nth)

lemma cdiv_pos_bounds:
  assumes "0 < n"
  shows "x \<le> cdiv x n * n" and "cdiv x n * n < x + n"
proof -
  have eq: "(x + n - 1) div n * n = x + n - 1 - (x + n - 1) mod n"
    by (simp add: minus_mod_eq_div_mult)
  have "0 \<le> (x + n - 1) mod n" "(x + n - 1) mod n < n"
    using assms by simp_all
  then show "x \<le> cdiv x n * n" and "cdiv x n * n < x + n"
    unfolding cdiv_def eq by linarith+
qed

lemma div_less_of_less_mult:
  fixes x n q :: int
  assumes "0 < n" "x < q * n"
  shows "x div n < q"
proof (rule ccontr)
  assume "\<not> x div n < q"
  then have "q * n \<le> x div n * n" using assms(1) by simp
  moreover have "x div n * n \<le> x"
    using div_mult_mod_eq[of x n] pos_mod_sign[OF assms(1), of x] by linarith
  ultimately show False using assms(2) by simp
qed

lemma div_eq_of_offset: "0 \<le> r \<Longrightarrow> r < n \<Longrightarrow> x = r + q * n \<Longrightarrow> x div n = (q::int)"
  by simp

lemma div_superadd:
  fixes x y n :: int
  assumes "0 < n"
  shows "x div n + y div n \<le> (x + y) div n"
proof -
  have "(x + y) div n = x div n + y div n + (x mod n + y mod n) div n" by (rule div_add1_eq)
  moreover have "0 \<le> (x mod n + y mod n) div n"
    using assms by (intro div_int_pos_iff[THEN iffD2]) simp
  ultimately show ?thesis by simp
qed

lemma cdiv_mono: "0 < n \<Longrightarrow> x \<le> y \<Longrightarrow> cdiv x n \<le> cdiv y n"
  by (simp add: cdiv_def zdiv_mono1)

lemma sum_list_take_mono:
  fixes xs :: "int list"
  assumes "\<forall>x \<in> set xs. 0 \<le> x" and "i \<le> j"
  shows "sum_list (take i xs) \<le> sum_list (take j xs)"
proof -
  have "take j xs = take i xs @ take (j - i) (drop i xs)"
    using assms(2) by (metis le_add_diff_inverse take_add)
  moreover have "0 \<le> sum_list (take (j - i) (drop i xs))"
    by (rule sum_list_nonneg) (use assms(1) in \<open>auto dest!: in_set_takeD in_set_dropD\<close>)
  ultimately show ?thesis by simp
qed

end
