(* ===== verification/Allocator.thy ===== *)
theory Allocator
  imports Prelude
begin

text \<open>
  The device KV slot allocators of \<^verbatim>\<open>mem_cache/allocator.py\<close>.

  A slot is the index of one token's KV entry, a page is \<open>al_page_size\<close> consecutive
  slots. \<open>allocator\<close> holds the fields of \<^verbatim>\<open>BaseTokenToKVPoolAllocator\<close>; the \<open>tk_\<close>
  operations are those of \<^verbatim>\<open>TokenToKVPoolAllocator\<close> (pages of one slot), the \<open>pg_\<close>
  operations those of \<^verbatim>\<open>PagedTokenToKVPoolAllocator\<close>. The Triton kernels of
  \<^verbatim>\<open>alloc_extend\<close> and \<^verbatim>\<open>alloc_decode\<close> are the lists of stores each program issues.
\<close>

section \<open>State and base class\<close>

record allocator =
  al_size :: nat
  al_page_size :: nat
  al_need_sort :: bool
  al_debug_mode :: bool
  free_pages :: "int list"
  release_pages :: "int list"
  is_not_in_free_group :: bool
  free_group :: "int list list"

definition available_size :: "allocator \<Rightarrow> nat" where
  "available_size a = (length (free_pages a) + length (release_pages a)) * al_page_size a"

definition backup_state :: "allocator \<Rightarrow> int list \<times> int list" where
  "backup_state a = (free_pages a, release_pages a)"

definition restore_state :: "allocator \<Rightarrow> int list \<times> int list \<Rightarrow> allocator" where
  "restore_state a st = a\<lparr>free_pages := fst st, release_pages := snd st\<rparr>"

definition free_group_begin :: "allocator \<Rightarrow> allocator" where
  "free_group_begin a = a\<lparr>is_not_in_free_group := False, free_group := []\<rparr>"

definition merge_and_sort_free :: "allocator \<Rightarrow> allocator" where
  "merge_and_sort_free a =
     (if 0 < length (release_pages a)
      then a\<lparr>free_pages := sort (free_pages a @ release_pages a), release_pages := []\<rparr>
      else a)"

section \<open>Token-granular allocator\<close>

definition tk_clear :: "allocator \<Rightarrow> allocator" where
  "tk_clear a = a\<lparr>free_pages := map int [1..<al_size a + 1],
     is_not_in_free_group := True, free_group := [], release_pages := []\<rparr>"

definition tk_init :: "nat \<Rightarrow> bool \<Rightarrow> allocator" where
  "tk_init sz need_sort = tk_clear \<lparr>al_size = sz, al_page_size = 1,
     al_need_sort = need_sort, al_debug_mode = False, free_pages = [], release_pages = [],
     is_not_in_free_group = True, free_group = []\<rparr>"

definition tk_available_size :: "allocator \<Rightarrow> nat" where
  "tk_available_size a = length (free_pages a) + length (release_pages a)"

definition tk_alloc :: "allocator \<Rightarrow> nat \<Rightarrow> int list option \<times> allocator" where
  "tk_alloc a need_size =
     (let a = (if al_need_sort a \<and> length (free_pages a) < need_size
               then merge_and_sort_free a else a)
      in if length (free_pages a) < need_size then (None, a)
         else (Some (take need_size (free_pages a)),
               a\<lparr>free_pages := drop need_size (free_pages a)\<rparr>))"

definition tk_free :: "allocator \<Rightarrow> int list \<Rightarrow> allocator" where
  "tk_free a free_index =
     (if length free_index = 0 then a
      else if is_not_in_free_group a
      then (if al_need_sort a then a\<lparr>release_pages := release_pages a @ free_index\<rparr>
            else a\<lparr>free_pages := free_pages a @ free_index\<rparr>)
      else a\<lparr>free_group := free_group a @ [free_index]\<rparr>)"

definition tk_free_group_end :: "allocator \<Rightarrow> allocator" where
  "tk_free_group_end a =
     (let a = a\<lparr>is_not_in_free_group := True\<rparr>
      in if free_group a \<noteq> [] then tk_free a (concat (free_group a)) else a)"

section \<open>Page-granular allocator\<close>

definition page_slots :: "int \<Rightarrow> int \<Rightarrow> int list" where
  "page_slots ps p = map (\<lambda>j. p * ps + int j) [0..<nat ps]"

definition pg_clear :: "allocator \<Rightarrow> allocator" where
  "pg_clear a = a\<lparr>free_pages := map int [1..<al_size a div al_page_size a + 1],
     is_not_in_free_group := True, free_group := [], release_pages := []\<rparr>"

definition pg_init :: "nat \<Rightarrow> nat \<Rightarrow> bool \<Rightarrow> bool \<Rightarrow> allocator" where
  "pg_init sz page_size need_sort debug_mode = pg_clear \<lparr>al_size = sz,
     al_page_size = page_size, al_need_sort = need_sort, al_debug_mode = debug_mode,
     free_pages = [], release_pages = [], is_not_in_free_group = True, free_group = []\<rparr>"

definition pg_alloc :: "allocator \<Rightarrow> nat \<Rightarrow> (int list option \<times> allocator) result" where
  "pg_alloc a need_size =
     (if al_debug_mode a \<and> need_size mod al_page_size a \<noteq> 0 then Inl AssertionError
      else let num_pages = need_size div al_page_size a;
               a = (if al_need_sort a \<and> length (free_pages a) < num_pages
                    then merge_and_sort_free a else a)
      in if length (free_pages a) < num_pages then Inr (None, a)
         else let out_pages = take num_pages (free_pages a)
              in Inr (Some (concat (map (page_slots (int (al_page_size a))) out_pages)),
                      a\<lparr>free_pages := drop num_pages (free_pages a)\<rparr>))"

text \<open>\<^verbatim>\<open>torch.unique\<close>: ascending, without duplicates.\<close>

definition torch_unique :: "int list \<Rightarrow> int list" where
  "torch_unique xs = sort (remdups xs)"

definition pg_free :: "allocator \<Rightarrow> int list \<Rightarrow> allocator result" where
  "pg_free a free_index =
     (if length free_index = 0 then Inr a
      else let a = (if is_not_in_free_group a
                    then let free_page_indices =
                               torch_unique (map (\<lambda>i. i div int (al_page_size a)) free_index)
                         in if al_need_sort a
                            then a\<lparr>release_pages := free_page_indices @ release_pages a\<rparr>
                            else a\<lparr>free_pages := free_page_indices @ free_pages a\<rparr>
                    else a\<lparr>free_group := free_group a @ [free_index]\<rparr>)
      in if al_debug_mode a \<and> length (torch_unique (free_pages a)) \<noteq> length (free_pages a)
         then Inl AssertionError else Inr a)"

definition pg_free_group_end :: "allocator \<Rightarrow> allocator result" where
  "pg_free_group_end a =
     (let a = a\<lparr>is_not_in_free_group := True\<rparr>
      in if free_group a \<noteq> [] then pg_free a (concat (free_group a)) else Inr a)"

section \<open>Extending a batch of requests\<close>

text \<open>The reference routine \<^verbatim>\<open>alloc_extend_naive\<close>: one iteration of its loop.\<close>

definition naive_extend_step ::
  "int \<Rightarrow> int list \<Rightarrow> int list \<Rightarrow> int list \<Rightarrow> int list \<Rightarrow> nat \<Rightarrow> int list \<Rightarrow> int list result" where
  "naive_extend_step ps prefix_lens seq_lens last_loc fpages i out =
     (let extend_lens = map2 (-) seq_lens prefix_lens;
          end_pos = cumsum extend_lens;
          start_pos = map2 (-) end_pos extend_lens;
          num_new_pages = map2 (\<lambda>s p. cdiv s ps - cdiv p ps) seq_lens prefix_lens;
          num_full_new_pages = map2 (\<lambda>s p. s div ps - cdiv p ps) seq_lens prefix_lens;
          need_page = map2 (-) num_new_pages num_full_new_pages;
          end_new_pages = cumsum num_new_pages;
          start_new_pages = map2 (-) end_new_pages num_new_pages;
          pre = prefix_lens ! i; seq = seq_lens ! i;
          num1 = min seq (cdiv pre ps * ps) - pre
      in bindR
          (if num1 \<noteq> 0
           then assign_slice out (nat (start_pos ! i)) (nat (start_pos ! i + num1))
                  (map (\<lambda>k. last_loc ! i + 1 + int k) [0..<nat num1])
           else Inr out)
          (\<lambda>out.
       if pre + num1 = seq then Inr out
       else let num2 = (seq div ps - cdiv pre ps) * ps
      in bindR
          (if num2 \<noteq> 0
           then assign_slice out (nat (start_pos ! i + num1)) (nat (start_pos ! i + num1 + num2))
                  (concat (map (page_slots ps)
                     (pyslice fpages (nat (start_new_pages ! i))
                        (nat (end_new_pages ! i - need_page ! i)))))
           else Inr out)
          (\<lambda>out.
       if pre + num1 + num2 = seq then Inr out
       else let num3 = seq - seq div ps * ps
      in if num3 \<noteq> 0
         then bindR (nthR fpages (nat (end_new_pages ! i - 1)))
                (\<lambda>pg. assign_slice out (nat (end_pos ! i - num3)) (nat (end_pos ! i))
                        (map (\<lambda>k. pg * ps + int k) [0..<nat num3]))
         else Inr out)))"

definition alloc_extend_naive ::
  "int \<Rightarrow> int list \<Rightarrow> int list \<Rightarrow> int list \<Rightarrow> int list \<Rightarrow> int list \<Rightarrow> int list result" where
  "alloc_extend_naive ps prefix_lens seq_lens last_loc fpages out =
     foldR (naive_extend_step ps prefix_lens seq_lens last_loc fpages)
       [0..<length prefix_lens] out"

text \<open>
  The Triton kernels. A masked-out lane of a \<^verbatim>\<open>tl.load\<close> without \<^verbatim>\<open>other\<close> holds an
  unspecified value \<open>oth\<close>; a load past the end of the free-page tensor reads unspecified
  memory \<open>oob\<close>. A program is the list of its stores (position, value).
\<close>

definition masked_load :: "int \<Rightarrow> int list \<Rightarrow> nat \<Rightarrow> nat \<Rightarrow> int list" where
  "masked_load oth xs bs_upper pid =
     map (\<lambda>k. if k \<le> pid then xs ! k else oth) [0..<bs_upper]"

definition tl_load :: "(int \<Rightarrow> int) \<Rightarrow> int list \<Rightarrow> int \<Rightarrow> int" where
  "tl_load oob xs i = (if 0 \<le> i \<and> i < int (length xs) then xs ! nat i else oob i)"

definition BLOCK_EXTEND :: int where
  "BLOCK_EXTEND = 4096"

definition alloc_extend_kernel ::
  "int \<Rightarrow> (int \<Rightarrow> int) \<Rightarrow> int list \<Rightarrow> int list \<Rightarrow> int list \<Rightarrow> int list \<Rightarrow> nat \<Rightarrow> int \<Rightarrow> nat \<Rightarrow>
   (int \<times> int) list" where
  "alloc_extend_kernel oth oob pre_lens seq_lens last_locs fpages bs_upper ps pid =
     (let seqs = masked_load oth seq_lens bs_upper pid;
          pres = masked_load oth pre_lens bs_upper pid;
          extend_lens = map2 (-) seqs pres;
          seq_len = seq_lens ! pid;
          pre_len = pre_lens ! pid;
          extend_len = seq_len - pre_len;
          sum_extend_lens = sum_list extend_lens;
          output_start_loc = sum_extend_lens - extend_len;
          num_new_pages = map2 (\<lambda>s p. cdiv s ps - cdiv p ps) seqs pres;
          num_page_start_loc_self = cdiv seq_len ps - cdiv pre_len ps;
          sum_num_new_pages = sum_list num_new_pages;
          new_page_start_loc = sum_num_new_pages - num_page_start_loc_self;
          last_loc = last_locs ! pid;
          num_part1 = min seq_len (cdiv pre_len ps * ps) - pre_len;
          stores1 = map (\<lambda>k. (output_start_loc + int k, last_loc + 1 + int k))
                      (filter (\<lambda>k. int k < num_part1) [0..<nat ps])
      in if pre_len + num_part1 = seq_len then stores1
         else let num_part2 = seq_len div ps * ps - cdiv pre_len ps * ps;
          num_blocks = (num_part2 + BLOCK_EXTEND - 1) div BLOCK_EXTEND;
          stores2 = concat (map (\<lambda>block_id.
            map (\<lambda>off. (output_start_loc + num_part1 + off,
                        tl_load oob fpages (new_page_start_loc + off div ps) * ps + off mod ps))
              (filter (\<lambda>off. off < num_part2)
                (map (\<lambda>l. int block_id * BLOCK_EXTEND + int l) [0..<nat BLOCK_EXTEND])))
            [0..<nat num_blocks])
      in if pre_len + num_part1 + num_part2 = seq_len then stores1 @ stores2
         else let num_part3 = seq_len - seq_len div ps * ps;
          start_loc = tl_load oob fpages (new_page_start_loc + num_page_start_loc_self - 1);
          stores3 = map (\<lambda>k. (output_start_loc + num_part1 + num_part2 + int k,
                              start_loc * ps + int k))
                      (filter (\<lambda>k. int k < num_part3) [0..<nat ps])
      in stores1 @ stores2 @ stores3)"

definition alloc_decode_kernel ::
  "int \<Rightarrow> (int \<Rightarrow> int) \<Rightarrow> int list \<Rightarrow> int list \<Rightarrow> int list \<Rightarrow> nat \<Rightarrow> int \<Rightarrow> nat \<Rightarrow>
   (int \<times> int) list" where
  "alloc_decode_kernel oth oob seq_lens last_locs fpages bs_upper ps pid =
     (let seqs = masked_load oth seq_lens bs_upper pid;
          pres = map (\<lambda>k. if k \<le> pid then seqs ! k - 1 else seqs ! k) [0..<bs_upper];
          seq_len = seq_lens ! pid;
          pre_len = seq_len - 1;
          num_new_pages = map2 (\<lambda>s p. cdiv s ps - cdiv p ps) seqs pres;
          num_page_start_loc_self = cdiv seq_len ps - cdiv pre_len ps;
          sum_num_new_pages = sum_list num_new_pages;
          new_page_start_loc = sum_num_new_pages - num_page_start_loc_self
      in if num_page_start_loc_self = 0 then [(int pid, last_locs ! pid + 1)]
         else [(int pid, tl_load oob fpages new_page_start_loc * ps)])"

text \<open>Stores of a launch, in the order the programs happen to run.\<close>

definition run_stores :: "int list \<Rightarrow> (int \<times> int) list \<Rightarrow> int list" where
  "run_stores out ws = foldl (\<lambda>o' w. o'[nat (fst w) := snd w]) out ws"

definition launch :: "(nat \<Rightarrow> (int \<times> int) list) \<Rightarrow> nat list \<Rightarrow> int list \<Rightarrow> int list" where
  "launch kern pids out = run_stores out (concat (map kern pids))"

definition next_power_of_2 :: "nat \<Rightarrow> nat" where
  "next_power_of_2 n = (if 0 < n then 2 ^ (length (takeWhile (\<lambda>k. 2 ^ k \<le> n - 1) [0..<n])) else 1)"

definition get_num_new_pages :: "int list \<Rightarrow> int \<Rightarrow> int list option \<Rightarrow> bool \<Rightarrow> int result" where
  "get_num_new_pages seq_lens ps prefix_lens decode =
     (case prefix_lens of
        None \<Rightarrow> assertR decode (Inr (int (length (filter (\<lambda>s. s mod ps = 1) seq_lens))))
      | Some pl \<Rightarrow>
          if decode then Inr (int (length (filter (\<lambda>s. s mod ps = 1) seq_lens)))
          else Inr (sum_list (map2 (\<lambda>s p. cdiv s ps - cdiv p ps) seq_lens pl)))"

text \<open>
  What the hardware leaves open in a launch: masked lanes, out-of-range loads, the contents
  of \<^verbatim>\<open>torch.empty\<close> and the order in which the programs of a grid run.
\<close>

record gpu =
  g_oth :: int
  g_oob :: "int \<Rightarrow> int"
  g_uninit :: "nat \<Rightarrow> int"
  g_order :: "nat \<Rightarrow> nat list"

definition pg_alloc_extend ::
  "gpu \<Rightarrow> allocator \<Rightarrow> int list \<Rightarrow> int list \<Rightarrow> int list \<Rightarrow> nat \<Rightarrow> int option \<Rightarrow>
   (int list option \<times> allocator) result" where
  "pg_alloc_extend g a prefix_lens seq_lens last_loc extend_num_tokens num_new_pages =
     (let ps = int (al_page_size a); bs = length prefix_lens
      in if al_debug_mode a \<and>
            \<not> list_all2 (\<lambda>l p. (l + 1) mod ps = p mod ps) last_loc prefix_lens
         then Inl AssertionError
         else let a = (if al_need_sort a \<and>
                          length (free_pages a) < extend_num_tokens div al_page_size a + bs + 1
                       then merge_and_sort_free a else a);
                  out_indices = launch
                    (alloc_extend_kernel (g_oth g) (g_oob g) prefix_lens seq_lens last_loc
                       (free_pages a) (next_power_of_2 bs) ps)
                    (g_order g bs) (map (g_uninit g) [0..<extend_num_tokens])
      in if al_debug_mode a \<and> length (torch_unique out_indices) \<noteq> length out_indices
         then Inl AssertionError
         else bindR (case num_new_pages of
                       None \<Rightarrow> get_num_new_pages seq_lens ps (Some prefix_lens) False
                     | Some n \<Rightarrow> Inr n)
          (\<lambda>n. if int (length (free_pages a)) < n then Inr (None, a)
               else Inr (Some out_indices, a\<lparr>free_pages := drop (nat n) (free_pages a)\<rparr>)))"

definition pg_alloc_decode ::
  "gpu \<Rightarrow> allocator \<Rightarrow> int list \<Rightarrow> int list \<Rightarrow> (int list option \<times> allocator) result" where
  "pg_alloc_decode g a seq_lens last_loc =
     (let ps = int (al_page_size a); bs = length seq_lens
      in if al_debug_mode a \<and>
            \<not> list_all2 (\<lambda>l s. (l + 2) mod ps = s mod ps) last_loc seq_lens
         then Inl AssertionError
         else let a = (if al_need_sort a \<and> length (free_pages a) < bs
                       then merge_and_sort_free a else a);
                  out_indices = launch
                    (alloc_decode_kernel (g_oth g) (g_oob g) seq_lens last_loc
                       (free_pages a) (next_power_of_2 bs) ps)
                    (g_order g bs) (map (g_uninit g) [0..<bs])
      in if al_debug_mode a \<and> length (torch_unique out_indices) \<noteq> length out_indices
         then Inl AssertionError
         else bindR (get_num_new_pages seq_lens ps None True)
          (\<lambda>n. if int (length (free_pages a)) < n then Inr (None, a)
               else Inr (Some out_indices, a\<lparr>free_pages := drop (nat n) (free_pages a)\<rparr>)))"

end
