(* ===== verification/AllocExtend.thy ===== *)
theory AllocExtend
  imports Allocator
begin

text \<open>
  Correctness of the batched slot assignment of \<^verbatim>\<open>alloc_extend\<close> and \<^verbatim>\<open>alloc_decode\<close>:
  the reference routine, the Triton kernels and an abstract specification agree.

  \<open>extend_slot\<close> says where the token at position \<open>pos\<close> of a request goes: into the
  page that already holds its predecessor while that page has room, and from then on
  into the fresh pages handed to the request, at the offset of its position.
\<close>

section \<open>Specification\<close>

definition extend_slot :: "int \<Rightarrow> int \<Rightarrow> int \<Rightarrow> int list \<Rightarrow> int \<Rightarrow> int" where
  "extend_slot ps pre last_loc pages pos =
     (if pos < cdiv pre ps * ps then last_loc + 1 + (pos - pre)
      else pages ! nat (pos div ps - cdiv pre ps) * ps + pos mod ps)"

definition extend_slots :: "int \<Rightarrow> int \<Rightarrow> int \<Rightarrow> int \<Rightarrow> int list \<Rightarrow> int list" where
  "extend_slots ps pre seq last_loc pages =
     map (\<lambda>k. extend_slot ps pre last_loc pages (pre + int k)) [0..<nat (seq - pre)]"

definition new_pages :: "int \<Rightarrow> int \<Rightarrow> int \<Rightarrow> int" where
  "new_pages ps pre seq = cdiv seq ps - cdiv pre ps"

text \<open>The fresh pages of request \<open>i\<close> start after those of the requests before it.\<close>

definition page_start :: "int \<Rightarrow> int list \<Rightarrow> int list \<Rightarrow> nat \<Rightarrow> int" where
  "page_start ps pre_lens seq_lens i =
     sum_list (take i (map2 (\<lambda>s p. cdiv s ps - cdiv p ps) seq_lens pre_lens))"

definition batch_slots :: "int \<Rightarrow> int list \<Rightarrow> int list \<Rightarrow> int list \<Rightarrow> int list \<Rightarrow> int list list" where
  "batch_slots ps pre_lens seq_lens last_locs fpages =
     map (\<lambda>i. extend_slots ps (pre_lens ! i) (seq_lens ! i) (last_locs ! i)
                (drop (nat (page_start ps pre_lens seq_lens i)) fpages))
       [0..<length pre_lens]"

definition extend_spec :: "int \<Rightarrow> int list \<Rightarrow> int list \<Rightarrow> int list \<Rightarrow> int list \<Rightarrow> int list" where
  "extend_spec ps pre_lens seq_lens last_locs fpages =
     concat (batch_slots ps pre_lens seq_lens last_locs fpages)"

text \<open>What the caller of \<^verbatim>\<open>alloc_extend\<close> provides.\<close>

definition extend_pre :: "int \<Rightarrow> int list \<Rightarrow> int list \<Rightarrow> int list \<Rightarrow> int list \<Rightarrow> bool" where
  "extend_pre ps pre_lens seq_lens last_locs fpages \<longleftrightarrow>
     0 < ps \<and> length seq_lens = length pre_lens \<and> length last_locs = length pre_lens \<and>
     list_all2 (\<lambda>p s. 0 \<le> p \<and> p \<le> s) pre_lens seq_lens \<and>
     page_start ps pre_lens seq_lens (length pre_lens) \<le> int (length fpages)"

section \<open>Concatenations by position\<close>

lemma concat_nth_offset:
  "i < length xss \<Longrightarrow> k < length (xss ! i) \<Longrightarrow>
   concat xss ! (sum_list (map length (take i xss)) + k) = xss ! i ! k"
proof (induction xss arbitrary: i)
  case (Cons xs xss)
  then show ?case by (cases i) (auto simp: nth_append)
qed simp

lemma concat_position:
  "t < length (concat xss) \<Longrightarrow>
   \<exists>i k. i < length xss \<and> k < length (xss ! i) \<and>
         t = sum_list (map length (take i xss)) + k"
proof (induction xss arbitrary: t)
  case (Cons xs xss)
  show ?case
  proof (cases "t < length xs")
    case True
    then show ?thesis by (intro exI[of _ 0] exI[of _ t]) simp
  next
    case False
    with Cons.prems have "t - length xs < length (concat xss)" by simp
    from Cons.IH[OF this] obtain i k where
      "i < length xss" "k < length (xss ! i)"
      "t - length xs = sum_list (map length (take i xss)) + k" by blast
    with False show ?thesis by (intro exI[of _ "Suc i"] exI[of _ k]) auto
  qed
qed simp

lemma concat_offset_less:
  "i < length xss \<Longrightarrow> k < length (xss ! i) \<Longrightarrow>
   sum_list (map length (take i xss)) + k < length (concat xss)"
proof (induction xss arbitrary: i)
  case (Cons xs xss)
  then show ?case by (cases i) auto
qed simp

section \<open>Stores\<close>

lemma length_run_stores [simp]: "length (run_stores out ws) = length out"
  unfolding run_stores_def by (induction ws arbitrary: out) simp_all

lemma run_stores_nth:
  assumes "length target = length out"
    and "\<forall>w \<in> set ws. nat (fst w) < length out \<and> snd w = target ! nat (fst w)"
    and "j < length out"
  shows "run_stores out ws ! j = (if \<exists>w \<in> set ws. nat (fst w) = j then target ! j else out ! j)"
  using assms
proof (induction ws rule: rev_induct)
  case (snoc w ws)
  have "run_stores out (ws @ [w]) = (run_stores out ws)[nat (fst w) := snd w]"
    by (simp add: run_stores_def)
  with snoc show ?case by (auto simp: nth_list_update)
qed (simp add: run_stores_def)

text \<open>
  Programs that write disjoint consecutive segments leave the concatenation of the
  segments, in whatever order they run.
\<close>

lemma launch_concat:
  assumes kern: "\<And>i. i < length xss \<Longrightarrow>
      kern i = map (\<lambda>k. (int (sum_list (map length (take i xss)) + k), xss ! i ! k))
                 [0..<length (xss ! i)]"
    and pids: "set pids = {..<length xss}"
    and len: "length out = length (concat xss)"
  shows "launch kern pids out = concat xss"
proof (rule nth_equalityI)
  show "length (launch kern pids out) = length (concat xss)"
    using len by (simp add: launch_def)
next
  fix j assume "j < length (launch kern pids out)"
  then have j: "j < length out" by (simp add: launch_def)
  let ?ws = "concat (map kern pids)"
  have ok: "\<forall>w \<in> set ?ws. nat (fst w) < length out \<and> snd w = concat xss ! nat (fst w)"
  proof
    fix w assume "w \<in> set ?ws"
    with pids obtain i where i: "i < length xss" "w \<in> set (kern i)" by auto
    then obtain k where "k < length (xss ! i)"
      "w = (int (sum_list (map length (take i xss)) + k), xss ! i ! k)"
      unfolding kern[OF i(1)] by auto
    with i(1) len show "nat (fst w) < length out \<and> snd w = concat xss ! nat (fst w)"
      by (simp only: fst_conv snd_conv nat_int concat_nth_offset concat_offset_less simp_thms)
  qed
  have "\<exists>w \<in> set ?ws. nat (fst w) = j"
  proof -
    from j len concat_position[of j xss] obtain i k where
      ik: "i < length xss" "k < length (xss ! i)" "j = sum_list (map length (take i xss)) + k"
      by auto
    then have "(int j, xss ! i ! k) \<in> set (kern i)" unfolding kern[OF ik(1)] by auto
    moreover have "i \<in> set pids" using ik pids by simp
    ultimately show ?thesis by force
  qed
  then show "launch kern pids out ! j = concat xss ! j"
    unfolding launch_def by (subst run_stores_nth[OF len[symmetric] ok j]) simp
qed

section \<open>Lanes, masks and blocks\<close>

lemma filter_upt_less: "nat m \<le> n \<Longrightarrow> filter (\<lambda>k. int k < m) [0..<n] = [0..<nat m]"
proof (induction n)
  case (Suc n)
  show ?case
  proof (cases "nat m = Suc n")
    case True
    then have "filter (\<lambda>k. int k < m) [0..<Suc n] = [0..<Suc n]"
      by (intro filter_True) auto
    with True show ?thesis by simp
  next
    case False
    with Suc show ?thesis by auto
  qed
qed simp

lemma block_lanes:
  "concat (map (\<lambda>b. map (\<lambda>l. int b * int B + int l) [0..<B]) [0..<n]) = map int [0..<n * B]"
proof (induction n)
  case (Suc n)
  have "map int [n * B..<n * B + B] = map (\<lambda>l. int n * int B + int l) [0..<B]"
    by (rule nth_equalityI) simp_all
  moreover have "[0..<Suc n * B] = [0..<n * B] @ [n * B..<n * B + B]"
    using upt_add_eq_append[of 0 "n * B" B] by (simp add: add.commute)
  ultimately show ?case using Suc by simp
qed simp

lemma block_offsets:
  assumes "0 < B"
  shows "concat (map (\<lambda>b. filter (\<lambda>off. off < m)
            (map (\<lambda>l. int b * B + int l) [0..<nat B])) [0..<nat ((m + B - 1) div B)])
         = map int [0..<nat m]"
proof -
  let ?n = "nat ((m + B - 1) div B)"
  have B: "int (nat B) = B" using assms by simp
  have "m \<le> (m + B - 1) div B * B"
    using cdiv_pos_bounds(1)[OF assms, of m] by (simp add: cdiv_def)
  then have "nat m \<le> ?n * nat B"
    using assms by (cases "0 \<le> m") (simp_all add: nat_mult_distrib[symmetric] nat_mono pos_imp_zdiv_nonneg_iff)
  then have "filter (\<lambda>off. off < m) (map int [0..<?n * nat B]) = map int [0..<nat m]"
    by (simp add: filter_map o_def filter_upt_less)
  moreover have "concat (map (\<lambda>b. filter (\<lambda>off. off < m)
            (map (\<lambda>l. int b * B + int l) [0..<nat B])) [0..<?n])
       = filter (\<lambda>off. off < m)
           (concat (map (\<lambda>b. map (\<lambda>l. int b * int (nat B) + int l) [0..<nat B]) [0..<?n]))"
    by (simp add: filter_concat o_def B)
  ultimately show ?thesis by (simp only: block_lanes)
qed

lemma sum_list_masked:
  assumes "i < n" "i < length xs" "length ys = length xs" "f oth oth = (0::int)"
  shows "sum_list (map2 f (masked_load oth xs n i) (masked_load oth ys n i))
       = sum_list (take (Suc i) (map2 f xs ys))"
proof -
  have "map2 f (masked_load oth xs n i) (masked_load oth ys n i)
      = map (\<lambda>k. if k \<le> i then f (xs ! k) (ys ! k) else 0) [0..<n]"
    by (rule nth_equalityI) (use assms(4) in \<open>auto simp: masked_load_def\<close>)
  also have "[0..<n] = [0..<Suc i] @ [Suc i..<n]"
    using assms(1) upt_add_eq_append[of 0 "Suc i" "n - Suc i"] by simp
  also have "map (\<lambda>k. if k \<le> i then f (xs ! k) (ys ! k) else 0) ([0..<Suc i] @ [Suc i..<n])
      = map (\<lambda>k. f (xs ! k) (ys ! k)) [0..<Suc i] @ map (\<lambda>_. 0) [Suc i..<n]"
    unfolding map_append by (intro arg_cong2[where f = append] map_cong) auto
  also have "map (\<lambda>k. f (xs ! k) (ys ! k)) [0..<Suc i] = take (Suc i) (map2 f xs ys)"
    by (rule nth_equalityI) (use assms in \<open>auto simp del: upt_Suc\<close>)
  finally show ?thesis by (simp only: sum_list_append sum_list_0 add_0_right)
qed

section \<open>The three parts of an extension\<close>

lemma cdiv_split:
  assumes "0 < ps"
  shows "cdiv x ps = x div ps + (if x mod ps = 0 then 0 else 1)"
proof -
  have x: "x = x div ps * ps + x mod ps" by simp
  have m: "0 \<le> x mod ps" "x mod ps < ps" using assms by simp_all
  have "x + ps - 1 = (x mod ps + ps - 1) + x div ps * ps" by (subst x) simp
  then have "(x + ps - 1) div ps = x div ps + (x mod ps + ps - 1) div ps"
    using assms by (simp only: div_mult_self1)
  moreover have "(x mod ps + ps - 1) div ps = (if x mod ps = 0 then 0 else 1)"
  proof (cases "x mod ps = 0")
    case True
    then show ?thesis using assms by simp
  next
    case False
    have "x mod ps + ps - 1 = (x mod ps - 1) + 1 * ps" by simp
    then have "(x mod ps + ps - 1) div ps = 1 + (x mod ps - 1) div ps"
      using assms by (simp only: div_mult_self1)
    moreover have "(x mod ps - 1) div ps = 0"
      using m False by (intro div_pos_pos_trivial) linarith+
    ultimately show ?thesis using False by simp
  qed
  ultimately show ?thesis by (simp add: cdiv_def)
qed

lemma extend_part1_bounds:
  assumes "0 < ps" "0 \<le> pre" "pre \<le> seq"
  shows "0 \<le> min seq (cdiv pre ps * ps) - pre" "min seq (cdiv pre ps * ps) - pre < ps"
    "min seq (cdiv pre ps * ps) - pre \<le> seq - pre"
  using cdiv_pos_bounds[OF assms(1), of pre] assms by linarith+

lemma extend_part2:
  assumes "0 < ps" "cdiv pre ps * ps < seq"
  shows "cdiv pre ps \<le> seq div ps"
  using assms by (metis less_imp_le nonzero_mult_div_cancel_right order_less_irrefl zdiv_mono1)

lemma extend_slot_part1:
  "pre + k < cdiv pre ps * ps \<Longrightarrow>
   extend_slot ps pre last_loc pages (pre + k) = last_loc + 1 + k"
  by (simp add: extend_slot_def)

lemma extend_slot_part2:
  assumes "0 < ps" "0 \<le> off"
  shows "extend_slot ps pre last_loc pages (cdiv pre ps * ps + off)
       = pages ! nat (off div ps) * ps + off mod ps"
  using assms by (simp add: extend_slot_def add.commute[of "cdiv pre ps * ps"])

lemma extend_slot_part3:
  assumes "0 < ps" "cdiv pre ps * ps < seq" "0 \<le> k" "k < seq mod ps"
  shows "extend_slot ps pre last_loc pages (seq div ps * ps + k)
       = pages ! nat (seq div ps - cdiv pre ps) * ps + k"
proof -
  have k: "k < ps" using assms(1,4) by (meson less_trans pos_mod_bound)
  have "\<not> seq div ps * ps + k < cdiv pre ps * ps"
    using extend_part2[OF assms(1,2)] assms(1,3) mult_right_mono[of "cdiv pre ps" "seq div ps" ps]
    by linarith
  moreover have "(seq div ps * ps + k) div ps = seq div ps" "(seq div ps * ps + k) mod ps = k"
    using assms(1,3) k by (simp_all add: add.commute[of "seq div ps * ps"])
  ultimately show ?thesis by (simp add: extend_slot_def)
qed

section \<open>The kernel of one request\<close>

lemma map_upt_split:
  assumes "0 \<le> a" "0 \<le> b"
  shows "map f [0..<nat (a + b)] = map f [0..<nat a] @ map (\<lambda>k. f (nat a + k)) [0..<nat b]"
  by (rule nth_equalityI) (use assms in \<open>auto simp: nth_append nat_add_distrib\<close>)

text \<open>The three parts, as value lists: old partial page, full pages, last partial page.\<close>

lemma extend_slots_part1:
  assumes "seq = min seq (cdiv pre ps * ps)"
  shows "extend_slots ps pre seq last_loc pages =
           map (\<lambda>k. last_loc + 1 + int k) [0..<nat (seq - pre)]"
  using assms by (auto simp: extend_slots_def intro!: extend_slot_part1)

lemma extend_slots_parts:
  assumes "0 < ps" "0 \<le> pre" and seq: "cdiv pre ps * ps < seq"
  shows "extend_slots ps pre seq last_loc pages =
     map (\<lambda>k. last_loc + 1 + int k) [0..<nat (cdiv pre ps * ps - pre)] @
     map (\<lambda>k. pages ! nat (int k div ps) * ps + int k mod ps)
       [0..<nat (seq div ps * ps - cdiv pre ps * ps)] @
     map (\<lambda>k. pages ! nat (seq div ps - cdiv pre ps) * ps + int k) [0..<nat (seq mod ps)]"
proof -
  let ?c = "cdiv pre ps * ps" and ?n2 = "seq div ps * ps - cdiv pre ps * ps"
  let ?f = "\<lambda>k. extend_slot ps pre last_loc pages (pre + int k)"
  have n1: "0 \<le> ?c - pre" using cdiv_pos_bounds(1)[OF assms(1), of pre] by simp
  have n2: "0 \<le> ?n2" using extend_part2[OF assms(1) seq] assms(1) by simp
  have n3: "0 \<le> seq mod ps" using assms(1) by simp
  have sum: "seq - pre = (?c - pre) + (?n2 + seq mod ps)"
    using div_mult_mod_eq[of seq ps] by linarith
  have "extend_slots ps pre seq last_loc pages = map ?f [0..<nat (?c - pre)] @
     map (\<lambda>k. ?f (nat (?c - pre) + k)) [0..<nat ?n2] @
     map (\<lambda>k. ?f (nat (?c - pre) + (nat ?n2 + k))) [0..<nat (seq mod ps)]"
    unfolding extend_slots_def sum using n1 n2 n3 by (simp only: map_upt_split add_nonneg_nonneg)
  moreover have "map ?f [0..<nat (?c - pre)] = map (\<lambda>k. last_loc + 1 + int k) [0..<nat (?c - pre)]"
    by (auto intro!: extend_slot_part1)
  moreover have "?f (nat (?c - pre) + k) = pages ! nat (int k div ps) * ps + int k mod ps" for k
    using n1 extend_slot_part2[OF assms(1), of "int k" pre last_loc pages] by simp
  moreover have "?f (nat (?c - pre) + (nat ?n2 + k))
      = pages ! nat (seq div ps - cdiv pre ps) * ps + int k" if "k < nat (seq mod ps)" for k
    using extend_slot_part3[OF assms(1) seq, of "int k" last_loc pages] that n1 n2
    by (simp add: algebra_simps)
  ultimately show ?thesis by simp
qed

text \<open>The stores of \<open>vs\<close> at consecutive positions from \<open>start\<close>.\<close>

definition segment :: "int \<Rightarrow> int list \<Rightarrow> (int \<times> int) list" where
  "segment start vs = map (\<lambda>k. (start + int k, vs ! k)) [0..<length vs]"

lemma segment_map: "segment start (map f [0..<n]) = map (\<lambda>k. (start + int k, f k)) [0..<n]"
  by (simp add: segment_def)

lemma segment_append:
  "segment start (xs @ ys) = segment start xs @ segment (start + int (length xs)) ys"
  by (rule nth_equalityI) (auto simp: segment_def nth_append)

lemma tl_load_drop:
  assumes "0 \<le> p" "0 \<le> j" "p + j < int (length xs)"
  shows "tl_load oob xs (p + j) = drop (nat p) xs ! nat j"
  using assms by (simp add: tl_load_def nat_add_distrib)

lemma blocked_stores:
  assumes "0 < B"
  shows "concat (map (\<lambda>b. map g (filter (\<lambda>off. off < m)
            (map (\<lambda>l. int b * B + int l) [0..<nat B]))) [0..<nat ((m + B - 1) div B)])
       = map (\<lambda>k. g (int k)) [0..<nat m]"
proof -
  have "concat (map (\<lambda>b. map g (h b)) bs) = map g (concat (map h bs))" for h and bs :: "nat list"
    by (simp add: map_concat o_def)
  then show ?thesis by (simp only: block_offsets[OF assms]) simp
qed

lemma alloc_extend_kernel_segment:
  fixes pre seq :: int and fpages :: "int list"
  assumes "0 < ps" "0 \<le> pre" "pre \<le> seq"
    and lens: "pre_lens ! i = pre" "seq_lens ! i = seq"
    and start: "sum_list (map2 (-) (masked_load oth seq_lens n i) (masked_load oth pre_lens n i))
                - (seq - pre) = out_start"
    and pstart: "sum_list (map2 (\<lambda>s p. cdiv s ps - cdiv p ps) (masked_load oth seq_lens n i)
                  (masked_load oth pre_lens n i)) - (cdiv seq ps - cdiv pre ps) = p"
    and room: "0 \<le> p" "p + (cdiv seq ps - cdiv pre ps) \<le> int (length fpages)"
  shows "alloc_extend_kernel oth oob pre_lens seq_lens last_locs fpages n ps i
       = segment out_start (extend_slots ps pre seq (last_locs ! i) (drop (nat p) fpages))"
proof -
  let ?c = "cdiv pre ps" and ?q = "seq div ps" and ?pages = "drop (nat p) fpages"
  let ?n1 = "min seq (?c * ps) - pre"
  note b1 = extend_part1_bounds[OF assms(1-3)]
  have s1: "map (\<lambda>k. (out_start + int k, last_locs ! i + 1 + int k)) (filter (\<lambda>k. int k < ?n1) [0..<nat ps])
      = segment out_start (map (\<lambda>k. last_locs ! i + 1 + int k) [0..<nat ?n1])"
    using b1 by (simp add: filter_upt_less segment_map)
  show ?thesis
  proof (cases "pre + ?n1 = seq")
    case True
    then show ?thesis
      unfolding alloc_extend_kernel_def Let_def lens start pstart s1
      by (simp add: extend_slots_part1)
  next
    case False
    then have seq: "?c * ps < seq" "?n1 = ?c * ps - pre" by auto
    let ?n2 = "?q * ps - ?c * ps"
    have cq: "?c \<le> ?q" by (rule extend_part2[OF assms(1) seq(1)])
    have n2: "0 \<le> ?n2" using cq assms(1) by simp
    have qs: "?q + (if seq mod ps = 0 then 0 else 1) = cdiv seq ps"
      using cdiv_split[OF assms(1), of seq] by simp
    have load2: "tl_load oob fpages (p + int k div ps) = ?pages ! nat (int k div ps)"
      if "k < nat ?n2" for k
    proof (rule tl_load_drop[OF room(1)])
      show "0 \<le> int k div ps" using assms(1) by (simp add: pos_imp_zdiv_nonneg_iff)
      have "int k < (?q - ?c) * ps" using that by (simp add: algebra_simps)
      then have "int k div ps < ?q - ?c" by (rule div_less_of_less_mult[OF assms(1)])
      then show "p + int k div ps < int (length fpages)"
        using room(2) qs by (simp split: if_splits)
    qed
    have s2: "concat (map (\<lambda>block_id. map (\<lambda>off. (out_start + ?n1 + off,
                tl_load oob fpages (p + off div ps) * ps + off mod ps))
              (filter (\<lambda>off. off < ?n2)
                (map (\<lambda>l. int block_id * BLOCK_EXTEND + int l) [0..<nat BLOCK_EXTEND])))
            [0..<nat ((?n2 + BLOCK_EXTEND - 1) div BLOCK_EXTEND)])
      = segment (out_start + ?n1) (map (\<lambda>k. ?pages ! nat (int k div ps) * ps + int k mod ps) [0..<nat ?n2])"
      by (subst blocked_stores) (auto simp: BLOCK_EXTEND_def segment_map load2)
    have load3: "tl_load oob fpages (p + (cdiv seq ps - ?c) - 1) = ?pages ! nat (?q - ?c)"
      if "seq mod ps \<noteq> 0"
    proof -
      have eq: "p + (cdiv seq ps - ?c) - 1 = p + (?q - ?c)" using qs that by simp
      show ?thesis unfolding eq
        by (rule tl_load_drop) (use room cq qs that in auto)
    qed
    have m3: "seq - ?q * ps = seq mod ps" by (simp add: minus_div_mult_eq_mod)
    have s3: "map (\<lambda>k. (out_start + ?n1 + ?n2 + int k, v * ps + int k))
          (filter (\<lambda>k. int k < seq mod ps) [0..<nat ps])
        = segment (out_start + ?n1 + ?n2) (map (\<lambda>k. v * ps + int k) [0..<nat (seq mod ps)])" for v
      using assms(1) by (subst filter_upt_less) (simp_all add: segment_map less_imp_le nat_mono)
    have split: "segment out_start (extend_slots ps pre seq (last_locs ! i) ?pages) =
        segment out_start (map (\<lambda>k. last_locs ! i + 1 + int k) [0..<nat ?n1]) @
        segment (out_start + ?n1) (map (\<lambda>k. ?pages ! nat (int k div ps) * ps + int k mod ps) [0..<nat ?n2]) @
        segment (out_start + ?n1 + ?n2) (map (\<lambda>k. ?pages ! nat (?q - ?c) * ps + int k) [0..<nat (seq mod ps)])"
      using b1 n2 unfolding extend_slots_parts[OF assms(1,2) seq(1)] seq(2) segment_append
      by (simp add: algebra_simps)
    have fin: "pre + ?n1 + ?n2 = seq \<longleftrightarrow> seq mod ps = 0"
      using m3 seq(2) by linarith
    show ?thesis
      unfolding alloc_extend_kernel_def Let_def lens start pstart s1 s2 split m3 s3
      using False fin load3 by (auto simp: segment_def)
  qed
qed

section \<open>Kernel and specification\<close>

definition extend_total :: "int list \<Rightarrow> int list \<Rightarrow> nat" where
  "extend_total pre_lens seq_lens = nat (sum_list (map2 (-) seq_lens pre_lens))"

lemma extend_preD:
  assumes "extend_pre ps pre_lens seq_lens last_locs fpages"
  shows "0 < ps" "length seq_lens = length pre_lens" "length last_locs = length pre_lens"
    "i < length pre_lens \<Longrightarrow> 0 \<le> pre_lens ! i"
    "i < length pre_lens \<Longrightarrow> pre_lens ! i \<le> seq_lens ! i"
    "page_start ps pre_lens seq_lens (length pre_lens) \<le> int (length fpages)"
  using assms unfolding extend_pre_def list_all2_conv_all_nth by blast+

lemma page_start_mono:
  assumes "extend_pre ps pre_lens seq_lens last_locs fpages" "i \<le> j"
  shows "page_start ps pre_lens seq_lens i \<le> page_start ps pre_lens seq_lens j"
  unfolding page_start_def
proof (rule sum_list_take_mono[OF _ assms(2)])
  note d = extend_preD[OF assms(1)]
  show "\<forall>x \<in> set (map2 (\<lambda>s p. cdiv s ps - cdiv p ps) seq_lens pre_lens). 0 \<le> x"
    using d(2) cdiv_mono[OF d(1) d(5)] by (auto simp: in_set_conv_nth)
qed

lemma page_start_0 [simp]: "page_start ps pre_lens seq_lens 0 = 0"
  by (simp add: page_start_def)

lemma page_start_Suc:
  assumes "extend_pre ps pre_lens seq_lens last_locs fpages" "i < length pre_lens"
  shows "page_start ps pre_lens seq_lens (Suc i) =
    page_start ps pre_lens seq_lens i + (cdiv (seq_lens ! i) ps - cdiv (pre_lens ! i) ps)"
  using extend_preD(2)[OF assms(1)] assms(2) by (simp add: page_start_def take_Suc_conv_app_nth)

lemma page_start_bounds:
  assumes "extend_pre ps pre_lens seq_lens last_locs fpages" "i < length pre_lens"
  shows "0 \<le> page_start ps pre_lens seq_lens i"
    "page_start ps pre_lens seq_lens i + (cdiv (seq_lens ! i) ps - cdiv (pre_lens ! i) ps)
       \<le> int (length fpages)"
  using page_start_mono[OF assms(1), of 0 i] page_start_mono[OF assms(1), of "Suc i" "length pre_lens"]
    extend_preD(6)[OF assms(1)] page_start_Suc[OF assms] assms(2) by simp_all

lemma length_extend_slots [simp]: "length (extend_slots ps pre seq last_loc pages) = nat (seq - pre)"
  by (simp add: extend_slots_def)

lemma length_batch_slots [simp]: "length (batch_slots ps pre_lens seq_lens last_locs fpages) = length pre_lens"
  by (simp add: batch_slots_def)

lemma batch_slots_nth:
  "i < length pre_lens \<Longrightarrow> batch_slots ps pre_lens seq_lens last_locs fpages ! i =
     extend_slots ps (pre_lens ! i) (seq_lens ! i) (last_locs ! i)
       (drop (nat (page_start ps pre_lens seq_lens i)) fpages)"
  by (simp add: batch_slots_def)

lemma batch_offsets:
  assumes "extend_pre ps pre_lens seq_lens last_locs fpages" "i \<le> length pre_lens"
  shows "int (sum_list (map length (take i (batch_slots ps pre_lens seq_lens last_locs fpages))))
       = sum_list (take i (map2 (-) seq_lens pre_lens))"
  using assms(2)
proof (induction i)
  case (Suc i)
  then show ?case using extend_preD[OF assms(1)]
    by (simp add: take_Suc_conv_app_nth batch_slots_nth)
qed simp

lemma length_extend_spec:
  assumes "extend_pre ps pre_lens seq_lens last_locs fpages"
  shows "length (extend_spec ps pre_lens seq_lens last_locs fpages) = extend_total pre_lens seq_lens"
  using batch_offsets[OF assms, of "length pre_lens"] extend_preD(2)[OF assms]
  by (simp add: extend_spec_def extend_total_def length_concat)

lemma alloc_extend_launch:
  assumes pre: "extend_pre ps pre_lens seq_lens last_locs fpages"
    and n: "length pre_lens \<le> n" and pids: "set pids = {..<length pre_lens}"
    and out: "length out = extend_total pre_lens seq_lens"
  shows "launch (alloc_extend_kernel oth oob pre_lens seq_lens last_locs fpages n ps) pids out
       = extend_spec ps pre_lens seq_lens last_locs fpages"
  unfolding extend_spec_def
proof (rule launch_concat)
  let ?xss = "batch_slots ps pre_lens seq_lens last_locs fpages"
  fix i assume "i < length ?xss"
  then have i: "i < length pre_lens" "i < length seq_lens" using extend_preD(2)[OF pre] by simp_all
  note d = extend_preD[OF pre]
  have o: "sum_list (map2 (-) (masked_load oth seq_lens n i) (masked_load oth pre_lens n i))
      - (seq_lens ! i - pre_lens ! i) = int (sum_list (map length (take i ?xss)))"
    using i n d by (subst sum_list_masked)
      (simp_all add: batch_offsets[OF pre] take_Suc_conv_app_nth)
  have p: "sum_list (map2 (\<lambda>s p. cdiv s ps - cdiv p ps) (masked_load oth seq_lens n i)
        (masked_load oth pre_lens n i)) - (cdiv (seq_lens ! i) ps - cdiv (pre_lens ! i) ps)
      = page_start ps pre_lens seq_lens i"
    using i n d by (subst sum_list_masked) (simp_all add: page_start_def take_Suc_conv_app_nth)
  have "alloc_extend_kernel oth oob pre_lens seq_lens last_locs fpages n ps i
    = segment (int (sum_list (map length (take i ?xss)))) (?xss ! i)"
    unfolding batch_slots_nth[OF i(1)]
    by (rule alloc_extend_kernel_segment[OF d(1) d(4)[OF i(1)] d(5)[OF i(1)] refl refl o p
        page_start_bounds[OF pre i(1)]])
  then show "alloc_extend_kernel oth oob pre_lens seq_lens last_locs fpages n ps i =
      map (\<lambda>k. (int (sum_list (map length (take i ?xss)) + k), ?xss ! i ! k)) [0..<length (?xss ! i)]"
    by (simp add: segment_def)
qed (use pids out length_extend_spec[OF pre] in \<open>simp_all add: extend_spec_def\<close>)

section \<open>Reference routine and specification\<close>

lemma assign_slice_append:
  assumes "a = length A" "b = a + length vs" "length vs \<le> length B"
  shows "assign_slice (A @ B) a b vs = Inr (A @ vs @ drop (length vs) B)"
  using assms by (simp add: assign_slice_def Let_def)

lemma concat_page_slots:
  assumes "0 < ps"
  shows "concat (map (page_slots ps) pages) =
    map (\<lambda>k. pages ! nat (int k div ps) * ps + int k mod ps) [0..<length pages * nat ps]"
proof (induction pages rule: rev_induct)
  case (snoc p pages)
  let ?n = "length pages * nat ps"
  have n: "int ?n = int (length pages) * ps" using assms by simp
  have in_pages: "nat (int k div ps) < length pages" if "k < ?n" for k
  proof -
    have "int k < int (length pages) * ps" using that n by linarith
    from div_less_of_less_mult[OF assms this] show ?thesis
      using assms by (simp add: pos_imp_zdiv_nonneg_iff nat_less_iff)
  qed
  have "(int (?n + k)) div ps = int (length pages)" "(int (?n + k)) mod ps = int k" if "k < nat ps" for k
    using that assms n by (simp_all add: add.commute[of _ "int k"])
  then have "map (\<lambda>k. (pages @ [p]) ! nat (int (?n + k) div ps) * ps + int (?n + k) mod ps) [0..<nat ps]
      = page_slots ps p"
    by (simp add: page_slots_def)
  moreover have "map (\<lambda>k. (pages @ [p]) ! nat (int k div ps) * ps + int k mod ps) [0..<?n]
      = map (\<lambda>k. pages ! nat (int k div ps) * ps + int k mod ps) [0..<?n]"
    using in_pages by (simp add: nth_append)
  moreover have "length (pages @ [p]) * nat ps = nat (int ?n + ps)"
    using assms by (simp add: nat_add_distrib nat_mult_distrib)
  ultimately show ?case
    using snoc assms by (simp only: map_upt_split of_nat_0_le_iff less_imp_le nat_int) simp
qed simp

lemma pyslice_pages:
  assumes "0 < ps" "0 \<le> p" "0 \<le> m" "p + m \<le> int (length fpages)"
  shows "concat (map (page_slots ps) (pyslice fpages (nat p) (nat (p + m)))) =
    map (\<lambda>k. drop (nat p) fpages ! nat (int k div ps) * ps + int k mod ps) [0..<nat (m * ps)]"
proof -
  have eq: "pyslice fpages (nat p) (nat (p + m)) = take (nat m) (drop (nat p) fpages)"
    using assms by (simp add: pyslice_def drop_take nat_add_distrib)
  have len: "length (take (nat m) (drop (nat p) fpages)) = nat m" using assms by simp
  have "nat (int k div ps) < nat m" if "k < nat (m * ps)" for k
  proof -
    have "int k div ps < m" using that by (intro div_less_of_less_mult[OF assms(1)]) linarith
    moreover have "0 \<le> int k div ps" using assms(1) by (simp add: pos_imp_zdiv_nonneg_iff)
    ultimately show ?thesis by linarith
  qed
  moreover have "nat m * nat ps = nat (m * ps)" using assms by (simp add: nat_mult_distrib)
  ultimately show ?thesis unfolding eq concat_page_slots[OF assms(1)] len by simp
qed

lemma assign_slice_seg:
  assumes "a = int (length A)" "b = a + int (length vs)" "length vs \<le> length B"
  shows "assign_slice (A @ B) (nat a) (nat b) vs = Inr (A @ vs @ drop (length vs) B)"
  using assms by (intro assign_slice_append) auto

lemma assign_slice_opt:
  assumes "a = int (length A)" "0 \<le> n" "length vs = nat n" "nat n \<le> length B"
  shows "(if n \<noteq> 0 then assign_slice (A @ B) (nat a) (nat (a + n)) vs else Inr (A @ B))
       = Inr ((A @ vs) @ drop (nat n) B)"
  using assms(2-) assign_slice_seg[OF assms(1), of "a + n" vs B] by (cases "n = 0") simp_all

lemma naive_step_parts:
  fixes ps pre seq :: int
  assumes ps: "0 < ps" and pre: "0 \<le> pre" "pre \<le> seq"
    and room: "0 \<le> p" "p + (cdiv seq ps - cdiv pre ps) \<le> int (length fpages)"
    and s: "s = int (length A)" and B: "nat (seq - pre) \<le> length B"
    and at: "prefix_lens ! i = pre" "seq_lens ! i = seq" "last_loc ! i = last_l"
    and pos: "map2 (-) (cumsum (map2 (-) seq_lens prefix_lens)) (map2 (-) seq_lens prefix_lens) ! i = s"
      "cumsum (map2 (-) seq_lens prefix_lens) ! i = s + (seq - pre)"
    and pages: "map2 (-) (cumsum (map2 (\<lambda>s p. cdiv s ps - cdiv p ps) seq_lens prefix_lens))
        (map2 (\<lambda>s p. cdiv s ps - cdiv p ps) seq_lens prefix_lens) ! i = p"
      "cumsum (map2 (\<lambda>s p. cdiv s ps - cdiv p ps) seq_lens prefix_lens) ! i
        = p + (cdiv seq ps - cdiv pre ps)"
      "map2 (-) (map2 (\<lambda>s p. cdiv s ps - cdiv p ps) seq_lens prefix_lens)
        (map2 (\<lambda>s p. s div ps - cdiv p ps) seq_lens prefix_lens) ! i = cdiv seq ps - seq div ps"
  shows "naive_extend_step ps prefix_lens seq_lens last_loc fpages i (A @ B) =
    Inr (A @ extend_slots ps pre seq last_l (drop (nat p) fpages) @ drop (nat (seq - pre)) B)"
proof -
  let ?c = "cdiv pre ps" and ?q = "seq div ps" and ?pages = "drop (nat p) fpages"
  let ?n1 = "min seq (?c * ps) - pre"
  let ?v1 = "map (\<lambda>k. last_l + 1 + int k) [0..<nat ?n1]"
  note b1 = extend_part1_bounds[OF ps pre]
  have a1: "(if ?n1 \<noteq> 0 then assign_slice (A @ B) (nat s) (nat (s + ?n1)) ?v1 else Inr (A @ B))
      = Inr ((A @ ?v1) @ drop (nat ?n1) B)"
    by (rule assign_slice_opt[OF s b1(1)]) (use b1 B in linarith | simp)+
  show ?thesis
  proof (cases "pre + ?n1 = seq")
    case True
    then show ?thesis
      unfolding naive_extend_step_def Let_def at pos pages a1 bindR_simps
      by (simp add: extend_slots_part1)
  next
    case False
    then have seq: "?c * ps < seq" "?n1 = ?c * ps - pre" by auto
    let ?n2 = "(?q - ?c) * ps"
    let ?v2 = "map (\<lambda>k. ?pages ! nat (int k div ps) * ps + int k mod ps) [0..<nat ?n2]"
    let ?v3 = "map (\<lambda>k. ?pages ! nat (?q - ?c) * ps + int k) [0..<nat (seq mod ps)]"
    have cq: "?c \<le> ?q" by (rule extend_part2[OF ps seq(1)])
    have n2: "0 \<le> ?n2" using cq ps by simp
    have n3: "0 \<le> seq mod ps" using ps by simp
    have qs: "?q + (if seq mod ps = 0 then 0 else 1) = cdiv seq ps"
      using cdiv_split[OF ps, of seq] by simp
    have m3: "seq - ?q * ps = seq mod ps" by (simp add: minus_div_mult_eq_mod)
    have sum: "?n1 + ?n2 + seq mod ps = seq - pre"
      unfolding seq(2) m3[symmetric] by (simp add: algebra_simps)
    have pg: "concat (map (page_slots ps) (pyslice fpages (nat p)
        (nat (p + (cdiv seq ps - ?c) - (cdiv seq ps - ?q))))) = ?v2"
      using pyslice_pages[OF ps room(1), of "?q - ?c" fpages] cq room(2) qs
      by (simp add: algebra_simps split: if_splits)
    let ?A1 = "A @ ?v1" and ?B1 = "drop (nat ?n1) B"
    have A1: "s + ?n1 = int (length ?A1)" using s b1 by simp
    have B1: "nat ?n2 + nat (seq mod ps) \<le> length ?B1" 
      using B sum b1 n2 n3 unfolding length_drop by linarith
    have a2: "(if ?n2 \<noteq> 0 then assign_slice (?A1 @ ?B1) (nat (s + ?n1)) (nat (s + ?n1 + ?n2)) ?v2
        else Inr (?A1 @ ?B1)) = Inr ((?A1 @ ?v2) @ drop (nat ?n2) ?B1)"
      by (rule assign_slice_opt[OF A1 n2]) (use B1 in linarith | simp)+
    have fin: "pre + ?n1 + ?n2 = seq \<longleftrightarrow> seq mod ps = 0" using sum by linarith
    have slots: "extend_slots ps pre seq last_l ?pages = ?v1 @ ?v2 @ ?v3"
      unfolding extend_slots_parts[OF ps pre(1) seq(1)] seq(2) by (simp add: left_diff_distrib)
    have dr: "drop (nat (seq mod ps)) (drop (nat ?n2) ?B1) = drop (nat (seq - pre)) B"
      unfolding drop_drop by (rule arg_cong[where f = "\<lambda>n. drop n B"]) (use sum b1 n2 n3 in linarith)
    show ?thesis
    proof (cases "seq mod ps = 0")
      case True
      then show ?thesis
        using dr unfolding naive_extend_step_def Let_def at pos pages a1 bindR_simps pg a2 slots
        by (simp only: False fin if_True if_False nat_0 drop_0 upt_0 upt_rec[of 0 0] list.map
            less_irrefl append_Nil append_assoc simp_thms)
    next
      case nz: False
      have idx: "p + (cdiv seq ps - ?c) - 1 = p + (?q - ?c)" using qs nz by simp
      have lt: "nat (p + (?q - ?c)) < length fpages" using qs nz room cq by simp
      have n: "nthR fpages (nat (p + (?q - ?c))) = Inr (?pages ! nat (?q - ?c))"
        using lt room(1) cq by (simp add: nthR_def nat_add_distrib)
      let ?A2 = "?A1 @ ?v2" and ?B2 = "drop (nat ?n2) ?B1"
      have st: "s + (seq - pre) - seq mod ps = int (length ?A2)" using A1 n2 sum by simp
      have B2: "nat (seq mod ps) \<le> length ?B2" using B1 unfolding length_drop by linarith
      have a3: "assign_slice (?A2 @ ?B2) (nat (s + (seq - pre) - seq mod ps)) (nat (s + (seq - pre))) ?v3
          = Inr (?A2 @ ?v3 @ drop (nat (seq mod ps)) ?B2)"
        by (subst assign_slice_seg[OF st]) (use n3 B2 in simp_all)
      show ?thesis
        unfolding naive_extend_step_def Let_def at pos pages a1 bindR_simps pg a2 m3 idx n slots a3
        by (simp only: False fin nz dr if_True if_False bindR_simps append_assoc simp_thms)
    qed
  qed
qed

lemma map2_start:
  assumes "i < length xs" "length ys = length xs"
  shows "map2 (-) (cumsum (map2 f xs ys)) (map2 f xs ys) ! i = sum_list (take i (map2 f xs ys))"
    and "cumsum (map2 f xs ys) ! i = sum_list (take i (map2 f xs ys)) + (f (xs ! i) (ys ! i) :: int)"
  using assms cumsum_start[of i "map2 f xs ys"] by simp_all

lemma naive_extend_step_spec:
  fixes A B :: "int list"
  assumes pre: "extend_pre ps pre_lens seq_lens last_locs fpages" and i: "i < length pre_lens"
  defines "xss \<equiv> batch_slots ps pre_lens seq_lens last_locs fpages"
  assumes A: "length A = sum_list (map length (take i xss))"
    and B: "length (xss ! i) \<le> length B"
  shows "naive_extend_step ps pre_lens seq_lens last_locs fpages i (A @ B) =
    Inr (A @ xss ! i @ drop (length (xss ! i)) B)"
proof -
  note d = extend_preD[OF pre]
  have i': "i < length seq_lens" and l: "length pre_lens = length seq_lens" using i d(2) by simp_all
  note starts = map2_start[OF i' l]
  have x: "xss ! i = extend_slots ps (pre_lens ! i) (seq_lens ! i) (last_locs ! i)
      (drop (nat (page_start ps pre_lens seq_lens i)) fpages)"
    using i by (simp add: xss_def batch_slots_nth)
  have s: "sum_list (take i (map2 (-) seq_lens pre_lens)) = int (length A)"
    using batch_offsets[OF pre, of i] i A by (simp add: xss_def)
  have need: "map2 (-) (map2 (\<lambda>s p. cdiv s ps - cdiv p ps) seq_lens pre_lens)
        (map2 (\<lambda>s p. s div ps - cdiv p ps) seq_lens pre_lens) ! i
      = cdiv (seq_lens ! i) ps - seq_lens ! i div ps"
    using i i' by simp
  have len: "nat (seq_lens ! i - pre_lens ! i) \<le> length B" using B x by simp
  show ?thesis
    unfolding x length_extend_slots
    by (rule naive_step_parts[OF d(1) d(4)[OF i] d(5)[OF i] page_start_bounds[OF pre i] s len
          refl refl refl starts(1) starts(2) _ _ need])
      (simp_all only: page_start_def starts)
qed

lemma alloc_extend_naive_spec:
  assumes pre: "extend_pre ps pre_lens seq_lens last_locs fpages"
    and out: "length out = extend_total pre_lens seq_lens"
  shows "alloc_extend_naive ps pre_lens seq_lens last_locs fpages out
       = Inr (extend_spec ps pre_lens seq_lens last_locs fpages)"
proof -
  define xss where "xss = batch_slots ps pre_lens seq_lens last_locs fpages"
  have lx: "length xss = length pre_lens" by (simp add: xss_def)
  have lout: "length out = length (concat xss)"
    using out length_extend_spec[OF pre] by (simp add: extend_spec_def xss_def)
  let ?I = "\<lambda>k out'. out' = concat (take k xss) @ drop (length (concat (take k xss))) out"
  have "\<exists>o'. foldR (naive_extend_step ps pre_lens seq_lens last_locs fpages) [0..<length pre_lens] out
      = Inr o' \<and> ?I (length [0..<length pre_lens]) o'"
  proof (rule foldR_invariant)
    fix k o' assume k: "k < length [0..<length pre_lens]" and I: "?I k o'"
    let ?A = "concat (take k xss)"
    have split: "concat (take (Suc k) xss) = ?A @ xss ! k"
      using k lx by (simp add: take_Suc_conv_app_nth)
    have "length (concat (take (Suc k) xss)) \<le> length (concat xss)"
      by (metis append_take_drop_id concat_append le_add1 length_append)
    then have "length (xss ! k) \<le> length (drop (length ?A) out)"
      using split lout by simp
    from naive_extend_step_spec[OF pre _ _ this[unfolded xss_def]] k
    have "naive_extend_step ps pre_lens seq_lens last_locs fpages k o'
        = Inr (?A @ xss ! k @ drop (length (xss ! k)) (drop (length ?A) out))"
      by (simp add: xss_def I length_concat)
    moreover have "?I (Suc k) (?A @ xss ! k @ drop (length (xss ! k)) (drop (length ?A) out))"
      using split by (simp add: add.commute)
    ultimately show "\<exists>s'. naive_extend_step ps pre_lens seq_lens last_locs fpages
        ([0..<length pre_lens] ! k) o' = Inr s' \<and> ?I (Suc k) s'"
      using k by simp
  qed simp
  then show ?thesis
    using lx lout by (simp add: alloc_extend_naive_def extend_spec_def xss_def)
qed

section \<open>Decoding: one token per request\<close>

lemma cdiv_self_step:
  assumes "0 < ps"
  shows "cdiv s ps - cdiv (s - 1) ps = (if (s - 1) mod ps = 0 then 1 else 0)"
proof -
  have "cdiv s ps = (s - 1) div ps + 1"
  proof -
    have "s + ps - 1 = (s - 1) + 1 * ps" by simp
    then show ?thesis unfolding cdiv_def using assms by (simp only: div_mult_self1)
  qed
  then show ?thesis by (simp add: cdiv_split[OF assms])
qed

lemma extend_slots_decode:
  assumes "0 < ps"
  shows "extend_slots ps (s - 1) s last_loc pages =
    [if (s - 1) mod ps = 0 then pages ! 0 * ps else last_loc + 1]"
proof -
  have d: "(s - 1) div ps * ps + (s - 1) mod ps = s - 1" by simp
  show ?thesis
  proof (cases "(s - 1) mod ps = 0")
    case True
    then have "cdiv (s - 1) ps * ps = s - 1" "(s - 1) div ps = cdiv (s - 1) ps"
      using cdiv_split[OF assms, of "s - 1"] d by simp_all
    then show ?thesis using True by (simp add: extend_slots_def extend_slot_def)
  next
    case False
    then have "cdiv (s - 1) ps * ps = (s - 1) div ps * ps + ps"
      by (simp add: cdiv_split[OF assms] distrib_right)
    moreover have "(s - 1) mod ps < ps" using assms by simp
    ultimately have "s - 1 < cdiv (s - 1) ps * ps" using d by linarith
    then show ?thesis using False by (simp add: extend_slots_def extend_slot_def)
  qed
qed

lemma alloc_decode_launch:
  defines "pre_of \<equiv> map (\<lambda>s. s - 1)"
  assumes pre: "extend_pre ps (pre_of seq_lens) seq_lens last_locs fpages"
    and n: "length seq_lens \<le> n" and pids: "set pids = {..<length seq_lens}"
    and out: "length out = length seq_lens"
  shows "launch (alloc_decode_kernel oth oob seq_lens last_locs fpages n ps) pids out
       = extend_spec ps (pre_of seq_lens) seq_lens last_locs fpages"
  unfolding extend_spec_def
proof (rule launch_concat)
  let ?pl = "pre_of seq_lens"
  let ?xss = "batch_slots ps ?pl seq_lens last_locs fpages"
  note d = extend_preD[OF pre]
  have lp: "length ?pl = length seq_lens" by (simp add: pre_of_def)
  have one: "length (?xss ! i) = 1" if "i < length seq_lens" for i
    using that lp by (simp add: batch_slots_nth pre_of_def)
  have off: "sum_list (map length (take i ?xss)) = i" if "i \<le> length seq_lens" for i
    using that
  proof (induction i)
    case (Suc i)
    then show ?case using one[of i] lp by (simp add: take_Suc_conv_app_nth)
  qed simp
  show "length out = length (concat ?xss)"
    using off[of "length seq_lens"] lp out by (simp add: length_concat)
  show "set pids = {..<length ?xss}" using pids lp by simp
  fix i assume "i < length ?xss"
  then have i: "i < length seq_lens" "i < length ?pl" by (simp_all add: lp)
  have m: "map (\<lambda>k. if k \<le> i then masked_load oth seq_lens n i ! k - 1
                     else masked_load oth seq_lens n i ! k) [0..<n] =
      map (\<lambda>k. if k \<le> i then ?pl ! k else oth) [0..<n]"
    using i by (intro map_cong) (auto simp: masked_load_def pre_of_def)
  have p: "sum_list (map2 (\<lambda>s p. cdiv s ps - cdiv p ps) (masked_load oth seq_lens n i)
        (masked_load oth ?pl n i)) - (cdiv (seq_lens ! i) ps - cdiv (?pl ! i) ps)
      = page_start ps ?pl seq_lens i"
    using i n d by (subst sum_list_masked) (simp_all add: page_start_def take_Suc_conv_app_nth)
  have pl: "?pl ! i = seq_lens ! i - 1" using i by (simp add: pre_of_def)
  note b = page_start_bounds[OF pre i(2)]
  have load: "tl_load oob fpages (page_start ps ?pl seq_lens i)
      = drop (nat (page_start ps ?pl seq_lens i)) fpages ! 0"
    if "(seq_lens ! i - 1) mod ps = 0"
    using tl_load_drop[OF b(1), of 0 fpages oob] b(2) that
    by (simp add: pl cdiv_self_step[OF d(1)])
  have x: "?xss ! i = [if (seq_lens ! i - 1) mod ps = 0
      then drop (nat (page_start ps ?pl seq_lens i)) fpages ! 0 * ps else last_locs ! i + 1]"
    unfolding batch_slots_nth[OF i(2)] pl by (rule extend_slots_decode[OF d(1)])
  have "alloc_decode_kernel oth oob seq_lens last_locs fpages n ps i = [(int i, ?xss ! i ! 0)]"
    unfolding alloc_decode_kernel_def Let_def m
    unfolding masked_load_def[of oth ?pl n i, symmetric] p[unfolded pl]
    using load by (simp add: x cdiv_self_step[OF d(1)])
  then show "alloc_decode_kernel oth oob seq_lens last_locs fpages n ps i =
      map (\<lambda>k. (int (sum_list (map length (take i ?xss)) + k), ?xss ! i ! k)) [0..<length (?xss ! i)]"
    using i one[OF i(1)] off[of i] by simp
qed

section \<open>Pages of the assigned slots\<close>

text \<open>
  The caller's side of the contract: the last slot of each request sits at the offset of its
  position, the old pages that will be filled up are pairwise different, and none of them is
  on the free list.
\<close>

definition partial_reqs :: "int \<Rightarrow> int list \<Rightarrow> nat list" where
  "partial_reqs ps pre_lens = filter (\<lambda>i. pre_lens ! i mod ps \<noteq> 0) [0..<length pre_lens]"

definition old_pages :: "int \<Rightarrow> int list \<Rightarrow> int list \<Rightarrow> int list" where
  "old_pages ps pre_lens last_locs = map (\<lambda>i. last_locs ! i div ps) (partial_reqs ps pre_lens)"

definition locs_aligned :: "int \<Rightarrow> int list \<Rightarrow> int list \<Rightarrow> bool" where
  "locs_aligned ps pre_lens last_locs \<longleftrightarrow>
     list_all2 (\<lambda>l p. (l + 1) mod ps = p mod ps) last_locs pre_lens"

lemma extend_slot_old:
  assumes ps: "0 < ps" and al: "(last_loc + 1) mod ps = pre mod ps"
    and pos: "pre \<le> pos" "pos < cdiv pre ps * ps"
  shows "pre mod ps \<noteq> 0"
    and "extend_slot ps pre last_loc pages pos div ps = last_loc div ps"
    and "extend_slot ps pre last_loc pages pos mod ps = pos mod ps"
proof -
  have d: "pre div ps * ps + pre mod ps = pre" by simp
  show nz: "pre mod ps \<noteq> 0"
    using pos d by (auto simp: cdiv_split[OF ps])
  then have top: "pos < pre div ps * ps + ps"
    using pos(2) by (simp add: cdiv_split[OF ps] distrib_right)
  let ?L = "last_loc + 1"
  have ld: "?L div ps * ps + pre mod ps = ?L" using al div_mult_mod_eq[of ?L ps] by simp
  have s: "extend_slot ps pre last_loc pages pos = (pos - pre div ps * ps) + ?L div ps * ps"
    unfolding extend_slot_def if_P[OF pos(2)] using ld d by linarith
  have r: "0 \<le> pos - pre div ps * ps" "pos - pre div ps * ps < ps"
    using pos(1) top d pos_mod_sign[OF ps, of pre] by linarith+
  have "last_loc = (pre mod ps - 1) + ?L div ps * ps" using ld by simp
  moreover have "0 \<le> pre mod ps - 1" "pre mod ps - 1 < ps"
    using nz pos_mod_sign[OF ps, of pre] pos_mod_bound[OF ps, of pre] by linarith+
  ultimately have "last_loc div ps = ?L div ps" by (intro div_eq_of_offset)
  moreover have "extend_slot ps pre last_loc pages pos div ps = ?L div ps"
    by (rule div_eq_of_offset[OF r s])
  ultimately show "extend_slot ps pre last_loc pages pos div ps = last_loc div ps" by simp
  have "pos mod ps = (pos - pre div ps * ps + pre div ps * ps) mod ps" by simp
  also have "\<dots> = (pos - pre div ps * ps) mod ps" by (rule mod_mult_self1)
  also have "\<dots> = extend_slot ps pre last_loc pages pos mod ps"
    unfolding s by (rule mod_mult_self1[symmetric])
  finally show "extend_slot ps pre last_loc pages pos mod ps = pos mod ps" by simp
qed

lemma extend_slot_new:
  assumes "0 < ps" "\<not> pos < cdiv pre ps * ps"
  shows "extend_slot ps pre last_loc pages pos div ps = pages ! nat (pos div ps - cdiv pre ps)"
    and "extend_slot ps pre last_loc pages pos mod ps = pos mod ps"
  using assms by (simp_all add: extend_slot_def add.commute[of _ "pos mod ps"])

lemma extend_slot_offset:
  assumes "0 < ps" "(last_loc + 1) mod ps = pre mod ps" "pre \<le> pos"
  shows "extend_slot ps pre last_loc pages pos mod ps = pos mod ps"
  using extend_slot_old(3)[OF assms] extend_slot_new(2)[OF assms(1)] by blast

lemma distinct_concat_positions:
  assumes "\<And>i k j l. i < length xss \<Longrightarrow> k < length (xss ! i) \<Longrightarrow> j < length xss \<Longrightarrow>
    l < length (xss ! j) \<Longrightarrow> xss ! i ! k = xss ! j ! l \<Longrightarrow> i = j \<and> k = l"
  shows "distinct (concat xss)"
  unfolding distinct_conv_nth
proof (intro allI impI notI)
  fix s t assume s: "s < length (concat xss)" and t: "t < length (concat xss)" and "s \<noteq> t"
    and eq: "concat xss ! s = concat xss ! t"
  from concat_position[OF s] concat_position[OF t] obtain i k j l where
    "i < length xss" "k < length (xss ! i)" "s = sum_list (map length (take i xss)) + k"
    "j < length xss" "l < length (xss ! j)" "t = sum_list (map length (take j xss)) + l"
    by blast
  with eq assms[of i k j l] \<open>s \<noteq> t\<close> show False by (simp add: concat_nth_offset)
qed

lemma fresh_page_owner:
  assumes pre: "extend_pre ps pre_lens seq_lens last_locs fpages"
    and i: "i < length pre_lens" and j: "j < length pre_lens"
    and a: "0 \<le> a" "a < cdiv (seq_lens ! i) ps - cdiv (pre_lens ! i) ps"
    and b: "0 \<le> b" "b < cdiv (seq_lens ! j) ps - cdiv (pre_lens ! j) ps"
    and eq: "page_start ps pre_lens seq_lens i + a = page_start ps pre_lens seq_lens j + b"
  shows "i = j \<and> a = b"
proof -
  have "\<not> i < j"
    using page_start_mono[OF pre, of "Suc i" j] page_start_Suc[OF pre i] a b eq by auto
  moreover have "\<not> j < i"
    using page_start_mono[OF pre, of "Suc j" i] page_start_Suc[OF pre j] a b eq by auto
  ultimately show ?thesis using eq by simp
qed

text \<open>The slot of position \<open>pre + k\<close> of request \<open>i\<close>, with the page it lies on.\<close>

lemma batch_slot_page:
  assumes pre: "extend_pre ps pre_lens seq_lens last_locs fpages"
    and al: "locs_aligned ps pre_lens last_locs"
    and i: "i < length pre_lens" and k: "int k < seq_lens ! i - pre_lens ! i"
  defines "pos \<equiv> pre_lens ! i + int k"
    and "slot \<equiv> batch_slots ps pre_lens seq_lens last_locs fpages ! i ! k"
  shows "slot mod ps = pos mod ps"
    and "i \<in> set (partial_reqs ps pre_lens) \<and> pos < cdiv (pre_lens ! i) ps * ps \<and> slot div ps = last_locs ! i div ps \<or>
         (\<exists>a. 0 \<le> a \<and> a < cdiv (seq_lens ! i) ps - cdiv (pre_lens ! i) ps \<and>
              a = pos div ps - cdiv (pre_lens ! i) ps \<and>
              slot div ps = fpages ! nat (page_start ps pre_lens seq_lens i + a))"
proof -
  note d = extend_preD[OF pre]
  let ?c = "cdiv (pre_lens ! i) ps"
  let ?pages = "drop (nat (page_start ps pre_lens seq_lens i)) fpages"
  have sl: "slot = extend_slot ps (pre_lens ! i) (last_locs ! i) ?pages pos"
  proof -
    have "k < nat (seq_lens ! i - pre_lens ! i)" using k by linarith
    then show ?thesis using i by (simp add: slot_def batch_slots_nth extend_slots_def pos_def)
  qed
  have al': "(last_locs ! i + 1) mod ps = pre_lens ! i mod ps"
    using al i by (simp add: locs_aligned_def list_all2_conv_all_nth)
  have pos: "pre_lens ! i \<le> pos" by (simp add: pos_def)
  show "slot mod ps = pos mod ps"
    unfolding sl by (rule extend_slot_offset[OF d(1) al' pos])
  show "i \<in> set (partial_reqs ps pre_lens) \<and> pos < ?c * ps \<and> slot div ps = last_locs ! i div ps \<or>
      (\<exists>a. 0 \<le> a \<and> a < cdiv (seq_lens ! i) ps - ?c \<and> a = pos div ps - ?c \<and>
           slot div ps = fpages ! nat (page_start ps pre_lens seq_lens i + a))"
  proof (cases "pos < ?c * ps")
    case True
    from extend_slot_old[OF d(1) al' pos True] True i show ?thesis
      unfolding sl by (simp add: partial_reqs_def)
  next
    case False
    let ?a = "pos div ps - ?c"
    have "?c = ?c * ps div ps" using d(1) by simp
    also have "\<dots> \<le> pos div ps" using False d(1) by (intro zdiv_mono1) auto
    finally have a0: "0 \<le> ?a" by simp
    have "pos < cdiv (seq_lens ! i) ps * ps"
      using k cdiv_pos_bounds(1)[OF d(1), of "seq_lens ! i"] by (simp add: pos_def)
    then have a1: "?a < cdiv (seq_lens ! i) ps - ?c"
      using div_less_of_less_mult[OF d(1)] by simp
    have "slot div ps = fpages ! nat (page_start ps pre_lens seq_lens i + ?a)"
      unfolding sl extend_slot_new(1)[OF d(1) False]
      using page_start_bounds[OF pre i] a0 a1 by (simp add: nat_add_distrib)
    with a0 a1 show ?thesis by blast
  qed
qed

lemma int_eq_div_mod: "x div n = y div n \<Longrightarrow> x mod n = y mod n \<Longrightarrow> x = (y :: int)"
  by (metis div_mult_mod_eq)

lemma extend_spec_distinct:
  assumes pre: "extend_pre ps pre_lens seq_lens last_locs fpages"
    and al: "locs_aligned ps pre_lens last_locs"
    and dist: "distinct (old_pages ps pre_lens last_locs @ fpages)"
  shows "distinct (extend_spec ps pre_lens seq_lens last_locs fpages)"
  unfolding extend_spec_def
proof (rule distinct_concat_positions)
  let ?xss = "batch_slots ps pre_lens seq_lens last_locs fpages"
  note d = extend_preD[OF pre]
  fix i k j l
  assume "i < length ?xss" and kl: "k < length (?xss ! i)"
    and "j < length ?xss" and ll: "l < length (?xss ! j)" and eq: "?xss ! i ! k = ?xss ! j ! l"
  then have i: "i < length pre_lens" and j: "j < length pre_lens" by simp_all
  have k: "int k < seq_lens ! i - pre_lens ! i" and l: "int l < seq_lens ! j - pre_lens ! j"
    using kl ll i j by (simp_all add: batch_slots_nth)
  let ?pi = "pre_lens ! i + int k" and ?pj = "pre_lens ! j + int l"
  note pi = batch_slot_page[OF pre al i k] and pj = batch_slot_page[OF pre al j l]
  have mods: "?pi mod ps = ?pj mod ps" using pi(1) pj(1) eq by simp
  have old_free: False if "m \<in> set (partial_reqs ps pre_lens)" "m' < length pre_lens" "0 \<le> a"
      "a < cdiv (seq_lens ! m') ps - cdiv (pre_lens ! m') ps"
      "last_locs ! m div ps = fpages ! nat (page_start ps pre_lens seq_lens m' + a)" for m m' a
  proof -
    have "nat (page_start ps pre_lens seq_lens m' + a) < length fpages"
      using page_start_bounds[OF pre that(2)] that(3,4) by linarith
    then have "last_locs ! m div ps \<in> set fpages" using that(5) by simp
    moreover have "last_locs ! m div ps \<in> set (old_pages ps pre_lens last_locs)"
      using that(1) by (auto simp: old_pages_def)
    ultimately show False using dist by auto
  qed
  from pi(2) pj(2) eq consider
      (old) "i \<in> set (partial_reqs ps pre_lens)" "j \<in> set (partial_reqs ps pre_lens)"
        "last_locs ! i div ps = last_locs ! j div ps"
        "?pi < cdiv (pre_lens ! i) ps * ps" "?pj < cdiv (pre_lens ! j) ps * ps"
    | (new) a b where "0 \<le> a" "a < cdiv (seq_lens ! i) ps - cdiv (pre_lens ! i) ps"
        "a = ?pi div ps - cdiv (pre_lens ! i) ps"
        "0 \<le> b" "b < cdiv (seq_lens ! j) ps - cdiv (pre_lens ! j) ps"
        "b = ?pj div ps - cdiv (pre_lens ! j) ps"
        "fpages ! nat (page_start ps pre_lens seq_lens i + a)
         = fpages ! nat (page_start ps pre_lens seq_lens j + b)"
    using old_free[OF _ i] old_free[OF _ j] by metis
  then show "i = j \<and> k = l"
  proof cases
    case old
    have "inj_on (\<lambda>i. last_locs ! i div ps) (set (partial_reqs ps pre_lens))"
      using dist by (simp add: old_pages_def distinct_map)
    then have ij: "i = j" using old by (auto dest: inj_onD)
    moreover have "last_locs ! i + 1 + int k = last_locs ! i + 1 + int l"
      using eq old(4,5) kl ll i j ij by (simp add: batch_slots_nth extend_slots_def extend_slot_def)
    ultimately show ?thesis by simp
  next
    case new
    have "distinct fpages" using dist by simp
    then have "nat (page_start ps pre_lens seq_lens i + a) = nat (page_start ps pre_lens seq_lens j + b)"
      using new(7) page_start_bounds[OF pre i] page_start_bounds[OF pre j] new(1,2,4,5)
      by (subst (asm) nth_eq_iff_index_eq) auto
    then have "page_start ps pre_lens seq_lens i + a = page_start ps pre_lens seq_lens j + b"
      using page_start_bounds(1)[OF pre i] page_start_bounds(1)[OF pre j] new(1,4) by auto
    from fresh_page_owner[OF pre i j new(1,2,4,5) this] have ij: "i = j" "a = b" by auto
    then have "?pi div ps = ?pj div ps" using new(3,6) by simp
    from this mods have "?pi = ?pj" by (rule int_eq_div_mod)
    with ij show ?thesis by simp
  qed
qed

end
