(* ===== verification/PoolSpec.thy ===== *)
theory PoolSpec
  imports Prelude
begin

text \<open>
  What the users of an index pool rely on, as the locale \<open>paged_pool\<close>: an allocation hands
  out indices of free pages only, takes exactly those pages off the free set and raises
  nothing; a release gives the pages back. A client that runs any sequence of allocations
  and releases then never sees an index twice and never loses one.

  The locale is interpreted on the token allocator, on the page allocator and, in
  \<open>HostPool\<close>, on the host pool.
\<close>

section \<open>Interface\<close>

text \<open>A client of a pool: the blocks it holds, and the calls it makes.\<close>

datatype pool_op = PAlloc nat | PFree nat

fun pool_step ::
  "('s \<Rightarrow> nat \<Rightarrow> (int list option \<times> 's) result) \<Rightarrow> ('s \<Rightarrow> int list \<Rightarrow> 's result) \<Rightarrow>
   pool_op \<Rightarrow> 's \<times> int list list \<Rightarrow> ('s \<times> int list list) result" where
  "pool_step alloc release (PAlloc n) (a, live) =
     bindR (alloc a n) (\<lambda>(r, a'). Inr (a', case r of None \<Rightarrow> live | Some xs \<Rightarrow> live @ [xs]))"
| "pool_step alloc release (PFree i) (a, live) =
     (if i < length live
      then bindR (release a (live ! i)) (\<lambda>a'. Inr (a', take i live @ drop (Suc i) live))
      else Inr (a, live))"

definition pool_run ::
  "('s \<Rightarrow> nat \<Rightarrow> (int list option \<times> 's) result) \<Rightarrow> ('s \<Rightarrow> int list \<Rightarrow> 's result) \<Rightarrow>
   pool_op list \<Rightarrow> 's \<times> int list list \<Rightarrow> ('s \<times> int list list) result" where
  "pool_run alloc release = foldR (pool_step alloc release)"

definition pool_state_ok :: "int set \<Rightarrow> int set \<Rightarrow> int set list \<Rightarrow> bool" where
  "pool_state_ok all_pages avail held \<longleftrightarrow>
     (\<forall>i < length held. \<forall>j < length held. i \<noteq> j \<longrightarrow> held ! i \<inter> held ! j = {}) \<and>
     (\<forall>P \<in> set held. P \<inter> avail = {}) \<and> avail \<union> \<Union>(set held) = all_pages"

lemma pool_state_ok_alloc:
  assumes "pool_state_ok all_pages avail held" "P \<subseteq> avail"
  shows "pool_state_ok all_pages (avail - P) (held @ [P])"
proof -
  have av: "Q \<inter> P = {}" if "Q \<in> set held" for Q
  proof -
    have "Q \<inter> avail = {}" using assms(1) that by (simp add: pool_state_ok_def)
    then show ?thesis using assms(2) by blast
  qed
  have dis: "held ! i \<inter> held ! j = {}" if "i < length held" "j < length held" "i \<noteq> j" for i j
    using assms(1) that by (simp add: pool_state_ok_def)
  have "(held @ [P]) ! i \<inter> (held @ [P]) ! j = {}"
    if "i < length (held @ [P])" "j < length (held @ [P])" "i \<noteq> j" for i j
    using that dis av[OF nth_mem] av[OF nth_mem, unfolded Int_commute[of _ P]]
    by (cases "i < length held"; cases "j < length held") (simp_all add: nth_append less_Suc_eq)
  moreover have "\<forall>Q \<in> set (held @ [P]). Q \<inter> (avail - P) = {}"
    using assms(1) by (auto simp: pool_state_ok_def)
  moreover have "avail - P \<union> \<Union>(set (held @ [P])) = all_pages"
    using assms by (auto simp: pool_state_ok_def)
  ultimately show ?thesis unfolding pool_state_ok_def by blast
qed

lemma set_remove_nth:
  assumes "i < length xs"
  shows "set xs = insert (xs ! i) (set (take i xs @ drop (Suc i) xs))"
  using id_take_nth_drop[OF assms] by (metis Un_insert_right list.simps(15) set_append)

lemma pool_state_ok_free:
  assumes ok: "pool_state_ok all_pages avail held" and i: "i < length held"
  shows "pool_state_ok all_pages (avail \<union> held ! i) (take i held @ drop (Suc i) held)"
    (is "pool_state_ok _ _ ?rest")
proof -
  let ?f = "\<lambda>j. if j < i then j else Suc j"
  have idx: "?rest ! j = held ! ?f j" "?f j < length held" "?f j \<noteq> i" if "j < length ?rest" for j
    using that i by (auto simp: nth_append)
  have dis: "held ! j \<inter> held ! k = {}" if "j < length held" "k < length held" "j \<noteq> k" for j k
    using ok that by (simp add: pool_state_ok_def)
  have "?rest ! j \<inter> ?rest ! k = {}" if "j < length ?rest" "k < length ?rest" "j \<noteq> k" for j k
    unfolding idx(1)[OF that(1)] idx(1)[OF that(2)]
    using that(3) by (intro dis idx(2)[OF that(1)] idx(2)[OF that(2)]) auto
  moreover have "P \<inter> (avail \<union> held ! i) = {}" if "P \<in> set ?rest" for P
  proof -
    from that obtain j where j: "j < length ?rest" "P = ?rest ! j" by (metis in_set_conv_nth)
    have "P \<inter> held ! i = {}" unfolding j(2) idx(1)[OF j(1)] by (intro dis idx j i)
    moreover have "P \<in> set held" using that by (auto dest: in_set_takeD in_set_dropD)
    ultimately show ?thesis using ok by (auto simp: pool_state_ok_def)
  qed
  moreover have "avail \<union> held ! i \<union> \<Union>(set ?rest) = all_pages"
    using ok set_remove_nth[OF i] by (auto simp: pool_state_ok_def)
  ultimately show ?thesis unfolding pool_state_ok_def by blast
qed

locale paged_pool =
  fixes inv :: "'s \<Rightarrow> bool"
    and avail :: "'s \<Rightarrow> int set"
    and geom :: "'s \<Rightarrow> 'g"
    and page_of :: "'g \<Rightarrow> int \<Rightarrow> int"
    and ok_size :: "'g \<Rightarrow> nat \<Rightarrow> bool"
    and freeable :: "'g \<Rightarrow> int list \<Rightarrow> bool"
    and alloc :: "'s \<Rightarrow> nat \<Rightarrow> (int list option \<times> 's) result"
    and release :: "'s \<Rightarrow> int list \<Rightarrow> 's result"
  assumes alloc_law: "inv a \<Longrightarrow> ok_size (geom a) n \<Longrightarrow>
      \<exists>r a'. alloc a n = Inr (r, a') \<and> inv a' \<and> geom a' = geom a \<and>
        (case r of None \<Rightarrow> avail a' = avail a
         | Some xs \<Rightarrow> length xs = n \<and> distinct xs \<and> freeable (geom a) xs \<and>
             page_of (geom a) ` set xs \<subseteq> avail a \<and>
             avail a' = avail a - page_of (geom a) ` set xs)"
    and release_law: "inv a \<Longrightarrow> freeable (geom a) xs \<Longrightarrow>
      page_of (geom a) ` set xs \<inter> avail a = {} \<Longrightarrow>
      \<exists>a'. release a xs = Inr a' \<and> inv a' \<and> geom a' = geom a \<and>
        avail a' = avail a \<union> page_of (geom a) ` set xs"
begin

definition held :: "'g \<Rightarrow> int list list \<Rightarrow> int set list" where
  "held g live = map (\<lambda>xs. page_of g ` set xs) live"

definition client_ok :: "'g \<Rightarrow> int set \<Rightarrow> 's \<times> int list list \<Rightarrow> bool" where
  "client_ok g all_pages st \<longleftrightarrow> inv (fst st) \<and> geom (fst st) = g \<and>
     (\<forall>xs \<in> set (snd st). freeable g xs \<and> distinct xs) \<and>
     pool_state_ok all_pages (avail (fst st)) (held g (snd st))"

lemma step_alloc:
  assumes "client_ok g all_pages st" "ok_size g n"
  shows "\<exists>st'. pool_step alloc release (PAlloc n) st = Inr st' \<and> client_ok g all_pages st'"
proof -
  obtain a live where st: "st = (a, live)" by (cases st)
  have c: "inv a" "geom a = g" "\<forall>xs \<in> set live. freeable g xs \<and> distinct xs"
    "pool_state_ok all_pages (avail a) (held g live)"
    using assms(1) by (simp_all add: client_ok_def st)
  from alloc_law[OF c(1)] assms(2) c(2) obtain r a' where
    r: "alloc a n = Inr (r, a')" "inv a'" "geom a' = g"
      "case r of None \<Rightarrow> avail a' = avail a
       | Some xs \<Rightarrow> length xs = n \<and> distinct xs \<and> freeable g xs \<and> page_of g ` set xs \<subseteq> avail a \<and>
           avail a' = avail a - page_of g ` set xs"
    by blast
  show ?thesis
    using r c pool_state_ok_alloc[OF c(4)]
    by (auto simp: st client_ok_def held_def split: option.splits)
qed

lemma step_free:
  assumes "client_ok g all_pages st"
  shows "\<exists>st'. pool_step alloc release (PFree i) st = Inr st' \<and> client_ok g all_pages st'"
proof -
  obtain a live where st: "st = (a, live)" by (cases st)
  have c: "inv a" "geom a = g" "\<forall>xs \<in> set live. freeable g xs \<and> distinct xs"
    "pool_state_ok all_pages (avail a) (held g live)"
    using assms(1) by (simp_all add: client_ok_def st)
  show ?thesis
  proof (cases "i < length live")
    case True
    then have "live ! i \<in> set live" by simp
    then have "freeable g (live ! i)" "page_of g ` set (live ! i) \<inter> avail a = {}"
      using c(3,4) by (auto simp: pool_state_ok_def held_def)
    with release_law[OF c(1)] c(2) obtain a' where
      a': "release a (live ! i) = Inr a'" "inv a'" "geom a' = g"
        "avail a' = avail a \<union> page_of g ` set (live ! i)" by blast
    moreover have "pool_state_ok all_pages (avail a') (held g (take i live @ drop (Suc i) live))"
      using pool_state_ok_free[OF c(4), of i] True a'(4)
      by (simp add: held_def take_map drop_map)
    ultimately show ?thesis
      using True c(3) by (auto simp: st client_ok_def dest: in_set_takeD in_set_dropD)
  next
    case False
    then show ?thesis using assms by (simp add: st)
  qed
qed

theorem run_ok:
  assumes "inv a" "\<And>n. PAlloc n \<in> set ops \<Longrightarrow> ok_size (geom a) n"
  shows "\<exists>st. pool_run alloc release ops (a, []) = Inr st \<and> client_ok (geom a) (avail a) st"
  unfolding pool_run_def
proof (rule foldR_invariant[where I = "\<lambda>_ st. client_ok (geom a) (avail a) st"])
  show "client_ok (geom a) (avail a) (a, [])"
    using assms(1) by (simp add: client_ok_def pool_state_ok_def held_def)
  fix k st assume k: "k < length ops" and st: "client_ok (geom a) (avail a) st"
  show "\<exists>st'. pool_step alloc release (ops ! k) st = Inr st' \<and> client_ok (geom a) (avail a) st'"
  proof (cases "ops ! k")
    case (PAlloc n)
    then show ?thesis using step_alloc[OF st assms(2)] nth_mem[OF k] by simp
  next
    case (PFree i)
    then show ?thesis using step_free[OF st] by simp
  qed
qed

end

end
