(* ===== verification/AllocatorInv.thy ===== *)
theory AllocatorInv
  imports AllocExtend PoolSpec
begin

text \<open>
  The invariant of the device allocators, the proof that every operation keeps it, and the
  interpretations of \<open>paged_pool\<close> on the token allocator (\<open>tkp\<close>) and on the page
  allocator (\<open>pgp\<close>).
\<close>

section \<open>Invariant\<close>

text \<open>
  No page is listed twice, page 0 (the padding slot) is never listed, and with
  \<open>al_need_sort\<close> off nothing waits in \<open>release_pages\<close>.
\<close>

definition al_pages :: "allocator \<Rightarrow> int list" where
  "al_pages a = free_pages a @ release_pages a"

definition al_num_pages :: "allocator \<Rightarrow> nat" where
  "al_num_pages a = al_size a div al_page_size a"

definition alloc_inv :: "allocator \<Rightarrow> bool" where
  "alloc_inv a \<longleftrightarrow> 0 < al_page_size a \<and> distinct (al_pages a) \<and>
     (\<forall>p \<in> set (al_pages a). 1 \<le> p \<and> p \<le> int (al_num_pages a)) \<and>
     (al_need_sort a \<or> release_pages a = [])"

definition tk_inv :: "allocator \<Rightarrow> bool" where
  "tk_inv a \<longleftrightarrow> alloc_inv a \<and> al_page_size a = 1 \<and> is_not_in_free_group a"

definition pg_inv :: "allocator \<Rightarrow> bool" where
  "pg_inv a \<longleftrightarrow> alloc_inv a \<and> is_not_in_free_group a"

definition al_avail :: "allocator \<Rightarrow> int set" where
  "al_avail a = set (al_pages a)"

text \<open>What the operations never change: pool size, page size and modes.\<close>

definition al_geom :: "allocator \<Rightarrow> nat \<times> nat \<times> bool \<times> bool" where
  "al_geom a = (al_size a, al_page_size a, al_need_sort a, al_debug_mode a)"

definition al_page_of :: "nat \<times> nat \<times> bool \<times> bool \<Rightarrow> int \<Rightarrow> int" where
  "al_page_of g i = i div int (fst (snd g))"

definition al_ok_size :: "nat \<times> nat \<times> bool \<times> bool \<Rightarrow> nat \<Rightarrow> bool" where
  "al_ok_size g n \<longleftrightarrow> n mod fst (snd g) = 0"

text \<open>Indices of the pool's pages 1 to \<open>al_num_pages\<close>.\<close>

definition al_freeable :: "nat \<times> nat \<times> bool \<times> bool \<Rightarrow> int list \<Rightarrow> bool" where
  "al_freeable g xs \<longleftrightarrow>
     (\<forall>i \<in> set xs. 1 \<le> al_page_of g i \<and> al_page_of g i \<le> int (fst g div fst (snd g)))"

definition tk_freeable :: "nat \<times> nat \<times> bool \<times> bool \<Rightarrow> int list \<Rightarrow> bool" where
  "tk_freeable g xs \<longleftrightarrow> al_freeable g xs \<and> distinct xs"

lemmas al_geom_defs = al_geom_def al_page_of_def al_ok_size_def al_freeable_def al_num_pages_def

section \<open>Merging the released pages\<close>

lemma merge_pages:
  "mset (al_pages (merge_and_sort_free a)) = mset (al_pages a)"
  "al_geom (merge_and_sort_free a) = al_geom a"
  "is_not_in_free_group (merge_and_sort_free a) = is_not_in_free_group a"
  "release_pages (merge_and_sort_free a) = []"
  by (auto simp: merge_and_sort_free_def al_pages_def al_geom_def)

lemma alloc_inv_mset:
  assumes "mset (al_pages b) = mset (al_pages a)" "al_geom b = al_geom a"
    "release_pages b = [] \<or> release_pages b = release_pages a" "alloc_inv a"
  shows "alloc_inv b" "al_avail b = al_avail a"
proof -
  have "distinct (al_pages b) = distinct (al_pages a)" "set (al_pages b) = set (al_pages a)"
    using assms(1) mset_eq_setD mset_eq_imp_distinct_iff by blast+
  then show "alloc_inv b" "al_avail b = al_avail a"
    using assms(2-) by (auto simp: alloc_inv_def al_avail_def al_num_pages_def al_geom_def)
qed

text \<open>The common prologue of the allocating operations.\<close>

abbreviation refill :: "bool \<Rightarrow> allocator \<Rightarrow> allocator" where
  "refill c a \<equiv> (if al_need_sort a \<and> c then merge_and_sort_free a else a)"

lemma refill_inv:
  assumes "alloc_inv a"
  shows "alloc_inv (refill c a)" "al_avail (refill c a) = al_avail a"
    "al_geom (refill c a) = al_geom a"
    "is_not_in_free_group (refill c a) = is_not_in_free_group a"
  using assms alloc_inv_mset[OF merge_pages(1,2)] merge_pages by auto

lemma alloc_inv_drop:
  assumes "alloc_inv a"
  shows "alloc_inv (a\<lparr>free_pages := drop n (free_pages a)\<rparr>)"
    and "al_avail (a\<lparr>free_pages := drop n (free_pages a)\<rparr>)
           = al_avail a - set (take n (free_pages a))"
proof -
  let ?t = "take n (free_pages a)" and ?d = "drop n (free_pages a)"
  have d: "distinct (?t @ ?d @ release_pages a)" "set (?t @ ?d @ release_pages a) = set (al_pages a)"
    using assms by (simp_all add: alloc_inv_def al_pages_def flip: append_assoc)
  then show "alloc_inv (a\<lparr>free_pages := ?d\<rparr>)"
    using assms by (auto simp: alloc_inv_def al_pages_def al_num_pages_def)
  show "al_avail (a\<lparr>free_pages := ?d\<rparr>) = al_avail a - set ?t"
    unfolding al_avail_def d(2)[symmetric] using d(1) by (auto simp: al_pages_def)
qed

section \<open>Token allocator\<close>

lemma tk_alloc_law:
  assumes inv: "tk_inv a"
  shows "\<exists>r a'. Inr (tk_alloc a n) = (Inr (r, a') :: (int list option \<times> allocator) result) \<and>
    tk_inv a' \<and> al_geom a' = al_geom a \<and>
    (case r of None \<Rightarrow> al_avail a' = al_avail a
     | Some xs \<Rightarrow> length xs = n \<and> distinct xs \<and> tk_freeable (al_geom a) xs \<and>
         al_page_of (al_geom a) ` set xs \<subseteq> al_avail a \<and>
         al_avail a' = al_avail a - al_page_of (al_geom a) ` set xs)"
proof -
  have i: "alloc_inv a" and ps: "al_page_size a = 1" using inv by (simp_all add: tk_inv_def)
  define b where "b = refill (length (free_pages a) < n) a"
  note b = refill_inv[OF i, of "length (free_pages a) < n", folded b_def]
  have step: "tk_alloc a n = (if length (free_pages b) < n then (None, b)
      else (Some (take n (free_pages b)), b\<lparr>free_pages := drop n (free_pages b)\<rparr>))"
    by (simp only: tk_alloc_def Let_def b_def)
  have psb: "al_page_size b = 1" using b(3) ps by (simp add: al_geom_def)
  have pof: "al_page_of (al_geom a) i = i" for i by (simp add: al_geom_defs ps)
  show ?thesis
  proof (cases "length (free_pages b) < n")
    case True
    then have "tk_alloc a n = (None, b)" by (simp add: step)
    then show ?thesis using b psb inv by (simp add: tk_inv_def)
  next
    case False
    let ?t = "take n (free_pages b)" and ?c = "b\<lparr>free_pages := drop n (free_pages b)\<rparr>"
    have r: "tk_alloc a n = (Some ?t, ?c)" using False by (simp add: step)
    have sub: "set ?t \<subseteq> al_avail a"
      using b(2) by (auto simp: al_avail_def al_pages_def dest: in_set_takeD)
    have "tk_freeable (al_geom a) ?t"
      using sub i b(1) pof
      by (auto simp: tk_freeable_def al_freeable_def alloc_inv_def al_avail_def al_pages_def
          al_num_pages_def al_geom_def)
    moreover have "tk_inv ?c" "al_avail ?c = al_avail a - set ?t" "al_geom ?c = al_geom a"
      using alloc_inv_drop[OF b(1), of n] b psb inv by (simp_all add: tk_inv_def al_geom_def)
    moreover have "length ?t = n" "distinct ?t"
      using False b(1) by (simp_all add: alloc_inv_def al_pages_def)
    ultimately show ?thesis unfolding r by (simp add: pof sub image_def)
  qed
qed

lemma tk_free_law:
  assumes inv: "tk_inv a" and xs: "tk_freeable (al_geom a) xs"
    and new: "al_page_of (al_geom a) ` set xs \<inter> al_avail a = {}"
  shows "\<exists>a'. Inr (tk_free a xs) = (Inr a' :: allocator result) \<and> tk_inv a' \<and>
    al_geom a' = al_geom a \<and> al_avail a' = al_avail a \<union> al_page_of (al_geom a) ` set xs"
proof -
  have ps: "al_page_size a = 1" and g: "is_not_in_free_group a" using inv by (simp_all add: tk_inv_def)
  have pof: "al_page_of (al_geom a) i = i" for i by (simp add: al_geom_defs ps)
  have d: "distinct xs" "set xs \<inter> al_avail a = {}" "\<forall>i \<in> set xs. 1 \<le> i \<and> i \<le> int (al_size a)"
    using xs new pof by (auto simp: tk_freeable_def al_freeable_def al_geom_def ps)
  have "tk_inv (tk_free a xs)"
    using inv d g by (auto simp: tk_inv_def tk_free_def alloc_inv_def al_pages_def al_avail_def
        al_num_pages_def ps)
  moreover have "al_avail (tk_free a xs) = al_avail a \<union> set xs" "al_geom (tk_free a xs) = al_geom a"
    using g by (auto simp: tk_free_def al_avail_def al_pages_def al_geom_def)
  ultimately show ?thesis by (simp add: pof image_def)
qed

interpretation tkp: paged_pool tk_inv al_avail al_geom al_page_of "\<lambda>_ _. True" tk_freeable
    "\<lambda>a n. Inr (tk_alloc a n)" "\<lambda>a xs. Inr (tk_free a xs)"
  by unfold_locales (use tk_alloc_law tk_free_law in blast)+

section \<open>Page allocator\<close>

lemma set_page_slots: "0 < ps \<Longrightarrow> set (page_slots ps p) = {i. i div ps = p}"
proof (intro set_eqI iffI)
  fix i assume ps: "0 < ps" and "i \<in> {i. i div ps = p}"
  then have "i = p * ps + int (nat (i mod ps))" "nat (i mod ps) < nat ps"
    using div_mult_mod_eq[of i ps] by auto
  then show "i \<in> set (page_slots ps p)"
    unfolding page_slots_def set_map by (intro image_eqI[of _ _ "nat (i mod ps)"]) simp_all
next
  fix i assume "0 < ps" "i \<in> set (page_slots ps p)"
  then show "i \<in> {i. i div ps = p}" by (auto simp: page_slots_def)
qed

lemma distinct_page_slots: "distinct (page_slots ps p)"
  by (simp add: page_slots_def distinct_map inj_on_def)

lemma pages_of_slots:
  assumes "0 < ps"
  shows "(\<lambda>i. i div ps) ` set (concat (map (page_slots ps) pages)) = set pages"
proof -
  have "p \<in> (\<lambda>i. i div ps) ` set (page_slots ps p)" for p
    using assms by (intro image_eqI[of _ _ "p * ps"]) (simp_all add: set_page_slots)
  then show ?thesis using set_page_slots[OF assms] by force
qed

lemma distinct_slots:
  assumes "0 < ps" "distinct pages"
  shows "distinct (concat (map (page_slots ps) pages))"
  using assms(2)
proof (induction pages)
  case (Cons p pages)
  then show ?case using assms(1) distinct_page_slots by (auto simp: set_page_slots)
qed simp

lemma length_slots: "length (concat (map (page_slots ps) pages)) = length pages * nat ps"
  by (induction pages) (simp_all add: page_slots_def)

lemma torch_unique_simps:
  "set (torch_unique xs) = set xs" "distinct (torch_unique xs)" "sorted (torch_unique xs)"
  "length (torch_unique xs) = length xs \<longleftrightarrow> distinct xs"
  using card_distinct[of xs] distinct_card[of xs]
  by (auto simp: torch_unique_def length_remdups_card_conv)

lemma pg_alloc_law:
  assumes inv: "pg_inv a" and sz: "al_ok_size (al_geom a) n"
  shows "\<exists>r a'. pg_alloc a n = Inr (r, a') \<and> pg_inv a' \<and> al_geom a' = al_geom a \<and>
    (case r of None \<Rightarrow> al_avail a' = al_avail a
     | Some xs \<Rightarrow> length xs = n \<and> distinct xs \<and> al_freeable (al_geom a) xs \<and>
         al_page_of (al_geom a) ` set xs \<subseteq> al_avail a \<and>
         al_avail a' = al_avail a - al_page_of (al_geom a) ` set xs)"
proof -
  define ps where "ps = al_page_size a"
  have i: "alloc_inv a" using inv by (simp add: pg_inv_def)
  have ps: "0 < ps" "n mod ps = 0" "n div ps * ps = n"
    using i sz by (auto simp: alloc_inv_def al_ok_size_def al_geom_def ps_def)
  define b where "b = refill (length (free_pages a) < n div ps) a"
  note b = refill_inv[OF i, of "length (free_pages a) < n div ps", folded b_def]
  have psb: "al_page_size b = ps" using b(3) by (simp add: al_geom_def ps_def)
  have step: "pg_alloc a n = (if length (free_pages b) < n div ps then Inr (None, b)
      else Inr (Some (concat (map (page_slots (int ps)) (take (n div ps) (free_pages b)))),
                b\<lparr>free_pages := drop (n div ps) (free_pages b)\<rparr>))"
    using ps(2) unfolding pg_alloc_def Let_def ps_def[symmetric] b_def[symmetric] psb by simp
  show ?thesis
  proof (cases "length (free_pages b) < n div ps")
    case True
    then show ?thesis using b inv by (simp add: step pg_inv_def)
  next
    case False
    let ?t = "take (n div ps) (free_pages b)" and ?c = "b\<lparr>free_pages := drop (n div ps) (free_pages b)\<rparr>"
    let ?xs = "concat (map (page_slots (int ps)) ?t)"
    have pof: "al_page_of (al_geom a) = (\<lambda>i. i div int ps)"
      by (simp add: fun_eq_iff al_page_of_def al_geom_def ps_def)
    have img: "al_page_of (al_geom a) ` set ?xs = set ?t"
      unfolding pof by (rule pages_of_slots) (simp add: ps)
    have sub: "set ?t \<subseteq> al_avail a"
      using b(2) by (auto simp: al_avail_def al_pages_def dest: in_set_takeD)
    have "al_freeable (al_geom a) ?xs"
    proof -
      have "\<forall>p \<in> set ?t. 1 \<le> p \<and> p \<le> int (al_num_pages a)"
        using sub i by (auto simp: alloc_inv_def al_avail_def)
      then have "\<forall>p \<in> al_page_of (al_geom a) ` set ?xs. 1 \<le> p \<and> p \<le> int (al_num_pages a)"
        unfolding img .
      then show ?thesis by (simp add: al_freeable_def al_num_pages_def al_geom_def)
    qed
    moreover have "pg_inv ?c" "al_avail ?c = al_avail a - set ?t" "al_geom ?c = al_geom a"
      using alloc_inv_drop[OF b(1), of "n div ps"] b inv by (simp_all add: pg_inv_def al_geom_def)
    moreover have "length ?xs = n" using False ps(3) by (simp only: length_slots) simp
    moreover have "distinct ?xs"
      using b(1) ps(1) by (intro distinct_slots) (simp_all add: alloc_inv_def al_pages_def)
    ultimately show ?thesis using False sub img by (simp add: step)
  qed
qed

lemma pg_free_law:
  assumes inv: "pg_inv a" and xs: "al_freeable (al_geom a) xs"
    and new: "al_page_of (al_geom a) ` set xs \<inter> al_avail a = {}"
  shows "\<exists>a'. pg_free a xs = Inr a' \<and> pg_inv a' \<and>
    al_geom a' = al_geom a \<and> al_avail a' = al_avail a \<union> al_page_of (al_geom a) ` set xs"
proof (cases "xs = []")
  case True
  then show ?thesis using inv by (simp add: pg_free_def)
next
  case False
  define ps where "ps = al_page_size a"
  define u where "u = torch_unique (map (\<lambda>i. i div int ps) xs)"
  have g: "is_not_in_free_group a" and i: "alloc_inv a" using inv by (simp_all add: pg_inv_def)
  have pof: "al_page_of (al_geom a) ` set xs = set u"
    by (simp add: al_page_of_def al_geom_def ps_def u_def torch_unique_simps)
  have u: "distinct u" "set u \<inter> set (al_pages a) = {}" "\<forall>p \<in> set u. 1 \<le> p \<and> p \<le> int (al_num_pages a)"
    using new xs unfolding pof[symmetric]
    by (auto simp: u_def torch_unique_simps al_avail_def al_freeable_def al_num_pages_def al_geom_def)
  define b where "b = (if al_need_sort a then a\<lparr>release_pages := u @ release_pages a\<rparr>
                       else a\<lparr>free_pages := u @ free_pages a\<rparr>)"
  have binv: "alloc_inv b" using i u by (auto simp: b_def alloc_inv_def al_pages_def al_num_pages_def)
  then have "distinct (free_pages b)" by (simp add: alloc_inv_def al_pages_def)
  moreover have "pg_free a xs = (if al_debug_mode b \<and> length (torch_unique (free_pages b)) \<noteq> length (free_pages b)
      then Inl AssertionError else Inr b)"
    using False g unfolding pg_free_def Let_def b_def u_def ps_def by simp
  ultimately have "pg_free a xs = Inr b" by (simp add: torch_unique_simps)
  moreover have "al_geom b = al_geom a" "al_avail b = al_avail a \<union> set u" "is_not_in_free_group b"
    using g by (auto simp: b_def al_geom_def al_avail_def al_pages_def)
  ultimately show ?thesis using binv by (simp add: pof pg_inv_def)
qed

interpretation pgp: paged_pool pg_inv al_avail al_geom al_page_of al_ok_size al_freeable pg_alloc pg_free
  by unfold_locales (use pg_alloc_law pg_free_law in blast)+

section \<open>Batched allocation\<close>

lemma next_power_of_2_ge: "n \<le> next_power_of_2 n"
proof (cases "0 < n")
  case True
  let ?P = "\<lambda>k. (2::nat) ^ k \<le> n - 1"
  let ?L = "length (takeWhile ?P [0..<n])"
  have "n - 1 < 2 ^ ?L"
  proof (cases "?L < n")
    case True
    then have "\<not> ?P ([0..<n] ! ?L)" by (intro nth_length_takeWhile) simp
    with True show ?thesis by simp
  next
    case False
    then have "?L = n" using length_takeWhile_le[of ?P "[0..<n]"] by simp
    moreover have "n - 1 < 2 ^ n" using less_exp[of n] by linarith
    ultimately show ?thesis by simp
  qed
  with True show ?thesis by (simp add: next_power_of_2_def)
qed simp

lemma new_pages_bound:
  assumes ps: "0 < ps" and "p \<le> s"
  shows "cdiv s ps - cdiv p ps \<le> (s - p) div ps + 1"
proof -
  have "cdiv s ps * ps < cdiv p ps * ps + ((s - p) div ps + 2) * ps"
    using cdiv_pos_bounds[OF ps, of s] cdiv_pos_bounds[OF ps, of p]
      div_mult_mod_eq[of "s - p" ps] pos_mod_bound[OF ps, of "s - p"]
    by (simp only: distrib_right)
  then have "cdiv s ps * ps < (cdiv p ps + (s - p) div ps + 2) * ps" by (simp add: algebra_simps)
  then show ?thesis using ps by simp
qed

lemma page_start_bound:
  assumes pre: "extend_pre ps pre_lens seq_lens last_locs fpages" and "i \<le> length pre_lens"
  shows "page_start ps pre_lens seq_lens i
       \<le> sum_list (take i (map2 (-) seq_lens pre_lens)) div ps + int i"
  using assms(2)
proof (induction i)
  case (Suc i)
  note d = extend_preD[OF pre]
  let ?t = "sum_list (take i (map2 (-) seq_lens pre_lens))" and ?e = "seq_lens ! i - pre_lens ! i"
  have i: "i < length pre_lens" using Suc.prems by simp
  have "?t div ps + ?e div ps \<le> (?t + ?e) div ps"
    by (rule div_superadd[OF d(1)])
  with Suc new_pages_bound[OF d(1) d(5)[OF i]] page_start_Suc[OF pre i] d(2) i show ?case
    by (simp add: take_Suc_conv_app_nth)
qed simp

text \<open>The inputs of \<^verbatim>\<open>alloc_extend\<close> as its callers build them.\<close>

definition extend_args_ok :: "allocator \<Rightarrow> int list \<Rightarrow> int list \<Rightarrow> int list \<Rightarrow> bool" where
  "extend_args_ok a prefix_lens seq_lens last_loc \<longleftrightarrow>
     (let ps = int (al_page_size a)
      in length seq_lens = length prefix_lens \<and> length last_loc = length prefix_lens \<and>
         list_all2 (\<lambda>p s. 0 \<le> p \<and> p \<le> s) prefix_lens seq_lens \<and>
         locs_aligned ps prefix_lens last_loc \<and>
         distinct (old_pages ps prefix_lens last_loc) \<and>
         set (old_pages ps prefix_lens last_loc) \<inter> al_avail a = {} \<and>
         page_start ps prefix_lens seq_lens (length prefix_lens) \<le> int (length (al_pages a)))"

lemma extend_pre_alloc:
  assumes "extend_args_ok a prefix_lens seq_lens last_loc" "alloc_inv a"
    "length fpages = length (al_pages a)"
  shows "extend_pre (int (al_page_size a)) prefix_lens seq_lens last_loc fpages"
  using assms by (simp add: extend_args_ok_def Let_def extend_pre_def alloc_inv_def)

text \<open>After the refill the free list is long enough: the estimate it uses is an upper bound.\<close>

lemma refill_enough:
  assumes args: "extend_args_ok a prefix_lens seq_lens last_loc" and inv: "alloc_inv a"
  defines "b \<equiv> refill (length (free_pages a)
      < extend_total prefix_lens seq_lens div al_page_size a + length prefix_lens + 1) a"
  shows "extend_pre (int (al_page_size a)) prefix_lens seq_lens last_loc (free_pages b)"
proof -
  let ?ps = "int (al_page_size a)" and ?bs = "length prefix_lens"
  let ?c = "length (free_pages a) < extend_total prefix_lens seq_lens div al_page_size a + ?bs + 1"
  note pre = extend_pre_alloc[OF args inv refl]
  note d = extend_preD[OF pre]
  have n: "page_start ?ps prefix_lens seq_lens ?bs
      \<le> int (extend_total prefix_lens seq_lens div al_page_size a) + int ?bs"
  proof -
    have "int (extend_total prefix_lens seq_lens) = sum_list (take ?bs (map2 (-) seq_lens prefix_lens))"
      using d batch_offsets[OF pre, of ?bs] by (simp add: extend_total_def)
    then show ?thesis using page_start_bound[OF pre, of ?bs] by (simp add: zdiv_int)
  qed
  have "page_start ?ps prefix_lens seq_lens ?bs \<le> int (length (free_pages b))"
  proof (cases "al_need_sort a \<and> ?c")
    case True
    have "size (mset (al_pages (merge_and_sort_free a))) = size (mset (al_pages a))"
      by (simp only: merge_pages(1))
    then have "length (free_pages b) = length (al_pages a)"
      using True merge_pages(4)[of a] by (simp add: b_def al_pages_def)
    then show ?thesis using d(6) by simp
  next
    case False
    then have b: "b = a" by (auto simp: b_def)
    show ?thesis
    proof (cases "al_need_sort a")
      case True
      then show ?thesis using False n b by simp
    next
      case no_sort: False
      then have "release_pages a = []" using inv by (simp add: alloc_inv_def)
      then show ?thesis using d(6) b by (simp add: al_pages_def)
    qed
  qed
  then show ?thesis using pre by (simp add: extend_pre_def)
qed

lemma nth_in_take: "i < n \<Longrightarrow> n \<le> length xs \<Longrightarrow> xs ! i \<in> set (take n xs)"
  by (metis length_take min.absorb2 nth_mem nth_take)

lemma extend_spec_pages:
  assumes pre: "extend_pre ps pre_lens seq_lens last_locs fpages"
    and al: "locs_aligned ps pre_lens last_locs"
    and x: "x \<in> set (extend_spec ps pre_lens seq_lens last_locs fpages)"
  shows "x div ps \<in> set (old_pages ps pre_lens last_locs) \<union>
    set (take (nat (page_start ps pre_lens seq_lens (length pre_lens))) fpages)"
proof -
  let ?xss = "batch_slots ps pre_lens seq_lens last_locs fpages"
  let ?n = "page_start ps pre_lens seq_lens (length pre_lens)"
  from x obtain i k where ik: "i < length pre_lens" "k < length (?xss ! i)" "x = ?xss ! i ! k"
    by (auto simp: extend_spec_def in_set_conv_nth)
  have k: "int k < seq_lens ! i - pre_lens ! i" using ik by (simp add: batch_slots_nth)
  have fresh: "fpages ! nat (page_start ps pre_lens seq_lens i + a) \<in> set (take (nat ?n) fpages)"
    if "0 \<le> a" "a < cdiv (seq_lens ! i) ps - cdiv (pre_lens ! i) ps" for a
  proof -
    have "page_start ps pre_lens seq_lens i + a < ?n"
      using that page_start_Suc[OF pre ik(1)] page_start_mono[OF pre, of "Suc i" "length pre_lens"] ik(1)
      by simp
    then have "nat (page_start ps pre_lens seq_lens i + a) < nat ?n"
      using that page_start_bounds(1)[OF pre ik(1)] by simp
    moreover have "nat ?n \<le> length fpages" using extend_preD(6)[OF pre] by simp
    ultimately show ?thesis by (rule nth_in_take)
  qed
  from batch_slot_page(2)[OF pre al ik(1) k] fresh show ?thesis
    by (auto simp: ik(3) old_pages_def)
qed

lemma extend_spec_offset:
  assumes pre: "extend_pre ps pre_lens seq_lens last_locs fpages"
    and al: "locs_aligned ps pre_lens last_locs"
    and i: "i < length pre_lens" and k: "int k < seq_lens ! i - pre_lens ! i"
  shows "extend_spec ps pre_lens seq_lens last_locs fpages !
      (nat (sum_list (take i (map2 (-) seq_lens pre_lens))) + k) mod ps = (pre_lens ! i + int k) mod ps"
proof -
  let ?xss = "batch_slots ps pre_lens seq_lens last_locs fpages"
  have off: "nat (sum_list (take i (map2 (-) seq_lens pre_lens))) = sum_list (map length (take i ?xss))"
    using batch_offsets[OF pre, of i] i by simp
  have "k < length (?xss ! i)" using i k by (simp add: batch_slots_nth)
  then show ?thesis
    unfolding extend_spec_def off using i batch_slot_page(1)[OF pre al i k]
    by (simp add: concat_nth_offset)
qed

lemma pg_alloc_extend_spec:
  assumes inv: "pg_inv a" and args: "extend_args_ok a prefix_lens seq_lens last_loc"
    and order: "set (g_order g (length prefix_lens)) = {..<length prefix_lens}"
    and n: "n = page_start (int (al_page_size a)) prefix_lens seq_lens (length prefix_lens)"
    and arg: "num_new_pages = None \<or> num_new_pages = Some n"
  defines "b \<equiv> refill (length (free_pages a)
      < extend_total prefix_lens seq_lens div al_page_size a + length prefix_lens + 1) a"
  shows "pg_alloc_extend g a prefix_lens seq_lens last_loc (extend_total prefix_lens seq_lens)
      num_new_pages
    = Inr (Some (extend_spec (int (al_page_size a)) prefix_lens seq_lens last_loc (free_pages b)),
           b\<lparr>free_pages := drop (nat n) (free_pages b)\<rparr>)"
proof -
  let ?ps = "int (al_page_size a)"
  let ?spec = "extend_spec ?ps prefix_lens seq_lens last_loc (free_pages b)"
  have i: "alloc_inv a" using inv by (simp add: pg_inv_def)
  note pre = refill_enough[OF args i, folded b_def]
  note b = refill_inv[OF i, of "length (free_pages a)
      < extend_total prefix_lens seq_lens div al_page_size a + length prefix_lens + 1", folded b_def]
  note d = extend_preD[OF pre]
  have al: "locs_aligned ?ps prefix_lens last_loc"
    and old: "distinct (old_pages ?ps prefix_lens last_loc)"
      "set (old_pages ?ps prefix_lens last_loc) \<inter> al_avail a = {}"
    using args by (simp_all add: extend_args_ok_def Let_def)
  have gm: "al_page_size b = al_page_size a" "al_debug_mode b = al_debug_mode a"
    using b(3) by (simp_all add: al_geom_def)
  have k: "launch (alloc_extend_kernel (g_oth g) (g_oob g) prefix_lens seq_lens last_loc (free_pages b)
        (next_power_of_2 (length prefix_lens)) ?ps) (g_order g (length prefix_lens))
        (map (g_uninit g) [0..<extend_total prefix_lens seq_lens]) = ?spec"
    by (rule alloc_extend_launch[OF pre next_power_of_2_ge order]) simp
  have "distinct (old_pages ?ps prefix_lens last_loc @ free_pages b)"
    using old b(1,2) by (auto simp: alloc_inv_def al_pages_def al_avail_def)
  then have dist: "distinct ?spec" by (rule extend_spec_distinct[OF pre al])
  have num: "(case num_new_pages of None \<Rightarrow> get_num_new_pages seq_lens ?ps (Some prefix_lens) False
      | Some n \<Rightarrow> Inr n) = Inr n"
    using arg d(2) by (auto simp: get_num_new_pages_def n page_start_def)
  have "n \<le> int (length (free_pages b))" using d(6) by (simp add: n)
  then show ?thesis
    using al dist
    unfolding pg_alloc_extend_def Let_def b_def[symmetric] gm k num bindR_simps
    by (simp add: locs_aligned_def torch_unique_simps)
qed

section \<open>Decode\<close>

text \<open>
  Decoding extends every request by one token. Pages of one slot are handled by the token
  allocator, so the page size is at least two here.
\<close>

definition decode_args_ok :: "allocator \<Rightarrow> int list \<Rightarrow> int list \<Rightarrow> bool" where
  "decode_args_ok a seq_lens last_loc \<longleftrightarrow>
     1 < al_page_size a \<and> extend_args_ok a (map (\<lambda>s. s - 1) seq_lens) seq_lens last_loc"

lemma mod_pred_eq_0:
  assumes "1 < n"
  shows "(s - 1) mod n = 0 \<longleftrightarrow> s mod n = (1 :: int)"
  using assms by (metis mod_pos_pos_trivial mod_eq_dvd_iff mod_eq_0_iff_dvd zero_le_one)

lemma decode_new_pages:
  assumes "1 < ps"
  shows "page_start ps (map (\<lambda>s. s - 1) seq_lens) seq_lens (length seq_lens)
       = int (length (filter (\<lambda>s. s mod ps = 1) seq_lens))"
proof -
  have "sum_list (map2 (\<lambda>s p. cdiv s ps - cdiv p ps) ss (map (\<lambda>s. s - 1) ss))
      = int (length (filter (\<lambda>s. s mod ps = 1) ss))" for ss
    using assms by (induction ss) (simp_all add: cdiv_self_step mod_pred_eq_0)
  then show ?thesis by (simp add: page_start_def)
qed

lemma extend_total_decode: "extend_total (map (\<lambda>s. s - 1) seq_lens) seq_lens = length seq_lens"
proof -
  have "sum_list (map2 (-) ss (map (\<lambda>s. s - 1) ss)) = int (length ss)" for ss :: "int list"
    by (induction ss) simp_all
  then show ?thesis by (simp add: extend_total_def)
qed

lemma decode_align:
  "list_all2 (\<lambda>l s. (l + 2) mod ps = s mod ps) last_loc seq_lens
     \<longleftrightarrow> locs_aligned ps (map (\<lambda>s. s - 1) seq_lens) last_loc" for ps :: int
proof -
  have "(l + 2) mod ps = s mod ps \<longleftrightarrow> (l + 1) mod ps = (s - 1) mod ps" for l s
    by (simp add: mod_eq_dvd_iff algebra_simps)
  then show ?thesis by (simp add: locs_aligned_def list_all2_conv_all_nth cong: conj_cong)
qed

lemma decode_refill_enough:
  assumes args: "decode_args_ok a seq_lens last_loc" and inv: "alloc_inv a"
  defines "b \<equiv> refill (length (free_pages a) < length seq_lens) a"
  shows "extend_pre (int (al_page_size a)) (map (\<lambda>s. s - 1) seq_lens) seq_lens last_loc (free_pages b)"
proof -
  let ?ps = "int (al_page_size a)" and ?pl = "map (\<lambda>s. s - 1) seq_lens"
  have ps: "1 < ?ps" using args by (simp add: decode_args_ok_def)
  note pre = extend_pre_alloc[OF args[unfolded decode_args_ok_def, THEN conjunct2] inv refl]
  have n: "page_start ?ps ?pl seq_lens (length ?pl) \<le> int (length seq_lens)"
    by (simp add: decode_new_pages[OF ps])
  have "page_start ?ps ?pl seq_lens (length ?pl) \<le> int (length (free_pages b))"
  proof (cases "al_need_sort a")
    case True
    have "size (mset (al_pages (merge_and_sort_free a))) = size (mset (al_pages a))"
      by (simp only: merge_pages(1))
    then show ?thesis
      using True n extend_preD(6)[OF pre] merge_pages(4)[of a]
      by (auto simp: b_def al_pages_def)
  next
    case False
    then have "release_pages a = []" using inv by (simp add: alloc_inv_def)
    then show ?thesis using False extend_preD(6)[OF pre] by (simp add: b_def al_pages_def)
  qed
  then show ?thesis using pre by (simp add: extend_pre_def)
qed

lemma pg_alloc_decode_spec:
  assumes inv: "pg_inv a" and args: "decode_args_ok a seq_lens last_loc"
    and order: "set (g_order g (length seq_lens)) = {..<length seq_lens}"
  defines "b \<equiv> refill (length (free_pages a) < length seq_lens) a"
  shows "pg_alloc_decode g a seq_lens last_loc =
    Inr (Some (extend_spec (int (al_page_size a)) (map (\<lambda>s. s - 1) seq_lens) seq_lens last_loc (free_pages b)),
         b\<lparr>free_pages := drop (length (filter (\<lambda>s. s mod int (al_page_size a) = 1) seq_lens)) (free_pages b)\<rparr>)"
proof -
  let ?ps = "int (al_page_size a)" and ?pl = "map (\<lambda>s. s - 1) seq_lens"
  let ?spec = "extend_spec ?ps ?pl seq_lens last_loc (free_pages b)"
  have i: "alloc_inv a" using inv by (simp add: pg_inv_def)
  have ps: "1 < ?ps" using args by (simp add: decode_args_ok_def)
  note pre = decode_refill_enough[OF args i, folded b_def]
  note b = refill_inv[OF i, of "length (free_pages a) < length seq_lens", folded b_def]
  have al: "locs_aligned ?ps ?pl last_loc"
    and old: "distinct (old_pages ?ps ?pl last_loc)" "set (old_pages ?ps ?pl last_loc) \<inter> al_avail a = {}"
    using args by (simp_all add: decode_args_ok_def extend_args_ok_def Let_def)
  have gm: "al_page_size b = al_page_size a" "al_debug_mode b = al_debug_mode a"
    using b(3) by (simp_all add: al_geom_def)
  have k: "launch (alloc_decode_kernel (g_oth g) (g_oob g) seq_lens last_loc (free_pages b)
        (next_power_of_2 (length seq_lens)) ?ps) (g_order g (length seq_lens))
        (map (g_uninit g) [0..<length seq_lens]) = ?spec"
    by (rule alloc_decode_launch[OF pre next_power_of_2_ge order]) simp
  have "distinct (old_pages ?ps ?pl last_loc @ free_pages b)"
    using old b(1,2) by (auto simp: alloc_inv_def al_pages_def al_avail_def)
  then have dist: "distinct ?spec" by (rule extend_spec_distinct[OF pre al])
  have "length (filter (\<lambda>s. s mod ?ps = 1) seq_lens) \<le> length (free_pages b)"
    using extend_preD(6)[OF pre] decode_new_pages[OF ps] by simp
  then show ?thesis
    using dist al
    unfolding pg_alloc_decode_def Let_def b_def[symmetric] gm k decode_align
    by (simp add: get_num_new_pages_def torch_unique_simps)
qed

end
