(* ===== verification/AllocatorProps.thy ===== *)
theory AllocatorProps
  imports AllocatorInv
begin

text \<open>The properties of the device KV allocators.\<close>

section \<open>Concrete inputs\<close>

text \<open>Page size 4, pages 2 to 4 free, page 1 held; a grid that runs its programs backwards.\<close>

definition demo_alloc :: allocator where
  "demo_alloc = (pg_init 16 4 True True)\<lparr>free_pages := [4], release_pages := [3, 2]\<rparr>"

definition demo_gpu :: gpu where
  "demo_gpu = \<lparr>g_oth = 77, g_oob = (\<lambda>i. - i), g_uninit = (\<lambda>k. int k), g_order = (\<lambda>n. rev [0..<n])\<rparr>"

lemmas demo_simps = demo_alloc_def pg_init_def pg_clear_def alloc_inv_def al_pages_def
  al_num_pages_def al_avail_def extend_args_ok_def Let_def locs_aligned_def old_pages_def
  partial_reqs_def page_start_def cdiv_def

lemma demo_alloc_inv: "pg_inv demo_alloc"
  by (simp add: pg_inv_def demo_simps)

lemma demo_extend_args: "extend_args_ok demo_alloc [2, 0] [7, 4] [5, -1]"
  by (simp add: demo_simps upt_rec)

lemma demo_decode_args: "decode_args_ok demo_alloc [3, 5] [5, 31]"
  by (simp add: decode_args_ok_def demo_simps upt_rec)

lemma demo_gpu_order: "set (g_order demo_gpu n) = {..<n}"
  by (simp add: demo_gpu_def lessThan_atLeast0)

lemma demo_extend_total: "9 = extend_total [2, 0] [7, 4]"
  by (simp add: extend_total_def)

lemma no_blocks: "(BLOCK_EXTEND - 1) div BLOCK_EXTEND = 0"
  by (simp add: BLOCK_EXTEND_def)

section \<open>Properties\<close>

text \<open>
  C10. A call of \<^verbatim>\<open>alloc_extend\<close> with enough pages in the pool returns, in whatever order
  the programs of the grid run and whatever masked lanes and uninitialised memory hold: one
  slot per new token, all different, each on the old partial page of a request or on a page
  that leaves the free lists, at the offset of its token's position; the allocator stays
  well-formed.
\<close>

theorem pg_alloc_extend_ok:
  assumes "pg_inv a" and "extend_args_ok a prefix_lens seq_lens last_loc"
    and "set (g_order g (length prefix_lens)) = {..<length prefix_lens}"
    and "extend_num_tokens = extend_total prefix_lens seq_lens"
  shows "\<exists>out a'. pg_alloc_extend g a prefix_lens seq_lens last_loc extend_num_tokens None
        = Inr (Some out, a') \<and>
      pg_inv a' \<and> length out = extend_num_tokens \<and> distinct out \<and> al_avail a' \<subseteq> al_avail a \<and>
      (\<forall>s \<in> set out. s div int (al_page_size a) \<in>
         set (old_pages (int (al_page_size a)) prefix_lens last_loc) \<union> (al_avail a - al_avail a')) \<and>
      (\<forall>i < length prefix_lens. \<forall>k. int k < seq_lens ! i - prefix_lens ! i \<longrightarrow>
         out ! (nat (sum_list (take i (map2 (-) seq_lens prefix_lens))) + k) mod int (al_page_size a)
         = (prefix_lens ! i + int k) mod int (al_page_size a))"
proof -
  define b where "b = refill (length (free_pages a)
      < extend_total prefix_lens seq_lens div al_page_size a + length prefix_lens + 1) a"
  define n where "n = page_start (int (al_page_size a)) prefix_lens seq_lens (length prefix_lens)"
  have i: "alloc_inv a" using assms(1) by (simp add: pg_inv_def)
  note pre = refill_enough[OF assms(2) i, folded b_def]
  note b = refill_inv[OF i, of "length (free_pages a)
      < extend_total prefix_lens seq_lens div al_page_size a + length prefix_lens + 1", folded b_def]
  have al: "locs_aligned (int (al_page_size a)) prefix_lens last_loc"
    and old: "distinct (old_pages (int (al_page_size a)) prefix_lens last_loc @ free_pages b)"
    using assms(2) b(1,2)
    by (auto simp: extend_args_ok_def Let_def alloc_inv_def al_pages_def al_avail_def)
  note d = alloc_inv_drop[OF b(1), of "nat n"]
  note r = pg_alloc_extend_spec[OF assms(1-3) n_def, of None, folded b_def]
  have pages: "s div int (al_page_size a) \<in> set (old_pages (int (al_page_size a)) prefix_lens last_loc) \<union>
      (al_avail a - al_avail (b\<lparr>free_pages := drop (nat n) (free_pages b)\<rparr>))"
    if "s \<in> set (extend_spec (int (al_page_size a)) prefix_lens seq_lens last_loc (free_pages b))" for s
    using extend_spec_pages[OF pre al that] d(2) b(2) unfolding n_def[symmetric]
    by (auto simp: al_avail_def al_pages_def dest: in_set_takeD)
  show ?thesis
    using r d b assms(1,4) extend_spec_distinct[OF pre al old] length_extend_spec[OF pre]
      extend_spec_offset[OF pre al] pages
    by (auto simp: pg_inv_def)
qed

theorem pg_alloc_extend_ok_witness:
  "\<exists>out a'. pg_alloc_extend demo_gpu demo_alloc [2, 0] [7, 4] [5, -1] 9 None = Inr (Some out, a') \<and>
     pg_inv a' \<and> length out = 9 \<and> distinct out"
  using pg_alloc_extend_ok[OF demo_alloc_inv demo_extend_args demo_gpu_order demo_extend_total]
  by blast

text \<open>
  C17. The Triton kernel of \<^verbatim>\<open>alloc_extend\<close> computes what the reference routine
  \<^verbatim>\<open>alloc_extend_naive\<close> computes, for every execution order of its programs, every value
  of masked lanes and every earlier content of the output; the reference routine raises no
  error.
\<close>

theorem alloc_extend_kernel_naive:
  assumes "extend_pre ps prefix_lens seq_lens last_loc fpages"
    and "set pids = {..<length prefix_lens}" and "length prefix_lens \<le> bs_upper"
    and "length out = extend_total prefix_lens seq_lens"
    and "length out' = extend_total prefix_lens seq_lens"
  shows "alloc_extend_naive ps prefix_lens seq_lens last_loc fpages out =
    Inr (launch (alloc_extend_kernel oth oob prefix_lens seq_lens last_loc fpages bs_upper ps) pids out')"
  using alloc_extend_naive_spec[OF assms(1,4)] alloc_extend_launch[OF assms(1,3,2,5)] by simp

theorem alloc_extend_kernel_naive_witness:
  "alloc_extend_naive 4 [2, 0] [7, 4] [5, -1] [2, 3] [0, 0, 0, 0, 0, 0, 0, 0, 0] =
    Inr (launch (alloc_extend_kernel 13 (\<lambda>_. 0) [2, 0] [7, 4] [5, -1] [2, 3] 2 4) [1, 0]
      [9, 9, 9, 9, 9, 9, 9, 9, 9])"
  by (rule alloc_extend_kernel_naive)
    (auto simp: extend_pre_def page_start_def cdiv_def extend_total_def)

text \<open>
  C24. The same for \<^verbatim>\<open>alloc_decode\<close>: one slot per request, all different, the next slot of
  the request's page or the first slot of a page taken off the free lists.
\<close>

theorem pg_alloc_decode_ok:
  assumes "pg_inv a" and "decode_args_ok a seq_lens last_loc"
    and "set (g_order g (length seq_lens)) = {..<length seq_lens}"
  shows "\<exists>out a'. pg_alloc_decode g a seq_lens last_loc = Inr (Some out, a') \<and>
      pg_inv a' \<and> length out = length seq_lens \<and> distinct out \<and> al_avail a' \<subseteq> al_avail a \<and>
      (\<forall>s \<in> set out. s div int (al_page_size a) \<in>
         set (old_pages (int (al_page_size a)) (map (\<lambda>s. s - 1) seq_lens) last_loc) \<union>
           (al_avail a - al_avail a')) \<and>
      (\<forall>i < length seq_lens.
         out ! i mod int (al_page_size a) = (seq_lens ! i - 1) mod int (al_page_size a))"
proof -
  let ?ps = "int (al_page_size a)" and ?pl = "map (\<lambda>s. s - 1) seq_lens"
  let ?n = "length (filter (\<lambda>s. s mod ?ps = 1) seq_lens)"
  define b where "b = refill (length (free_pages a) < length seq_lens) a"
  have i: "alloc_inv a" using assms(1) by (simp add: pg_inv_def)
  have ps: "1 < ?ps" using assms(2) by (simp add: decode_args_ok_def)
  note pre = decode_refill_enough[OF assms(2) i, folded b_def]
  note b = refill_inv[OF i, of "length (free_pages a) < length seq_lens", folded b_def]
  have al: "locs_aligned ?ps ?pl last_loc" and old: "distinct (old_pages ?ps ?pl last_loc @ free_pages b)"
    using assms(2) b(1,2)
    by (auto simp: decode_args_ok_def extend_args_ok_def Let_def alloc_inv_def al_pages_def al_avail_def)
  note d = alloc_inv_drop[OF b(1), of ?n]
  have pages: "s div ?ps \<in> set (old_pages ?ps ?pl last_loc) \<union>
      (al_avail a - al_avail (b\<lparr>free_pages := drop ?n (free_pages b)\<rparr>))"
    if "s \<in> set (extend_spec ?ps ?pl seq_lens last_loc (free_pages b))" for s
    using extend_spec_pages[OF pre al that] d(2) b(2) decode_new_pages[OF ps, of seq_lens]
    by (auto simp: al_avail_def al_pages_def dest: in_set_takeD)
  have off: "sum_list (take j (map2 (-) seq_lens ?pl)) = int j" if "j < length seq_lens" for j
  proof -
    have "take j (map2 (-) seq_lens ?pl) = replicate j 1"
      by (rule nth_equalityI) (use that in simp_all)
    then show ?thesis by (simp add: sum_list_replicate)
  qed
  have offs: "extend_spec ?ps ?pl seq_lens last_loc (free_pages b) ! j mod ?ps = (seq_lens ! j - 1) mod ?ps"
    if "j < length seq_lens" for j
    using extend_spec_offset[OF pre al, of j 0] that off[OF that] by simp
  show ?thesis
    using pg_alloc_decode_spec[OF assms, folded b_def] d b assms(1)
      extend_spec_distinct[OF pre al old] length_extend_spec[OF pre] pages offs
    by (auto simp: pg_inv_def extend_total_decode)
qed

theorem pg_alloc_decode_ok_witness:
  "\<exists>out a'. pg_alloc_decode demo_gpu demo_alloc [3, 5] [5, 31] = Inr (Some out, a') \<and>
     pg_inv a' \<and> length out = 2 \<and> distinct out"
  using pg_alloc_decode_ok[OF demo_alloc_inv demo_decode_args demo_gpu_order] by auto

text \<open>
  C25. Whatever sequence of page-aligned allocations and of releases a client of the page
  allocator makes, no call raises (the debug assertions included), no two blocks it holds
  share a page, no page it holds is free, and free and held pages together stay the pages
  the pool started with.
\<close>

theorem pg_pool_no_double_alloc:
  assumes "pg_inv a" and "\<And>n. PAlloc n \<in> set ops \<Longrightarrow> n mod al_page_size a = 0"
  shows "\<exists>a' live. pool_run pg_alloc pg_free ops (a, []) = Inr (a', live) \<and> pg_inv a' \<and>
    pool_state_ok (al_avail a) (al_avail a')
      (map (\<lambda>xs. (\<lambda>i. i div int (al_page_size a)) ` set xs) live)"
proof -
  have "ok_size' (al_geom a) n" if "PAlloc n \<in> set ops" "ok_size' = al_ok_size" for n ok_size'
    using that assms(2)[of n] by (simp add: al_ok_size_def al_geom_def)
  with pgp.run_ok[OF assms(1), of ops] obtain st where
    "pool_run pg_alloc pg_free ops (a, []) = Inr st" "pgp.client_ok (al_geom a) (al_avail a) st"
    by blast
  then show ?thesis
    by (cases st) (simp add: pgp.client_ok_def pgp.held_def al_page_of_def al_geom_def)
qed

theorem pg_pool_no_double_alloc_witness:
  "\<exists>a' live. pool_run pg_alloc pg_free [PAlloc 8, PFree 0, PAlloc 12] (demo_alloc, []) = Inr (a', live) \<and>
    pg_inv a' \<and> pool_state_ok (al_avail demo_alloc) (al_avail a')
      (map (\<lambda>xs. (\<lambda>i. i div int (al_page_size demo_alloc)) ` set xs) live)"
  by (rule pg_pool_no_double_alloc[OF demo_alloc_inv])
    (auto simp: demo_alloc_def pg_init_def pg_clear_def)

text \<open>C26. The same for the token allocator, whose blocks may have any length.\<close>

theorem tk_pool_no_double_alloc:
  assumes "tk_inv a"
  shows "\<exists>a' live. pool_run (\<lambda>a n. Inr (tk_alloc a n)) (\<lambda>a xs. Inr (tk_free a xs)) ops (a, [])
      = Inr (a', live) \<and> tk_inv a' \<and>
    pool_state_ok (al_avail a) (al_avail a') (map set live)"
proof -
  obtain st where st: "pool_run (\<lambda>a n. Inr (tk_alloc a n)) (\<lambda>a xs. Inr (tk_free a xs)) ops (a, []) = Inr st"
    "tkp.client_ok (al_geom a) (al_avail a) st"
    using tkp.run_ok[OF assms, of ops] by blast
  have "al_page_of (al_geom a) i = i" for i
    using assms by (simp add: al_page_of_def al_geom_def tk_inv_def)
  then show ?thesis using st by (cases st) (simp add: tkp.client_ok_def tkp.held_def)
qed

theorem tk_pool_no_double_alloc_witness:
  "\<exists>a' live. pool_run (\<lambda>a n. Inr (tk_alloc a n)) (\<lambda>a xs. Inr (tk_free a xs))
      [PAlloc 3, PAlloc 2, PFree 0, PAlloc 4] (tk_init 6 True, []) = Inr (a', live) \<and> tk_inv a' \<and>
    pool_state_ok (al_avail (tk_init 6 True)) (al_avail a') (map set live)"
  by (rule tk_pool_no_double_alloc)
    (simp add: tk_inv_def alloc_inv_def tk_init_def tk_clear_def al_pages_def al_num_pages_def upt_rec)

text \<open>
  C27. Freeing inside a group (\<^verbatim>\<open>free_group_begin\<close>, calls of \<^verbatim>\<open>free\<close>,
  \<^verbatim>\<open>free_group_end\<close>) has the effect of freeing everything at once: the pages of all
  freed indices, each once, become available, however the indices were grouped.
\<close>

theorem pg_free_group_batches:
  assumes "pg_inv a" and "al_freeable (al_geom a) (concat xss)"
    and "al_page_of (al_geom a) ` set (concat xss) \<inter> al_avail a = {}"
  shows "\<exists>b a'. foldR (\<lambda>xs a. pg_free a xs) xss (free_group_begin a) = Inr b \<and>
    al_avail b = al_avail a \<and> pg_free_group_end b = Inr a' \<and> pg_inv a' \<and>
    al_avail a' = al_avail a \<union> al_page_of (al_geom a) ` set (concat xss)"
proof -
  have inv: "alloc_inv a" and g: "is_not_in_free_group a" using assms(1) by (simp_all add: pg_inv_def)
  let ?grp = "\<lambda>gs. a\<lparr>is_not_in_free_group := False, free_group := gs\<rparr>"
  have dist: "distinct (free_pages a)" using inv by (simp add: alloc_inv_def al_pages_def)
  have step: "pg_free (?grp gs) xs = Inr (?grp (if xs = [] then gs else gs @ [xs]))" for gs xs
    using dist by (simp add: pg_free_def Let_def torch_unique_simps)
  have run: "foldR (\<lambda>xs a. pg_free a xs) ys (?grp gs) = Inr (?grp (gs @ filter (\<lambda>xs. xs \<noteq> []) ys))" for ys gs
    by (induction ys arbitrary: gs) (simp_all add: step)
  let ?b = "?grp (filter (\<lambda>xs. xs \<noteq> []) xss)"
  let ?c = "a\<lparr>free_group := filter (\<lambda>xs. xs \<noteq> []) xss\<rparr>"
  have cc: "concat (filter (\<lambda>xs. xs \<noteq> []) xss) = concat xss" by (induction xss) simp_all
  have b: "foldR (\<lambda>xs a. pg_free a xs) xss (free_group_begin a) = Inr ?b"
    using run[of xss "[]"] by (simp add: free_group_begin_def)
  have e: "pg_free_group_end ?b = pg_free ?c (concat xss)"
  proof -
    have eq: "?b\<lparr>is_not_in_free_group := True\<rparr> = ?c" using g by simp
    have nil: "pg_free x [] = Inr x" for x by (simp add: pg_free_def)
    have grp: "free_group ?c = filter (\<lambda>xs. xs \<noteq> []) xss" by simp
    show ?thesis
    proof (cases "filter (\<lambda>xs. xs \<noteq> []) xss = []")
      case True
      then have empty: "concat xss = []" using cc by (metis concat.simps(1))
      show ?thesis
        unfolding empty pg_free_group_end_def Let_def eq by (simp add: True nil)
    next
      case False
      then show ?thesis
        unfolding pg_free_group_end_def Let_def eq by (simp only: grp cc if_True simp_thms)
    qed
  qed
  have c: "pg_inv ?c" "al_geom ?c = al_geom a" "al_avail ?c = al_avail a"
    using assms(1) by (simp_all add: pg_inv_def alloc_inv_def al_geom_def al_avail_def al_pages_def al_num_pages_def)
  from pg_free_law[OF c(1), unfolded c(2,3), OF assms(2,3)] obtain a' where
    "pg_free ?c (concat xss) = Inr a'" "pg_inv a'"
    "al_avail a' = al_avail a \<union> al_page_of (al_geom a) ` set (concat xss)" by blast
  then show ?thesis using b e by (simp add: al_avail_def al_pages_def)
qed

theorem pg_free_group_batches_witness:
  "\<exists>b a'. foldR (\<lambda>xs a. pg_free a xs) [[4, 5], [], [6, 7]] (free_group_begin demo_alloc) = Inr b \<and>
    al_avail b = al_avail demo_alloc \<and> pg_free_group_end b = Inr a' \<and> pg_inv a' \<and>
    al_avail a' = al_avail demo_alloc \<union> al_page_of (al_geom demo_alloc) ` set (concat [[4, 5], [], [6, 7]])"
  by (rule pg_free_group_batches[OF demo_alloc_inv])
    (auto simp: demo_simps al_freeable_def al_page_of_def al_geom_def)

text \<open>
  With too few pages \<^verbatim>\<open>alloc_extend\<close> (debugging off) returns None and the same pages
  stay available.
\<close>

theorem pg_alloc_extend_full:
  assumes "pg_inv a" and "\<not> al_debug_mode a" and "length seq_lens = length prefix_lens"
    and "int (length (al_pages a)) <
      page_start (int (al_page_size a)) prefix_lens seq_lens (length prefix_lens)"
  shows "\<exists>a'. pg_alloc_extend g a prefix_lens seq_lens last_loc extend_num_tokens None = Inr (None, a') \<and>
    pg_inv a' \<and> al_avail a' = al_avail a"
proof -
  define c where "c = (length (free_pages a) < extend_num_tokens div al_page_size a + length prefix_lens + 1)"
  define b where "b = refill c a"
  have i: "alloc_inv a" using assms(1) by (simp add: pg_inv_def)
  note b = refill_inv[OF i, of c, folded b_def]
  have gm: "al_debug_mode b = al_debug_mode a" using b(3) by (simp add: al_geom_def)
  have "card (al_avail b) = length (al_pages b)" "card (al_avail a) = length (al_pages a)"
    using b(1) i by (simp_all add: alloc_inv_def al_avail_def distinct_card)
  then have "int (length (free_pages b)) <
      page_start (int (al_page_size a)) prefix_lens seq_lens (length prefix_lens)"
    using b(2) assms(4) by (simp add: al_pages_def)
  moreover have "get_num_new_pages seq_lens (int (al_page_size a)) (Some prefix_lens) False
      = Inr (page_start (int (al_page_size a)) prefix_lens seq_lens (length prefix_lens))"
    using assms(3) by (simp add: get_num_new_pages_def page_start_def)
  ultimately have "pg_alloc_extend g a prefix_lens seq_lens last_loc extend_num_tokens None = Inr (None, b)"
    using assms(2) unfolding pg_alloc_extend_def Let_def c_def[symmetric] b_def[symmetric] gm
    by simp
  then show ?thesis using b assms(1) by (simp add: pg_inv_def)
qed

theorem pg_alloc_extend_full_witness:
  "\<exists>a'. pg_alloc_extend demo_gpu (pg_init 8 4 False False) [0, 0] [9, 1] [-1, -1] 10 None = Inr (None, a') \<and>
    pg_inv a' \<and> al_avail a' = al_avail (pg_init 8 4 False False)"
  by (rule pg_alloc_extend_full) (simp_all add: pg_inv_def demo_simps upt_rec)


end
