(* ===== verification/RadixKey.thy ===== *)
theory RadixKey
  imports Prelude "HOL-Library.Sublist"
begin

text \<open>
  \<^verbatim>\<open>RadixKey\<close> of \<^verbatim>\<open>mem_cache/radix_cache.py\<close>: the key of a prefix-cache entry, a view of a
  token list as tokens or as overlapping bigrams, with an optional namespace.

  \<open>rk_units\<close> is the sequence of logical units the key stands for, each tagged with the
  namespace; slicing, matching and child keys are characterised by it.
\<close>

section \<open>Definitions\<close>

text \<open>The Python values used as dict keys: ints, strings and tuples.\<close>

datatype pyval = PInt int | PStr string | PTup "pyval list"

record radix_key =
  token_ids :: "int list"
  extra_key :: "string option"
  is_bigram :: bool

definition rk_len :: "radix_key \<Rightarrow> nat" where
  "rk_len k =
     (if is_bigram k
      then (let n = length (token_ids k) in if 0 < n then n - 1 else 0)
      else length (token_ids k))"

definition rk_iter :: "radix_key \<Rightarrow> pyval list" where
  "rk_iter k =
     (let t = token_ids k
      in if is_bigram k
         then map (\<lambda>i. PTup [PInt (t ! i), PInt (t ! (i + 1))]) [0..<length t - 1]
         else map PInt t)"

text \<open>\<^verbatim>\<open>key[a:b]\<close> for non-negative bounds; \<^verbatim>\<open>slice.indices\<close> clips them to the length.\<close>

definition rk_slice :: "radix_key \<Rightarrow> nat \<Rightarrow> nat \<Rightarrow> radix_key" where
  "rk_slice k a b =
     (let start = min a (rk_len k); stop = min b (rk_len k)
      in if is_bigram k
         then k\<lparr>token_ids := (if start < stop then pyslice (token_ids k) start (stop + 1) else [])\<rparr>
         else k\<lparr>token_ids := pyslice (token_ids k) start stop, is_bigram := False\<rparr>)"

definition rk_getitem :: "radix_key \<Rightarrow> int \<Rightarrow> radix_key result" where
  "rk_getitem k idx =
     (let idx = (if idx < 0 then idx + int (rk_len k) else idx)
      in if idx < 0 \<or> int (rk_len k) \<le> idx then Inl IndexError
         else Inr (rk_slice k (nat idx) (nat idx + 1)))"

definition rk_from :: "radix_key \<Rightarrow> nat \<Rightarrow> radix_key" where
  "rk_from k a = rk_slice k a (rk_len k)"

definition rk_upto :: "radix_key \<Rightarrow> nat \<Rightarrow> radix_key" where
  "rk_upto k b = rk_slice k 0 b"

definition page_aligned :: "radix_key \<Rightarrow> nat \<Rightarrow> radix_key" where
  "page_aligned k page_size =
     (if page_size = 1 then k
      else let aligned_len = rk_len k div page_size * page_size in rk_upto k aligned_len)"

definition maybe_to_bigram_view ::
  "radix_key \<Rightarrow> bool \<Rightarrow> 'v list option \<Rightarrow> radix_key \<times> 'v list option" where
  "maybe_to_bigram_view k is_eagle value =
     (if is_eagle \<and> \<not> is_bigram k
      then let k' = k\<lparr>is_bigram := True\<rparr>
           in (k', map_option (take (rk_len k')) value)
      else (k, value))"

text \<open>The loop \<^verbatim>\<open>for a, b in zip(t0, t1): if a != b: break; i += 1\<close>.\<close>

fun zip_match :: "'a list \<Rightarrow> 'a list \<Rightarrow> nat" where
  "zip_match (a # t0) (b # t1) = (if a \<noteq> b then 0 else Suc (zip_match t0 t1))"
| "zip_match _ _ = 0"

text \<open>The page loop of \<^verbatim>\<open>match\<close>; the page size is positive.\<close>

function page_match :: "nat \<Rightarrow> 'a list \<Rightarrow> 'a list \<Rightarrow> nat \<Rightarrow> nat \<Rightarrow> nat" where
  "page_match ps t0 t1 min_len i =
     (if i < min_len \<and> 0 < ps
      then (if pyslice t0 i (i + ps) \<noteq> pyslice t1 i (i + ps) then i
            else page_match ps t0 t1 min_len (i + ps))
      else i)"
  by pat_completeness auto
termination by (relation "measure (\<lambda>(ps, _, _, n, i). n - i)") auto

declare page_match.simps [simp del]

definition rk_match :: "radix_key \<Rightarrow> radix_key \<Rightarrow> nat \<Rightarrow> nat result" where
  "rk_match k other page_size =
     (if extra_key k \<noteq> extra_key other then Inl ValueError
      else let t0 = token_ids k; t1 = token_ids other
      in if is_bigram k
         then let i = zip_match t0 t1;
                  matched = nat (max 0 (min (int i - 1) (min (int (rk_len k)) (int (rk_len other)))))
              in Inr (if 1 < page_size then matched div page_size * page_size else matched)
         else if page_size = 1 then Inr (zip_match t0 t1)
         else Inr (page_match page_size t0 t1 (min (rk_len k) (rk_len other)) 0))"

definition child_key :: "radix_key \<Rightarrow> nat \<Rightarrow> pyval result" where
  "child_key k page_size =
     (let t = token_ids k
      in bindR
          (if is_bigram k
           then (if length t < page_size + 1 then Inl IndexError
                 else if page_size = 1 then Inr (PTup [PInt (t ! 0), PInt (t ! 1)])
                 else Inr (PTup (map (\<lambda>j. PTup [PInt (t ! j), PInt (t ! (j + 1))]) [0..<page_size])))
           else if page_size = 1
           then (if t = [] then Inl IndexError else Inr (PInt (t ! 0)))
           else Inr (PTup (map PInt (take page_size t))))
          (\<lambda>plain. Inr (case extra_key k of None \<Rightarrow> plain
                         | Some e \<Rightarrow> PTup [PStr e, plain])))"

text \<open>The logical units with their namespace.\<close>

type_synonym unit_key = "string option \<times> pyval"

definition rk_units :: "radix_key \<Rightarrow> unit_key list" where
  "rk_units k = map (Pair (extra_key k)) (rk_iter k)"

section \<open>Units\<close>

lemma length_rk_iter [simp]: "length (rk_iter k) = rk_len k"
  by (simp add: rk_iter_def rk_len_def Let_def)

lemma length_rk_units [simp]: "length (rk_units k) = rk_len k"
  by (simp add: rk_units_def)

lemma rk_slice_fields [simp]:
  "extra_key (rk_slice k a b) = extra_key k" "is_bigram (rk_slice k a b) = is_bigram k"
  by (simp_all add: rk_slice_def Let_def)

lemma rk_len_alt: "rk_len k = (if is_bigram k then length (token_ids k) - 1 else length (token_ids k))"
  by (simp add: rk_len_def Let_def)

lemma rk_len_slice: "rk_len (rk_slice k a b) = min b (rk_len k) - a"
  by (cases "is_bigram k") (auto simp: rk_slice_def rk_len_alt Let_def)

lemma rk_iter_slice: "rk_iter (rk_slice k a b) = pyslice (rk_iter k) a b"
proof (rule nth_equalityI)
  show "length (rk_iter (rk_slice k a b)) = length (pyslice (rk_iter k) a b)"
    by (simp add: rk_len_slice)
next
  fix i assume "i < length (rk_iter (rk_slice k a b))"
  then have i: "i < min b (rk_len k) - a" by (simp add: rk_len_slice)
  then have r: "pyslice (rk_iter k) a b ! i = rk_iter k ! (a + i)" by (simp add: pyslice_nth)
  show "rk_iter (rk_slice k a b) ! i = pyslice (rk_iter k) a b ! i"
  proof (cases "is_bigram k")
    case True
    have len: "a + i + 1 < length (token_ids k)" using i True by (auto simp: rk_len_alt)
    have a: "min a (rk_len k) = a" "a < min b (rk_len k)" using i by auto
    let ?t = "pyslice (token_ids k) a (min b (rk_len k) + 1)"
    have t: "token_ids (rk_slice k a b) = ?t" using True a by (simp add: rk_slice_def Let_def)
    have lt: "i < length ?t - 1" "?t ! i = token_ids k ! (a + i)" "?t ! (i + 1) = token_ids k ! (a + i + 1)"
      using i len by (auto simp: pyslice_nth)
    have "a + i < length (token_ids k) - 1" using len by simp
    then show ?thesis
      unfolding r using True lt by (simp add: rk_iter_def t Let_def)
  next
    case False
    let ?n = "length (token_ids k)"
    have l: "rk_len k = ?n" using False by (simp add: rk_len_alt)
    have t: "token_ids (rk_slice k a b) = pyslice (token_ids k) a (min b ?n)"
    proof -
      have "min a ?n = a" using i l by auto
      then show ?thesis using False l by (simp add: rk_slice_def Let_def)
    qed
    have "i < length (pyslice (token_ids k) a (min b ?n))" "a + i < ?n" using i l by auto
    then show ?thesis
      unfolding r using False by (simp add: rk_iter_def t Let_def pyslice_nth)
  qed
qed

lemma rk_units_slice: "rk_units (rk_slice k a b) = pyslice (rk_units k) a b"
  by (simp add: rk_units_def rk_iter_slice pyslice_def drop_map take_map)

lemma rk_units_from [simp]: "rk_units (rk_from k a) = drop a (rk_units k)"
  by (simp add: rk_from_def rk_units_slice pyslice_def)

lemma rk_units_upto [simp]: "rk_units (rk_upto k b) = take b (rk_units k)"
  by (simp add: rk_upto_def rk_units_slice pyslice_def)

lemma rk_from_upto_fields [simp]:
  "extra_key (rk_from k a) = extra_key k" "is_bigram (rk_from k a) = is_bigram k"
  "extra_key (rk_upto k a) = extra_key k" "is_bigram (rk_upto k a) = is_bigram k"
  "rk_len (rk_from k a) = rk_len k - a" "rk_len (rk_upto k a) = min a (rk_len k)"
  by (simp_all add: rk_from_def rk_upto_def rk_len_slice)

section \<open>Matching\<close>

text \<open>The common prefix, as a length.\<close>

definition lcp_len :: "'a list \<Rightarrow> 'a list \<Rightarrow> nat" where
  "lcp_len xs ys = length (longest_common_prefix xs ys)"

lemma lcp_len_simps [simp]:
  "lcp_len [] ys = 0" "lcp_len xs [] = 0"
  "lcp_len (x # xs) (y # ys) = (if x = y then Suc (lcp_len xs ys) else 0)"
  by (cases xs; simp add: lcp_len_def)+

lemma zip_match_lcp: "zip_match xs ys = lcp_len xs ys"
  by (induction xs ys rule: zip_match.induct) simp_all

lemma lcp_len_le: "lcp_len xs ys \<le> length xs" "lcp_len xs ys \<le> length ys"
  by (induction xs ys rule: zip_match.induct) simp_all

lemma lcp_len_take: "n \<le> lcp_len xs ys \<longleftrightarrow> n \<le> length xs \<and> n \<le> length ys \<and> take n xs = take n ys"
proof (induction xs ys arbitrary: n rule: zip_match.induct)
  case (1 a t0 b t1)
  then show ?case by (cases n) auto
qed auto

lemma lcp_len_map_inj: "inj f \<Longrightarrow> lcp_len (map f xs) (map f ys) = lcp_len xs ys"
  by (induction xs ys rule: zip_match.induct) (auto dest: injD)

lemma lcp_len_eqI:
  assumes "\<And>n. n \<le> a \<longleftrightarrow> n \<le> b"
  shows "a = (b::nat)"
  using assms[of a] assms[of b] by simp

text \<open>\<open>m\<close> matching tokens are \<open>m - 1\<close> matching bigrams.\<close>

definition bigrams :: "int list \<Rightarrow> pyval list" where
  "bigrams t = map (\<lambda>i. PTup [PInt (t ! i), PInt (t ! (i + 1))]) [0..<length t - 1]"

lemma length_bigrams [simp]: "length (bigrams t) = length t - 1"
  by (simp add: bigrams_def)

lemma bigrams_nth: "i < length t - 1 \<Longrightarrow> bigrams t ! i = PTup [PInt (t ! i), PInt (t ! (i + 1))]"
  by (simp add: bigrams_def)

lemma bigrams_take: "take n (bigrams t) = bigrams (take (n + 1) t)" if "0 < n"
  by (rule nth_equalityI) (use that in \<open>auto simp: bigrams_nth\<close>)

lemma bigrams_eq_iff:
  assumes "2 \<le> length s"
  shows "bigrams s = bigrams t \<longleftrightarrow> s = t"
proof
  assume eq: "bigrams s = bigrams t"
  then have "length s - 1 = length t - 1" by (metis length_bigrams)
  then have len: "length s = length t" using assms by linarith
  show "s = t"
  proof (rule nth_equalityI[OF len])
    fix i assume i: "i < length s"
    show "s ! i = t ! i"
    proof (cases "i < length s - 1")
      case True
      then have "bigrams s ! i = bigrams t ! i" using eq by simp
      with True len show ?thesis by (simp add: bigrams_nth)
    next
      case False
      with i assms obtain j where j: "i = Suc j" "j < length s - 1" by (cases i) auto
      then have "bigrams s ! j = bigrams t ! j" using eq by simp
      with j len show ?thesis by (simp add: bigrams_nth)
    qed
  qed
qed simp

lemma lcp_len_bigrams: "lcp_len (bigrams s) (bigrams t) = lcp_len s t - 1"
proof (rule lcp_len_eqI)
  fix n
  show "n \<le> lcp_len (bigrams s) (bigrams t) \<longleftrightarrow> n \<le> lcp_len s t - 1"
  proof (cases n)
    case (Suc m)
    have "n \<le> lcp_len (bigrams s) (bigrams t) \<longleftrightarrow>
        n \<le> length s - 1 \<and> n \<le> length t - 1 \<and> bigrams (take (n + 1) s) = bigrams (take (n + 1) t)"
      using Suc by (simp add: lcp_len_take bigrams_take)
    also have "\<dots> \<longleftrightarrow> n + 1 \<le> length s \<and> n + 1 \<le> length t \<and> take (n + 1) s = take (n + 1) t"
    proof (cases "n + 1 \<le> length s")
      case True
      then have "2 \<le> length (take (n + 1) s)" using Suc by simp
      then have "bigrams (take (n + 1) s) = bigrams (take (n + 1) t) \<longleftrightarrow> take (n + 1) s = take (n + 1) t"
        by (rule bigrams_eq_iff)
      moreover have "n \<le> length s - 1 \<longleftrightarrow> n + 1 \<le> length s" "n \<le> length t - 1 \<longleftrightarrow> n + 1 \<le> length t"
        using Suc by linarith+
      ultimately show ?thesis by blast
    qed (use Suc in auto)
    also have "\<dots> \<longleftrightarrow> n + 1 \<le> lcp_len s t" by (simp add: lcp_len_take)
    finally show ?thesis using Suc by auto
  qed simp
qed

lemma page_slice_eq_iff:
  assumes "i \<le> lcp_len t0 t1" "i + n \<le> length t0" "i + n \<le> length t1"
  shows "pyslice t0 i (i + n) = pyslice t1 i (i + n) \<longleftrightarrow> i + n \<le> lcp_len t0 t1"
proof -
  have t: "take i t0 = take i t1" using assms(1) lcp_len_take[of i t0 t1] by simp
  have "take (i + n) t = take i t @ pyslice t i (i + n)" for t :: "'a list"
    unfolding pyslice_def drop_take by (simp add: take_add)
  then have "take (i + n) t0 = take (i + n) t1 \<longleftrightarrow> pyslice t0 i (i + n) = pyslice t1 i (i + n)"
    using t by simp
  then show ?thesis using assms by (simp add: lcp_len_take)
qed

lemma dvd_add_le: "ps dvd i \<Longrightarrow> ps dvd n \<Longrightarrow> i < n \<Longrightarrow> i + ps \<le> (n::nat)"
  using dvd_imp_le[of ps "n - i"] dvd_diff_nat[of ps n i] by simp

lemma page_match_lcp:
  assumes "0 < ps" "ps dvd length t0" "ps dvd length t1" "ps dvd i" "i \<le> lcp_len t0 t1"
  shows "page_match ps t0 t1 (min (length t0) (length t1)) i = lcp_len t0 t1 div ps * ps"
  using assms(4,5)
proof (induction "min (length t0) (length t1) - i" arbitrary: i rule: less_induct)
  case less
  let ?m = "min (length t0) (length t1)"
  have md: "ps dvd ?m" using assms(2,3) by (simp add: min_def)
  have step: "page_match ps t0 t1 ?m i = (if i < ?m then
      if pyslice t0 i (i + ps) \<noteq> pyslice t1 i (i + ps) then i else page_match ps t0 t1 ?m (i + ps) else i)"
    using assms(1) by (subst page_match.simps) simp
  obtain q where q: "i = ps * q" using less.prems(1) by blast
  have fin: "lcp_len t0 t1 div ps * ps = i" if "lcp_len t0 t1 < i + ps"
  proof -
    have "lcp_len t0 t1 div ps = q"
      using that less.prems(2) assms(1) q by (intro div_nat_eqI) (simp_all add: mult.commute)
    then show ?thesis using q by (simp add: mult.commute)
  qed
  show ?case
  proof (cases "i < ?m")
    case True
    then have le: "i + ps \<le> length t0" "i + ps \<le> length t1"
      using dvd_add_le[OF less.prems(1) md] by auto
    show ?thesis
    proof (cases "i + ps \<le> lcp_len t0 t1")
      case more: True
      then have "page_match ps t0 t1 ?m i = page_match ps t0 t1 ?m (i + ps)"
        using step True page_slice_eq_iff[OF less.prems(2) le] by simp
      also have "\<dots> = lcp_len t0 t1 div ps * ps"
        using True assms(1) less.prems(1) more by (intro less.hyps) auto
      finally show ?thesis .
    next
      case False
      then show ?thesis
        using step True page_slice_eq_iff[OF less.prems(2) le] fin by simp
    qed
  next
    case False
    then have "lcp_len t0 t1 < i + ps" using lcp_len_le[of t0 t1] assms(1) by linarith
    then show ?thesis unfolding step if_not_P[OF False] by (rule fin[symmetric])
  qed
qed

lemma rk_iter_alt: "rk_iter k = (if is_bigram k then bigrams (token_ids k) else map PInt (token_ids k))"
  by (simp add: rk_iter_def bigrams_def Let_def)

lemma inj_PInt: "inj PInt"
  by (simp add: inj_def)

lemma rk_match_units:
  assumes "extra_key k = extra_key o'" "is_bigram k = is_bigram o'"
    "0 < ps" "ps dvd rk_len k" "ps dvd rk_len o'"
  shows "rk_match k o' ps = Inr (lcp_len (rk_units k) (rk_units o') div ps * ps)"
proof -
  have u: "lcp_len (rk_units k) (rk_units o') = lcp_len (rk_iter k) (rk_iter o')"
    using assms(1) by (simp add: rk_units_def lcp_len_map_inj inj_def)
  show ?thesis
  proof (cases "is_bigram k")
    case True
    let ?i = "lcp_len (token_ids k) (token_ids o')"
    have l: "lcp_len (rk_iter k) (rk_iter o') = ?i - 1"
      using True assms(2) by (simp add: rk_iter_alt lcp_len_bigrams)
    have m: "nat (max 0 (min (int ?i - 1) (min (int (rk_len k)) (int (rk_len o'))))) = ?i - 1"
      using True assms(2) lcp_len_le[of "token_ids k" "token_ids o'"] by (simp add: rk_len_alt)
    have "rk_match k o' ps = Inr (if 1 < ps then (?i - 1) div ps * ps else ?i - 1)"
      using True assms(1) unfolding rk_match_def Let_def zip_match_lcp m by simp
    moreover have "(if 1 < ps then (?i - 1) div ps * ps else ?i - 1) = (?i - 1) div ps * ps"
      using assms(3) by (cases "ps = 1") simp_all
    ultimately show ?thesis unfolding u l by simp
  next
    case False
    have l: "lcp_len (rk_iter k) (rk_iter o') = lcp_len (token_ids k) (token_ids o')"
      using False assms(2) by (simp add: rk_iter_alt lcp_len_map_inj inj_PInt)
    have len: "rk_len k = length (token_ids k)" "rk_len o' = length (token_ids o')"
      using False assms(2) by (simp_all add: rk_len_alt)
    then show ?thesis
      using False assms l u page_match_lcp[OF assms(3), of "token_ids k" "token_ids o'" 0]
      by (simp add: rk_match_def Let_def zip_match_lcp)
  qed
qed

section \<open>Child keys\<close>

definition plain_key :: "nat \<Rightarrow> pyval list \<Rightarrow> pyval" where
  "plain_key ps us = (if ps = 1 then hd us else PTup (take ps us))"

definition tag_key :: "string option \<Rightarrow> pyval \<Rightarrow> pyval" where
  "tag_key e plain = (case e of None \<Rightarrow> plain | Some e \<Rightarrow> PTup [PStr e, plain])"

lemma child_key_eq:
  assumes "0 < ps" "ps \<le> rk_len k"
  shows "child_key k ps = Inr (tag_key (extra_key k) (plain_key ps (rk_iter k)))"
proof (cases "is_bigram k")
  case True
  have len: "ps + 1 \<le> length (token_ids k)" using assms True by (auto simp: rk_len_alt)
  have t: "take ps (bigrams (token_ids k)) =
      map (\<lambda>j. PTup [PInt (token_ids k ! j), PInt (token_ids k ! (j + 1))]) [0..<ps]"
    using len by (intro nth_equalityI) (auto simp: bigrams_nth)
  have "hd (bigrams (token_ids k)) = PTup [PInt (token_ids k ! 0), PInt (token_ids k ! 1)]" if "ps = 1"
    using that len by (simp add: hd_conv_nth bigrams_nth flip: length_greater_0_conv)
  with True len t show ?thesis
    by (auto simp: child_key_def Let_def rk_iter_alt plain_key_def tag_key_def split: option.splits)
next
  case False
  then have len: "ps \<le> length (token_ids k)" using assms by (simp add: rk_len_alt)
  with assms(1) have "token_ids k \<noteq> []" by auto
  with False show ?thesis
    by (auto simp: child_key_def Let_def rk_iter_alt plain_key_def tag_key_def hd_map hd_conv_nth take_map
        split: option.splits)
qed

lemma rk_iter_shape: "u \<in> set (rk_iter k) \<Longrightarrow> (\<exists>i. u = PInt i) \<or> (\<exists>i j. u = PTup [PInt i, PInt j])"
  by (auto simp: rk_iter_def Let_def split: if_splits)

lemma tag_key_inj:
  assumes "0 < ps" "ps \<le> rk_len k" "ps \<le> rk_len o'" "is_bigram k = is_bigram o'"
    and eq: "tag_key (extra_key k) (plain_key ps (rk_iter k)) = tag_key (extra_key o') (plain_key ps (rk_iter o'))"
  shows "extra_key k = extra_key o' \<and> plain_key ps (rk_iter k) = plain_key ps (rk_iter o')"
proof -
  have no_str: "plain_key ps (rk_iter x) \<noteq> PTup [PStr e, p]" if "ps \<le> rk_len x" for x e p
  proof -
    have "rk_iter x \<noteq> []" using that assms(1) by (metis length_0_conv length_rk_iter not_le)
    then obtain u us where u: "rk_iter x = u # us" by (cases "rk_iter x") auto
    then have "(\<exists>i. u = PInt i) \<or> (\<exists>i j. u = PTup [PInt i, PInt j])" using rk_iter_shape[of u x] by simp
    then show ?thesis using u assms(1) by (cases ps) (auto simp: plain_key_def)
  qed
  show ?thesis
    using eq no_str[OF assms(2)] no_str[OF assms(2), symmetric] no_str[OF assms(3)]
      no_str[OF assms(3), symmetric]
    by (cases "extra_key k"; cases "extra_key o'") (auto simp: tag_key_def)
qed

lemma child_key_units:
  assumes "0 < ps" "ps \<le> rk_len k" "ps \<le> rk_len o'" "is_bigram k = is_bigram o'"
  shows "child_key k ps = child_key o' ps \<longleftrightarrow> take ps (rk_units k) = take ps (rk_units o')"
proof -
  have ne: "take ps (rk_iter k) \<noteq> []" "take ps (rk_iter o') \<noteq> []"
    using assms(1-3) by (simp_all flip: length_greater_0_conv)
  have plain: "plain_key ps (rk_iter k) = plain_key ps (rk_iter o') \<longleftrightarrow> take ps (rk_iter k) = take ps (rk_iter o')"
  proof (cases "ps = 1")
    case True
    with ne show ?thesis by (cases "rk_iter k"; cases "rk_iter o'") (simp_all add: plain_key_def)
  qed (simp add: plain_key_def)
  have "take ps (rk_units k) = take ps (rk_units o') \<longleftrightarrow>
      extra_key k = extra_key o' \<and> take ps (rk_iter k) = take ps (rk_iter o')"
    using ne unfolding rk_units_def take_map
    by (cases "take ps (rk_iter k)"; cases "take ps (rk_iter o')") (auto simp: inj_map_eq_map inj_def)
  then show ?thesis
    using tag_key_inj[OF assms] plain by (auto simp: child_key_eq assms)
qed

end
