(* ===== verification/BlockHash.thy ===== *)
theory BlockHash
  imports RadixKey
begin

text \<open>
  Position-aware block hashes: \<^verbatim>\<open>RadixKey.hash_page\<close> and the helpers of
  \<^verbatim>\<open>mem_cache/utils.py\<close>. The digest function is a parameter \<open>sha\<close> from bytes to the
  hexadecimal digest.
\<close>

section \<open>Bytes and digests\<close>

type_synonym digest = "nat list \<Rightarrow> string"

definition to_bytes4 :: "int \<Rightarrow> nat list result" where
  "to_bytes4 t =
     (if 0 \<le> t \<and> t < 2 ^ 32
      then Inr (map (\<lambda>i. nat (t div 256 ^ i mod 256)) [0..<4])
      else Inl OverflowError)"

definition hex_val :: "char \<Rightarrow> nat result" where
  "hex_val c =
     (let n = of_char c :: nat
      in if 48 \<le> n \<and> n \<le> 57 then Inr (n - 48)
         else if 97 \<le> n \<and> n \<le> 102 then Inr (n - 87)
         else if 65 \<le> n \<and> n \<le> 70 then Inr (n - 55)
         else Inl ValueError)"

text \<open>\<^verbatim>\<open>bytes.fromhex\<close> on a digest, which has no blanks.\<close>

fun fromhex :: "string \<Rightarrow> nat list result" where
  "fromhex [] = Inr []"
| "fromhex [_] = Inl ValueError"
| "fromhex (a # b # s) =
     bindR (hex_val a) (\<lambda>x. bindR (hex_val b) (\<lambda>y. bindR (fromhex s) (\<lambda>bs. Inr ((16 * x + y) # bs))))"

definition prior_bytes :: "string option \<Rightarrow> nat list result" where
  "prior_bytes prior_hash =
     (case prior_hash of None \<Rightarrow> Inr [] | Some h \<Rightarrow> if h = [] then Inr [] else fromhex h)"

definition hash_page :: "digest \<Rightarrow> radix_key \<Rightarrow> nat \<Rightarrow> nat \<Rightarrow> string option \<Rightarrow> string result" where
  "hash_page sha k start end' prior_hash =
     bindR (prior_bytes prior_hash) (\<lambda>prior.
     bindR (mapR (\<lambda>j.
              if is_bigram k
              then bindR (nthR (token_ids k) j) (\<lambda>a. bindR (to_bytes4 a) (\<lambda>ba.
                   bindR (nthR (token_ids k) (j + 1)) (\<lambda>b. bindR (to_bytes4 b) (\<lambda>bb. Inr (ba @ bb)))))
              else bindR (nthR (token_ids k) j) to_bytes4) [start..<end']) (\<lambda>bs.
     Inr (sha (prior @ concat bs))))"

text \<open>\<^verbatim>\<open>get_hash_str\<close> of a list of tokens or of token pairs.\<close>

fun unit_bytes :: "pyval \<Rightarrow> nat list result" where
  "unit_bytes (PInt t) = to_bytes4 t"
| "unit_bytes (PTup us) =
     bindR (mapR (\<lambda>u. case u of PInt t \<Rightarrow> to_bytes4 t | _ \<Rightarrow> Inl AttributeError) us)
       (\<lambda>bs. Inr (concat bs))"
| "unit_bytes (PStr _) = Inl AttributeError"

definition get_hash_str :: "digest \<Rightarrow> pyval list \<Rightarrow> string option \<Rightarrow> string result" where
  "get_hash_str sha ts prior_hash =
     bindR (prior_bytes prior_hash) (\<lambda>prior.
     bindR (mapR unit_bytes ts) (\<lambda>bs. Inr (sha (prior @ concat bs))))"

fun hex_int :: "nat \<Rightarrow> string \<Rightarrow> nat result" where
  "hex_int acc [] = Inr acc"
| "hex_int acc (c # s) = bindR (hex_val c) (\<lambda>x. hex_int (16 * acc + x) s)"

definition hash_str_to_int64 :: "string \<Rightarrow> int result" where
  "hash_str_to_int64 h =
     (if take 16 h = [] then Inl ValueError
      else bindR (hex_int 0 (take 16 h)) (\<lambda>v.
           if 2 ^ 63 \<le> v then Inr (int v - 2 ^ 64) else Inr (int v)))"

section \<open>Hashes of a node\<close>

text \<open>The pages \<^verbatim>\<open>range(0, n, page_size)\<close> with their ends.\<close>

definition page_ranges :: "nat \<Rightarrow> nat \<Rightarrow> (nat \<times> nat) list" where
  "page_ranges ps n =
     map (\<lambda>i. (i * ps, min (i * ps + ps) n)) [0..<(n + ps - 1) div ps]"

fun hash_chain :: "digest \<Rightarrow> radix_key \<Rightarrow> (nat \<times> nat) list \<Rightarrow> string option \<Rightarrow> string list result" where
  "hash_chain sha k [] prior = Inr []"
| "hash_chain sha k ((s, e) # rs) prior =
     bindR (hash_page sha k s e prior) (\<lambda>h.
     bindR (hash_chain sha k rs (Some h)) (\<lambda>hs. Inr (h # hs)))"

definition split_node_hash_value ::
  "string list option \<Rightarrow> nat \<Rightarrow> nat \<Rightarrow> string list option \<times> string list option" where
  "split_node_hash_value child_hash_value split_len page_size =
     (case child_hash_value of
        None \<Rightarrow> (None, None)
      | Some hs \<Rightarrow>
          let split_pages = (if page_size = 1 then split_len else split_len div page_size)
          in (Some (take split_pages hs), Some (drop split_pages hs)))"

section \<open>Lemmas\<close>

lemma mapR_cong: "(\<And>x. x \<in> set xs \<Longrightarrow> f x = g x) \<Longrightarrow> mapR f xs = mapR g xs"
  by (induction xs) simp_all

lemma mapR_map: "mapR f (map g xs) = mapR (\<lambda>x. f (g x)) xs"
  by (induction xs) simp_all

text \<open>Hashing a page of the key is hashing its logical units.\<close>

lemma hash_page_units:
  assumes "e \<le> rk_len k"
  shows "hash_page sha k s e prior = get_hash_str sha (pyslice (rk_iter k) s e) prior"
proof -
  let ?f = "\<lambda>j. if is_bigram k
      then bindR (nthR (token_ids k) j) (\<lambda>a. bindR (to_bytes4 a) (\<lambda>ba.
           bindR (nthR (token_ids k) (j + 1)) (\<lambda>b. bindR (to_bytes4 b) (\<lambda>bb. Inr (ba @ bb)))))
      else bindR (nthR (token_ids k) j) to_bytes4"
  have sl: "pyslice (rk_iter k) s e = map (\<lambda>j. rk_iter k ! j) [s..<e]"
    by (rule nth_equalityI) (use assms in \<open>auto simp: pyslice_nth\<close>)
  have "?f j = unit_bytes (rk_iter k ! j)" if "j \<in> set [s..<e]" for j
  proof (cases "is_bigram k")
    case True
    have j: "j < length (token_ids k) - 1" using that assms True by (auto simp: rk_len_alt)
    then have "rk_iter k ! j = PTup [PInt (token_ids k ! j), PInt (token_ids k ! (j + 1))]"
      using True by (simp add: rk_iter_alt bigrams_nth)
    then show ?thesis
      using True j by (cases "to_bytes4 (token_ids k ! j)"; cases "to_bytes4 (token_ids k ! (j + 1))")
        (auto simp: nthR_def bindR_def)
  next
    case False
    then show ?thesis using that assms by (auto simp: rk_iter_alt rk_len_alt nthR_def)
  qed
  then have "mapR ?f [s..<e] = mapR unit_bytes (pyslice (rk_iter k) s e)"
    unfolding sl mapR_map by (rule mapR_cong)
  then show ?thesis by (simp only: hash_page_def get_hash_str_def)
qed

lemma split_hash_append:
  assumes "split_node_hash_value (Some hs) n ps = (Some a, Some b)"
  shows "a @ b = hs"
  using assms by (auto simp: split_node_hash_value_def Let_def)

end
