(* ===== verification/KeyProps.thy ===== *)
theory KeyProps
  imports BlockHash
begin

text \<open>
  Properties of radix keys and of block hashes: matching, dict keys and namespaces, and the
  stability of the position-aware hashes under splitting.
\<close>

section \<open>Keys\<close>

text \<open>
  C33. On page-aligned keys of one namespace \<^verbatim>\<open>RadixKey.match\<close> returns the length of the
  longest common prefix of the logical units, tokens or bigrams, rounded down to whole
  pages; the result is page aligned and within both keys.
\<close>

theorem match_common_prefix:
  assumes "extra_key k = extra_key o'" "is_bigram k = is_bigram o'" "0 < ps" "ps dvd rk_len k" "ps dvd rk_len o'"
  shows "\<exists>m. rk_match k o' ps = Inr m \<and> ps dvd m \<and> m \<le> rk_len k \<and> m \<le> rk_len o' \<and>
    take m (rk_iter k) = take m (rk_iter o') \<and>
    (\<forall>j. ps dvd j \<longrightarrow> j \<le> rk_len k \<longrightarrow> j \<le> rk_len o' \<longrightarrow> take j (rk_iter k) = take j (rk_iter o') \<longrightarrow> j \<le> m)"
proof -
  let ?l = "lcp_len (rk_units k) (rk_units o')"
  let ?m = "?l div ps * ps"
  have u: "?l = lcp_len (rk_iter k) (rk_iter o')"
    using assms(1) by (simp add: rk_units_def lcp_len_map_inj inj_def)
  have "?m \<le> lcp_len (rk_iter k) (rk_iter o')" unfolding u by simp
  then have m: "?m \<le> rk_len k" "?m \<le> rk_len o'" "take ?m (rk_iter k) = take ?m (rk_iter o')"
    using lcp_len_take[of ?m "rk_iter k" "rk_iter o'"] by simp_all
  have "j \<le> ?m" if "ps dvd j" "j \<le> rk_len k" "j \<le> rk_len o'" "take j (rk_iter k) = take j (rk_iter o')" for j
  proof -
    have "j \<le> ?l" unfolding u lcp_len_take using that by simp
    then have "j div ps \<le> ?l div ps" by (rule div_le_mono)
    then have "j div ps * ps \<le> ?m" by simp
    then show ?thesis using that(1) by simp
  qed
  then show ?thesis using m rk_match_units[OF assms] by (intro exI[of _ ?m]) simp
qed

theorem match_common_prefix_witness:
  "\<exists>m. rk_match \<lparr>token_ids = [1, 2, 3, 4], extra_key = Some ''lora'', is_bigram = False\<rparr>
      \<lparr>token_ids = [1, 2, 3, 9, 5, 6], extra_key = Some ''lora'', is_bigram = False\<rparr> 2 = Inr m \<and> m \<le> 4"
  using match_common_prefix[of "\<lparr>token_ids = [1, 2, 3, 4], extra_key = Some ''lora'', is_bigram = False\<rparr>"
      "\<lparr>token_ids = [1, 2, 3, 9, 5, 6], extra_key = Some ''lora'', is_bigram = False\<rparr>" 2]
  by (auto simp: rk_len_def)


text \<open>
  Two keys of the same kind have the same dict key exactly when they agree on the namespace
  and on the first page of units: entries of different namespaces never share a child.
\<close>

theorem child_key_namespace:
  assumes "0 < ps" "ps \<le> rk_len k" "ps \<le> rk_len o'" "is_bigram k = is_bigram o'"
  shows "child_key k ps = child_key o' ps \<longleftrightarrow>
    extra_key k = extra_key o' \<and> take ps (rk_iter k) = take ps (rk_iter o')"
proof -
  have "take ps (rk_units k) = take ps (rk_units o') \<longleftrightarrow>
      extra_key k = extra_key o' \<and> take ps (rk_iter k) = take ps (rk_iter o')"
  proof
    assume eq: "take ps (rk_units k) = take ps (rk_units o')"
    have "map snd (take ps (rk_units x)) = take ps (rk_iter x)" for x
      by (simp add: rk_units_def take_map[symmetric] o_def)
    moreover have "take ps (rk_units k) ! 0 = take ps (rk_units o') ! 0" using eq by simp
    then have "extra_key k = extra_key o'" using assms(1-3) by (simp add: rk_units_def)
    ultimately show "extra_key k = extra_key o' \<and> take ps (rk_iter k) = take ps (rk_iter o')" using eq by metis
  qed (simp add: rk_units_def take_map)
  then show ?thesis using child_key_units[OF assms] by simp
qed

theorem child_key_namespace_witness:
  "child_key \<lparr>token_ids = [1, 2, 3], extra_key = Some ''a'', is_bigram = True\<rparr> 2 \<noteq>
   child_key \<lparr>token_ids = [1, 2, 3], extra_key = Some ''b'', is_bigram = True\<rparr> 2"
  using child_key_namespace[of 2 "\<lparr>token_ids = [1, 2, 3], extra_key = Some ''a'', is_bigram = True\<rparr>"
      "\<lparr>token_ids = [1, 2, 3], extra_key = Some ''b'', is_bigram = True\<rparr>"]
  by (simp add: rk_len_def)

section \<open>Block hashes\<close>

lemma page_ranges_aligned:
  assumes "0 < ps"
  shows "page_ranges ps (q * ps) = map (\<lambda>i. (i * ps, i * ps + ps)) [0..<q]"
proof -
  have "(q * ps + ps - 1) div ps = q" using assms by (intro div_nat_eqI) (simp_all add: mult.commute)
  moreover have "min (i * ps + ps) (q * ps) = i * ps + ps" if "i < q" for i
  proof -
    have "(i + 1) * ps \<le> q * ps" using that by (intro mult_le_mono1) simp
    then show ?thesis by simp
  qed
  ultimately show ?thesis by (simp add: page_ranges_def)
qed

text \<open>The chain over the units of the pages.\<close>

fun unit_chain :: "digest \<Rightarrow> pyval list list \<Rightarrow> string option \<Rightarrow> string list result" where
  "unit_chain sha [] prior = Inr []"
| "unit_chain sha (us # uss) prior =
     bindR (get_hash_str sha us prior) (\<lambda>h. bindR (unit_chain sha uss (Some h)) (\<lambda>hs. Inr (h # hs)))"

lemma hash_chain_units:
  "\<forall>(s, e) \<in> set rs. e \<le> rk_len k \<Longrightarrow>
   hash_chain sha k rs prior = unit_chain sha (map (\<lambda>(s, e). pyslice (rk_iter k) s e) rs) prior"
proof (induction rs arbitrary: prior)
  case (Cons r rs)
  then show ?case by (cases r) (auto simp: hash_page_units)
qed simp

lemma unit_chain_append:
  "unit_chain sha (xs @ ys) prior = Inr hs \<Longrightarrow> xs \<noteq> [] \<Longrightarrow>
   unit_chain sha xs prior = Inr (take (length xs) hs) \<and>
   unit_chain sha ys (Some (last (take (length xs) hs))) = Inr (drop (length xs) hs)"
proof (induction xs arbitrary: prior hs)
  case (Cons x xs)
  from Cons.prems(1) obtain h hs' where h: "get_hash_str sha x prior = Inr h" "hs = h # hs'"
    "unit_chain sha (xs @ ys) (Some h) = Inr hs'" by (auto simp: bindR_eq_Inr)
  show ?case
  proof (cases "xs = []")
    case True
    then show ?thesis using h by simp
  next
    case False
    note ih = Cons.IH[OF h(3) False]
    have "take (length xs) hs' \<noteq> []"
    proof
      assume e: "take (length xs) hs' = []"
      have "unit_chain sha xs (Some h) \<noteq> Inr []" using False by (cases xs) (auto simp: bindR_def split: sum.splits)
      then show False using ih e by simp
    qed
    then show ?thesis using ih h by simp
  qed
qed simp

lemma aligned_pages:
  assumes "0 < ps" "rk_len k = q * ps"
  shows "map (\<lambda>(s, e). pyslice (rk_iter k) s e) (page_ranges ps (rk_len k)) =
    map (\<lambda>i. take ps (drop (i * ps) (rk_iter k))) [0..<q]"
    "\<forall>(s, e) \<in> set (page_ranges ps (rk_len k)). e \<le> rk_len k"
proof -
  have "i * ps + ps \<le> q * ps" if "i < q" for i
  proof -
    have "(i + 1) * ps \<le> q * ps" using that by (intro mult_le_mono1) simp
    then show ?thesis by simp
  qed
  then show "map (\<lambda>(s, e). pyslice (rk_iter k) s e) (page_ranges ps (rk_len k)) =
    map (\<lambda>i. take ps (drop (i * ps) (rk_iter k))) [0..<q]"
    "\<forall>(s, e) \<in> set (page_ranges ps (rk_len k)). e \<le> rk_len k"
    unfolding assms(2) page_ranges_aligned[OF assms(1)] by (auto simp: pyslice_def take_drop add.commute)
qed

text \<open>
  C35. The block hashes of a node survive a split: when a node with hashes \<open>hs\<close> is split at a
  page boundary, \<^verbatim>\<open>split_node_hash_value\<close> gives each half exactly the hashes that
  \<^verbatim>\<open>compute_node_hash_values\<close> would compute for it, the lower half continuing the chain of
  the upper one. A block is announced under one hash for as long as it is cached.
\<close>

theorem split_keeps_hashes:
  assumes "0 < ps" "rk_len k = q * ps" "m = j * ps" "0 < j" "j \<le> q"
    "hash_chain sha k (page_ranges ps (rk_len k)) prior = Inr hs"
  shows "\<exists>a b. split_node_hash_value (Some hs) m ps = (Some a, Some b) \<and>
    hash_chain sha (rk_upto k m) (page_ranges ps (rk_len (rk_upto k m))) prior = Inr a \<and>
    hash_chain sha (rk_from k m) (page_ranges ps (rk_len (rk_from k m))) (Some (last a)) = Inr b"
proof -
  let ?u = "rk_upto k m" and ?f = "rk_from k m"
  have jq: "j * ps \<le> q * ps" using assms(5) by (rule mult_le_mono1)
  have lu: "rk_len ?u = j * ps" using jq assms(2,3) by simp
  have lf: "rk_len ?f = (q - j) * ps" using assms(2,3) by (simp add: diff_mult_distrib)
  have iter: "rk_iter ?u = take m (rk_iter k)" "rk_iter ?f = drop m (rk_iter k)"
    by (simp_all add: rk_upto_def rk_from_def rk_iter_slice pyslice_def)
  let ?p = "\<lambda>i. take ps (drop (i * ps) (rk_iter k))"
  have q: "[0..<q] = [0..<j] @ map (\<lambda>i. i + j) [0..<q - j]"
    using assms(5) upt_add_eq_append[of 0 j "q - j"] by (simp add: map_add_upt)
  have "unit_chain sha (map ?p [0..<j] @ map (\<lambda>i. ?p (i + j)) [0..<q - j]) prior = Inr hs"
    using assms(6) hash_chain_units[OF aligned_pages(2)[OF assms(1,2)]]
    unfolding aligned_pages(1)[OF assms(1,2)] q by (simp add: o_def)
  from unit_chain_append[OF this] assms(4)
  have c: "unit_chain sha (map ?p [0..<j]) prior = Inr (take j hs)"
    "unit_chain sha (map (\<lambda>i. ?p (i + j)) [0..<q - j]) (Some (last (take j hs))) = Inr (drop j hs)" by simp_all
  have mu: "map (\<lambda>i. take ps (drop (i * ps) (rk_iter ?u))) [0..<j] = map ?p [0..<j]"
  proof (rule map_cong[OF refl])
    fix i assume "i \<in> set [0..<j]"
    then have "(i + 1) * ps \<le> j * ps" by (intro mult_le_mono1) simp
    then have "ps \<le> m - i * ps" unfolding assms(3) by simp
    then show "take ps (drop (i * ps) (rk_iter ?u)) = ?p i" unfolding iter drop_take by simp
  qed
  have mf: "map (\<lambda>i. take ps (drop (i * ps) (rk_iter ?f))) [0..<q - j] = map (\<lambda>i. ?p (i + j)) [0..<q - j]"
    unfolding iter by (simp add: assms(3) add_mult_distrib)
  have "hash_chain sha ?u (page_ranges ps (rk_len ?u)) prior = Inr (take j hs)"
    by (simp only: hash_chain_units[OF aligned_pages(2)[OF assms(1) lu]] aligned_pages(1)[OF assms(1) lu] mu c)
  moreover have "hash_chain sha ?f (page_ranges ps (rk_len ?f)) (Some (last (take j hs))) = Inr (drop j hs)"
    by (simp only: hash_chain_units[OF aligned_pages(2)[OF assms(1) lf]] aligned_pages(1)[OF assms(1) lf] mf c)
  moreover have "split_node_hash_value (Some hs) m ps = (Some (take j hs), Some (drop j hs))"
    using assms(1,3) by (simp add: split_node_hash_value_def)
  ultimately show ?thesis by blast
qed

theorem split_keeps_hashes_witness:
  "\<exists>hs a b. hash_chain (\<lambda>bs. replicate (length bs) (CHR ''f'')) \<lparr>token_ids = [1, 2, 3, 4], extra_key = None, is_bigram = False\<rparr>
       (page_ranges 2 4) None = Inr hs \<and> split_node_hash_value (Some hs) 2 2 = (Some a, Some b)"
proof -
  let ?k = "\<lparr>token_ids = [1, 2, 3, 4], extra_key = None, is_bigram = False\<rparr>"
    and ?sha = "\<lambda>bs :: nat list. replicate (length bs) (CHR ''f'')"
  obtain hs where hs: "hash_chain ?sha ?k (page_ranges 2 (rk_len ?k)) None = Inr hs"
    by (simp add: page_ranges_def rk_len_def hash_page_def prior_bytes_def nthR_def to_bytes4_def upt_rec hex_val_def of_char_def)
  have l: "rk_len ?k = 4" by (simp add: rk_len_def)
  from split_keeps_hashes[of 2 ?k 2 2 1 ?sha None hs] hs show ?thesis unfolding l by auto
qed

text \<open>
  The block identifiers of the events are signed 64-bit integers: whatever hexadecimal
  digest is given, \<^verbatim>\<open>hash_str_to_int64\<close> returns a value between \<open>- 2 ^ 63\<close> and \<open>2 ^ 63 - 1\<close>.
\<close>

lemma hex_val_bound: "hex_val ch = Inr v \<Longrightarrow> v < 16"
  by (auto simp: hex_val_def Let_def split: if_splits)

lemma hex_int_bound: "hex_int acc s = Inr v \<Longrightarrow> v < (acc + 1) * 16 ^ length s"
proof (induction s arbitrary: acc)
  case (Cons ch s)
  then obtain x where x: "hex_val ch = Inr x" "hex_int (16 * acc + x) s = Inr v" by (auto simp: bindR_eq_Inr)
  have "v < (16 * acc + x + 1) * 16 ^ length s" by (rule Cons.IH[OF x(2)])
  also have "\<dots> \<le> (16 * (acc + 1)) * 16 ^ length s" using hex_val_bound[OF x(1)] by (intro mult_le_mono1) simp
  finally show ?case by (simp add: algebra_simps)
qed simp

theorem hash_int64_bounds:
  assumes "hash_str_to_int64 h = Inr v"
  shows "- (2 ^ 63) \<le> v \<and> v < 2 ^ 63"
proof -
  from assms obtain w where w: "hex_int 0 (take 16 h) = Inr w" "v = (if 2 ^ 63 \<le> w then int w - 2 ^ 64 else int w)"
    by (auto simp: hash_str_to_int64_def bindR_eq_Inr split: if_splits)
  have "w < (0 + 1) * 16 ^ length (take 16 h)" by (rule hex_int_bound[OF w(1)])
  then have "w < 16 ^ length (take 16 h)" by simp
  also have "\<dots> \<le> (16 :: nat) ^ 16" by (rule power_increasing) simp_all
  finally have "int w < 2 ^ 64" by simp
  moreover have "\<not> 2 ^ 63 \<le> w \<Longrightarrow> int w < 2 ^ 63"
  proof -
    assume "\<not> 2 ^ 63 \<le> w"
    then have "int w < int (2 ^ 63)" by linarith
    then show "int w < 2 ^ 63" by simp
  qed
  moreover have "2 ^ 63 \<le> w \<Longrightarrow> 2 ^ 63 \<le> int w"
  proof -
    assume "2 ^ 63 \<le> w"
    then have "int (2 ^ 63) \<le> int w" by linarith
    then show "2 ^ 63 \<le> int w" by simp
  qed
  ultimately show ?thesis using w(2) by auto
qed

theorem hash_int64_bounds_witness:
  "\<exists>v. hash_str_to_int64 ''ffffffffffffffff00'' = Inr v \<and> - (2 ^ 63) \<le> v \<and> v < 2 ^ 63"
proof -
  have "hash_str_to_int64 ''ffffffffffffffff00'' = Inr (- 1)"
    by (simp add: hash_str_to_int64_def hex_val_def of_char_def)
  then show ?thesis using hash_int64_bounds[of "''ffffffffffffffff00''" "- 1"] by auto
qed

end
