(* ===== verification/HeapQ.thy ===== *)
theory HeapQ
  imports Prelude
begin

text \<open>
  Python's \<^verbatim>\<open>heapq\<close> on a list, as the cache's eviction loops use it: \<open>heapify\<close>,
  \<open>heappush\<close> and \<open>heappop\<close> with the sift loops of the standard library. Elements are
  compared through a key into a linear order. The heap order is kept, no element is lost,
  and \<open>heappop\<close> returns an element with the least key.
\<close>

section \<open>Definitions\<close>

text \<open>\<^verbatim>\<open>_siftdown\<close>: \<open>newitem\<close> belongs at \<open>pos\<close>; larger parents move down.\<close>

fun siftdown_loop :: "('a \<Rightarrow> 'k::linorder) \<Rightarrow> 'a \<Rightarrow> nat \<Rightarrow> 'a list \<Rightarrow> nat \<Rightarrow> 'a list" where
  "siftdown_loop key newitem startpos h pos =
     (if startpos < pos
      then let parentpos = (pos - 1) div 2; parent = h ! parentpos
           in if key newitem < key parent
              then siftdown_loop key newitem startpos (h[pos := parent]) parentpos
              else h[pos := newitem]
      else h[pos := newitem])"

definition siftdown :: "('a \<Rightarrow> 'k::linorder) \<Rightarrow> 'a list \<Rightarrow> nat \<Rightarrow> nat \<Rightarrow> 'a list" where
  "siftdown key h startpos pos = siftdown_loop key (h ! pos) startpos h pos"

text \<open>\<^verbatim>\<open>_siftup\<close>: the smaller child moves up until a leaf is reached.\<close>

function siftup_loop :: "('a \<Rightarrow> 'k::linorder) \<Rightarrow> 'a list \<Rightarrow> nat \<Rightarrow> 'a list \<times> nat" where
  "siftup_loop key h pos =
     (let childpos = 2 * pos + 1
      in if childpos < length h
         then let rightpos = childpos + 1;
                  childpos = (if rightpos < length h \<and> \<not> key (h ! childpos) < key (h ! rightpos)
                              then rightpos else childpos)
              in siftup_loop key (h[pos := h ! childpos]) childpos
         else (h, pos))"
  by pat_completeness auto
termination by (relation "measure (\<lambda>(_, h, pos). length h - pos)") (auto simp: Let_def)

definition siftup :: "('a \<Rightarrow> 'k::linorder) \<Rightarrow> 'a list \<Rightarrow> nat \<Rightarrow> 'a list" where
  "siftup key h pos =
     (let newitem = h ! pos; (h', pos') = siftup_loop key h pos
      in siftdown key (h'[pos' := newitem]) pos pos')"

definition heapify :: "('a \<Rightarrow> 'k::linorder) \<Rightarrow> 'a list \<Rightarrow> 'a list" where
  "heapify key h = foldl (siftup key) h (rev [0..<length h div 2])"

definition heappush :: "('a \<Rightarrow> 'k::linorder) \<Rightarrow> 'a list \<Rightarrow> 'a \<Rightarrow> 'a list" where
  "heappush key h item = siftdown key (h @ [item]) 0 (length h)"

text \<open>Popping from an empty heap raises IndexError.\<close>

definition heappop :: "('a \<Rightarrow> 'k::linorder) \<Rightarrow> 'a list \<Rightarrow> ('a \<times> 'a list) result" where
  "heappop key h =
     (if h = [] then Inl IndexError
      else let lastelt = last h; h' = butlast h
           in if h' \<noteq> [] then Inr (h' ! 0, siftup key (h'[0 := lastelt]) 0)
              else Inr (lastelt, []))"

declare siftdown_loop.simps [simp del] siftup_loop.simps [simp del]

section \<open>No element is lost\<close>

lemma mset_shift:
  assumes "i < length h" "j < length h" "i \<noteq> j"
  shows "mset ((h[i := h ! j])[j := x]) = mset (h[i := x])"
  using assms by (simp add: mset_update add_mset_commute nth_list_update)

lemma mset_siftdown_loop:
  "pos < length h \<Longrightarrow> mset (siftdown_loop key newitem startpos h pos) = mset (h[pos := newitem])"
proof (induction key newitem startpos h pos rule: siftdown_loop.induct)
  case (1 key newitem startpos h pos)
  show ?case
  proof (cases "startpos < pos \<and> key newitem < key (h ! ((pos - 1) div 2))")
    case True
    have lt: "(pos - 1) div 2 < pos" using True by auto
    have "siftdown_loop key newitem startpos h pos =
        siftdown_loop key newitem startpos (h[pos := h ! ((pos - 1) div 2)]) ((pos - 1) div 2)"
      using True by (subst siftdown_loop.simps) (simp add: Let_def)
    then show ?thesis
      using 1 True lt by (simp add: mset_shift)
  next
    case False
    then show ?thesis by (subst siftdown_loop.simps) (auto simp: Let_def)
  qed
qed

lemma length_siftdown_loop [simp]: "length (siftdown_loop key newitem startpos h pos) = length h"
proof (induction key newitem startpos h pos rule: siftdown_loop.induct)
  case (1 key newitem startpos h pos)
  then show ?case by (subst siftdown_loop.simps) (simp add: Let_def)
qed

definition next_child :: "('a \<Rightarrow> 'k::linorder) \<Rightarrow> 'a list \<Rightarrow> nat \<Rightarrow> nat" where
  "next_child key h pos =
     (if 2 * pos + 2 < length h \<and> \<not> key (h ! (2 * pos + 1)) < key (h ! (2 * pos + 2))
      then 2 * pos + 2 else 2 * pos + 1)"

lemma siftup_loop_step:
  "siftup_loop key h pos =
     (if 2 * pos + 1 < length h
      then siftup_loop key (h[pos := h ! next_child key h pos]) (next_child key h pos)
      else (h, pos))"
  by (subst siftup_loop.simps) (simp add: Let_def next_child_def)

lemma next_child_bounds:
  "2 * pos + 1 < length h \<Longrightarrow> next_child key h pos < length h"
  "pos < next_child key h pos" "(next_child key h pos - 1) div 2 = pos"
  by (auto simp: next_child_def)

lemma siftup_loop_induct [case_names step]:
  assumes "\<And>h pos. (2 * pos + 1 < length h \<Longrightarrow>
      P (h[pos := h ! next_child key h pos]) (next_child key h pos)) \<Longrightarrow> P h pos"
  shows "P h pos"
proof (induction "length h - pos" arbitrary: h pos rule: less_induct)
  case less
  show ?case
  proof (rule assms)
    assume *: "2 * pos + 1 < length h"
    show "P (h[pos := h ! next_child key h pos]) (next_child key h pos)"
      using next_child_bounds[where pos = pos and h = h and key = key] * by (intro less) simp
  qed
qed

lemma siftup_loop_mset:
  assumes "siftup_loop key h pos = (h', pos')" "pos < length h"
  shows "pos' < length h' \<and> length h' = length h \<and> mset (h'[pos' := x]) = mset (h[pos := x])"
  using assms
proof (induction h pos rule: siftup_loop_induct[where key = key])
  case (step h pos)
  show ?case
  proof (cases "2 * pos + 1 < length h")
    case True
    note b = next_child_bounds[where pos = pos and h = h and key = key]
    have "siftup_loop key (h[pos := h ! next_child key h pos]) (next_child key h pos) = (h', pos')"
      using step.prems(1) True by (subst (asm) siftup_loop_step) simp
    from step.IH[OF True this] b True step.prems(2)
      mset_shift[of pos h "next_child key h pos" x] show ?thesis by simp
  next
    case False
    then show ?thesis using step.prems by (subst (asm) siftup_loop_step) simp
  qed
qed

lemma siftdown_mset:
  assumes "pos < length h"
  shows "mset (siftdown key h s pos) = mset h" "length (siftdown key h s pos) = length h"
  using assms by (simp_all add: siftdown_def mset_siftdown_loop)

lemma siftup_mset:
  assumes "pos < length h"
  shows "mset (siftup key h pos) = mset h" "length (siftup key h pos) = length h"
proof -
  obtain h' pos' where s: "siftup_loop key h pos = (h', pos')" by (cases "siftup_loop key h pos")
  note m = siftup_loop_mset[OF s assms, of "h ! pos"]
  have r: "siftup key h pos = siftdown key (h'[pos' := h ! pos]) pos pos'"
    by (simp add: siftup_def s)
  show "mset (siftup key h pos) = mset h" "length (siftup key h pos) = length h"
    unfolding r using m by (simp_all add: siftdown_mset)
qed

section \<open>Heap order\<close>

definition par :: "nat \<Rightarrow> nat" where
  "par i = (i - 1) div 2"

lemma par_less: "0 < i \<Longrightarrow> par i < i"
  by (auto simp: par_def)

lemma par_children: "0 < c \<Longrightarrow> par c = p \<longleftrightarrow> c = 2 * p + 1 \<or> c = 2 * p + 2"
  by (auto simp: par_def)

lemma siftdown_loop_step:
  "siftdown_loop key x s h pos =
     (if s < pos \<and> key x < key (h ! par pos)
      then siftdown_loop key x s (h[pos := h ! par pos]) (par pos) else h[pos := x])"
  by (subst siftdown_loop.simps) (simp add: Let_def par_def)

text \<open>Parents at or after \<open>s\<close> do not exceed their children.\<close>

definition heap_from :: "('a \<Rightarrow> 'k::linorder) \<Rightarrow> 'a list \<Rightarrow> nat \<Rightarrow> bool" where
  "heap_from key h s \<longleftrightarrow>
     (\<forall>i < length h. 0 < i \<longrightarrow> s \<le> par i \<longrightarrow> key (h ! par i) \<le> key (h ! i))"

text \<open>The same with a hole at \<open>pos\<close>.\<close>

definition heap_hole :: "('a \<Rightarrow> 'k::linorder) \<Rightarrow> 'a list \<Rightarrow> nat \<Rightarrow> nat \<Rightarrow> bool" where
  "heap_hole key h s pos \<longleftrightarrow>
     (\<forall>i < length h. 0 < i \<longrightarrow> s \<le> par i \<longrightarrow> i \<noteq> pos \<longrightarrow> par i \<noteq> pos \<longrightarrow> key (h ! par i) \<le> key (h ! i)) \<and>
     (\<forall>c < length h. 0 < c \<longrightarrow> par c = pos \<longrightarrow> pos \<noteq> s \<longrightarrow> key (h ! par pos) \<le> key (h ! c))"

inductive desc :: "nat \<Rightarrow> nat \<Rightarrow> bool" for s where
  desc_refl: "desc s s"
| desc_step: "desc s (par c) \<Longrightarrow> 0 < c \<Longrightarrow> desc s c"

lemma desc_le: "desc s c \<Longrightarrow> s \<le> c"
proof (induction rule: desc.induct)
  case (desc_step c)
  then show ?case using par_less[of c] by linarith
qed simp

lemma desc_par: "desc s c \<Longrightarrow> c \<noteq> s \<Longrightarrow> 0 < c \<and> desc s (par c)"
  by (auto elim: desc.cases)

lemma siftdown_loop_heap:
  assumes "heap_hole key h s pos" "desc s pos" "pos < length h"
    and "\<And>c. c < length h \<Longrightarrow> 0 < c \<Longrightarrow> par c = pos \<Longrightarrow> key x \<le> key (h ! c)"
  shows "heap_from key (siftdown_loop key x s h pos) s"
  using assms
proof (induction pos arbitrary: h rule: less_induct)
  case (less pos)
  note hole = less.prems(1)[unfolded heap_hole_def] and len = less.prems(3) and kids = less.prems(4)
  show ?case
  proof (cases "s < pos \<and> key x < key (h ! par pos)")
    case True
    let ?p = "par pos" and ?h = "h[pos := h ! par pos]"
    have p: "0 < pos" "desc s ?p" "s \<le> ?p" "?p < pos"
      using desc_par[OF less.prems(2)] desc_le[of s "par pos"] par_less[of pos] True by auto
    have pair: "key (h ! ?p) \<le> key (h ! c)" if "c < length h" "0 < c" "par c = ?p" "c \<noteq> pos" for c
      using hole that p by auto
    have eq: "siftdown_loop key x s h pos = siftdown_loop key x s ?h ?p"
      using True by (subst siftdown_loop_step) simp
    have "heap_hole key ?h s ?p"
      unfolding heap_hole_def
    proof (intro conjI allI impI)
      fix i assume i: "i < length ?h" "0 < i" "s \<le> par i" "i \<noteq> ?p" "par i \<noteq> ?p"
      then have "i \<noteq> pos" by auto
      then show "key (?h ! par i) \<le> key (?h ! i)"
        using i hole len True by (cases "par i = pos") (auto simp: nth_list_update)
    next
      fix c assume c: "c < length ?h" "0 < c" "par c = ?p" "?p \<noteq> s"
      have "0 < ?p" "s \<le> par ?p" "?p < length h" "par ?p \<noteq> pos" "?p \<noteq> pos"
        using p len desc_par[OF p(2) c(4)] desc_le[of s "par ?p"] par_less[of ?p] by auto
      then have up: "key (h ! par ?p) \<le> key (h ! ?p)" using hole by blast
      show "key (?h ! par ?p) \<le> key (?h ! c)"
        using up pair[of c] c p len by (cases "c = pos") (auto simp: nth_list_update)
    qed
    moreover have "key x \<le> key (?h ! c)" if "c < length ?h" "0 < c" "par c = ?p" for c
      using that True pair[of c] len by (cases "c = pos") (auto simp: nth_list_update)
    moreover have "?p < length ?h" using p len by simp
    ultimately show ?thesis
      unfolding eq using less.IH[OF p(4)] p(2) by blast
  next
    case False
    then have eq: "siftdown_loop key x s h pos = h[pos := x]"
      by (subst siftdown_loop_step) auto
    show ?thesis
      unfolding eq heap_from_def
    proof (intro allI impI)
      fix i assume i: "i < length (h[pos := x])" "0 < i" "s \<le> par i"
      consider "i = pos" | "i \<noteq> pos" "par i = pos" | "i \<noteq> pos" "par i \<noteq> pos" by blast
      then show "key (h[pos := x] ! par i) \<le> key (h[pos := x] ! i)"
      proof cases
        case 1
        then have "s < pos" "par i \<noteq> i" using i par_less[of i] by auto
        then show ?thesis using 1 False len i by (auto simp: nth_list_update)
      next
        case 2
        then show ?thesis using kids[of i] i len by (simp add: nth_list_update)
      next
        case 3
        then have "key (h ! par i) \<le> key (h ! i)" using hole i by simp
        then show ?thesis using 3 by simp
      qed
    qed
  qed
qed

lemma siftup_loop_hole:
  assumes "siftup_loop key h pos = (h', pos')" "pos < length h" "heap_hole key h s pos" "desc s pos"
  shows "heap_hole key h' s pos' \<and> desc s pos' \<and> length h' \<le> 2 * pos' + 1"
  using assms
proof (induction h pos rule: siftup_loop_induct[where key = key])
  case (step h pos)
  note hole = step.prems(3)[unfolded heap_hole_def] and len = step.prems(2)
  show ?case
  proof (cases "2 * pos + 1 < length h")
    case True
    let ?n = "next_child key h pos" and ?h = "h[pos := h ! next_child key h pos]"
    note b = next_child_bounds[where pos = pos and h = h and key = key]
    have n: "?n < length h" "pos < ?n" "par ?n = pos" "0 < ?n" using b True by (auto simp: par_def)
    have best: "key (h ! ?n) \<le> key (h ! c)" if "c < length h" "0 < c" "par c = pos" for c
    proof -
      have "c = 2 * pos + 1 \<or> c = 2 * pos + 2" using that par_children by blast
      then show ?thesis using that by (auto simp: next_child_def)
    qed
    have sl: "s \<le> pos" using desc_le[OF step.prems(4)] .
    have "heap_hole key ?h s ?n"
      unfolding heap_hole_def
    proof (intro conjI allI impI)
      fix i assume i: "i < length ?h" "0 < i" "s \<le> par i" "i \<noteq> ?n" "par i \<noteq> ?n"
      show "key (?h ! par i) \<le> key (?h ! i)"
      proof (cases "i = pos")
        case True
        then have ne: "pos \<noteq> s" "par i \<noteq> pos" using i par_less[of i] by auto
        then have "key (h ! par pos) \<le> key (h ! ?n)" using hole n by blast
        then show ?thesis using True ne len by simp
      next
        case False
        then show ?thesis
          using best[of i] hole i len by (cases "par i = pos") (auto simp: nth_list_update)
      qed
    next
      fix c assume c: "c < length ?h" "0 < c" "par c = ?n" "?n \<noteq> s"
      then have "c \<noteq> pos" "par c \<noteq> pos" "s \<le> par c" using n sl par_less[of c] by auto
      then show "key (?h ! par ?n) \<le> key (?h ! c)"
        using hole c n len by (auto simp: nth_list_update)
    qed
    moreover have "desc s ?n" by (rule desc_step) (use step.prems(4) n in simp_all)
    moreover have "siftup_loop key ?h ?n = (h', pos')"
      using step.prems(1) True by (subst (asm) siftup_loop_step) simp
    ultimately show ?thesis using step.IH[OF True] n by simp
  next
    case False
    then have "h' = h" "pos' = pos" using step.prems(1) by (subst (asm) siftup_loop_step, simp)+
    then show ?thesis using step.prems False by simp
  qed
qed

lemma siftup_heap:
  assumes "heap_from key h (Suc s)" "s < length h"
  shows "heap_from key (siftup key h s) s"
proof -
  obtain h' pos' where s: "siftup_loop key h s = (h', pos')" by (cases "siftup_loop key h s")
  have "heap_hole key h s s" using assms(1) by (auto simp: heap_hole_def heap_from_def)
  note hole = siftup_loop_hole[OF s assms(2) this desc_refl]
  have m: "pos' < length h'" "length h' = length h" using siftup_loop_mset[OF s assms(2)] by blast+
  let ?h = "h'[pos' := h ! s]"
  have leaf: "par c \<noteq> pos'" if "c < length h'" "0 < c" for c
    using that hole m par_children[of c pos'] by auto
  have "heap_hole key ?h s pos'"
    using hole leaf leaf[symmetric] by (auto simp: heap_hole_def)
  moreover have "siftup key h s = siftdown_loop key (h ! s) s ?h pos'"
    using m by (simp add: siftup_def siftdown_def s Let_def)
  ultimately show ?thesis
    using hole m leaf by (metis length_list_update siftdown_loop_heap)
qed

section \<open>The operations\<close>

lemma mset_heapify: "mset (heapify key h) = mset h"
proof -
  have "mset (foldl (siftup key) h js) = mset h \<and> length (foldl (siftup key) h js) = length h"
    if "\<forall>j \<in> set js. j < length h" for js
    using that by (induction js arbitrary: h) (simp_all add: siftup_mset)
  moreover have "\<forall>j \<in> set (rev [0..<length h div 2]). j < length h"
  proof
    fix j assume "j \<in> set (rev [0..<length h div 2])"
    then have "j < length h div 2" by simp
    also have "\<dots> \<le> length h" by simp
    finally show "j < length h" .
  qed
  ultimately show ?thesis unfolding heapify_def by blast
qed

lemma heapify_heap: "heap_from key (heapify key h) 0"
proof -
  have "heap_from key (foldl (siftup key) h (rev [0..<n])) 0"
    if "heap_from key h n" "n \<le> length h" for n h
    using that
  proof (induction n arbitrary: h)
    case (Suc n)
    then have "heap_from key (siftup key h n) n" "length (siftup key h n) = length h"
      by (simp_all add: siftup_heap siftup_mset)
    with Suc show ?case by simp
  qed simp
  moreover have "heap_from key h (length h div 2)"
    by (auto simp: heap_from_def par_def)
  ultimately show ?thesis unfolding heapify_def by simp
qed

lemma heappush_mset: "mset (heappush key h x) = add_mset x (mset h)"
  by (simp add: heappush_def siftdown_mset)

lemma desc_0: "desc 0 c"
proof (induction c rule: less_induct)
  case (less c)
  show ?case
  proof (cases "c = 0")
    case True
    then show ?thesis by (simp add: desc_refl)
  next
    case False
    then have "desc 0 (par c)" "0 < c" using less[of "par c"] par_less[of c] by simp_all
    then show ?thesis by (rule desc_step)
  qed
qed

lemma heappush_heap:
  assumes "heap_from key h 0"
  shows "heap_from key (heappush key h x) 0"
proof -
  have p: "par i < length h" "par i \<noteq> length h" if "i < length (h @ [x])" "0 < i" for i
    using that par_less[of i] by auto
  have "heap_hole key (h @ [x]) 0 (length h)"
    using assms p by (auto simp: heap_hole_def heap_from_def nth_append)
  then show ?thesis
    unfolding heappush_def siftdown_def using p
    by (intro siftdown_loop_heap) (auto simp: desc_0)
qed

lemma heap_min:
  assumes "heap_from key h 0" "i < length h"
  shows "key (h ! 0) \<le> key (h ! i)"
  using assms(2)
proof (induction i rule: less_induct)
  case (less i)
  show ?case
  proof (cases "i = 0")
    case False
    then have "par i < i" by (simp add: par_less)
    then have "key (h ! 0) \<le> key (h ! par i)" using less by simp
    also have "\<dots> \<le> key (h ! i)" using assms(1) less.prems False by (simp add: heap_from_def)
    finally show ?thesis .
  qed simp
qed

lemma heap_from_butlast:
  assumes "heap_from key h 0"
  shows "heap_from key ((butlast h)[0 := x]) 1"
  unfolding heap_from_def
proof (intro allI impI)
  fix i assume i: "i < length ((butlast h)[0 := x])" "0 < i" "1 \<le> par i"
  then have "key (h ! par i) \<le> key (h ! i)" using assms by (simp add: heap_from_def)
  then show "key ((butlast h)[0 := x] ! par i) \<le> key ((butlast h)[0 := x] ! i)"
    using i par_less[of i] by (simp add: nth_butlast)
qed

lemma heappop_ok:
  assumes heap: "heap_from key h 0" and ne: "h \<noteq> []"
  shows "\<exists>x h'. heappop key h = Inr (x, h') \<and> mset h = add_mset x (mset h') \<and>
    heap_from key h' 0 \<and> (\<forall>y \<in> set h. key x \<le> key y)"
proof -
  have min: "\<forall>y \<in> set h. key (h ! 0) \<le> key y"
    using heap_min[OF heap] by (auto simp: in_set_conv_nth)
  have split: "mset h = add_mset (last h) (mset (butlast h))"
    using ne by (metis append_butlast_last_id mset.simps(2) union_mset_add_mset_right add.right_neutral
        mset_append mset_zero_iff_right mset.simps(1))
  show ?thesis
  proof (cases "butlast h = []")
    case True
    then have "h = [last h]" using ne by (metis append_butlast_last_id append_Nil)
    then have "h ! 0 = last h" by (metis nth_Cons_0)
    then show ?thesis
      using True ne split min by (simp add: heappop_def Let_def heap_from_def)
  next
    case False
    let ?h = "(butlast h)[0 := last h]"
    have len: "0 < length ?h" using False by (simp only: length_list_update length_greater_0_conv) simp
    have h0: "butlast h ! 0 = h ! 0" using len by (intro nth_butlast) simp
    have "mset ?h = add_mset (last h) (mset (butlast h) - {#h ! 0#})"
      using len h0 by (simp add: mset_update)
    moreover have "h ! 0 \<in># mset (butlast h)" using h0 len by (metis length_list_update nth_mem set_mset_mset)
    ultimately have "mset h = add_mset (h ! 0) (mset (siftup key ?h 0))"
      using split len by (simp add: siftup_mset add_mset_commute)
    moreover have "heap_from key (siftup key ?h 0) 0"
      using heap_from_butlast[OF heap] len by (intro siftup_heap) simp_all
    ultimately show ?thesis using False ne h0 min by (simp add: heappop_def Let_def)
  qed
qed

end
