(* ===== verification/RadixTree.thy ===== *)
theory RadixTree
  imports Allocator BlockHash HeapQ "HOL-Library.AList" "HOL-Library.Product_Lexorder"
begin

text \<open>
  The radix-tree prefix cache of \<^verbatim>\<open>mem_cache/radix_cache.py\<close>, its eviction strategies
  (\<^verbatim>\<open>mem_cache/evict_policy.py\<close>) and its placement events (\<^verbatim>\<open>mem_cache/events.py\<close>).

  Tree nodes are Python objects that refer to each other, so the model keeps a store: a
  reference is a natural number, \<open>nodes\<close> holds the object behind every reference and
  \<open>next_ref\<close> is the next unused one. A dict is an association list in insertion order. The
  cache records are open, so that the hierarchical cache extends them. Loops over the tree
  carry fuel; the invariants show that the fuel given is enough.
\<close>

section \<open>Environment\<close>

text \<open>
  The successive readings of \<^verbatim>\<open>time.monotonic\<close>, the SHA-256 digest and the order in which a
  Python set is iterated.
\<close>

record pyenv =
  clk :: "nat \<Rightarrow> int"
  sha256 :: digest
  set_iter :: "nat list \<Rightarrow> nat list"

section \<open>State\<close>

record tree_node =
  children :: "(pyval \<times> nat) list"
  parent :: "nat option"
  tn_key :: radix_key
  tn_value :: "int list option"
  lock_ref :: int
  last_access_time :: int
  creation_time :: int
  hit_count :: nat
  host_ref_counter :: nat
  host_value :: "int list option"
  hash_value :: "string list option"
  priority :: int
  tn_id :: nat

datatype evict_policy = LRU | LFU | FIFO | MRU | FILO | Priority | SLRU

datatype storage_medium = GPU | CPU | DISK | EXTERNAL

datatype kv_event =
    BlockStored "int list" "int option" "pyval list" nat storage_medium
  | BlockRemoved "int list" storage_medium
  | AllBlocksCleared

record radix_cache =
  r_disable :: bool
  r_page_size :: nat
  r_is_eagle :: bool
  r_disable_finished_insert :: bool
  r_policy :: evict_policy
  enable_kv_cache_events :: bool
  kv_event_queue :: "kv_event list"
  nodes :: "nat \<Rightarrow> tree_node"
  next_ref :: nat
  ticks :: nat
  root_node :: nat
  r_evictable_size :: int
  r_protected_size :: int
  evictable_leaves :: "nat list"
  kv_allocator :: allocator

definition upd :: "nat \<Rightarrow> (tree_node \<Rightarrow> tree_node) \<Rightarrow> 'a radix_cache_scheme \<Rightarrow> 'a radix_cache_scheme" where
  "upd n f c = c\<lparr>nodes := (nodes c)(n := f (nodes c n))\<rparr>"

definition evicted :: "tree_node \<Rightarrow> bool" where
  "evicted x = (tn_value x = None)"

definition backuped :: "tree_node \<Rightarrow> bool" where
  "backuped x = (host_value x \<noteq> None)"

definition protect_host :: "nat \<Rightarrow> 'a radix_cache_scheme \<Rightarrow> 'a radix_cache_scheme" where
  "protect_host n = upd n (\<lambda>x. x\<lparr>host_ref_counter := host_ref_counter x + 1\<rparr>)"

definition release_host :: "nat \<Rightarrow> 'a radix_cache_scheme \<Rightarrow> 'a radix_cache_scheme result" where
  "release_host n c =
     (if 0 < host_ref_counter (nodes c n)
      then Inr (upd n (\<lambda>x. x\<lparr>host_ref_counter := host_ref_counter x - 1\<rparr>) c)
      else Inl RuntimeError)"

definition get_last_hash_value :: "tree_node \<Rightarrow> string option" where
  "get_last_hash_value x =
     (case hash_value x of None \<Rightarrow> None | Some hs \<Rightarrow> if hs = [] then None else Some (last hs))"

text \<open>
  A new node, created with its key: the code assigns the key right after the constructor. The
  constructor reads the clock twice.
\<close>

definition new_tree_node ::
  "pyenv \<Rightarrow> radix_key \<Rightarrow> int \<Rightarrow> 'a radix_cache_scheme \<Rightarrow> nat \<times> 'a radix_cache_scheme" where
  "new_tree_node env k prio c =
     (next_ref c,
      c\<lparr>nodes := (nodes c)(next_ref c :=
           \<lparr>children = [], parent = None, tn_key = k, tn_value = None, lock_ref = 0,
            last_access_time = clk env (ticks c), creation_time = clk env (ticks c + 1),
            hit_count = 0, host_ref_counter = 0, host_value = None, hash_value = None,
            priority = prio, tn_id = next_ref c\<rparr>),
        next_ref := next_ref c + 1, ticks := ticks c + 2\<rparr>)"

text \<open>\<^verbatim>\<open>time.monotonic()\<close>.\<close>

definition monotonic :: "pyenv \<Rightarrow> 'a radix_cache_scheme \<Rightarrow> int \<times> 'a radix_cache_scheme" where
  "monotonic env c = (clk env (ticks c), c\<lparr>ticks := ticks c + 1\<rparr>)"

section \<open>Eviction strategies\<close>

text \<open>
  A strategy maps a node to a number or a pair; a single number \<open>p\<close> is the pair \<open>(p, 0)\<close>.
  The heap compares equal priorities by \<^verbatim>\<open>TreeNode.__lt__\<close>, the last access time.
\<close>

definition protected_threshold :: nat where
  "protected_threshold = 2"

fun get_priority :: "evict_policy \<Rightarrow> tree_node \<Rightarrow> int \<times> int" where
  "get_priority LRU x = (last_access_time x, 0)"
| "get_priority LFU x = (int (hit_count x), last_access_time x)"
| "get_priority FIFO x = (creation_time x, 0)"
| "get_priority MRU x = (- last_access_time x, 0)"
| "get_priority FILO x = (- creation_time x, 0)"
| "get_priority Priority x = (priority x, last_access_time x)"
| "get_priority SLRU x =
     ((if protected_threshold \<le> hit_count x then 1 else 0), last_access_time x)"

definition lower_char :: "char \<Rightarrow> char" where
  "lower_char ch = (let n = of_char ch :: nat in if 65 \<le> n \<and> n \<le> 90 then char_of (n + 32) else ch)"

definition eviction_strategy_of :: "string \<Rightarrow> evict_policy result" where
  "eviction_strategy_of name =
     (let p = map lower_char name
      in if p = ''lru'' then Inr LRU
         else if p = ''lfu'' then Inr LFU
         else if p = ''fifo'' then Inr FIFO
         else if p = ''mru'' then Inr MRU
         else if p = ''filo'' then Inr FILO
         else if p = ''priority'' then Inr Priority
         else if p = ''slru'' then Inr SLRU
         else Inl ValueError)"

type_synonym heap_entry = "(int \<times> int) \<times> nat"

definition entry_key :: "'a radix_cache_scheme \<Rightarrow> heap_entry \<Rightarrow> (int \<times> int) \<times> int" where
  "entry_key c e = (fst e, last_access_time (nodes c (snd e)))"

section \<open>Events\<close>

definition compute_node_hash_values ::
  "digest \<Rightarrow> 'a radix_cache_scheme \<Rightarrow> nat \<Rightarrow> string list result" where
  "compute_node_hash_values sha c n =
     (let x = nodes c n;
          parent_hash = (case parent x of None \<Rightarrow> None
            | Some p \<Rightarrow> (case hash_value (nodes c p) of None \<Rightarrow> None
                | Some hs \<Rightarrow> if 0 < rk_len (tn_key (nodes c p)) \<and> 0 < length hs
                            then Some (last hs) else None))
      in hash_chain sha (tn_key x) (page_ranges (r_page_size c) (rk_len (tn_key x))) parent_hash)"

definition ensure_hash ::
  "pyenv \<Rightarrow> nat \<Rightarrow> 'a radix_cache_scheme \<Rightarrow> (string list \<times> 'a radix_cache_scheme) result" where
  "ensure_hash env n c =
     (case hash_value (nodes c n) of
        Some hs \<Rightarrow> Inr (hs, c)
      | None \<Rightarrow> bindR (compute_node_hash_values (sha256 env) c n)
                 (\<lambda>hs. Inr (hs, upd n (\<lambda>x. x\<lparr>hash_value := Some hs\<rparr>) c)))"

fun store_events ::
  "radix_key \<Rightarrow> storage_medium \<Rightarrow> string list \<Rightarrow> nat \<Rightarrow> (nat \<times> nat) list \<Rightarrow> int option \<Rightarrow>
   kv_event list result" where
  "store_events k medium hs page_index [] parent_block_hash = Inr []"
| "store_events k medium hs page_index ((s, e) # rs) parent_block_hash =
     (let page_tokens = pyslice (rk_iter k) s e
      in bindR (nthR hs page_index) (\<lambda>h.
         bindR (hash_str_to_int64 h) (\<lambda>block_hash.
         bindR (store_events k medium hs (page_index + 1) rs (Some block_hash)) (\<lambda>evs.
         Inr (BlockStored [block_hash] parent_block_hash page_tokens (length page_tokens) medium # evs)))))"

definition record_store_event ::
  "pyenv \<Rightarrow> nat \<Rightarrow> storage_medium \<Rightarrow> 'a radix_cache_scheme \<Rightarrow> 'a radix_cache_scheme result" where
  "record_store_event env n medium c =
     (if \<not> enable_kv_cache_events c then Inr c
      else bindR (ensure_hash env n c) (\<lambda>(hs, c).
        bindR (case parent (nodes c n) of None \<Rightarrow> Inr None
               | Some p \<Rightarrow> if p = root_node c then Inr None
                          else (case get_last_hash_value (nodes c p) of None \<Rightarrow> Inr None
                                | Some h \<Rightarrow> bindR (hash_str_to_int64 h) (\<lambda>v. Inr (Some v))))
        (\<lambda>parent_block_hash.
        bindR (store_events (tn_key (nodes c n)) medium hs 0
                 (page_ranges (r_page_size c) (rk_len (tn_key (nodes c n)))) parent_block_hash)
        (\<lambda>evs. Inr (c\<lparr>kv_event_queue := kv_event_queue c @ evs\<rparr>)))))"

fun remove_events :: "storage_medium \<Rightarrow> string list \<Rightarrow> nat \<Rightarrow> (nat \<times> nat) list \<Rightarrow> kv_event list result" where
  "remove_events medium hs page_index [] = Inr []"
| "remove_events medium hs page_index (_ # rs) =
     bindR (nthR hs page_index) (\<lambda>h.
     bindR (hash_str_to_int64 h) (\<lambda>block_hash.
     bindR (remove_events medium hs (page_index + 1) rs) (\<lambda>evs.
     Inr (BlockRemoved [block_hash] medium # evs))))"

definition record_remove_event ::
  "pyenv \<Rightarrow> nat \<Rightarrow> storage_medium \<Rightarrow> 'a radix_cache_scheme \<Rightarrow> 'a radix_cache_scheme result" where
  "record_remove_event env n medium c =
     (if \<not> enable_kv_cache_events c then Inr c
      else bindR (ensure_hash env n c) (\<lambda>(hs, c).
        bindR (remove_events medium hs 0
                 (page_ranges (r_page_size c) (rk_len (tn_key (nodes c n)))))
        (\<lambda>evs. Inr (c\<lparr>kv_event_queue := kv_event_queue c @ evs\<rparr>))))"

definition record_all_cleared_event :: "'a radix_cache_scheme \<Rightarrow> 'a radix_cache_scheme" where
  "record_all_cleared_event c =
     (if enable_kv_cache_events c
      then c\<lparr>kv_event_queue := kv_event_queue c @ [AllBlocksCleared]\<rparr> else c)"

definition take_events :: "'a radix_cache_scheme \<Rightarrow> kv_event list \<times> 'a radix_cache_scheme" where
  "take_events c =
     (if \<not> enable_kv_cache_events c then ([], c)
      else (kv_event_queue c, c\<lparr>kv_event_queue := []\<rparr>))"

end
