(* ===== verification/PyFloat.thy ===== *)
theory PyFloat
  imports Prelude Complex_Main
begin

text \<open>
  Python floats. A finite double is the rational it denotes. The rounding of the hardware is
  the argument \<open>rnd\<close> of \<open>float_env\<close>, applied after every operation and to every literal and
  integer that becomes a double; \<open>fsum\<close> is the builtin \<^verbatim>\<open>sum\<close> on floats, whose summation
  order differs between versions of the interpreter. \<open>rounding\<close> states what the theorems use
  of IEEE 754: rounding is monotone and keeps the integers that a double holds exactly.
\<close>

datatype pyfloat = Fin rat | PInf | NInf | NaN

record float_env =
  rnd :: "rat \<Rightarrow> rat"
  fsum :: "rat list \<Rightarrow> rat"

definition fint :: "float_env \<Rightarrow> int \<Rightarrow> rat" where
  "fint F n = rnd F (of_int n)"

definition fdivR :: "float_env \<Rightarrow> rat \<Rightarrow> rat \<Rightarrow> rat result" where
  "fdivR F a b = (if b = 0 then Inl ZeroDivisionError else Inr (rnd F (a / b)))"

text \<open>Comparisons; every comparison with NaN is false.\<close>

fun flt_le :: "pyfloat \<Rightarrow> pyfloat \<Rightarrow> bool" where
  "flt_le (Fin x) (Fin y) = (x \<le> y)"
| "flt_le NaN _ = False"
| "flt_le _ NaN = False"
| "flt_le NInf _ = True"
| "flt_le _ PInf = True"
| "flt_le PInf _ = False"
| "flt_le _ NInf = False"

fun flt_lt :: "pyfloat \<Rightarrow> pyfloat \<Rightarrow> bool" where
  "flt_lt (Fin x) (Fin y) = (x < y)"
| "flt_lt NaN _ = False"
| "flt_lt _ NaN = False"
| "flt_lt PInf _ = False"
| "flt_lt _ NInf = False"
| "flt_lt NInf _ = True"
| "flt_lt _ PInf = True"

text \<open>\<^verbatim>\<open>int(x)\<close>, which truncates towards zero.\<close>

definition ftrunc :: "rat \<Rightarrow> int" where
  "ftrunc x = (if 0 \<le> x then \<lfloor>x\<rfloor> else \<lceil>x\<rceil>)"

definition rounding :: "float_env \<Rightarrow> bool" where
  "rounding F \<longleftrightarrow> mono (rnd F) \<and> (\<forall>n. \<bar>n\<bar> \<le> 2 ^ 53 \<longrightarrow> rnd F (of_int n) = of_int n)"

text \<open>Exact arithmetic, for concrete instances.\<close>

definition exact :: float_env where
  "exact = \<lparr>rnd = id, fsum = sum_list\<rparr>"

lemma flt_le_Fin:
  "flt_le (Fin a) x \<Longrightarrow> flt_le x (Fin b) \<Longrightarrow> \<exists>y. x = Fin y \<and> a \<le> y \<and> y \<le> b"
  "flt_lt (Fin a) x \<Longrightarrow> flt_le x (Fin b) \<Longrightarrow> \<exists>y. x = Fin y \<and> a < y \<and> y \<le> b"
  by (cases x; simp)+

lemma rounding_int: "rounding F \<Longrightarrow> \<bar>n\<bar> \<le> 2 ^ 53 \<Longrightarrow> rnd F (of_int n) = of_int n"
  by (simp add: rounding_def)

lemma rounding_le:
  "rounding F \<Longrightarrow> x \<le> of_int n \<Longrightarrow> \<bar>n\<bar> \<le> 2 ^ 53 \<Longrightarrow> rnd F x \<le> of_int n"
  unfolding rounding_def by (metis monoD)

lemma rounding_ge:
  "rounding F \<Longrightarrow> of_int n \<le> x \<Longrightarrow> \<bar>n\<bar> \<le> 2 ^ 53 \<Longrightarrow> of_int n \<le> rnd F x"
  unfolding rounding_def by (metis monoD)

lemma rounding_exact: "rounding exact"
  by (simp add: rounding_def exact_def mono_def)

end
