(* ===== verification/SamplingParams.thy ===== *)
theory SamplingParams
  imports PyFloat
begin

text \<open>
  \<^verbatim>\<open>sampling/sampling_params.py\<close>: the sampling parameters of a request, their defaults,
  verification and normalisation, and the bound on the length of what a stop regex matches.
  The tokenizer, the regex parser and the iteration order of an integer set are arguments.
\<close>

section \<open>Parameters\<close>

datatype stop_spec = NoStop | OneStop string | ManyStop "string list"

record sampling_params =
  sp_max_new_tokens :: "int option"
  stop_strs :: stop_spec
  stop_str_max_len :: nat
  stop_token_ids :: "int list option"
  stop_regex_strs :: stop_spec
  stop_regex_max_len :: nat
  temperature :: pyfloat
  top_p :: pyfloat
  top_k :: int
  min_p :: pyfloat
  frequency_penalty :: pyfloat
  presence_penalty :: pyfloat
  repetition_penalty :: pyfloat
  min_new_tokens :: int
  sp_n :: int
  json_schema :: "string option"
  sp_regex :: "string option"
  ebnf :: "string option"
  structural_tag :: "string option"
  ignore_eos :: bool
  skip_special_tokens :: bool
  spaces_between_special_tokens :: bool
  no_stop_trim :: bool
  stream_interval :: "int option"
  logit_bias :: "(int option \<times> pyfloat) list option"
  sampling_seed :: "int option"

text \<open>The arguments of the constructor: \<^verbatim>\<open>None\<close> where the caller passes null.\<close>

record sampling_args =
  a_max_new_tokens :: "int option"
  a_stop :: stop_spec
  a_stop_token_ids :: "int option list option"
  a_stop_regex :: stop_spec
  a_temperature :: "pyfloat option"
  a_top_p :: "pyfloat option"
  a_top_k :: "int option"
  a_min_p :: "pyfloat option"
  a_frequency_penalty :: "pyfloat option"
  a_presence_penalty :: "pyfloat option"
  a_repetition_penalty :: "pyfloat option"
  a_min_new_tokens :: "int option"
  a_n :: "int option"
  a_json_schema :: "string option"
  a_regex :: "string option"
  a_ebnf :: "string option"
  a_structural_tag :: "string option"
  a_ignore_eos :: "bool option"
  a_skip_special_tokens :: "bool option"
  a_spaces_between_special_tokens :: "bool option"
  a_no_stop_trim :: "bool option"
  a_stream_interval :: "int option"
  a_logit_bias :: "(int option \<times> pyfloat) list option"
  a_sampling_seed :: "int option"

definition sampling_defaults :: sampling_args where
  "sampling_defaults = \<lparr>a_max_new_tokens = Some 128, a_stop = NoStop, a_stop_token_ids = None,
     a_stop_regex = NoStop, a_temperature = Some (Fin 1), a_top_p = Some (Fin 1), a_top_k = Some (- 1),
     a_min_p = Some (Fin 0), a_frequency_penalty = Some (Fin 0), a_presence_penalty = Some (Fin 0),
     a_repetition_penalty = Some (Fin 1), a_min_new_tokens = Some 0, a_n = Some 1, a_json_schema = None,
     a_regex = None, a_ebnf = None, a_structural_tag = None, a_ignore_eos = Some False,
     a_skip_special_tokens = Some True, a_spaces_between_special_tokens = Some True,
     a_no_stop_trim = Some False, a_stream_interval = None, a_logit_bias = None, a_sampling_seed = None\<rparr>"

definition SAMPLING_EPS :: "float_env \<Rightarrow> rat" where
  "SAMPLING_EPS F = rnd F (1 / 10 ^ 6)"

definition TOP_K_ALL :: int where
  "TOP_K_ALL = 2 ^ 30"

definition or_default :: "'a option \<Rightarrow> 'a \<Rightarrow> 'a" where
  "or_default x d = (case x of None \<Rightarrow> d | Some y \<Rightarrow> y)"

text \<open>\<open>set_order\<close> is the iteration order of the set built from the listed ids.\<close>

definition filter_stop_token_ids ::
  "(int list \<Rightarrow> int list) \<Rightarrow> int option list option \<Rightarrow> int list option" where
  "filter_stop_token_ids set_order ids =
     (case ids of
        None \<Rightarrow> None
      | Some ts \<Rightarrow>
          let filtered = remdups (map the (filter (\<lambda>t. t \<noteq> None) ts))
          in if filtered = [] then None else Some (set_order filtered))"

definition sampling_init :: "float_env \<Rightarrow> (int list \<Rightarrow> int list) \<Rightarrow> sampling_args \<Rightarrow> sampling_params" where
  "sampling_init F set_order a =
     (let temp = or_default (a_temperature a) (Fin 1);
          k = or_default (a_top_k a) (- 1);
          greedy = (flt_le (Fin 0) temp \<and> flt_lt temp (Fin (SAMPLING_EPS F)));
          k1 = (if greedy then 1 else k)
      in \<lparr>sp_max_new_tokens = a_max_new_tokens a, stop_strs = a_stop a, stop_str_max_len = 0,
          stop_token_ids = filter_stop_token_ids set_order (a_stop_token_ids a),
          stop_regex_strs = a_stop_regex a, stop_regex_max_len = 0,
          temperature = (if greedy then Fin 1 else temp),
          top_p = or_default (a_top_p a) (Fin 1),
          top_k = (if k1 = - 1 then TOP_K_ALL else k1),
          min_p = or_default (a_min_p a) (Fin 0),
          frequency_penalty = or_default (a_frequency_penalty a) (Fin 0),
          presence_penalty = or_default (a_presence_penalty a) (Fin 0),
          repetition_penalty = or_default (a_repetition_penalty a) (Fin 1),
          min_new_tokens = or_default (a_min_new_tokens a) 0,
          sp_n = or_default (a_n a) 1, json_schema = a_json_schema a, sp_regex = a_regex a,
          ebnf = a_ebnf a, structural_tag = a_structural_tag a,
          ignore_eos = or_default (a_ignore_eos a) False,
          skip_special_tokens = or_default (a_skip_special_tokens a) True,
          spaces_between_special_tokens = or_default (a_spaces_between_special_tokens a) True,
          no_stop_trim = or_default (a_no_stop_trim a) False,
          stream_interval = a_stream_interval a, logit_bias = a_logit_bias a,
          sampling_seed = a_sampling_seed a\<rparr>)"

text \<open>
  The keys of \<^verbatim>\<open>logit_bias\<close> are strings; a key that is no integer is \<open>None\<close>, on which
  \<^verbatim>\<open>int(token_id)\<close> raises a ValueError too.
\<close>

definition bias_key_ok :: "int \<Rightarrow> int option \<Rightarrow> bool" where
  "bias_key_ok vocab_size k = (case k of None \<Rightarrow> False | Some t \<Rightarrow> 0 \<le> t \<and> t < vocab_size)"

definition verify :: "int \<Rightarrow> sampling_params \<Rightarrow> unit result" where
  "verify vocab_size p =
     (if flt_lt (temperature p) (Fin 0) then Inl ValueError
      else if \<not> (flt_lt (Fin 0) (top_p p) \<and> flt_le (top_p p) (Fin 1)) then Inl ValueError
      else if \<not> (flt_le (Fin 0) (min_p p) \<and> flt_le (min_p p) (Fin 1)) then Inl ValueError
      else if top_k p < 1 \<or> top_k p = - 1 then Inl ValueError
      else if \<not> (flt_le (Fin (- 2)) (frequency_penalty p) \<and> flt_le (frequency_penalty p) (Fin 2))
      then Inl ValueError
      else if \<not> (flt_le (Fin (- 2)) (presence_penalty p) \<and> flt_le (presence_penalty p) (Fin 2))
      then Inl ValueError
      else if \<not> (flt_lt (Fin 0) (repetition_penalty p) \<and> flt_le (repetition_penalty p) (Fin 2))
      then Inl ValueError
      else if \<not> 0 \<le> min_new_tokens p then Inl ValueError
      else if (case sp_max_new_tokens p of None \<Rightarrow> False
               | Some m \<Rightarrow> m < 0 \<or> \<not> min_new_tokens p \<le> m) then Inl ValueError
      else if (case logit_bias p of None \<Rightarrow> False
               | Some bs \<Rightarrow> \<exists>b \<in> set bs. \<not> bias_key_ok vocab_size (fst b)) then Inl ValueError
      else if length (filter (\<lambda>g. g \<noteq> None) [json_schema p, sp_regex p, ebnf p]) > 1
      then Inl ValueError
      else Inr ())"

section \<open>Stop regexes\<close>

text \<open>
  The parsed form of a regex: \<open>Other\<close> stands for the operations the code does not handle.
  \<open>None\<close> as the upper bound of a repetition is \<^verbatim>\<open>MAXREPEAT\<close>.
\<close>

datatype sre =
    Literal char
  | In "char list"
  | AnyChar
  | Subpattern "sre list"
  | Branch "sre list list"
  | Repeat nat "nat option" "sre list"
  | At
  | Other

definition MAX_LEN :: nat where
  "MAX_LEN = 2 ^ 30"

fun max_length_item :: "sre \<Rightarrow> nat result"
  and max_length_from_subpattern :: "sre list \<Rightarrow> nat result"
  and max_length_branches :: "sre list list \<Rightarrow> nat result"
where
  "max_length_item (Literal _) = Inr 1"
| "max_length_item (In _) = Inr 1"
| "max_length_item AnyChar = Inr 1"
| "max_length_item (Subpattern inner) = max_length_from_subpattern inner"
| "max_length_item (Branch branches) = max_length_branches branches"
| "max_length_item (Repeat _ max_num inner) =
     (case max_num of
        None \<Rightarrow> Inr MAX_LEN
      | Some k \<Rightarrow> bindR (max_length_from_subpattern inner) (\<lambda>n. Inr (k * n)))"
| "max_length_item At = Inr 0"
| "max_length_item Other = Inr MAX_LEN"
| "max_length_from_subpattern [] = Inr 0"
| "max_length_from_subpattern (x # xs) =
     bindR (max_length_item x) (\<lambda>n. bindR (max_length_from_subpattern xs) (\<lambda>m. Inr (n + m)))"
| "max_length_branches [] = Inl ValueError"
| "max_length_branches (b # bs) =
     bindR (max_length_from_subpattern b)
       (\<lambda>n. if bs = [] then Inr n else bindR (max_length_branches bs) (\<lambda>m. Inr (max n m)))"

definition get_max_seq_length :: "(string \<Rightarrow> sre list result) \<Rightarrow> string \<Rightarrow> nat result" where
  "get_max_seq_length parse s = bindR (parse s) max_length_from_subpattern"

section \<open>Normalisation\<close>

definition stop_list :: "stop_spec \<Rightarrow> string list" where
  "stop_list s = (case s of NoStop \<Rightarrow> [] | OneStop x \<Rightarrow> [x] | ManyStop xs \<Rightarrow> xs)"

text \<open>\<open>encode\<close> is \<^verbatim>\<open>tokenizer.encode\<close>, or \<open>None\<close> without a tokenizer.\<close>

definition stop_str_len :: "(string \<Rightarrow> int list) option \<Rightarrow> string \<Rightarrow> nat" where
  "stop_str_len encode s = (case encode of Some f \<Rightarrow> length (f s) | None \<Rightarrow> length s)"

definition normalize ::
  "(string \<Rightarrow> sre list result) \<Rightarrow> (string \<Rightarrow> int list) option \<Rightarrow> sampling_params \<Rightarrow> sampling_params result"
where
  "normalize parse encode p =
     (let strs = stop_list (stop_strs p);
          regs = stop_list (stop_regex_strs p);
          p1 = p\<lparr>stop_strs := ManyStop strs,
                 stop_str_max_len := fold (\<lambda>s m. max m (stop_str_len encode s)) strs 0\<rparr>
      in bindR (foldR (\<lambda>r m. bindR (get_max_seq_length parse r) (\<lambda>n. Inr (max m n))) regs 0)
           (\<lambda>m. Inr (p1\<lparr>stop_regex_strs := ManyStop regs, stop_regex_max_len := m\<rparr>)))"

end
