(* ===== verification/ReqPool.thy ===== *)
theory ReqPool
  imports PoolSpec SamplingParams
begin

text \<open>
  The request record (the fields of \<^verbatim>\<open>Req\<close> in \<^verbatim>\<open>managers/schedule_batch.py\<close> that the cache
  and the scheduler use) and \<^verbatim>\<open>ReqToTokenPool\<close> of \<^verbatim>\<open>mem_cache/memory_pool.py\<close>, which gives
  each running request a row of token slots.
\<close>

section \<open>Requests\<close>

datatype finish_reason =
    FINISH_MATCHED_TOKEN int
  | FINISH_MATCHED_STR string
  | FINISHED_MATCHED_REGEX string
  | FINISH_LENGTH int
  | FINISH_ABORT string

text \<open>The tokenizer of a request: its decoder and its special token ids.\<close>

record tokenizer =
  tk_decode :: "int list \<Rightarrow> string"
  eos_token_id :: "int option"
  additional_stop_token_ids :: "int list"

text \<open>
  \<open>max_new_tokens\<close> is \<^verbatim>\<open>sampling_params.max_new_tokens\<close> once the scheduler has replaced a missing
  limit; a set of ids is the list of its elements in iteration order, empty for \<^verbatim>\<open>None\<close>;
  \<open>grammar_terminated\<close> is \<open>None\<close> without a grammar. Times are clock readings.
\<close>

record req =
  rid :: string
  origin_input_ids :: "int list"
  output_ids :: "int list"
  fill_ids :: "int list"
  rq_extra_key :: "string option"
  rq_priority :: "int option"
  req_pool_idx :: "nat option"
  rq_is_chunked :: nat
  prefix_indices :: "int list"
  cache_protected_len :: nat
  last_node :: "nat option"
  kv_committed_len :: nat
  kv_allocated_len :: nat
  kv_committed_freed :: bool
  kv_overallocated_freed :: bool
  reasoning_tokens :: nat
  rq_sampling :: sampling_params
  max_new_tokens :: int
  rq_tokenizer :: "tokenizer option"
  eos_token_ids :: "int list"
  vocab_size :: int
  decoded_text :: string
  finished_reason :: "finish_reason option"
  finished_len :: "int option"
  to_finish :: "finish_reason option"
  grammar_terminated :: "bool option"
  is_reasoning_over :: bool
  extend_input_len :: int
  return_logprob :: bool
  logprob_start_len :: int
  extend_logprob_start_len :: int
  rq_last_host_node :: "nat option"
  rq_best_match_node :: "nat option"
  rq_host_hit_length :: nat
  mamba_pool_idx :: "nat option"
  skip_radix_cache_insert :: bool
  has_input_embeds :: bool
  has_embed_overrides :: bool
  in_streaming_session :: bool
  wait_queue_entry_time :: int
  routing_key :: "string option"
  is_retracted :: bool
  retraction_count :: nat

text \<open>
  The constructor, for the fields above. A LoRA id is appended to the extra key; requests of
  the fake bootstrap host skip the tree cache.
\<close>

definition new_req ::
  "string \<Rightarrow> int list \<Rightarrow> sampling_params \<Rightarrow> bool \<Rightarrow> string option \<Rightarrow> string option \<Rightarrow> int list \<Rightarrow> int
     \<Rightarrow> int option \<Rightarrow> string option \<Rightarrow> bool \<Rightarrow> req" where
  "new_req name ids params logprob lora_id ext_key eos vocab prio rkey fake_bootstrap =
     \<lparr>rid = name, origin_input_ids = ids, output_ids = [], fill_ids = [],
      rq_extra_key = (case lora_id of None \<Rightarrow> ext_key | Some l \<Rightarrow> Some (or_default ext_key [] @ l)),
      rq_priority = prio, req_pool_idx = None, rq_is_chunked = 0, prefix_indices = [],
      cache_protected_len = 0, last_node = None, kv_committed_len = 0, kv_allocated_len = 0,
      kv_committed_freed = False, kv_overallocated_freed = False, reasoning_tokens = 0,
      rq_sampling = params, max_new_tokens = or_default (sp_max_new_tokens params) 0,
      rq_tokenizer = None, eos_token_ids = eos, vocab_size = vocab, decoded_text = [],
      finished_reason = None, finished_len = None, to_finish = None, grammar_terminated = None,
      is_reasoning_over = False, extend_input_len = 0, return_logprob = logprob,
      logprob_start_len = 0, extend_logprob_start_len = 0, rq_last_host_node = None,
      rq_best_match_node = None, rq_host_hit_length = 0, mamba_pool_idx = None,
      skip_radix_cache_insert = fake_bootstrap, has_input_embeds = False,
      has_embed_overrides = False, in_streaming_session = False, wait_queue_entry_time = 0,
      routing_key = rkey, is_retracted = False, retraction_count = 0\<rparr>"

text \<open>The limit the scheduler gives a new request.\<close>

definition init_req_max_new_tokens :: "int \<Rightarrow> int \<Rightarrow> int \<Rightarrow> req \<Rightarrow> req" where
  "init_req_max_new_tokens page_size max_req_len max_total_num_tokens r =
     (let input_len = int (length (origin_input_ids r));
          paged_input_len = - ((- input_len) div page_size) * page_size
      in r\<lparr>max_new_tokens :=
            max 0 (min (or_default (sp_max_new_tokens (rq_sampling r)) (2 ^ 30))
              (min (max_req_len - input_len - 1)
                 (max_total_num_tokens - paged_input_len - page_size - 1)))\<rparr>)"

definition seqlen :: "req \<Rightarrow> nat" where
  "seqlen r = length (origin_input_ids r) + length (output_ids r)"

definition is_finished :: "req \<Rightarrow> bool" where
  "is_finished r \<longleftrightarrow> finished_reason r \<noteq> None"

definition cache_commit_len :: "bool \<Rightarrow> req \<Rightarrow> nat" where
  "cache_commit_len strip_thinking_cache r =
     (if strip_thinking_cache \<and> 0 < reasoning_tokens r
      then min (kv_committed_len r) (length (origin_input_ids r))
      else kv_committed_len r)"

definition pop_committed_kv_cache :: "bool \<Rightarrow> req \<Rightarrow> (nat \<times> req) result" where
  "pop_committed_kv_cache strip r =
     assertR (\<not> kv_committed_freed r)
       (Inr (cache_commit_len strip r, r\<lparr>kv_committed_freed := True\<rparr>))"

definition pop_overallocated_kv_cache :: "bool \<Rightarrow> req \<Rightarrow> ((nat \<times> nat) \<times> req) result" where
  "pop_overallocated_kv_cache strip r =
     assertR (\<not> kv_overallocated_freed r)
       (Inr ((cache_commit_len strip r, kv_allocated_len r), r\<lparr>kv_overallocated_freed := True\<rparr>))"

section \<open>The pool\<close>

record req_to_token_pool =
  rp_size :: nat
  rp_max_context_len :: nat
  rp_free_slots :: "nat list"
  req_to_token :: "nat \<Rightarrow> int list"

definition rp_init :: "nat \<Rightarrow> nat \<Rightarrow> req_to_token_pool" where
  "rp_init sz max_len = \<lparr>rp_size = sz, rp_max_context_len = max_len,
     rp_free_slots = [1..<sz + 1], req_to_token = (\<lambda>_. replicate max_len 0)\<rparr>"

definition rp_available_size :: "req_to_token_pool \<Rightarrow> nat" where
  "rp_available_size p = length (rp_free_slots p)"

text \<open>Reading \<^verbatim>\<open>req_to_token[idx, :n]\<close> and writing \<^verbatim>\<open>(idx, slice(a, b))\<close>.\<close>

definition rp_read :: "req_to_token_pool \<Rightarrow> nat \<Rightarrow> nat \<Rightarrow> int list" where
  "rp_read p idx n = take n (req_to_token p idx)"

definition rp_write ::
  "req_to_token_pool \<Rightarrow> nat \<Rightarrow> nat \<Rightarrow> nat \<Rightarrow> int list \<Rightarrow> req_to_token_pool result" where
  "rp_write p idx a b vs =
     bindR (assign_slice (req_to_token p idx) a b vs)
       (\<lambda>row. Inr (p\<lparr>req_to_token := (req_to_token p)(idx := row)\<rparr>))"

fun rp_assign :: "req list \<Rightarrow> nat list \<Rightarrow> req list" where
  "rp_assign [] sel = []"
| "rp_assign (r # rs) sel =
     (case req_pool_idx r of
        None \<Rightarrow> r\<lparr>req_pool_idx := Some (hd sel)\<rparr> # rp_assign rs (tl sel)
      | Some _ \<Rightarrow> r # rp_assign rs sel)"

definition rp_alloc ::
  "req_to_token_pool \<Rightarrow> req list \<Rightarrow> (nat list option \<times> req list \<times> req_to_token_pool) result" where
  "rp_alloc p reqs =
     (let reusing = filter (\<lambda>r. req_pool_idx r \<noteq> None) reqs
      in assertR (\<forall>r \<in> set reusing. 0 < rq_is_chunked r \<or> 0 < kv_committed_len r)
          (let need_size = length reqs - length reusing
           in if length (rp_free_slots p) < need_size then Inr (None, reqs, p)
              else let select_index = take need_size (rp_free_slots p);
                       reqs' = rp_assign reqs select_index
                   in Inr (Some (map (\<lambda>r. the (req_pool_idx r)) reqs'), reqs',
                           p\<lparr>rp_free_slots := drop need_size (rp_free_slots p)\<rparr>)))"

definition rp_free :: "req_to_token_pool \<Rightarrow> req \<Rightarrow> (req \<times> req_to_token_pool) result" where
  "rp_free p r =
     (case req_pool_idx r of
        None \<Rightarrow> Inl AssertionError
      | Some i \<Rightarrow> Inr (r\<lparr>req_pool_idx := None\<rparr>, p\<lparr>rp_free_slots := rp_free_slots p @ [i]\<rparr>))"

definition rp_clear :: "req_to_token_pool \<Rightarrow> req_to_token_pool" where
  "rp_clear p = p\<lparr>rp_free_slots := [1..<rp_size p + 1]\<rparr>"

section \<open>Invariant\<close>

text \<open>
  Free rows and the rows of the live requests are the rows 1 to \<open>rp_size\<close>, each once; row 0
  is the padding row.
\<close>

definition req_rows :: "req list \<Rightarrow> nat list" where
  "req_rows rs = map the (filter (\<lambda>i. i \<noteq> None) (map req_pool_idx rs))"

definition rp_inv :: "req_to_token_pool \<Rightarrow> req list \<Rightarrow> bool" where
  "rp_inv p rs \<longleftrightarrow> distinct (rp_free_slots p @ req_rows rs) \<and>
     set (rp_free_slots p @ req_rows rs) = {1..rp_size p}"

lemma req_rows_simps [simp]:
  "req_rows [] = []"
  "req_rows (r # rs) = (case req_pool_idx r of None \<Rightarrow> req_rows rs | Some i \<Rightarrow> i # req_rows rs)"
  by (auto simp: req_rows_def split: option.splits)

lemma map_Some_req_rows:
  "\<forall>r \<in> set rs. req_pool_idx r \<noteq> None \<Longrightarrow> map Some (req_rows rs) = map req_pool_idx rs"
  by (induction rs) auto

lemma req_rows_append: "req_rows (xs @ ys) = req_rows xs @ req_rows ys"
  by (simp add: req_rows_def)

lemma rp_assign_rows:
  "length sel = length (filter (\<lambda>r. req_pool_idx r = None) rs) \<Longrightarrow>
   mset (req_rows (rp_assign rs sel)) = mset sel + mset (req_rows rs) \<and>
   (\<forall>r \<in> set (rp_assign rs sel). req_pool_idx r \<noteq> None) \<and> length (rp_assign rs sel) = length rs"
proof (induction rs arbitrary: sel)
  case (Cons r rs)
  show ?case
  proof (cases "req_pool_idx r")
    case None
    then obtain s sel' where s: "sel = s # sel'" using Cons.prems by (cases sel) auto
    have l: "length sel' = length (filter (\<lambda>r. req_pool_idx r = None) rs)" using Cons.prems None s by simp
    have e: "rp_assign (r # rs) sel = r\<lparr>req_pool_idx := Some s\<rparr> # rp_assign rs sel'"
      using None s by simp
    have m: "mset (req_rows (rp_assign (r # rs) sel)) = add_mset s (mset (req_rows (rp_assign rs sel')))"
      by (simp only: e) simp
    show ?thesis
      unfolding m using Cons.IH[OF l] None by (simp add: e s)
  next
    case (Some i)
    then show ?thesis using Cons.IH[of sel] Cons.prems by simp
  qed
qed simp

definition new_reqs :: "req list \<Rightarrow> nat" where
  "new_reqs reqs = length (filter (\<lambda>r. req_pool_idx r = None) reqs)"

lemma rp_alloc_eq:
  "rp_alloc p reqs =
     assertR (\<forall>r \<in> set reqs. req_pool_idx r \<noteq> None \<longrightarrow> 0 < rq_is_chunked r \<or> 0 < kv_committed_len r)
       (if length (rp_free_slots p) < new_reqs reqs then Inr (None, reqs, p)
        else Inr (Some (map (\<lambda>r. the (req_pool_idx r)) (rp_assign reqs (take (new_reqs reqs) (rp_free_slots p)))),
                  rp_assign reqs (take (new_reqs reqs) (rp_free_slots p)),
                  p\<lparr>rp_free_slots := drop (new_reqs reqs) (rp_free_slots p)\<rparr>))"
proof -
  have n: "length reqs - length (filter (\<lambda>r. req_pool_idx r \<noteq> None) reqs) = new_reqs reqs"
    using sum_length_filter_compl[of "\<lambda>r. req_pool_idx r = None" reqs] by (simp add: new_reqs_def)
  have q: "(\<forall>r \<in> set (filter (\<lambda>r. req_pool_idx r \<noteq> None) reqs). P r) \<longleftrightarrow>
      (\<forall>r \<in> set reqs. req_pool_idx r \<noteq> None \<longrightarrow> P r)" for P by auto
  show ?thesis by (simp only: rp_alloc_def Let_def n q)
qed

lemma rp_alloc_inv:
  assumes "rp_inv p (reqs @ others)" "rp_alloc p reqs = Inr (Some idxs, reqs', p')"
  shows "rp_inv p' (reqs' @ others) \<and> length reqs' = length reqs \<and>
    (\<forall>r \<in> set reqs'. req_pool_idx r \<noteq> None) \<and> idxs = req_rows reqs' \<and> distinct idxs"
proof -
  let ?n = "new_reqs reqs"
  let ?sel = "take ?n (rp_free_slots p)" and ?rest = "drop ?n (rp_free_slots p)"
  have r: "reqs' = rp_assign reqs ?sel" "p' = p\<lparr>rp_free_slots := ?rest\<rparr>"
    "idxs = map (\<lambda>r. the (req_pool_idx r)) reqs'" "?n \<le> length (rp_free_slots p)"
    using assms(2) by (auto simp: rp_alloc_eq assertR_eq_Inr split: if_splits)
  have "length ?sel = length (filter (\<lambda>r. req_pool_idx r = None) reqs)"
    using r(4) by (simp add: new_reqs_def)
  note a = rp_assign_rows[OF this]
  have a': "mset (req_rows reqs') = mset ?sel + mset (req_rows reqs)"
    "\<forall>r \<in> set reqs'. req_pool_idx r \<noteq> None" "length reqs' = length reqs"
    unfolding r(1) using a by blast+
  have i: "idxs = req_rows reqs'"
    unfolding r(3) using a'(2) by (induction reqs') auto
  have m: "mset (rp_free_slots p' @ req_rows (reqs' @ others)) = mset (rp_free_slots p @ req_rows (reqs @ others))"
  proof -
    have "mset (rp_free_slots p) = mset ?sel + mset ?rest"
      by (metis append_take_drop_id mset_append)
    then show ?thesis using a'(1) by (simp add: r(2) req_rows_append)
  qed
  have "distinct (rp_free_slots p' @ req_rows (reqs' @ others))"
    "set (rp_free_slots p' @ req_rows (reqs' @ others)) = set (rp_free_slots p @ req_rows (reqs @ others))"
    using assms(1) mset_eq_imp_distinct_iff[OF m] mset_eq_setD[OF m] by (auto simp: rp_inv_def)
  then show ?thesis
    using assms(1) a' i r(2) by (simp add: rp_inv_def req_rows_append)
qed

lemma rp_free_inv:
  assumes "rp_inv p (r # others)" "rp_free p r = Inr (r', p')"
  shows "rp_inv p' (r' # others) \<and> req_pool_idx r' = None"
  using assms by (auto simp: rp_inv_def rp_free_def split: option.splits)

lemma rp_init_inv: "rp_inv (rp_init n m) []"
  by (auto simp: rp_inv_def rp_init_def)

section \<open>Properties\<close>

text \<open>
  C29. \<^verbatim>\<open>ReqToTokenPool.alloc\<close> gives every request a row of its own: after a successful call
  all requests of the batch have a row, the rows are different from each other and from the
  rows of all other live requests, and free and used rows are still the rows 1 to size.
\<close>

theorem rp_alloc_distinct_rows:
  assumes "rp_inv p (reqs @ others)"
    and "\<forall>r \<in> set reqs. req_pool_idx r \<noteq> None \<longrightarrow> 0 < rq_is_chunked r \<or> 0 < kv_committed_len r"
    and "length (filter (\<lambda>r. req_pool_idx r = None) reqs) \<le> length (rp_free_slots p)"
  shows "\<exists>idxs reqs' p'. rp_alloc p reqs = Inr (Some idxs, reqs', p') \<and>
    map Some idxs = map req_pool_idx reqs' \<and> length reqs' = length reqs \<and>
    distinct (idxs @ req_rows others) \<and> 0 \<notin> set idxs \<and> rp_inv p' (reqs' @ others)"
proof -
  obtain idxs reqs' p' where r: "rp_alloc p reqs = Inr (Some idxs, reqs', p')"
    using assms(2,3) by (simp add: rp_alloc_eq new_reqs_def assertR_def)
  note i = rp_alloc_inv[OF assms(1) r]
  have "map Some (req_rows reqs') = map req_pool_idx reqs'"
    using i by (intro map_Some_req_rows) blast
  moreover have "distinct (idxs @ req_rows others)" "0 \<notin> set idxs"
    using i by (auto simp: rp_inv_def req_rows_append)
  ultimately show ?thesis using r i by simp
qed

definition demo_req :: "nat option \<Rightarrow> req" where
  "demo_req idx = (new_req ''r'' [] (sampling_init exact id sampling_defaults) False None None [] 100 None None False)
     \<lparr>req_pool_idx := idx, rq_is_chunked := 1\<rparr>"

definition demo_pool :: req_to_token_pool where
  "demo_pool = (rp_init 4 8)\<lparr>rp_free_slots := [2, 4]\<rparr>"

theorem rp_alloc_distinct_rows_witness:
  "\<exists>idxs reqs' p'. rp_alloc demo_pool [demo_req None, demo_req (Some 3), demo_req None] = Inr (Some idxs, reqs', p') \<and>
    map Some idxs = map req_pool_idx reqs' \<and> length reqs' = 3 \<and>
    distinct (idxs @ req_rows [demo_req (Some 1)]) \<and> 0 \<notin> set idxs \<and> rp_inv p' (reqs' @ [demo_req (Some 1)])"
proof -
  let ?rs = "[demo_req None, demo_req (Some 3), demo_req None]"
  have f: "req_pool_idx (demo_req i) = i" "rq_is_chunked (demo_req i) = 1" for i by (simp_all add: demo_req_def)
  have "rp_inv demo_pool (?rs @ [demo_req (Some 1)])"
    by (auto simp: rp_inv_def demo_pool_def rp_init_def f)
  moreover have "\<forall>r \<in> set ?rs. req_pool_idx r \<noteq> None \<longrightarrow> 0 < rq_is_chunked r \<or> 0 < kv_committed_len r"
    by (simp add: f)
  moreover have "length (filter (\<lambda>r. req_pool_idx r = None) ?rs) \<le> length (rp_free_slots demo_pool)"
    by (simp add: f demo_pool_def)
  ultimately have "\<exists>idxs reqs' p'. rp_alloc demo_pool ?rs = Inr (Some idxs, reqs', p') \<and>
      map Some idxs = map req_pool_idx reqs' \<and> length reqs' = length ?rs \<and>
      distinct (idxs @ req_rows [demo_req (Some 1)]) \<and> 0 \<notin> set idxs \<and> rp_inv p' (reqs' @ [demo_req (Some 1)])"
    by (rule rp_alloc_distinct_rows)
  moreover have "length ?rs = 3" by simp
  ultimately show ?thesis by metis
qed

end
