(* ===== verification/RadixOps.thy ===== *)
theory RadixOps
  imports RadixTree ReqPool
begin

text \<open>
  The operations of \<^verbatim>\<open>RadixCache\<close> (\<^verbatim>\<open>mem_cache/radix_cache.py\<close>): matching, insertion,
  splitting, locking, eviction and the caching of requests. A call that may raise returns a
  \<open>result\<close>; every operation returns the new cache.
\<close>

section \<open>Device memory\<close>

text \<open>Pages of one slot are served by the token allocator, larger pages by the page allocator.\<close>

definition kv_free :: "allocator \<Rightarrow> int list \<Rightarrow> allocator result" where
  "kv_free a xs = (if al_page_size a = 1 then Inr (tk_free a xs) else pg_free a xs)"

definition kv_alloc :: "allocator \<Rightarrow> nat \<Rightarrow> (int list option \<times> allocator) result" where
  "kv_alloc a n = (if al_page_size a = 1 then Inr (tk_alloc a n) else pg_alloc a n)"

definition cache_free :: "int list \<Rightarrow> 'a radix_cache_scheme \<Rightarrow> 'a radix_cache_scheme result" where
  "cache_free xs c = bindR (kv_free (kv_allocator c) xs) (\<lambda>a. Inr (c\<lparr>kv_allocator := a\<rparr>))"

text \<open>The value of a node where the code needs a tensor.\<close>

definition the_value :: "tree_node \<Rightarrow> int list result" where
  "the_value x = (case tn_value x of None \<Rightarrow> Inl TypeError | Some v \<Rightarrow> Inr v)"

section \<open>Leaves and reset\<close>

definition drop_leaf :: "nat \<Rightarrow> 'a radix_cache_scheme \<Rightarrow> 'a radix_cache_scheme" where
  "drop_leaf n c = c\<lparr>evictable_leaves := removeAll n (evictable_leaves c)\<rparr>"

definition update_leaf_status :: "nat \<Rightarrow> 'a radix_cache_scheme \<Rightarrow> 'a radix_cache_scheme" where
  "update_leaf_status n c =
     (let x = nodes c n
      in if evicted x \<or> 0 < lock_ref x then drop_leaf n c
         else if \<exists>ch \<in> set (children x). \<not> evicted (nodes c (snd ch)) then drop_leaf n c
         else if n \<notin> set (evictable_leaves c)
         then c\<lparr>evictable_leaves := evictable_leaves c @ [n]\<rparr>
         else c)"

definition reset :: "pyenv \<Rightarrow> 'a radix_cache_scheme \<Rightarrow> 'a radix_cache_scheme" where
  "reset env c =
     (let (r, c) = new_tree_node env \<lparr>token_ids = [], extra_key = None, is_bigram = False\<rparr> (- maxsize) c;
          c = upd r (\<lambda>x. x\<lparr>tn_value := Some [], host_value := Some [], lock_ref := 1,
                           hash_value := Some []\<rparr>) c
      in record_all_cleared_event
           (c\<lparr>root_node := r, r_evictable_size := 0, r_protected_size := 0, evictable_leaves := []\<rparr>))"

section \<open>Matching\<close>

record match_result =
  device_indices :: "int list"
  last_device_node :: nat
  last_host_node :: nat
  best_match_node :: nat
  host_hit_length :: nat

definition empty_match_result :: "'a radix_cache_scheme \<Rightarrow> match_result" where
  "empty_match_result c = \<lparr>device_indices = [], last_device_node = root_node c,
     last_host_node = root_node c, best_match_node = root_node c, host_hit_length = 0\<rparr>"

definition split_node ::
  "pyenv \<Rightarrow> radix_key \<Rightarrow> nat \<Rightarrow> nat \<Rightarrow> 'a radix_cache_scheme \<Rightarrow> (nat \<times> 'a radix_cache_scheme) result" where
  "split_node env key child split_len c =
     (let x = nodes c child;
          (nn, c) = new_tree_node env (rk_upto (tn_key x) split_len) (priority x) c
      in bindR (child_key (rk_from key split_len) (r_page_size c)) (\<lambda>ck.
         bindR (the_value x) (\<lambda>v.
         bindR (the_attr (parent x)) (\<lambda>p.
         bindR (child_key key (r_page_size c)) (\<lambda>pk.
         let (h1, h2) = split_node_hash_value (hash_value x) split_len (r_page_size c);
             c = upd nn (\<lambda>y. y\<lparr>hit_count := hit_count x, children := [(ck, child)],
                   parent := parent x, lock_ref := lock_ref x, tn_value := Some (take split_len v),
                   hash_value := h1\<rparr>) c;
             c = upd child (\<lambda>y. y\<lparr>parent := Some nn, tn_key := rk_from (tn_key x) split_len,
                   tn_value := Some (drop split_len v), hash_value := h2\<rparr>) c;
             c = upd p (\<lambda>y. y\<lparr>children := AList.update pk nn (children y)\<rparr>) c
         in Inr (nn, c))))))"

fun match_loop ::
  "nat \<Rightarrow> pyenv \<Rightarrow> int \<Rightarrow> nat \<Rightarrow> radix_key \<Rightarrow> pyval \<Rightarrow> int list option list \<Rightarrow>
   'a radix_cache_scheme \<Rightarrow> (int list option list \<times> nat \<times> 'a radix_cache_scheme) result" where
  "match_loop 0 env t node key ck vals c = Inl OutOfFuel"
| "match_loop (Suc fuel) env t node key ck vals c =
     (if rk_len key = 0 then Inr (vals, node, c)
      else case map_of (children (nodes c node)) ck of
        None \<Rightarrow> Inr (vals, node, c)
      | Some child \<Rightarrow>
          let c = upd child (\<lambda>x. x\<lparr>last_access_time := t\<rparr>) c; ckey = tn_key (nodes c child)
          in bindR (rk_match ckey key (r_page_size c)) (\<lambda>prefix_len.
             if prefix_len < rk_len ckey
             then bindR (split_node env ckey child prefix_len c) (\<lambda>(nn, c).
                  Inr (vals @ [tn_value (nodes c nn)], nn, c))
             else let vals = vals @ [tn_value (nodes c child)]; key = rk_from key prefix_len
                  in bindR (if 0 < rk_len key then child_key key (r_page_size c) else Inr ck)
                       (\<lambda>ck. match_loop fuel env t child key ck vals c)))"

definition match_prefix_helper ::
  "pyenv \<Rightarrow> nat \<Rightarrow> radix_key \<Rightarrow> 'a radix_cache_scheme \<Rightarrow>
   (int list option list \<times> nat \<times> 'a radix_cache_scheme) result" where
  "match_prefix_helper env node key c =
     (let (t, c) = monotonic env c;
          c = upd node (\<lambda>x. x\<lparr>last_access_time := t\<rparr>) c
      in bindR (child_key key (r_page_size c))
           (\<lambda>ck. match_loop (Suc (rk_len key)) env t node key ck [] c))"

text \<open>\<^verbatim>\<open>torch.cat\<close> of the collected values.\<close>

definition cat_values :: "int list option list \<Rightarrow> int list result" where
  "cat_values vals =
     bindR (mapR (\<lambda>v. case v of None \<Rightarrow> Inl TypeError | Some xs \<Rightarrow> Inr xs) vals) (\<lambda>vs. Inr (concat vs))"

definition match_prefix ::
  "pyenv \<Rightarrow> radix_key \<Rightarrow> 'a radix_cache_scheme \<Rightarrow> (match_result \<times> 'a radix_cache_scheme) result" where
  "match_prefix env key c =
     (let key = fst (maybe_to_bigram_view key (r_is_eagle c) (None :: int list option))
      in if r_disable c \<or> rk_len key = 0 then Inr (empty_match_result c, c)
         else let key = page_aligned key (r_page_size c)
         in if rk_len key = 0 then Inr (empty_match_result c, c)
            else bindR (match_prefix_helper env (root_node c) key c) (\<lambda>(vals, node, c).
                 bindR (if vals \<noteq> [] then cat_values vals else Inr []) (\<lambda>v.
                 Inr (\<lparr>device_indices = v, last_device_node = node, last_host_node = node,
                       best_match_node = node, host_hit_length = 0\<rparr>, c))))"

section \<open>Insertion\<close>

definition inc_hit_count :: "nat \<Rightarrow> bool \<Rightarrow> 'a radix_cache_scheme \<Rightarrow> 'a radix_cache_scheme" where
  "inc_hit_count n chunked c =
     (if chunked then c else upd n (\<lambda>x. x\<lparr>hit_count := hit_count x + 1\<rparr>) c)"

fun insert_loop ::
  "nat \<Rightarrow> pyenv \<Rightarrow> int \<Rightarrow> int \<Rightarrow> bool \<Rightarrow> nat \<Rightarrow> radix_key \<Rightarrow> int list \<Rightarrow> pyval \<Rightarrow> nat \<Rightarrow>
   'a radix_cache_scheme \<Rightarrow>
   (nat \<times> radix_key \<times> int list \<times> pyval \<times> nat \<times> 'a radix_cache_scheme) result" where
  "insert_loop 0 env t prio chunked node key val ck total_len c = Inl OutOfFuel"
| "insert_loop (Suc fuel) env t prio chunked node key val ck total_len c =
     (if rk_len key = 0 then Inr (node, key, val, ck, total_len, c)
      else case map_of (children (nodes c node)) ck of
        None \<Rightarrow> Inr (node, key, val, ck, total_len, c)
      | Some node \<Rightarrow>
          let c = upd node (\<lambda>x. x\<lparr>last_access_time := t\<rparr>) c; nkey = tn_key (nodes c node)
          in bindR (rk_match nkey key (r_page_size c)) (\<lambda>prefix_len.
             let total_len = total_len + prefix_len; key = rk_from key prefix_len; val = drop prefix_len val
             in bindR
                 (if prefix_len < rk_len nkey
                  then bindR (split_node env nkey node prefix_len c) (\<lambda>(nn, c).
                       Inr (nn, inc_hit_count nn chunked
                         (upd nn (\<lambda>x. x\<lparr>priority := max (priority x) prio\<rparr>) c)))
                  else Inr (node, inc_hit_count node chunked
                         (upd node (\<lambda>x. x\<lparr>priority := max (priority x) prio\<rparr>) c)))
                 (\<lambda>(node, c).
             bindR (if 0 < rk_len key then child_key key (r_page_size c) else Inr ck)
               (\<lambda>ck. insert_loop fuel env t prio chunked node key val ck total_len c))))"

definition insert_helper ::
  "pyenv \<Rightarrow> nat \<Rightarrow> radix_key \<Rightarrow> int list \<Rightarrow> int option \<Rightarrow> bool \<Rightarrow> 'a radix_cache_scheme \<Rightarrow>
   (nat \<times> 'a radix_cache_scheme) result" where
  "insert_helper env node key val prio_opt chunked c =
     (let prio = (case prio_opt of None \<Rightarrow> 0 | Some p \<Rightarrow> p);
          (t, c) = monotonic env c;
          c = upd node (\<lambda>x. x\<lparr>last_access_time := t, priority := max (priority x) prio\<rparr>) c
      in if rk_len key = 0 then Inr (0, c)
         else bindR (child_key key (r_page_size c)) (\<lambda>ck.
              bindR (insert_loop (Suc (rk_len key)) env t prio chunked node key val ck 0 c)
              (\<lambda>(node, key, val, ck, total_len, c).
                if 0 < rk_len key
                then let (nn, c) = new_tree_node env key prio c;
                         c = upd nn (\<lambda>x. x\<lparr>parent := Some node, tn_value := Some val\<rparr>) c;
                         c = inc_hit_count nn chunked c;
                         c = upd node (\<lambda>x. x\<lparr>children := AList.update ck nn (children x)\<rparr>) c;
                         c = c\<lparr>r_evictable_size := r_evictable_size c + int (rk_len key)\<rparr>;
                         c = update_leaf_status nn (update_leaf_status node c)
                     in bindR (record_store_event env nn GPU c) (\<lambda>c. Inr (total_len, c))
                else Inr (total_len, c))))"

text \<open>Without a value the token ids themselves are stored.\<close>

definition rc_insert ::
  "pyenv \<Rightarrow> radix_key \<Rightarrow> int list option \<Rightarrow> int option \<Rightarrow> bool \<Rightarrow> 'a radix_cache_scheme \<Rightarrow>
   (nat \<times> 'a radix_cache_scheme) result" where
  "rc_insert env key val prio chunked c =
     (if r_disable c then Inr (0, c)
      else let (key, val) = maybe_to_bigram_view key (r_is_eagle c) val;
               key = page_aligned key (r_page_size c);
               val = (case val of Some v \<Rightarrow> take (rk_len key) v
                      | None \<Rightarrow> take (rk_len key) (token_ids key))
           in insert_helper env (root_node c) key val prio chunked c)"

section \<open>Locks\<close>

fun inc_lock_loop ::
  "nat \<Rightarrow> nat \<Rightarrow> int \<Rightarrow> 'a radix_cache_scheme \<Rightarrow> (int \<times> 'a radix_cache_scheme) result" where
  "inc_lock_loop 0 n delta c = (if n = root_node c then Inr (delta, c) else Inl OutOfFuel)"
| "inc_lock_loop (Suc fuel) n delta c =
     (if n = root_node c then Inr (delta, c)
      else let l = int (rk_len (tn_key (nodes c n)));
               (delta, c) =
                 (if lock_ref (nodes c n) = 0
                  then (delta - l, c\<lparr>r_evictable_size := r_evictable_size c - l,
                                     r_protected_size := r_protected_size c + l\<rparr>)
                  else (delta, c));
               c = update_leaf_status n (upd n (\<lambda>x. x\<lparr>lock_ref := lock_ref x + 1\<rparr>) c)
           in bindR (the_attr (parent (nodes c n))) (\<lambda>p. inc_lock_loop fuel p delta c))"

definition inc_lock_ref :: "nat \<Rightarrow> 'a radix_cache_scheme \<Rightarrow> (int \<times> 'a radix_cache_scheme) result" where
  "inc_lock_ref n c = (if r_disable c then Inr (0, c) else inc_lock_loop (next_ref c) n 0 c)"

fun dec_lock_loop ::
  "nat \<Rightarrow> nat \<Rightarrow> int \<Rightarrow> 'a radix_cache_scheme \<Rightarrow> (int \<times> 'a radix_cache_scheme) result" where
  "dec_lock_loop 0 n delta c = (if n = root_node c then Inr (delta, c) else Inl OutOfFuel)"
| "dec_lock_loop (Suc fuel) n delta c =
     (if n = root_node c then Inr (delta, c)
      else let l = int (rk_len (tn_key (nodes c n)));
               (delta, c) =
                 (if lock_ref (nodes c n) = 1
                  then (delta + l, c\<lparr>r_evictable_size := r_evictable_size c + l,
                                     r_protected_size := r_protected_size c - l\<rparr>)
                  else (delta, c));
               c = update_leaf_status n (upd n (\<lambda>x. x\<lparr>lock_ref := lock_ref x - 1\<rparr>) c)
           in case parent (nodes c n) of
                None \<Rightarrow> Inl AssertionError
              | Some p \<Rightarrow> dec_lock_loop fuel p delta c)"

definition dec_lock_ref :: "nat \<Rightarrow> 'a radix_cache_scheme \<Rightarrow> (int \<times> 'a radix_cache_scheme) result" where
  "dec_lock_ref n c = (if r_disable c then Inr (0, c) else dec_lock_loop (next_ref c) n 0 c)"

section \<open>Eviction\<close>

definition delete_leaf :: "nat \<Rightarrow> 'a radix_cache_scheme \<Rightarrow> 'a radix_cache_scheme result" where
  "delete_leaf n c =
     (let x = nodes c n
      in bindR (child_key (tn_key x) (r_page_size c)) (\<lambda>k.
         bindR (the_attr (parent x)) (\<lambda>p.
         assertR (map_of (children (nodes c p)) k = Some n)
          (let c = upd p (\<lambda>y. y\<lparr>children := AList.delete k (children y)\<rparr>) c;
               c = drop_leaf n (c\<lparr>r_evictable_size := r_evictable_size c - int (rk_len (tn_key x))\<rparr>)
           in Inr (update_leaf_status p c)))))"

fun evict_loop ::
  "nat \<Rightarrow> pyenv \<Rightarrow> int \<Rightarrow> heap_entry list \<Rightarrow> nat \<Rightarrow> 'a radix_cache_scheme \<Rightarrow>
   (nat \<times> 'a radix_cache_scheme) result" where
  "evict_loop 0 env num_tokens heap num_evicted c = Inl OutOfFuel"
| "evict_loop (Suc fuel) env num_tokens heap num_evicted c =
     (if int num_evicted < num_tokens \<and> heap \<noteq> []
      then bindR (heappop (entry_key c) heap) (\<lambda>((_, x), heap).
           bindR (the_value (nodes c x)) (\<lambda>v.
           bindR (cache_free v c) (\<lambda>c.
           bindR (delete_leaf x c) (\<lambda>c.
           bindR (the_attr (parent (nodes c x))) (\<lambda>p.
           let heap = (if children (nodes c p) = [] \<and> lock_ref (nodes c p) = 0
                       then heappush (entry_key c) heap (get_priority (r_policy c) (nodes c p), p)
                       else heap)
           in bindR (record_remove_event env x GPU c) (\<lambda>c.
              evict_loop fuel env num_tokens heap (num_evicted + length v) c))))))
      else Inr (num_evicted, c))"

definition evict :: "pyenv \<Rightarrow> int \<Rightarrow> 'a radix_cache_scheme \<Rightarrow> (nat \<times> 'a radix_cache_scheme) result" where
  "evict env num_tokens c =
     (if r_disable c then Inr (0, c)
      else let leaves = set_iter env (evictable_leaves c);
               heap = heapify (entry_key c) (map (\<lambda>n. (get_priority (r_policy c) (nodes c n), n)) leaves)
           in evict_loop (Suc (next_ref c)) env num_tokens heap 0 c)"

section \<open>Sizes\<close>

definition evictable_size :: "'a radix_cache_scheme \<Rightarrow> int" where
  "evictable_size c = r_evictable_size c"

definition protected_size :: "'a radix_cache_scheme \<Rightarrow> int" where
  "protected_size c = r_protected_size c"

text \<open>The stack is a Python list: its last element is popped.\<close>

fun total_size_loop :: "nat \<Rightarrow> 'a radix_cache_scheme \<Rightarrow> nat list \<Rightarrow> nat \<Rightarrow> nat result" where
  "total_size_loop fuel c [] total_len = Inr total_len"
| "total_size_loop 0 c (n # stack) total_len = Inl OutOfFuel"
| "total_size_loop (Suc fuel) c (n # stack) total_len =
     bindR (the_value (nodes c n)) (\<lambda>v.
       total_size_loop fuel c
         (rev (filter (\<lambda>ch. \<not> evicted (nodes c ch)) (map snd (children (nodes c n)))) @ stack)
         (total_len + length v))"

definition total_size :: "'a radix_cache_scheme \<Rightarrow> nat result" where
  "total_size c = total_size_loop (next_ref c) c [root_node c] 0"

text \<open>The recursion over the children in dict order; \<^verbatim>\<open>torch.cat\<close> of no tensor raises.\<close>

fun dfs_helper :: "nat \<Rightarrow> 'a radix_cache_scheme \<Rightarrow> nat \<Rightarrow> int list option list result" where
  "dfs_helper 0 c n = Inl OutOfFuel"
| "dfs_helper (Suc fuel) c n =
     foldR (\<lambda>(_, ch) vals. bindR (dfs_helper fuel c ch)
              (\<lambda>below. Inr (vals @ tn_value (nodes c ch) # below)))
       (children (nodes c n)) []"

definition all_values_flatten :: "'a radix_cache_scheme \<Rightarrow> int list result" where
  "all_values_flatten c =
     bindR (dfs_helper (next_ref c) c (root_node c))
       (\<lambda>vals. if vals = [] then Inl RuntimeError else cat_values vals)"

section \<open>Caching requests\<close>

text \<open>\<^verbatim>\<open>getattr(req, "priority", 0) or 0\<close>.\<close>

definition req_priority :: "req \<Rightarrow> int" where
  "req_priority r = (case rq_priority r of None \<Rightarrow> 0 | Some p \<Rightarrow> p)"

definition cache_finished_req ::
  "pyenv \<Rightarrow> bool \<Rightarrow> req_to_token_pool \<Rightarrow> req \<Rightarrow> bool \<Rightarrow> 'a radix_cache_scheme \<Rightarrow>
   (req \<times> 'a radix_cache_scheme) result" where
  "cache_finished_req env strip p r is_insert c =
     (let is_insert = (if r_disable_finished_insert c then False else is_insert)
      in bindR (pop_committed_kv_cache strip r) (\<lambda>(committed_len, r).
         bindR (the_attr (req_pool_idx r)) (\<lambda>idx.
         if r_disable c
         then bindR (cache_free (rp_read p idx committed_len) c) (\<lambda>c. Inr (r, c))
         else let tokens = take committed_len (origin_input_ids r @ output_ids r);
                  kv_indices = rp_read p idx (length tokens);
                  key = page_aligned \<lparr>token_ids = tokens, extra_key = rq_extra_key r, is_bigram = r_is_eagle c\<rparr>
                          (r_page_size c);
                  key_len = rk_len key;
                  values = take key_len kv_indices
              in bindR (if is_insert
                        then bindR (rc_insert env key (Some values) (Some (req_priority r)) False c)
                               (\<lambda>(prefix_len, c). cache_free (pyslice kv_indices (cache_protected_len r) prefix_len) c)
                        else cache_free (pyslice kv_indices (cache_protected_len r) key_len) c) (\<lambda>c.
                 bindR (cache_free (drop key_len kv_indices) c) (\<lambda>c.
                 case last_node r of
                   None \<Rightarrow> Inr (r, c)
                 | Some n \<Rightarrow> bindR (dec_lock_ref n c) (\<lambda>(_, c). Inr (r, c)))))))"

definition cache_unfinished_req ::
  "pyenv \<Rightarrow> req_to_token_pool \<Rightarrow> req \<Rightarrow> bool \<Rightarrow> 'a radix_cache_scheme \<Rightarrow>
   (req_to_token_pool \<times> req \<times> 'a radix_cache_scheme) result" where
  "cache_unfinished_req env p r chunked c =
     (if r_disable c then Inr (p, r, c)
      else bindR (the_attr (req_pool_idx r)) (\<lambda>idx.
        let kv_indices = rp_read p idx (length (fill_ids r));
            key = page_aligned \<lparr>token_ids = fill_ids r, extra_key = rq_extra_key r, is_bigram = r_is_eagle c\<rparr>
                    (r_page_size c);
            values = take (rk_len key) kv_indices
        in bindR (rc_insert env key (Some values) (Some (req_priority r)) chunked c) (\<lambda>(new_prefix_len, c).
           bindR (cache_free (pyslice kv_indices (cache_protected_len r) new_prefix_len) c) (\<lambda>c.
           bindR (match_prefix env key c) (\<lambda>(m, c).
           let new_indices = device_indices m; new_last_node = last_device_node m
           in assertR (length new_indices = rk_len key)
               (bindR (rp_write p idx (cache_protected_len r) (length new_indices)
                         (drop (cache_protected_len r) new_indices)) (\<lambda>p.
                bindR (the_attr (last_node r)) (\<lambda>old_node.
                bindR (dec_lock_ref old_node c) (\<lambda>(_, c).
                bindR (inc_lock_ref new_last_node c) (\<lambda>(_, c).
                Inr (p, r\<lparr>cache_protected_len := length new_indices,
                          prefix_indices :=
                            (if length new_indices < length kv_indices
                             then new_indices @ drop (length new_indices) kv_indices else new_indices),
                          last_node := Some new_last_node\<rparr>, c)))))))))))"

end
