(* ===== verification/RadixInv.thy ===== *)
theory RadixInv
  imports RadixOps
begin

text \<open>
  The shape of the radix tree. \<open>tree_ok c A pk\<close> says that the nodes \<open>A\<close> form a tree below the
  root whose node \<open>n\<close> stands for the unit sequence \<open>pk n\<close>: children and parents agree, the
  dict keys are the child keys of the children, edges are non-empty and page aligned. The
  paths are those of a compressed trie: \<open>trie_descend\<close>.
\<close>

section \<open>Stores\<close>

lemma nodes_upd [simp]: "nodes (upd n f c) = (nodes c)(n := f (nodes c n))"
  by (simp add: upd_def)

lemma upd_fields [simp]:
  "r_disable (upd n f c) = r_disable c" "r_page_size (upd n f c) = r_page_size c"
  "r_is_eagle (upd n f c) = r_is_eagle c" "r_policy (upd n f c) = r_policy c"
  "r_disable_finished_insert (upd n f c) = r_disable_finished_insert c"
  "enable_kv_cache_events (upd n f c) = enable_kv_cache_events c"
  "kv_event_queue (upd n f c) = kv_event_queue c" "next_ref (upd n f c) = next_ref c"
  "ticks (upd n f c) = ticks c" "root_node (upd n f c) = root_node c"
  "r_evictable_size (upd n f c) = r_evictable_size c"
  "r_protected_size (upd n f c) = r_protected_size c"
  "evictable_leaves (upd n f c) = evictable_leaves c" "kv_allocator (upd n f c) = kv_allocator c"
  by (simp_all add: upd_def)

section \<open>Dicts\<close>

lemma set_AList_update:
  "distinct (map fst al) \<Longrightarrow>
   set (AList.update k v al) = Set.insert (k, v) {e \<in> set al. fst e \<noteq> k}"
proof (induction al)
  case (Cons e al)
  then show ?case by (cases e) force
qed simp

lemma map_of_mem: "distinct (map fst al) \<Longrightarrow> map_of al k = Some v \<longleftrightarrow> (k, v) \<in> set al"
  by (simp add: map_of_eq_Some_iff)

lemma set_AList_delete: "set (AList.delete k al) = {e \<in> set al. fst e \<noteq> k}"
  by (induction al) auto

section \<open>Shape\<close>

definition key_ok :: "'a radix_cache_scheme \<Rightarrow> radix_key \<Rightarrow> bool" where
  "key_ok c k \<longleftrightarrow> 0 < rk_len k \<and> r_page_size c dvd rk_len k \<and> is_bigram k = r_is_eagle c"

abbreviation units_of :: "'a radix_cache_scheme \<Rightarrow> nat \<Rightarrow> unit_key list" where
  "units_of c n \<equiv> rk_units (tn_key (nodes c n))"

definition kids :: "'a radix_cache_scheme \<Rightarrow> nat \<Rightarrow> (pyval \<times> nat) set" where
  "kids c n = set (children (nodes c n))"

definition tree_ok :: "'a radix_cache_scheme \<Rightarrow> nat set \<Rightarrow> (nat \<Rightarrow> unit_key list) \<Rightarrow> bool" where
  "tree_ok c A pk \<longleftrightarrow>
     0 < r_page_size c \<and> A \<subseteq> {..<next_ref c} \<and> root_node c \<in> A \<and> pk (root_node c) = [] \<and>
     parent (nodes c (root_node c)) = None \<and>
     (\<forall>n \<in> A. distinct (map fst (children (nodes c n)))) \<and>
     (\<forall>n \<in> A. \<forall>(k, ch) \<in> kids c n. ch \<in> A \<and> ch \<noteq> root_node c \<and>
        parent (nodes c ch) = Some n \<and> child_key (tn_key (nodes c ch)) (r_page_size c) = Inr k) \<and>
     (\<forall>n \<in> A - {root_node c}. key_ok c (tn_key (nodes c n)) \<and>
        (\<exists>p \<in> A. parent (nodes c n) = Some p \<and> n \<in> snd ` kids c p \<and> pk n = pk p @ units_of c n))"

lemma tree_okI:
  assumes "0 < r_page_size c" "A \<subseteq> {..<next_ref c}" "root_node c \<in> A" "pk (root_node c) = []"
    "parent (nodes c (root_node c)) = None"
    "\<And>n. n \<in> A \<Longrightarrow> distinct (map fst (children (nodes c n)))"
    "\<And>n k ch. n \<in> A \<Longrightarrow> (k, ch) \<in> kids c n \<Longrightarrow> ch \<in> A \<and> ch \<noteq> root_node c \<and>
        parent (nodes c ch) = Some n \<and> child_key (tn_key (nodes c ch)) (r_page_size c) = Inr k"
    "\<And>n. n \<in> A \<Longrightarrow> n \<noteq> root_node c \<Longrightarrow> key_ok c (tn_key (nodes c n)) \<and>
        (\<exists>p \<in> A. parent (nodes c n) = Some p \<and> n \<in> snd ` kids c p \<and> pk n = pk p @ units_of c n)"
  shows "tree_ok c A pk"
  unfolding tree_ok_def using assms by blast

lemma tree_okD:
  assumes "tree_ok c A pk"
  shows "0 < r_page_size c" "A \<subseteq> {..<next_ref c}" "root_node c \<in> A" "pk (root_node c) = []"
    "parent (nodes c (root_node c)) = None" "finite A"
    "n \<in> A \<Longrightarrow> distinct (map fst (children (nodes c n)))"
    "n \<in> A \<Longrightarrow> (k, ch) \<in> kids c n \<Longrightarrow> ch \<in> A"
    "n \<in> A \<Longrightarrow> (k, ch) \<in> kids c n \<Longrightarrow> ch \<noteq> root_node c"
    "n \<in> A \<Longrightarrow> (k, ch) \<in> kids c n \<Longrightarrow> parent (nodes c ch) = Some n"
    "n \<in> A \<Longrightarrow> (k, ch) \<in> kids c n \<Longrightarrow> child_key (tn_key (nodes c ch)) (r_page_size c) = Inr k"
    "n \<in> A \<Longrightarrow> n \<noteq> root_node c \<Longrightarrow> key_ok c (tn_key (nodes c n))"
proof -
  show "finite A" using assms finite_subset[of A] by (auto simp: tree_ok_def)
  note u = assms[unfolded tree_ok_def]
  show "0 < r_page_size c" "A \<subseteq> {..<next_ref c}" "root_node c \<in> A" "pk (root_node c) = []"
    "parent (nodes c (root_node c)) = None" using u by simp_all
  show "n \<in> A \<Longrightarrow> distinct (map fst (children (nodes c n)))" using u by simp
  show "n \<in> A \<Longrightarrow> (k, ch) \<in> kids c n \<Longrightarrow> ch \<in> A"
    "n \<in> A \<Longrightarrow> (k, ch) \<in> kids c n \<Longrightarrow> ch \<noteq> root_node c"
    "n \<in> A \<Longrightarrow> (k, ch) \<in> kids c n \<Longrightarrow> parent (nodes c ch) = Some n"
    "n \<in> A \<Longrightarrow> (k, ch) \<in> kids c n \<Longrightarrow> child_key (tn_key (nodes c ch)) (r_page_size c) = Inr k"
    using u by fastforce+
  show "n \<in> A \<Longrightarrow> n \<noteq> root_node c \<Longrightarrow> key_ok c (tn_key (nodes c n))" using u by simp
qed

lemma tree_parent:
  assumes "tree_ok c A pk" "n \<in> A" "n \<noteq> root_node c"
  obtains p where "p \<in> A" "parent (nodes c n) = Some p" "n \<in> snd ` kids c p" "pk n = pk p @ units_of c n"
    "length (pk p) < length (pk n)"
proof -
  from assms obtain p where p: "p \<in> A" "parent (nodes c n) = Some p" "n \<in> snd ` kids c p"
    "pk n = pk p @ units_of c n" unfolding tree_ok_def by blast
  moreover have "0 < rk_len (tn_key (nodes c n))" using tree_okD(12)[OF assms] by (simp add: key_ok_def)
  ultimately show thesis using that by simp
qed

lemma tree_child:
  assumes "tree_ok c A pk" "n \<in> A" "(k, ch) \<in> kids c n"
  shows "pk ch = pk n @ units_of c ch" "0 < rk_len (tn_key (nodes c ch))"
    "r_page_size c dvd rk_len (tn_key (nodes c ch))" "r_page_size c \<le> rk_len (tn_key (nodes c ch))"
proof -
  note d = tree_okD[OF assms(1)]
  have ch: "ch \<in> A" "ch \<noteq> root_node c" "parent (nodes c ch) = Some n"
    using d(8-10)[OF assms(2,3)] by auto
  from tree_parent[OF assms(1) ch(1,2)] ch(3) show "pk ch = pk n @ units_of c ch" by auto
  have "key_ok c (tn_key (nodes c ch))" by (rule d(12)[OF ch(1,2)])
  then show "0 < rk_len (tn_key (nodes c ch))" "r_page_size c dvd rk_len (tn_key (nodes c ch))"
    "r_page_size c \<le> rk_len (tn_key (nodes c ch))"
    by (auto simp: key_ok_def intro: dvd_imp_le)
qed

text \<open>Two children of a node whose paths share the page after the node are the same.\<close>

lemma child_unique:
  assumes t: "tree_ok c A pk" and n: "n \<in> A" "(k, a) \<in> kids c n" "(k', b) \<in> kids c n"
    and eq: "take (r_page_size c) (units_of c a) = take (r_page_size c) (units_of c b)"
  shows "a = b"
proof -
  note d = tree_okD[OF t]
  have ka: "key_ok c (tn_key (nodes c a))" "key_ok c (tn_key (nodes c b))"
    using d(8,9)[OF n(1,2)] d(8,9)[OF n(1,3)] d(12) by auto
  have "child_key (tn_key (nodes c a)) (r_page_size c) = child_key (tn_key (nodes c b)) (r_page_size c)"
    using eq tree_child(4)[OF t n(1,2)] tree_child(4)[OF t n(1,3)] ka d(1)
    by (subst child_key_units) (auto simp: key_ok_def)
  then have "k = k'" using d(11)[OF n(1,2)] d(11)[OF n(1,3)] by simp
  then show ?thesis
    using n(2,3) d(7)[OF n(1)] unfolding kids_def by (metis eq_key_imp_eq_value)
qed

lemma pk_page_prefix:
  assumes "prefix (p @ xs) zs" "prefix (p @ ys) zs" "m \<le> length xs" "m \<le> length ys"
  shows "take m xs = take m ys"
proof -
  obtain u where "zs = p @ xs @ u" using assms(1) by (auto simp: prefix_def)
  moreover obtain v where "zs = p @ ys @ v" using assms(2) by (auto simp: prefix_def)
  ultimately have "xs @ u = ys @ v" by simp
  then have "take m (xs @ u) = take m (ys @ v)" by simp
  then show ?thesis using assms(3,4) by simp
qed

text \<open>
  The trie property: a node whose path extends the path of \<open>a\<close> is \<open>a\<close> or lies below a child
  of \<open>a\<close>.
\<close>

lemma trie_descend:
  assumes t: "tree_ok c A pk"
  shows "a \<in> A \<Longrightarrow> b \<in> A \<Longrightarrow> prefix (pk a) (pk b) \<Longrightarrow>
    a = b \<or> (\<exists>k ch. (k, ch) \<in> kids c a \<and> prefix (pk ch) (pk b))"
proof (induction "length (pk a) + length (pk b)" arbitrary: a b rule: less_induct)
  case less
  note d = tree_okD[OF t]
  have same: "x = y" if "p \<in> A" "x \<in> snd ` kids c p" "y \<in> snd ` kids c p"
      "prefix (pk x) zs" "prefix (pk y) zs" for p x y zs
  proof -
    from that(2,3) obtain k k' where xy: "(k, x) \<in> kids c p" "(k', y) \<in> kids c p" by auto
    have "take (r_page_size c) (units_of c x) = take (r_page_size c) (units_of c y)"
      using that(4,5) tree_child[OF t that(1) xy(1)] tree_child[OF t that(1) xy(2)]
      by (intro pk_page_prefix[of "pk p" _ zs]) simp_all
    then show ?thesis by (rule child_unique[OF t that(1) xy])
  qed
  show ?case
  proof (cases "b = root_node c")
    case True
    then have "pk a = []" using less.prems(3) d(4) by simp
    then have "a = root_node c"
      using tree_parent[OF t less.prems(1)] by (metis less_nat_zero_code list.size(3))
    then show ?thesis using True by simp
  next
    case False
    obtain p where p: "p \<in> A" "b \<in> snd ` kids c p" "pk b = pk p @ units_of c b" "length (pk p) < length (pk b)"
      using tree_parent[OF t less.prems(2) False] by metis
    have pb: "prefix (pk p) (pk b)" using p(3) by simp
    show ?thesis
    proof (cases "length (pk a) \<le> length (pk p)")
      case True
      then have "prefix (pk a) (pk p)" by (rule prefix_length_prefix[OF less.prems(3) pb])
      with less.hyps[of a p] p less.prems(1)
      have "a = p \<or> (\<exists>k ch. (k, ch) \<in> kids c a \<and> prefix (pk ch) (pk p))" by simp
      then show ?thesis using p(2) pb by (force dest: prefix_order.trans)
    next
      case longer: False
      then have ar: "a \<noteq> root_node c" using d(4) by auto
      have pa: "prefix (pk p) (pk a)"
        by (rule prefix_length_prefix[OF pb less.prems(3)]) (use longer in simp)
      obtain q where q: "q \<in> A" "a \<in> snd ` kids c q" "pk a = pk q @ units_of c a" "length (pk q) < length (pk a)"
        using tree_parent[OF t less.prems(1) ar] by metis
      have qa: "prefix (pk q) (pk a)" using q(3) by simp
      then have qb: "prefix (pk q) (pk b)" using less.prems(3) prefix_order.trans by blast
      have la: "length (pk a) \<le> length (pk b)" using less.prems(3) prefix_length_le by blast
      consider "length (pk p) \<le> length (pk q)" | "length (pk q) < length (pk p)" by linarith
      then show ?thesis
      proof cases
        case 1
        then have pq: "prefix (pk p) (pk q)" by (rule prefix_length_prefix[OF pa qa])
        have "p = q \<or> (\<exists>k ch. (k, ch) \<in> kids c p \<and> prefix (pk ch) (pk q))"
          using less.hyps[of p q] p q pq la by simp
        then show ?thesis
        proof
          assume "p = q"
          then have "a = b" using same[of p a b "pk b"] p q less.prems(3) by simp
          then show ?thesis ..
        next
          assume "\<exists>k ch. (k, ch) \<in> kids c p \<and> prefix (pk ch) (pk q)"
          then obtain ch where ch: "ch \<in> snd ` kids c p" "prefix (pk ch) (pk q)" by force
          have "ch = b" using same[of p ch b "pk b"] p ch qb prefix_order.trans by blast
          then have "length (pk b) \<le> length (pk q)" using ch(2) prefix_length_le by blast
          then show ?thesis using q(4) la by simp
        qed
      next
        case 2
        have qp: "prefix (pk q) (pk p)" by (rule prefix_length_prefix[OF qb pb]) (use 2 in simp)
        have "q = p \<or> (\<exists>k ch. (k, ch) \<in> kids c q \<and> prefix (pk ch) (pk p))"
          using less.hyps[of q p] p q qp la by simp
        moreover have "q \<noteq> p" using 2 by auto
        ultimately obtain ch where ch: "ch \<in> snd ` kids c q" "prefix (pk ch) (pk p)" by force
        have "ch = a" using same[of q ch a "pk a"] q ch pa prefix_order.trans by blast
        then have "length (pk a) \<le> length (pk p)" using ch(2) prefix_length_le by blast
        then show ?thesis using longer by simp
      qed
    qed
  qed
qed

section \<open>Changes of shape\<close>

definition same_shape :: "tree_node \<Rightarrow> tree_node \<Rightarrow> bool" where
  "same_shape x y \<longleftrightarrow> children x = children y \<and> parent x = parent y \<and> tn_key x = tn_key y"

definition same_config :: "'a radix_cache_scheme \<Rightarrow> 'b radix_cache_scheme \<Rightarrow> bool" where
  "same_config c c' \<longleftrightarrow> root_node c' = root_node c \<and> r_page_size c' = r_page_size c \<and>
     r_is_eagle c' = r_is_eagle c \<and> r_disable c' = r_disable c \<and> r_policy c' = r_policy c \<and>
     enable_kv_cache_events c' = enable_kv_cache_events c"

lemma tree_ok_cong:
  assumes t: "tree_ok c A pk" and cfg: "same_config c c'" and nr: "next_ref c \<le> next_ref c'"
    and sh: "\<And>n. n \<in> A \<Longrightarrow> same_shape (nodes c n) (nodes c' n)"
  shows "tree_ok c' A pk"
proof -
  have k: "kids c' n = kids c n" "parent (nodes c' n) = parent (nodes c n)" "tn_key (nodes c' n) = tn_key (nodes c n)"
    "children (nodes c' n) = children (nodes c n)" if "n \<in> A" for n
    using sh[OF that] by (auto simp: same_shape_def kids_def)
  have r: "root_node c' = root_node c" "r_page_size c' = r_page_size c" "r_is_eagle c' = r_is_eagle c"
    using cfg by (simp_all add: same_config_def)
  show ?thesis
  proof (rule tree_okI, unfold r)
    show "A \<subseteq> {..<next_ref c'}" using tree_okD(2)[OF t] nr by fastforce
    show "parent (nodes c' (root_node c)) = None" using tree_okD(3,5)[OF t] k by simp
    fix n assume n: "n \<in> A"
    show "distinct (map fst (children (nodes c' n)))" using tree_okD(7)[OF t n] k[OF n] by simp
    show "ch \<in> A \<and> ch \<noteq> root_node c \<and> parent (nodes c' ch) = Some n \<and>
        child_key (tn_key (nodes c' ch)) (r_page_size c) = Inr k'" if "(k', ch) \<in> kids c' n" for k' ch
    proof -
      have "(k', ch) \<in> kids c n" using that k[OF n] by simp
      from tree_okD(8-11)[OF t n this] k[of ch] show ?thesis by simp
    qed
    assume nr: "n \<noteq> root_node c"
    obtain p where "p \<in> A" "parent (nodes c n) = Some p" "n \<in> snd ` kids c p" "pk n = pk p @ units_of c n"
      using tree_parent[OF t n nr] by metis
    then show "key_ok c' (tn_key (nodes c' n)) \<and>
        (\<exists>p \<in> A. parent (nodes c' n) = Some p \<and> n \<in> snd ` kids c' p \<and> pk n = pk p @ units_of c' n)"
      using k[OF n] k[of p] tree_okD(12)[OF t n nr] r by (auto simp: key_ok_def)
  qed (use tree_okD(1,3,4)[OF t] in simp_all)
qed

text \<open>Attaching a new leaf.\<close>

lemma tree_ok_attach:
  assumes t: "tree_ok c A pk" and p: "p \<in> A" and nn: "nn \<notin> A" "nn < next_ref c'"
    and cfg: "same_config c c'" and nr: "next_ref c \<le> next_ref c'"
    and key: "key_ok c (tn_key (nodes c' nn))"
      "child_key (tn_key (nodes c' nn)) (r_page_size c) = Inr k" "k \<notin> fst ` kids c p"
    and new: "children (nodes c' nn) = []" "parent (nodes c' nn) = Some p"
    and par: "children (nodes c' p) = AList.update k nn (children (nodes c p))"
      "parent (nodes c' p) = parent (nodes c p)" "tn_key (nodes c' p) = tn_key (nodes c p)"
    and sh: "\<And>n. n \<in> A \<Longrightarrow> n \<noteq> p \<Longrightarrow> same_shape (nodes c n) (nodes c' n)"
  shows "tree_ok c' (Set.insert nn A) (pk(nn := pk p @ units_of c' nn))" (is "tree_ok c' ?A ?pk")
proof -
  note d = tree_okD[OF t]
  have pn: "p \<noteq> nn" using p nn by auto
  have rn: "root_node c \<noteq> nn" using d(3) nn by auto
  have same: "parent (nodes c' n) = parent (nodes c n)" "tn_key (nodes c' n) = tn_key (nodes c n)" if "n \<in> A" for n
    using sh[OF that] par by (cases "n = p"; auto simp: same_shape_def)+
  have kp: "kids c' p = Set.insert (k, nn) (kids c p)"
    using d(7)[OF p] key(3) unfolding kids_def par by (subst set_AList_update) force+
  have kids': "kids c' n = (if n = p then Set.insert (k, nn) (kids c p) else if n = nn then {} else kids c n)"
    if "n \<in> ?A" for n
    using that kp sh[of n] new by (auto simp: kids_def same_shape_def)
  have distinct': "distinct (map fst (children (nodes c' n)))" if "n \<in> ?A" for n
    using that d(7)[of n] d(7)[OF p] par new sh[of n] by (cases "n = p"; cases "n = nn") (auto simp: same_shape_def distinct_update)
  have child': "ch \<in> ?A \<and> ch \<noteq> root_node c' \<and> parent (nodes c' ch) = Some n \<and>
      child_key (tn_key (nodes c' ch)) (r_page_size c') = Inr k'"
    if n: "n \<in> ?A" and ch: "(k', ch) \<in> kids c' n" for n k' ch
  proof (cases "ch = nn")
    case True
    have "n \<in> A \<and> (k', nn) \<notin> kids c n" if "n \<noteq> p" "n \<noteq> nn" using that n d(8)[of n] nn(1) by blast
    moreover have "(k', nn) \<notin> kids c p" using d(8)[OF p] nn(1) by blast
    ultimately have "n = p" "k' = k" using ch True kids'[OF n] by (auto split: if_splits)
    then show ?thesis using True key new rn cfg by (simp add: same_config_def)
  next
    case False
    then have "n \<in> A" "(k', ch) \<in> kids c n" using n ch p kids'[OF n] by (auto split: if_splits)
    then show ?thesis using d(8-11) same[of ch] cfg by (auto simp: same_config_def)
  qed
  have up': "key_ok c' (tn_key (nodes c' n)) \<and> (\<exists>q \<in> ?A. parent (nodes c' n) = Some q \<and>
      n \<in> snd ` kids c' q \<and> ?pk n = ?pk q @ units_of c' n)" if n: "n \<in> ?A - {root_node c'}" for n
  proof (cases "n = nn")
    case True
    then show ?thesis
      using key(1) new p pn kp cfg by (auto simp: key_ok_def same_config_def intro!: bexI[of _ p])
  next
    case False
    then have nA: "n \<in> A" "n \<noteq> root_node c" using n cfg by (auto simp: same_config_def)
    obtain q where q: "q \<in> A" "parent (nodes c n) = Some q" "n \<in> snd ` kids c q" "pk n = pk q @ units_of c n"
      using tree_parent[OF t nA] by metis
    have "q \<noteq> nn" using q(1) nn(1) by auto
    then show ?thesis
      using q False same[OF nA(1)] d(12)[OF nA] kids'[of q] cfg
      by (auto simp: key_ok_def same_config_def intro!: bexI[of _ q])
  qed
  show ?thesis
  proof (rule tree_okI[OF _ _ _ _ _ distinct' child' up'])
    show "0 < r_page_size c'" "root_node c' \<in> ?A" "?pk (root_node c') = []"
      using d(1,3,4) cfg rn by (simp_all add: same_config_def)
    show "?A \<subseteq> {..<next_ref c'}" using d(2) nr nn by fastforce
    show "parent (nodes c' (root_node c')) = None" using d(3,5) same[OF d(3)] cfg by (simp add: same_config_def)
  qed auto
qed

text \<open>Splitting an edge: \<open>nn\<close> takes the first \<open>m\<close> units of \<open>child\<close> and its place below \<open>p\<close>.\<close>

lemma tree_ok_split:
  assumes t: "tree_ok c A pk" and child: "child \<in> A" "child \<noteq> root_node c"
    and par: "parent (nodes c child) = Some p"
    and m: "0 < m" "m < rk_len (tn_key (nodes c child))" "r_page_size c dvd m"
    and nn: "nn \<notin> A" "nn < next_ref c'"
    and cfg: "same_config c c'" and nr: "next_ref c \<le> next_ref c'"
    and ck: "child_key (rk_from (tn_key (nodes c child)) m) (r_page_size c) = Inr ck"
      "child_key (tn_key (nodes c child)) (r_page_size c) = Inr kx"
    and new: "children (nodes c' nn) = [(ck, child)]" "parent (nodes c' nn) = Some p"
      "tn_key (nodes c' nn) = rk_upto (tn_key (nodes c child)) m"
    and ch: "children (nodes c' child) = children (nodes c child)" "parent (nodes c' child) = Some nn"
      "tn_key (nodes c' child) = rk_from (tn_key (nodes c child)) m"
    and pp: "children (nodes c' p) = AList.update kx nn (children (nodes c p))"
      "parent (nodes c' p) = parent (nodes c p)" "tn_key (nodes c' p) = tn_key (nodes c p)"
    and sh: "\<And>n. n \<in> A \<Longrightarrow> n \<noteq> p \<Longrightarrow> n \<noteq> child \<Longrightarrow> same_shape (nodes c n) (nodes c' n)"
  shows "tree_ok c' (Set.insert nn A) (pk(nn := pk p @ take m (units_of c child)))"
    (is "tree_ok c' ?A ?pk")
proof -
  note d = tree_okD[OF t]
  let ?K = "tn_key (nodes c child)"
  have r: "root_node c' = root_node c" "r_page_size c' = r_page_size c" "r_is_eagle c' = r_is_eagle c"
    using cfg by (simp_all add: same_config_def)
  obtain p' where p': "p' \<in> A" "parent (nodes c child) = Some p'" "child \<in> snd ` kids c p'"
      "pk child = pk p' @ units_of c child" "length (pk p') < length (pk child)"
    using tree_parent[OF t child] by metis
  have "p' = p" using p'(2) par by simp
  note p = p'(1,3,4,5)[unfolded this]
  have pc: "p \<noteq> child" using p(4) by auto
  have ne: "p \<noteq> nn" "child \<noteq> nn" "root_node c \<noteq> nn" using p(1) child(1) d(3) nn(1) by auto
  have kxp: "(kx, child) \<in> kids c p" using p(2) d(11)[OF p(1)] ck(2) by force
  have K: "key_ok c ?K" by (rule d(12)[OF child])
  have ps: "r_page_size c dvd rk_len ?K - m" using K m(3) by (auto simp: key_ok_def)
  have keys: "key_ok c (rk_upto ?K m)" "key_ok c (rk_from ?K m)"
    using K m ps by (auto simp: key_ok_def)
  have le: "r_page_size c \<le> m" using m by (auto intro: dvd_imp_le)
  have upk: "child_key (rk_upto ?K m) (r_page_size c) = Inr kx"
  proof -
    have "child_key (rk_upto ?K m) (r_page_size c) = child_key ?K (r_page_size c)"
      using le m d(1) by (subst child_key_units) (auto simp: take_take min_def)
    then show ?thesis using ck(2) by simp
  qed
  have same: "parent (nodes c' n) = parent (nodes c n)" "tn_key (nodes c' n) = tn_key (nodes c n)"
    if "n \<in> A" "n \<noteq> child" for n
    using sh[OF that(1) _ that(2)] pp by (cases "n = p"; auto simp: same_shape_def)+
  have kp: "kids c' p = Set.insert (kx, nn) (kids c p - {(kx, child)})"
  proof -
    have "kids c' p = Set.insert (kx, nn) {e \<in> kids c p. fst e \<noteq> kx}"
      unfolding kids_def pp using d(7)[OF p(1)] by (rule set_AList_update)
    moreover have "{e \<in> kids c p. fst e \<noteq> kx} = kids c p - {(kx, child)}"
      using kxp d(7)[OF p(1)] eq_key_imp_eq_value[of "children (nodes c p)" kx] unfolding kids_def by force
    ultimately show ?thesis by simp
  qed
  have kids': "kids c' n = (if n = nn then {(ck, child)} else if n = p
      then Set.insert (kx, nn) (kids c p - {(kx, child)}) else kids c n)" if "n \<in> ?A" for n
  proof -
    consider "n = nn" | "n = p" | "n = child" | "n \<in> A" "n \<noteq> p" "n \<noteq> child" using \<open>n \<in> ?A\<close> by blast
    then show ?thesis
    proof cases
      case 1
      then show ?thesis using new by (simp add: kids_def)
    next
      case 2
      then show ?thesis using kp ne by simp
    next
      case 3
      then show ?thesis using ch ne pc by (simp add: kids_def)
    next
      case 4
      moreover have "n \<noteq> nn" using 4 nn by auto
      ultimately show ?thesis using sh[OF 4] by (simp add: kids_def same_shape_def)
    qed
  qed
  have only: "n = p \<and> k' = kx" if "n \<in> A" "(k', child) \<in> kids c n" for n k'
    using d(10,11)[OF that] par ck(2) by simp
  have distinct': "distinct (map fst (children (nodes c' n)))" if "n \<in> ?A" for n
  proof -
    consider "n = nn" | "n = p" | "n = child" | "n \<in> A" "n \<noteq> p" "n \<noteq> child" using \<open>n \<in> ?A\<close> by blast
    then show ?thesis
    proof cases
      case 4
      then show ?thesis using sh[OF 4] d(7)[OF 4(1)] by (simp add: same_shape_def)
    qed (use new pp ch d(7)[OF p(1)] d(7)[OF child(1)] in \<open>simp_all add: distinct_update\<close>)
  qed
  have child': "x \<in> ?A \<and> x \<noteq> root_node c' \<and> parent (nodes c' x) = Some n \<and>
      child_key (tn_key (nodes c' x)) (r_page_size c') = Inr k'"
    if n: "n \<in> ?A" and x: "(k', x) \<in> kids c' n" for n k' x
  proof (cases "n = nn")
    case True
    then have "k' = ck" "x = child" using x kids'[OF n] by auto
    then show ?thesis using True child ch ck r by simp
  next
    case nnn: False
    then have nA: "n \<in> A" using n by simp
    show ?thesis
    proof (cases "x = nn")
      case True
      then have "n = p \<and> k' = kx" using x kids'[OF n] nnn d(8)[OF nA] nn(1) by (auto split: if_splits)
      then show ?thesis using True new upk ne r by simp
    next
      case False
      then have xk: "(k', x) \<in> kids c n" using x kids'[OF n] nnn by (auto split: if_splits)
      have "x \<noteq> child"
      proof
        assume "x = child"
        then have "n = p" "k' = kx" using only[OF nA] xk by auto
        then show False using x kids'[OF n] nnn False \<open>x = child\<close> by auto
      qed
      then show ?thesis using d(8-11)[OF nA xk] same[of x] r by auto
    qed
  qed
  have up': "key_ok c' (tn_key (nodes c' n)) \<and> (\<exists>q \<in> ?A. parent (nodes c' n) = Some q \<and>
      n \<in> snd ` kids c' q \<and> ?pk n = ?pk q @ units_of c' n)" if n: "n \<in> ?A" "n \<noteq> root_node c'" for n
  proof -
    have ko: "key_ok c' k = key_ok c k" for k using r by (simp add: key_ok_def)
    consider "n = nn" | "n = child" | "n \<in> A" "n \<noteq> child" "n \<noteq> nn" using n by blast
    then show ?thesis
    proof cases
      case 1
      then show ?thesis
        using new keys ko ne kp p(1) by (auto intro!: bexI[of _ p])
    next
      case 2
      have "pk child = (pk p @ take m (units_of c child)) @ drop m (units_of c child)" using p(3) by simp
      then show ?thesis
        using 2 ch keys ko ne kids'[of nn] by (auto intro!: bexI[of _ nn])
    next
      case 3
      have nroot: "n \<noteq> root_node c" using n r by simp
      obtain q where q: "q \<in> A" "parent (nodes c n) = Some q" "n \<in> snd ` kids c q" "pk n = pk q @ units_of c n"
        using tree_parent[OF t 3(1) nroot] by metis
      have qn: "q \<noteq> nn" using q(1) nn(1) by auto
      have "n \<in> snd ` kids c' q"
        using q(3) kids'[of q] q(1) qn 3 by (auto split: if_splits)
      then show ?thesis
        using q 3 same[OF 3(1,2)] d(12)[OF 3(1) nroot] ko qn by (auto intro!: bexI[of _ q])
    qed
  qed
  show ?thesis
  proof (rule tree_okI[OF _ _ _ _ _ distinct' child' up'])
    show "0 < r_page_size c'" "root_node c' \<in> ?A" "?pk (root_node c') = []"
      using d(1,3,4) r ne by simp_all
    show "?A \<subseteq> {..<next_ref c'}" using d(2) nr nn by fastforce
    show "parent (nodes c' (root_node c')) = None" using d(3,5) same[OF d(3)] child r by simp
  qed auto
qed

text \<open>Detaching a node without children.\<close>

lemma tree_ok_detach:
  assumes t: "tree_ok c A pk" and x: "x \<in> A" "x \<noteq> root_node c" "children (nodes c x) = []"
    and par: "parent (nodes c x) = Some p"
    and k: "child_key (tn_key (nodes c x)) (r_page_size c) = Inr k"
    and cfg: "same_config c c'" and nr: "next_ref c \<le> next_ref c'"
    and pp: "children (nodes c' p) = AList.delete k (children (nodes c p))"
      "parent (nodes c' p) = parent (nodes c p)" "tn_key (nodes c' p) = tn_key (nodes c p)"
    and sh: "\<And>n. n \<in> A \<Longrightarrow> n \<noteq> p \<Longrightarrow> n \<noteq> x \<Longrightarrow> same_shape (nodes c n) (nodes c' n)"
  shows "tree_ok c' (A - {x}) pk"
proof -
  note d = tree_okD[OF t]
  have r: "root_node c' = root_node c" "r_page_size c' = r_page_size c" "r_is_eagle c' = r_is_eagle c"
    using cfg by (simp_all add: same_config_def)
  obtain p' where p': "p' \<in> A" "parent (nodes c x) = Some p'" "x \<in> snd ` kids c p'" "length (pk p') < length (pk x)"
    using tree_parent[OF t x(1,2)] by metis
  have "p' = p" using p'(2) par by simp
  note p = p'(1,3,4)[unfolded this]
  have px: "p \<noteq> x" using p(3) by auto
  have same: "parent (nodes c' n) = parent (nodes c n)" "tn_key (nodes c' n) = tn_key (nodes c n)"
    if "n \<in> A" "n \<noteq> x" for n
    using sh[OF that(1) _ that(2)] pp by (cases "n = p"; auto simp: same_shape_def)+
  have kids': "kids c' n = (if n = p then {e \<in> kids c p. fst e \<noteq> k} else kids c n)" if "n \<in> A - {x}" for n
    using that sh[of n] pp by (cases "n = p") (auto simp: kids_def same_shape_def set_AList_delete)
  have kx: "(k', y) \<in> kids c p \<Longrightarrow> k' = k \<Longrightarrow> y = x" for k' y
  proof -
    obtain kk where "(kk, x) \<in> kids c p" using p(2) by auto
    then have "(k, x) \<in> kids c p" using d(11)[OF p(1)] k by fastforce
    then show "(k', y) \<in> kids c p \<Longrightarrow> k' = k \<Longrightarrow> y = x"
      using d(7)[OF p(1)] unfolding kids_def by (metis eq_key_imp_eq_value)
  qed
  have no_x: "(k', x) \<notin> kids c' n" if "n \<in> A - {x}" for n k'
  proof
    assume "(k', x) \<in> kids c' n"
    then have kn: "(k', x) \<in> kids c n" using kids'[OF that] by (auto split: if_splits)
    then have "n = p" "k' = k" using d(10,11)[of n k' x] that par k by auto
    then show False using \<open>(k', x) \<in> kids c' n\<close> kids'[OF that] by auto
  qed
  show ?thesis
  proof (rule tree_okI, unfold r)
    show "0 < r_page_size c" "root_node c \<in> A - {x}" "pk (root_node c) = []" using d x by auto
    show "A - {x} \<subseteq> {..<next_ref c'}" using d(2) nr by fastforce
    show "parent (nodes c' (root_node c)) = None" using d(3,5) same[OF d(3)] x by simp
    fix n assume n: "n \<in> A - {x}"
    show "distinct (map fst (children (nodes c' n)))"
      using n d(7)[of n] sh[of n] pp by (cases "n = p") (auto simp: same_shape_def distinct_delete)
    show "y \<in> A - {x} \<and> y \<noteq> root_node c \<and> parent (nodes c' y) = Some n \<and>
        child_key (tn_key (nodes c' y)) (r_page_size c) = Inr k'" if y: "(k', y) \<in> kids c' n" for k' y
    proof -
      have yk: "(k', y) \<in> kids c n" using y kids'[OF n] by (auto split: if_splits)
      have "y \<noteq> x" using y no_x[OF n] by auto
      then show ?thesis using d(8-11)[of n k' y] n yk same[of y] by auto
    qed
    assume nroot: "n \<noteq> root_node c"
    have nA: "n \<in> A" "n \<noteq> x" using n by auto
    obtain q where q: "q \<in> A" "parent (nodes c n) = Some q" "n \<in> snd ` kids c q" "pk n = pk q @ units_of c n"
      using tree_parent[OF t nA(1) nroot] by metis
    have qx: "q \<noteq> x" using q(3) x(3) by (auto simp: kids_def)
    have "n \<in> snd ` kids c' q"
    proof -
      obtain kn where kn: "(kn, n) \<in> kids c q" using q(3) by auto
      have "(kn, n) \<in> kids c' q" using kn kx[of kn n] nA qx q(1) kids'[of q] by (auto split: if_splits)
      then show ?thesis by force
    qed
    then show "key_ok c' (tn_key (nodes c' n)) \<and>
        (\<exists>q \<in> A - {x}. parent (nodes c' n) = Some q \<and> n \<in> snd ` kids c' q \<and> pk n = pk q @ units_of c' n)"
      using q qx same[OF nA] d(12)[OF nA(1) nroot] r by (auto simp: key_ok_def)
  qed
qed

section \<open>Parents as a walk to the root\<close>

text \<open>The number of nodes above \<open>n\<close> bounds the number of parent steps.\<close>

definition depth :: "nat set \<Rightarrow> (nat \<Rightarrow> unit_key list) \<Rightarrow> nat \<Rightarrow> nat" where
  "depth A pk n = card {m \<in> A. length (pk m) < length (pk n)}"

lemma depth_less:
  assumes "finite A" "p \<in> A" "length (pk p) < length (pk n)"
  shows "depth A pk p < depth A pk n"
  unfolding depth_def using assms by (intro psubset_card_mono) auto

lemma depth_bound:
  assumes "tree_ok c A pk" "n \<in> A"
  shows "depth A pk n < next_ref c"
proof -
  have "{m \<in> A. length (pk m) < length (pk n)} \<subset> A" using assms(2) by auto
  then have "depth A pk n < card A"
    unfolding depth_def using tree_okD(6)[OF assms(1)] by (intro psubset_card_mono)
  also have "card A \<le> card {..<next_ref c}"
    using tree_okD(2)[OF assms(1)] by (intro card_mono) simp_all
  finally show ?thesis by simp
qed

end
