(* ===== verification/HostPool.thy ===== *)
theory HostPool
  imports AllocatorInv
begin

text \<open>
  The host KV pool \<^verbatim>\<open>HostKVCache\<close> of \<^verbatim>\<open>mem_cache/memory_pool_host.py\<close>: sizing, allocation and
  release of host slots. The buffers and the transfer kernels are not modelled; allocation
  and release run under the pool's lock, so each is one step.
\<close>

section \<open>Definitions\<close>

record host_pool =
  hp_page_size :: nat
  hp_page_num :: nat
  hp_size :: nat
  hp_free_slots :: "int list"

definition hp_clear :: "host_pool \<Rightarrow> host_pool" where
  "hp_clear p = p\<lparr>hp_free_slots := map int [0..<hp_size p]\<rparr>"

text \<open>
  The constructor: the requested size is rounded to one page more than the whole pages that
  fit, and must exceed the device pool. \<open>requested\<close> is the size before alignment; the checks
  against the memory of the machine take \<open>mem_available\<close> in bytes.
\<close>

definition hp_init :: "nat \<Rightarrow> nat \<Rightarrow> nat \<Rightarrow> nat \<Rightarrow> int \<Rightarrow> host_pool result" where
  "hp_init requested device_size page_size size_per_token mem_available =
     (let page_num = requested div page_size + 1; sz = page_num * page_size
      in assertR (device_size < sz)
          (if mem_available < int (sz * size_per_token) then Inl ValueError
           else Inr (hp_clear \<lparr>hp_page_size = page_size, hp_page_num = page_num, hp_size = sz,
                       hp_free_slots = []\<rparr>)))"

definition hp_available_size :: "host_pool \<Rightarrow> nat" where
  "hp_available_size p = length (hp_free_slots p)"

definition hp_alloc :: "host_pool \<Rightarrow> nat \<Rightarrow> (int list option \<times> host_pool) result" where
  "hp_alloc p need_size =
     assertR (need_size mod hp_page_size p = 0)
       (if hp_available_size p < need_size then Inr (None, p)
        else Inr (Some (take need_size (hp_free_slots p)),
                  p\<lparr>hp_free_slots := drop need_size (hp_free_slots p)\<rparr>))"

definition hp_free :: "host_pool \<Rightarrow> int list \<Rightarrow> nat \<times> host_pool" where
  "hp_free p indices = (length indices, p\<lparr>hp_free_slots := hp_free_slots p @ indices\<rparr>)"

section \<open>Invariant\<close>

text \<open>
  The free list is a sequence of whole pages, each once. The transfer kernels copy page by
  page from the first index of each page, so this is what they rely on.
\<close>

definition paged_list :: "int \<Rightarrow> int list \<Rightarrow> bool" where
  "paged_list ps xs \<longleftrightarrow> (\<exists>pages. xs = concat (map (page_slots ps) pages) \<and> distinct pages)"

definition hp_pages :: "nat \<Rightarrow> int list \<Rightarrow> int set" where
  "hp_pages ps xs = (\<lambda>i. i div int ps) ` set xs"

definition hp_inv :: "host_pool \<Rightarrow> bool" where
  "hp_inv p \<longleftrightarrow> 0 < hp_page_size p \<and> hp_size p = hp_page_num p * hp_page_size p \<and>
     (\<exists>pages. hp_free_slots p = concat (map (page_slots (int (hp_page_size p))) pages) \<and>
        distinct pages \<and> set pages \<subseteq> {0..<int (hp_page_num p)})"

definition hp_avail :: "host_pool \<Rightarrow> int set" where
  "hp_avail p = hp_pages (hp_page_size p) (hp_free_slots p)"

definition hp_geom :: "host_pool \<Rightarrow> nat \<times> nat" where
  "hp_geom p = (hp_page_size p, hp_page_num p)"

definition hp_page_of :: "nat \<times> nat \<Rightarrow> int \<Rightarrow> int" where
  "hp_page_of g i = i div int (fst g)"

definition hp_ok_size :: "nat \<times> nat \<Rightarrow> nat \<Rightarrow> bool" where
  "hp_ok_size g n \<longleftrightarrow> n mod fst g = 0"

definition hp_freeable :: "nat \<times> nat \<Rightarrow> int list \<Rightarrow> bool" where
  "hp_freeable g xs \<longleftrightarrow> paged_list (int (fst g)) xs \<and> hp_pages (fst g) xs \<subseteq> {0..<int (snd g)}"

lemma hp_pages_concat:
  "0 < ps \<Longrightarrow> hp_pages ps (concat (map (page_slots (int ps)) pages)) = set pages"
  unfolding hp_pages_def by (rule pages_of_slots) simp

lemma concat_slots_split:
  assumes "0 < ps"
  shows "take (n * ps) (concat (map (page_slots (int ps)) pages)) = concat (map (page_slots (int ps)) (take n pages))"
    and "drop (n * ps) (concat (map (page_slots (int ps)) pages)) = concat (map (page_slots (int ps)) (drop n pages))"
proof -
  let ?c = "\<lambda>ps'. concat (map (page_slots (int ps)) ps')"
  have split: "?c pages = ?c (take n pages) @ ?c (drop n pages)"
    by (metis append_take_drop_id concat_append map_append)
  have len: "length (?c xs) = length xs * ps" for xs by (simp only: length_slots nat_int)
  have "take (n * ps) (?c pages) = ?c (take n pages) \<and> drop (n * ps) (?c pages) = ?c (drop n pages)"
  proof (cases "n \<le> length pages")
    case True
    then have l: "length (?c (take n pages)) = n * ps" by (simp only: len length_take min.absorb2)
    show ?thesis unfolding split l[symmetric] by simp
  next
    case False
    then have "length (?c pages) \<le> n * ps" unfolding len by simp
    with False show ?thesis by simp
  qed
  then show "take (n * ps) (?c pages) = ?c (take n pages)" "drop (n * ps) (?c pages) = ?c (drop n pages)"
    by blast+
qed

lemma hp_alloc_law:
  assumes inv: "hp_inv p" and sz: "hp_ok_size (hp_geom p) n"
  shows "\<exists>r p'. hp_alloc p n = Inr (r, p') \<and> hp_inv p' \<and> hp_geom p' = hp_geom p \<and>
    (case r of None \<Rightarrow> hp_avail p' = hp_avail p
     | Some xs \<Rightarrow> length xs = n \<and> distinct xs \<and> hp_freeable (hp_geom p) xs \<and>
         hp_page_of (hp_geom p) ` set xs \<subseteq> hp_avail p \<and>
         hp_avail p' = hp_avail p - hp_page_of (hp_geom p) ` set xs)"
proof -
  define ps where "ps = hp_page_size p"
  from inv obtain pages where pg: "hp_free_slots p = concat (map (page_slots (int ps)) pages)"
    "distinct pages" "set pages \<subseteq> {0..<int (hp_page_num p)}" "0 < ps" "hp_size p = hp_page_num p * ps"
    by (auto simp: hp_inv_def ps_def)
  have n: "n mod ps = 0" "n = n div ps * ps"
    using sz by (auto simp: hp_ok_size_def hp_geom_def ps_def)
  show ?thesis
  proof (cases "length (hp_free_slots p) < n")
    case True
    then show ?thesis using inv n by (simp add: hp_alloc_def hp_available_size_def ps_def)
  next
    case False
    let ?k = "n div ps"
    let ?xs = "concat (map (page_slots (int ps)) (take ?k pages))"
    let ?p = "p\<lparr>hp_free_slots := concat (map (page_slots (int ps)) (drop ?k pages))\<rparr>"
    have "hp_alloc p n = Inr (Some (take n (hp_free_slots p)), p\<lparr>hp_free_slots := drop n (hp_free_slots p)\<rparr>)"
      using False n(1) by (simp add: hp_alloc_def hp_available_size_def ps_def)
    also have "take n (hp_free_slots p) = ?xs"
      unfolding pg(1) by (subst n(2)) (rule concat_slots_split(1)[OF pg(4)])
    also have "drop n (hp_free_slots p) = concat (map (page_slots (int ps)) (drop ?k pages))"
      unfolding pg(1) by (subst n(2)) (rule concat_slots_split(2)[OF pg(4)])
    finally have r: "hp_alloc p n = Inr (Some ?xs, ?p)" .
    have img: "hp_page_of (hp_geom p) ` set ?xs = set (take ?k pages)"
      using hp_pages_concat[OF pg(4), of "take ?k pages"]
      by (simp add: hp_pages_def hp_page_of_def hp_geom_def ps_def)
    have av: "hp_avail p = set pages" "hp_avail ?p = set (drop ?k pages)"
      using hp_pages_concat[OF pg(4)] pg(1) by (simp_all add: hp_avail_def ps_def)
    have d: "distinct (take ?k pages)" "distinct (drop ?k pages)"
      "set (take ?k pages) \<inter> set (drop ?k pages) = {}"
      using pg(2) by (simp_all add: set_take_disj_set_drop_if_distinct)
    have "set pages = set (take ?k pages) \<union> set (drop ?k pages)"
      by (metis append_take_drop_id set_append)
    then have diff: "set (drop ?k pages) = set pages - set (take ?k pages)" using d(3) by auto
    have "hp_inv ?p"
      using pg d unfolding hp_inv_def
      by (auto simp: ps_def intro!: exI[of _ "drop ?k pages"] dest: in_set_dropD)
    moreover have "length ?xs = n"
    proof -
      have "n \<le> length pages * ps" using False unfolding pg(1) length_slots nat_int by simp
      then have "?k \<le> length pages" using pg(4) n(2) by (metis mult_le_cancel2)
      then show ?thesis using n(2) by (simp only: length_slots nat_int length_take min.absorb2)
    qed
    moreover have "distinct ?xs" using d pg(4) by (intro distinct_slots) auto
    moreover have "hp_freeable (hp_geom p) ?xs"
      using hp_pages_concat[OF pg(4), of "take ?k pages"] pg(3) d
      by (auto simp: hp_freeable_def paged_list_def hp_geom_def ps_def dest: in_set_takeD)
    ultimately show ?thesis
      using r av img diff by (auto simp: hp_geom_def dest: in_set_takeD)
  qed
qed

lemma hp_free_law:
  assumes inv: "hp_inv p" and xs: "hp_freeable (hp_geom p) xs"
    and new: "hp_page_of (hp_geom p) ` set xs \<inter> hp_avail p = {}"
  shows "\<exists>p'. Inr (snd (hp_free p xs)) = (Inr p' :: host_pool result) \<and> hp_inv p' \<and> hp_geom p' = hp_geom p \<and>
    hp_avail p' = hp_avail p \<union> hp_page_of (hp_geom p) ` set xs"
proof -
  define ps where "ps = hp_page_size p"
  from inv obtain pages where pg: "hp_free_slots p = concat (map (page_slots (int ps)) pages)"
    "distinct pages" "set pages \<subseteq> {0..<int (hp_page_num p)}" "0 < ps" "hp_size p = hp_page_num p * ps"
    by (auto simp: hp_inv_def ps_def)
  from xs obtain new_pages where np: "xs = concat (map (page_slots (int ps)) new_pages)" "distinct new_pages"
    "hp_pages ps xs \<subseteq> {0..<int (hp_page_num p)}"
    by (auto simp: hp_freeable_def paged_list_def hp_geom_def ps_def)
  have img: "hp_page_of (hp_geom p) ` set xs = set new_pages" "hp_pages ps xs = set new_pages"
    using hp_pages_concat[OF pg(4), of new_pages] np(1)
    by (simp_all add: hp_pages_def hp_page_of_def hp_geom_def ps_def)
  have av: "hp_avail p = set pages"
    using hp_pages_concat[OF pg(4), of pages] pg(1) by (simp add: hp_avail_def ps_def)
  let ?p = "snd (hp_free p xs)"
  have fs: "hp_free_slots ?p = concat (map (page_slots (int ps)) (pages @ new_pages))"
    by (simp add: hp_free_def pg(1) np(1))
  have "hp_inv ?p"
    unfolding hp_inv_def
  proof (intro conjI exI[of _ "pages @ new_pages"])
    show "distinct (pages @ new_pages)" using pg(2) np(2) new img(1) av by auto
    show "hp_free_slots ?p = concat (map (page_slots (int (hp_page_size ?p))) (pages @ new_pages))"
      using fs by (simp add: hp_free_def ps_def)
    show "set (pages @ new_pages) \<subseteq> {0..<int (hp_page_num ?p)}"
      using pg(3) np(3) img(2) by (simp add: hp_free_def)
  qed (use pg(4,5) in \<open>simp_all add: hp_free_def ps_def\<close>)
  moreover have "hp_avail ?p = set pages \<union> set new_pages"
    using hp_pages_concat[OF pg(4), of "pages @ new_pages"] fs by (simp add: hp_avail_def hp_free_def ps_def)
  ultimately show ?thesis using img(1) av by (simp add: hp_geom_def hp_free_def)
qed

interpretation hpp: paged_pool hp_inv hp_avail hp_geom hp_page_of hp_ok_size hp_freeable hp_alloc
    "\<lambda>p xs. Inr (snd (hp_free p xs))"
  by unfold_locales (use hp_alloc_law hp_free_law in blast)+

section \<open>Properties\<close>

lemma hp_init_inv:
  assumes "0 < page_size" "hp_init requested device_size page_size spt mem = Inr p"
  shows "hp_inv p"
proof -
  let ?n = "requested div page_size + 1"
  have p: "hp_page_size p = page_size" "hp_page_num p = ?n" "hp_size p = ?n * page_size"
    "hp_free_slots p = map int [0..<?n * page_size]"
    using assms(2) by (auto simp: hp_init_def hp_clear_def Let_def assertR_eq_Inr split: if_splits)
  have eq: "map int [0..<n * page_size] = concat (map (page_slots (int page_size)) (map int [0..<n]))" for n
    by (subst block_lanes[symmetric]) (simp add: page_slots_def o_def)
  have "distinct (map int [0..<n])" "set (map int [0..<n]) \<subseteq> {0..<int n}" for n
    by (auto simp: distinct_map)
  then show ?thesis
    unfolding hp_inv_def p using assms(1) eq[of ?n] by blast
qed

text \<open>
  C30. Whatever sequence of page-sized allocations and releases the users of the host pool
  make, the alignment assertion never fails, no two blocks share a page, none is lost, and
  every block is a sequence of whole pages in slot order, as the page-wise transfer kernels
  require.
\<close>

theorem host_pool_no_double_alloc:
  assumes "hp_inv p" and "\<And>n. PAlloc n \<in> set ops \<Longrightarrow> n mod hp_page_size p = 0"
  shows "\<exists>p' live. pool_run hp_alloc (\<lambda>p xs. Inr (snd (hp_free p xs))) ops (p, []) = Inr (p', live) \<and>
    hp_inv p' \<and> (\<forall>xs \<in> set live. paged_list (int (hp_page_size p)) xs) \<and>
    pool_state_ok (hp_avail p) (hp_avail p') (map (hp_pages (hp_page_size p)) live)"
proof -
  have "hp_ok_size (hp_geom p) n" if "PAlloc n \<in> set ops" for n
    using assms(2)[OF that] by (simp add: hp_ok_size_def hp_geom_def)
  then obtain st where "pool_run hp_alloc (\<lambda>p xs. Inr (snd (hp_free p xs))) ops (p, []) = Inr st"
    "hpp.client_ok (hp_geom p) (hp_avail p) st"
    using hpp.run_ok[OF assms(1), of ops] by blast
  then show ?thesis
    by (cases st) (simp add: hpp.client_ok_def hpp.held_def hp_page_of_def hp_geom_def hp_freeable_def
        hp_pages_def cong: map_cong)
qed

theorem host_pool_no_double_alloc_witness:
  "\<exists>p p' live. hp_init 6 5 2 1 100 = Inr p \<and>
    pool_run hp_alloc (\<lambda>p xs. Inr (snd (hp_free p xs))) [PAlloc 4, PAlloc 2, PFree 0, PAlloc 6] (p, []) = Inr (p', live) \<and>
    hp_inv p' \<and> (\<forall>xs \<in> set live. paged_list (int (hp_page_size p)) xs) \<and>
    pool_state_ok (hp_avail p) (hp_avail p') (map (hp_pages (hp_page_size p)) live)"
proof -
  obtain p where p: "hp_init 6 5 2 1 100 = Inr p" by (simp add: hp_init_def Let_def assertR_def)
  have inv: "hp_inv p" by (rule hp_init_inv[OF _ p]) simp
  have "hp_page_size p = 2" using p by (auto simp: hp_init_def hp_clear_def Let_def assertR_def)
  then have "n mod hp_page_size p = 0" if "PAlloc n \<in> set [PAlloc 4, PAlloc 2, PFree 0, PAlloc 6]" for n
    using that by auto
  from host_pool_no_double_alloc[OF inv this] p show ?thesis by blast
qed

end
