(* ===== verification/RadixState.thy ===== *)
theory RadixState
  imports RadixInv HostPool
begin

text \<open>
  The invariant \<open>rinv\<close> of the radix cache and its preservation by the changes the operations
  are built from: metadata updates, splitting an edge, attaching and detaching a leaf.

  Beside the shape of the tree it records the values (\<open>pv n\<close> are the slots of the path to
  \<open>n\<close>), the locks (\<open>L\<close> is the multiset of nodes that are held; the reference count of a node
  is the number of holders at or below it), the size counters, the set of evictable leaves
  and the ownership of device pages: a cached page is not free and is cached once.
\<close>

section \<open>Invariant\<close>

definition val_ok :: "'a radix_cache_scheme \<Rightarrow> nat set \<Rightarrow> (nat \<Rightarrow> int list) \<Rightarrow> bool" where
  "val_ok c A pv \<longleftrightarrow> pv (root_node c) = [] \<and> tn_value (nodes c (root_node c)) = Some [] \<and>
     (\<forall>n \<in> A - {root_node c}. \<exists>v p. tn_value (nodes c n) = Some v \<and>
        length v = rk_len (tn_key (nodes c n)) \<and> parent (nodes c n) = Some p \<and> pv n = pv p @ v)"

definition lock_cnt :: "(nat \<Rightarrow> unit_key list) \<Rightarrow> nat multiset \<Rightarrow> nat \<Rightarrow> nat" where
  "lock_cnt pk L n = size (filter_mset (\<lambda>m. prefix (pk n) (pk m)) L)"

definition lock_ok ::
  "'a radix_cache_scheme \<Rightarrow> nat set \<Rightarrow> (nat \<Rightarrow> unit_key list) \<Rightarrow> nat multiset \<Rightarrow> bool" where
  "lock_ok c A pk L \<longleftrightarrow> set_mset L \<subseteq> A \<and> 0 < lock_ref (nodes c (root_node c)) \<and>
     (\<forall>n \<in> A - {root_node c}. lock_ref (nodes c n) = int (lock_cnt pk L n))"

definition weight :: "(int \<Rightarrow> bool) \<Rightarrow> tree_node \<Rightarrow> int" where
  "weight P x = (if tn_value x \<noteq> None \<and> P (lock_ref x) then int (rk_len (tn_key x)) else 0)"

definition size_ok :: "'a radix_cache_scheme \<Rightarrow> nat set \<Rightarrow> bool" where
  "size_ok c A \<longleftrightarrow>
     r_evictable_size c = (\<Sum>n \<in> A - {root_node c}. weight (\<lambda>l. l = 0) (nodes c n)) \<and>
     r_protected_size c = (\<Sum>n \<in> A - {root_node c}. weight (\<lambda>l. l \<noteq> 0) (nodes c n))"

definition is_leaf :: "'a radix_cache_scheme \<Rightarrow> nat \<Rightarrow> bool" where
  "is_leaf c n \<longleftrightarrow> \<not> evicted (nodes c n) \<and> \<not> 0 < lock_ref (nodes c n) \<and>
     \<not> (\<exists>ch \<in> kids c n. \<not> evicted (nodes c (snd ch)))"

definition leaf_ok_except :: "'a radix_cache_scheme \<Rightarrow> nat set \<Rightarrow> nat set \<Rightarrow> bool" where
  "leaf_ok_except c A S \<longleftrightarrow> distinct (evictable_leaves c) \<and> set (evictable_leaves c) \<subseteq> A \<and>
     (\<forall>n \<in> A - S. n \<in> set (evictable_leaves c) \<longleftrightarrow> is_leaf c n)"

abbreviation leaf_ok :: "'a radix_cache_scheme \<Rightarrow> nat set \<Rightarrow> bool" where
  "leaf_ok c A \<equiv> leaf_ok_except c A {}"

text \<open>Device pages: the pages of a value.\<close>

definition node_pages :: "'a radix_cache_scheme \<Rightarrow> nat \<Rightarrow> int set" where
  "node_pages c n = (case tn_value (nodes c n) of None \<Rightarrow> {} | Some v \<Rightarrow> hp_pages (r_page_size c) v)"

definition kv_inv :: "allocator \<Rightarrow> bool" where
  "kv_inv a \<longleftrightarrow> alloc_inv a \<and> is_not_in_free_group a"

definition paged_value :: "'a radix_cache_scheme \<Rightarrow> int list \<Rightarrow> bool" where
  "paged_value c v \<longleftrightarrow> paged_list (int (r_page_size c)) v \<and> al_freeable (al_geom (kv_allocator c)) v"

definition own_ok :: "'a radix_cache_scheme \<Rightarrow> nat set \<Rightarrow> bool" where
  "own_ok c A \<longleftrightarrow> kv_inv (kv_allocator c) \<and> al_page_size (kv_allocator c) = r_page_size c \<and>
     (\<forall>n \<in> A - {root_node c}. \<forall>v. tn_value (nodes c n) = Some v \<longrightarrow> paged_value c v) \<and>
     (\<forall>n \<in> A. node_pages c n \<inter> al_avail (kv_allocator c) = {}) \<and>
     (\<forall>n \<in> A. \<forall>m \<in> A. n \<noteq> m \<longrightarrow> node_pages c n \<inter> node_pages c m = {})"

definition rinv ::
  "'a radix_cache_scheme \<Rightarrow> nat set \<Rightarrow> (nat \<Rightarrow> unit_key list) \<Rightarrow> (nat \<Rightarrow> int list) \<Rightarrow>
   nat multiset \<Rightarrow> bool" where
  "rinv c A pk pv L \<longleftrightarrow> tree_ok c A pk \<and> val_ok c A pv \<and> lock_ok c A pk L \<and> size_ok c A \<and>
     leaf_ok c A \<and> own_ok c A"

lemma rinvD:
  assumes "rinv c A pk pv L"
  shows "tree_ok c A pk" "val_ok c A pv" "lock_ok c A pk L" "size_ok c A" "leaf_ok c A" "own_ok c A"
  using assms by (simp_all add: rinv_def)

lemma val_node:
  assumes "val_ok c A pv" "n \<in> A" "n \<noteq> root_node c"
  obtains v p where "tn_value (nodes c n) = Some v" "length v = rk_len (tn_key (nodes c n))"
    "parent (nodes c n) = Some p" "pv n = pv p @ v"
  using assms unfolding val_ok_def by blast

lemma val_not_evicted: "val_ok c A pv \<Longrightarrow> n \<in> A \<Longrightarrow> \<not> evicted (nodes c n)"
  by (cases "n = root_node c") (auto simp: evicted_def val_ok_def)

lemma length_pv:
  assumes t: "tree_ok c A pk" and v: "val_ok c A pv" and "n \<in> A"
  shows "length (pv n) = length (pk n)"
  using assms(3)
proof (induction "length (pk n)" arbitrary: n rule: less_induct)
  case less
  show ?case
  proof (cases "n = root_node c")
    case True
    then show ?thesis using tree_okD(4)[OF t] v by (simp add: val_ok_def)
  next
    case False
    obtain p where p: "p \<in> A" "parent (nodes c n) = Some p" "pk n = pk p @ units_of c n" "length (pk p) < length (pk n)"
      using tree_parent[OF t less.prems False] by metis
    obtain w q where "length w = rk_len (tn_key (nodes c n))" "parent (nodes c n) = Some q" "pv n = pv q @ w"
      using val_node[OF v less.prems False] by metis
    then show ?thesis using p less.hyps[OF p(4) p(1)] by simp
  qed
qed

section \<open>Metadata updates\<close>

definition same_core :: "tree_node \<Rightarrow> tree_node \<Rightarrow> bool" where
  "same_core x y \<longleftrightarrow> same_shape x y \<and> tn_value x = tn_value y \<and> lock_ref x = lock_ref y"

definition same_counters :: "'a radix_cache_scheme \<Rightarrow> 'b radix_cache_scheme \<Rightarrow> bool" where
  "same_counters c c' \<longleftrightarrow> r_evictable_size c' = r_evictable_size c \<and>
     r_protected_size c' = r_protected_size c \<and> evictable_leaves c' = evictable_leaves c \<and>
     kv_allocator c' = kv_allocator c"

lemma same_core_refl [simp]: "same_core x x"
  by (simp add: same_core_def same_shape_def)

lemma is_leaf_cong:
  assumes "kids c' n = kids c n" "evicted (nodes c' n) = evicted (nodes c n)"
    "lock_ref (nodes c' n) = lock_ref (nodes c n)"
    "\<And>k ch. (k, ch) \<in> kids c n \<Longrightarrow> evicted (nodes c' ch) = evicted (nodes c ch)"
  shows "is_leaf c' n = is_leaf c n"
proof -
  have "(\<exists>ch \<in> kids c n. \<not> evicted (nodes c' (snd ch))) = (\<exists>ch \<in> kids c n. \<not> evicted (nodes c (snd ch)))"
    by (rule bex_cong[OF refl]) (use assms(4) in \<open>auto simp: prod.collapse\<close>)
  then show ?thesis using assms(1-3) by (simp add: is_leaf_def)
qed

lemma rinv_cong:
  assumes inv: "rinv c A pk pv L" and cfg: "same_config c c'" and cnt: "same_counters c c'"
    and nr: "next_ref c \<le> next_ref c'"
    and core: "\<And>n. n \<in> A \<Longrightarrow> same_core (nodes c n) (nodes c' n)"
  shows "rinv c' A pk pv L"
proof -
  note i = rinvD[OF inv]
  have r: "root_node c' = root_node c" "r_page_size c' = r_page_size c"
    using cfg by (simp_all add: same_config_def)
  have rA: "root_node c \<in> A" using tree_okD(3)[OF i(1)] .
  have n: "kids c' n = kids c n" "parent (nodes c' n) = parent (nodes c n)" "tn_key (nodes c' n) = tn_key (nodes c n)"
    "tn_value (nodes c' n) = tn_value (nodes c n)" "lock_ref (nodes c' n) = lock_ref (nodes c n)" if "n \<in> A" for n
    using core[OF that] by (auto simp: same_core_def same_shape_def kids_def)
  have "tree_ok c' A pk"
    by (rule tree_ok_cong[OF i(1) cfg nr]) (use core in \<open>simp add: same_core_def\<close>)
  moreover have "val_ok c' A pv" using i(2) n rA r by (simp add: val_ok_def)
  moreover have "lock_ok c' A pk L" using i(3) n rA r by (simp add: lock_ok_def)
  moreover have "size_ok c' A"
  proof -
    have "(\<Sum>n \<in> A - {root_node c}. weight P (nodes c' n)) = (\<Sum>n \<in> A - {root_node c}. weight P (nodes c n))" for P
      by (rule sum.cong) (use n in \<open>simp_all add: weight_def\<close>)
    then show ?thesis using i(4) cnt r by (simp add: size_ok_def same_counters_def)
  qed
  moreover have "leaf_ok c' A"
  proof -
    have "is_leaf c' m = is_leaf c m" if "m \<in> A" for m
      by (rule is_leaf_cong) (use n that tree_okD(8)[OF i(1) that] in \<open>auto simp: evicted_def\<close>)
    then show ?thesis using i(5) cnt by (simp add: leaf_ok_except_def same_counters_def)
  qed
  moreover have "own_ok c' A"
  proof -
    have "node_pages c' m = node_pages c m" if "m \<in> A" for m
      using n that r by (simp add: node_pages_def split: option.splits)
    then show ?thesis
      using i(6) n r cnt by (simp add: own_ok_def paged_value_def same_counters_def)
  qed
  ultimately show ?thesis by (simp add: rinv_def)
qed

lemma rinv_upd:
  assumes "rinv c A pk pv L" "same_core (nodes c n) (f (nodes c n))"
  shows "rinv (upd n f c) A pk pv L"
  by (rule rinv_cong[OF assms(1)]) (use assms(2) in \<open>simp_all add: same_config_def same_counters_def\<close>)

section \<open>Pages of values\<close>

lemma paged_list_split:
  assumes "0 < ps" "paged_list (int ps) v" "ps dvd m"
  shows "paged_list (int ps) (take m v)" "paged_list (int ps) (drop m v)"
    "hp_pages ps (take m v) \<inter> hp_pages ps (drop m v) = {}"
proof -
  from assms(2) obtain pages where pg: "v = concat (map (page_slots (int ps)) pages)" "distinct pages"
    by (auto simp: paged_list_def)
  obtain q where q: "m = q * ps" using assms(3) by (auto simp: dvd_def mult.commute)
  have t: "take m v = concat (map (page_slots (int ps)) (take q pages))"
    "drop m v = concat (map (page_slots (int ps)) (drop q pages))"
    unfolding q pg(1) by (rule concat_slots_split[OF assms(1)])+
  show "paged_list (int ps) (take m v)" "paged_list (int ps) (drop m v)"
    unfolding t paged_list_def using pg(2) by (metis distinct_take, metis distinct_drop)
  show "hp_pages ps (take m v) \<inter> hp_pages ps (drop m v) = {}"
    unfolding t hp_pages_concat[OF assms(1)] using pg(2) by (simp add: set_take_disj_set_drop_if_distinct)
qed

lemma hp_pages_append: "hp_pages ps (xs @ ys) = hp_pages ps xs \<union> hp_pages ps ys"
  by (auto simp: hp_pages_def)

lemma hp_pages_take_drop: "hp_pages ps (take m v) \<union> hp_pages ps (drop m v) = hp_pages ps v"
  by (metis append_take_drop_id hp_pages_append)

lemma al_freeable_take_drop:
  "al_freeable g v \<Longrightarrow> al_freeable g (take m v)" "al_freeable g v \<Longrightarrow> al_freeable g (drop m v)"
  by (auto simp: al_freeable_def dest: in_set_takeD in_set_dropD)

section \<open>Splitting an edge\<close>

lemma split_node_eq:
  assumes "tn_value (nodes c child) = Some v" "parent (nodes c child) = Some p"
    "child_key (rk_from (tn_key (nodes c child)) m) (r_page_size c) = Inr ck"
    "child_key (tn_key (nodes c child)) (r_page_size c) = Inr kx"
    "child \<noteq> next_ref c" "p \<noteq> next_ref c" "p \<noteq> child"
  shows "\<exists>c'. split_node env (tn_key (nodes c child)) child m c = Inr (next_ref c, c') \<and>
    same_config c c' \<and> same_counters c c' \<and> next_ref c' = Suc (next_ref c) \<and>
    children (nodes c' (next_ref c)) = [(ck, child)] \<and> parent (nodes c' (next_ref c)) = Some p \<and>
    tn_key (nodes c' (next_ref c)) = rk_upto (tn_key (nodes c child)) m \<and>
    tn_value (nodes c' (next_ref c)) = Some (take m v) \<and>
    lock_ref (nodes c' (next_ref c)) = lock_ref (nodes c child) \<and>
    children (nodes c' child) = children (nodes c child) \<and> parent (nodes c' child) = Some (next_ref c) \<and>
    tn_key (nodes c' child) = rk_from (tn_key (nodes c child)) m \<and>
    tn_value (nodes c' child) = Some (drop m v) \<and> lock_ref (nodes c' child) = lock_ref (nodes c child) \<and>
    children (nodes c' p) = AList.update kx (next_ref c) (children (nodes c p)) \<and>
    parent (nodes c' p) = parent (nodes c p) \<and> tn_key (nodes c' p) = tn_key (nodes c p) \<and>
    tn_value (nodes c' p) = tn_value (nodes c p) \<and> lock_ref (nodes c' p) = lock_ref (nodes c p) \<and>
    (\<forall>n. n \<noteq> next_ref c \<longrightarrow> n \<noteq> child \<longrightarrow> n \<noteq> p \<longrightarrow> nodes c' n = nodes c n)"
proof -
  obtain h1 h2 where h: "split_node_hash_value (hash_value (nodes c child)) m (r_page_size c) = (h1, h2)"
    by (cases "split_node_hash_value (hash_value (nodes c child)) m (r_page_size c)")
  show ?thesis
    using assms by (simp add: split_node_def new_tree_node_def the_value_def Let_def h same_config_def
        same_counters_def)
qed

lemma split_prefix_iff:
  assumes t: "tree_ok c A pk" and ch: "child \<in> A" "child \<noteq> root_node c" "parent (nodes c child) = Some p"
    and m: "r_page_size c \<le> m" "m \<le> rk_len (tn_key (nodes c child))" and n: "n \<in> A"
  shows "prefix (pk p @ take m (units_of c child)) (pk n) \<longleftrightarrow> prefix (pk child) (pk n)"
proof
  obtain p' where p': "p' \<in> A" "parent (nodes c child) = Some p'" "child \<in> snd ` kids c p'"
      "pk child = pk p' @ units_of c child" "length (pk p') < length (pk child)"
    using tree_parent[OF t ch(1,2)] by metis
  have "p' = p" using p'(2) ch(3) by simp
  note p = p'(1,3,4)[unfolded this]
  show "prefix (pk child) (pk n)" if *: "prefix (pk p @ take m (units_of c child)) (pk n)"
  proof -
    have pre: "prefix (pk p) (pk n)" using * by (meson prefixI prefix_order.trans)
    have "pk p \<noteq> pk n"
    proof
      assume "pk p = pk n"
      then have "take m (units_of c child) = []" using * by (simp add: prefix_def)
      then show False using m tree_okD(1)[OF t] by (auto simp flip: length_0_conv)
    qed
    then obtain k x where x: "(k, x) \<in> kids c p" "prefix (pk x) (pk n)"
      using trie_descend[OF t p(1) n pre] by auto
    obtain kc where kc: "(kc, child) \<in> kids c p" using p(2) by auto
    note tx = tree_child[OF t p(1) x(1)]
    have "take (r_page_size c) (take m (units_of c child)) = take (r_page_size c) (units_of c x)"
      by (rule pk_page_prefix[OF *]) (use x(2) tx m in simp_all)
    then have "take (r_page_size c) (units_of c child) = take (r_page_size c) (units_of c x)"
      using m by (simp add: take_take min_def)
    then have "child = x" by (rule child_unique[OF t p(1) kc x(1)])
    then show ?thesis using x(2) by simp
  qed
  show "prefix (pk p @ take m (units_of c child)) (pk n)" if "prefix (pk child) (pk n)"
    using that unfolding p(3) by (metis append_assoc append_take_drop_id prefixI prefix_order.trans)
qed

lemma is_leaf_iff:
  assumes "tree_ok c A pk" "val_ok c A pv" "n \<in> A"
  shows "is_leaf c n \<longleftrightarrow> lock_ref (nodes c n) \<le> 0 \<and> children (nodes c n) = []"
proof -
  have "\<not> evicted (nodes c (snd ch))" if "ch \<in> kids c n" for ch
    using that tree_okD(8)[OF assms(1,3), of "fst ch" "snd ch"] val_not_evicted[OF assms(2)] by simp
  then have "(\<exists>ch \<in> kids c n. \<not> evicted (nodes c (snd ch))) \<longleftrightarrow> children (nodes c n) \<noteq> []"
    unfolding kids_def by (cases "children (nodes c n)") auto
  then show ?thesis
    using val_not_evicted[OF assms(2,3)] by (auto simp: is_leaf_def)
qed

lemma lock_ok_split:
  assumes lk: "lock_ok c A pk L" and nn: "nn \<notin> A" and root: "root_node c' = root_node c" "root_node c \<in> A"
    and child: "child \<in> A" "child \<noteq> root_node c"
    and new: "lock_ref (nodes c' nn) = lock_ref (nodes c child)"
    and old: "\<And>n. n \<in> A \<Longrightarrow> lock_ref (nodes c' n) = lock_ref (nodes c n)"
    and pre: "\<And>n. n \<in> A \<Longrightarrow> prefix q (pk n) \<longleftrightarrow> prefix (pk child) (pk n)"
  shows "lock_ok c' (Set.insert nn A) (pk(nn := q)) L"
proof -
  have L: "set_mset L \<subseteq> A" using lk by (simp add: lock_ok_def)
  then have nL: "nn \<notin># L" using nn by auto
  have c1: "lock_cnt (pk(nn := q)) L nn = lock_cnt pk L child"
    unfolding lock_cnt_def
    by (rule arg_cong[where f = size], rule filter_mset_cong[OF refl]) (use L nL pre in auto)
  have c2: "lock_cnt (pk(nn := q)) L n = lock_cnt pk L n" if "n \<in> A" for n
    unfolding lock_cnt_def
    by (rule arg_cong[where f = size], rule filter_mset_cong[OF refl]) (use that nn L nL in auto)
  show ?thesis
    unfolding lock_ok_def
  proof (intro conjI ballI)
    show "set_mset L \<subseteq> Set.insert nn A" using L by auto
    show "0 < lock_ref (nodes c' (root_node c'))" using lk old[OF root(2)] root by (simp add: lock_ok_def)
    fix n assume n: "n \<in> Set.insert nn A - {root_node c'}"
    show "lock_ref (nodes c' n) = int (lock_cnt (pk(nn := q)) L n)"
    proof (cases "n = nn")
      case True
      then show ?thesis using c1 new lk child by (simp add: lock_ok_def)
    next
      case False
      then show ?thesis using n c2[of n] old[of n] lk root by (simp add: lock_ok_def)
    qed
  qed
qed

lemma rinv_split:
  assumes inv: "rinv c A pk pv L" and child: "child \<in> A" "child \<noteq> root_node c"
    and m: "0 < m" "m < rk_len (tn_key (nodes c child))" "r_page_size c dvd m"
  defines "nn \<equiv> next_ref c" and "q \<equiv> take (length (pk child) - (rk_len (tn_key (nodes c child)) - m)) (pk child)"
  shows "\<exists>c'. split_node env (tn_key (nodes c child)) child m c = Inr (nn, c') \<and>
    rinv c' (Set.insert nn A) (pk(nn := q)) (pv(nn := take (length q) (pv child))) L \<and>
    same_config c c' \<and> same_counters c c' \<and> next_ref c' = Suc nn \<and> nn \<notin> A \<and>
    (\<exists>ck. children (nodes c' nn) = [(ck, child)]) \<and>
    tn_key (nodes c' child) = rk_from (tn_key (nodes c child)) m \<and>
    tn_value (nodes c' nn) = map_option (take m) (tn_value (nodes c child)) \<and>
    kv_allocator c' = kv_allocator c"
proof -
  note i = rinvD[OF inv]
  note t = i(1)
  note d = tree_okD[OF t]
  let ?K = "tn_key (nodes c child)"
  obtain p where p: "p \<in> A" "parent (nodes c child) = Some p" "child \<in> snd ` kids c p"
      "pk child = pk p @ units_of c child" "length (pk p) < length (pk child)"
    using tree_parent[OF t child] by metis
  obtain v where v: "tn_value (nodes c child) = Some v" "length v = rk_len ?K" "pv child = pv p @ v"
    using val_node[OF i(2) child] p(2) by auto
  have q: "q = pk p @ take m (units_of c child)" using p(4) m by (simp add: q_def)
  have lq: "take (length q) (pv child) = pv p @ take m v"
    using length_pv[OF t i(2) p(1)] v m by (simp add: q)
  have nnA: "nn \<notin> A" using d(2) by (auto simp: nn_def)
  have ne: "child \<noteq> nn" "p \<noteq> nn" "p \<noteq> child" "root_node c \<noteq> nn"
    using nnA child(1) p(1) d(3) less_irrefl[of "length (pk child)"] p(5) by auto
  have K: "key_ok c ?K" by (rule d(12)[OF child])
  have le: "r_page_size c \<le> m" "r_page_size c \<le> rk_len ?K - m"
    using m K by (auto intro!: dvd_imp_le simp: key_ok_def)
  obtain ck kx where ck: "child_key (rk_from ?K m) (r_page_size c) = Inr ck" "child_key ?K (r_page_size c) = Inr kx"
    using child_key_eq[OF d(1), of "rk_from ?K m"] child_key_eq[OF d(1), of ?K] le m by auto
  from split_node_eq[OF v(1) p(2) ck ne(1,2)[unfolded nn_def] ne(3), of env, folded nn_def] obtain c' where
    c': "split_node env ?K child m c = Inr (nn, c')"
      "same_config c c'" "same_counters c c'" "next_ref c' = Suc nn"
      "children (nodes c' nn) = [(ck, child)]" "parent (nodes c' nn) = Some p"
      "tn_key (nodes c' nn) = rk_upto ?K m" "tn_value (nodes c' nn) = Some (take m v)"
      "lock_ref (nodes c' nn) = lock_ref (nodes c child)"
    and ch: "children (nodes c' child) = children (nodes c child)" "parent (nodes c' child) = Some nn"
      "tn_key (nodes c' child) = rk_from ?K m" "tn_value (nodes c' child) = Some (drop m v)"
      "lock_ref (nodes c' child) = lock_ref (nodes c child)"
    and pp: "children (nodes c' p) = AList.update kx nn (children (nodes c p))"
      "parent (nodes c' p) = parent (nodes c p)" "tn_key (nodes c' p) = tn_key (nodes c p)"
      "tn_value (nodes c' p) = tn_value (nodes c p)" "lock_ref (nodes c' p) = lock_ref (nodes c p)"
    and oth: "\<And>n. n \<noteq> nn \<Longrightarrow> n \<noteq> child \<Longrightarrow> n \<noteq> p \<Longrightarrow> nodes c' n = nodes c n"
    by blast
  have r: "root_node c' = root_node c" "r_page_size c' = r_page_size c"
    using c'(2) by (simp_all add: same_config_def)
  let ?A = "Set.insert nn A"
  have oth': "parent (nodes c' n) = parent (nodes c n)" "tn_key (nodes c' n) = tn_key (nodes c n)"
    "tn_value (nodes c' n) = tn_value (nodes c n)" "lock_ref (nodes c' n) = lock_ref (nodes c n)"
    if "n \<in> A" "n \<noteq> child" for n
  proof -
    have "nodes c' n = nodes c n" if "n \<noteq> p" using oth[of n] that \<open>n \<in> A\<close> \<open>n \<noteq> child\<close> nnA by metis
    then show "parent (nodes c' n) = parent (nodes c n)" "tn_key (nodes c' n) = tn_key (nodes c n)"
      "tn_value (nodes c' n) = tn_value (nodes c n)" "lock_ref (nodes c' n) = lock_ref (nodes c n)"
      using pp(2-5) by (cases "n = p"; simp)+
  qed
  have lk: "lock_ref (nodes c' n) = lock_ref (nodes c n)" if "n \<in> A" for n
    using that oth'(4)[of n] ch(5) by (cases "n = child") simp_all
  have sh: "same_shape (nodes c n) (nodes c' n)" if "n \<in> A" "n \<noteq> p" "n \<noteq> child" for n
  proof -
    have "nodes c' n = nodes c n" using oth[of n] that nnA by metis
    then show ?thesis by (simp add: same_shape_def)
  qed
  have tree: "tree_ok c' ?A (pk(nn := q))"
    unfolding q
    by (rule tree_ok_split[OF t child p(2) m nnA _ c'(2) _ ck c'(5-7) ch(1-3) pp(1-3) sh])
      (use c'(4) in \<open>simp_all add: nn_def\<close>)
  moreover have val: "val_ok c' ?A (pv(nn := take (length q) (pv child)))"
    unfolding val_ok_def lq
  proof (intro conjI ballI)
    show "(pv(nn := pv p @ take m v)) (root_node c') = []" "tn_value (nodes c' (root_node c')) = Some []"
      using i(2) r ne oth'[OF d(3)] child by (simp_all add: val_ok_def)
    fix n assume n: "n \<in> ?A - {root_node c'}"
    consider "n = nn" | "n = child" | "n \<in> A" "n \<noteq> child" "n \<noteq> nn" "n \<noteq> root_node c" using n r by auto
    then show "\<exists>w s. tn_value (nodes c' n) = Some w \<and> length w = rk_len (tn_key (nodes c' n)) \<and>
        parent (nodes c' n) = Some s \<and> (pv(nn := pv p @ take m v)) n = (pv(nn := pv p @ take m v)) s @ w"
    proof cases
      case 1
      then show ?thesis using c' v m ne by simp
    next
      case 2
      have "pv child = (pv p @ take m v) @ drop m v" using v(3) by simp
      then show ?thesis using 2 ch v ne by simp
    next
      case 3
      obtain w s where ws: "tn_value (nodes c n) = Some w" "length w = rk_len (tn_key (nodes c n))"
        "parent (nodes c n) = Some s" "pv n = pv s @ w" using val_node[OF i(2) 3(1,4)] by metis
      have "s \<noteq> nn" using tree_parent[OF t 3(1,4)] ws(3) nnA by auto
      then show ?thesis using ws 3 oth'[OF 3(1,2)] by simp
    qed
  qed
  moreover have "lock_ok c' ?A (pk(nn := q)) L"
    by (rule lock_ok_split[OF i(3) nnA r(1) d(3) child c'(9) lk])
      (use split_prefix_iff[OF t child p(2) le(1)] m q in auto)
  moreover have "size_ok c' ?A"
  proof -
    have fin: "finite A" by (rule d(6))
    have cs: "child \<in> A - {root_node c}" "nn \<notin> A - {root_node c}" using child nnA by auto
    have "(\<Sum>n \<in> ?A - {root_node c}. weight P (nodes c' n)) = (\<Sum>n \<in> A - {root_node c}. weight P (nodes c n))" for P
    proof -
      have "(\<Sum>n \<in> ?A - {root_node c}. weight P (nodes c' n))
          = weight P (nodes c' nn) + (\<Sum>n \<in> A - {root_node c}. weight P (nodes c' n))"
        using fin cs ne by (simp add: insert_Diff_if)
      also have "(\<Sum>n \<in> A - {root_node c}. weight P (nodes c' n))
          = weight P (nodes c' child) + (\<Sum>n \<in> A - {root_node c} - {child}. weight P (nodes c' n))"
        using fin cs by (intro sum.remove) auto
      also have "(\<Sum>n \<in> A - {root_node c} - {child}. weight P (nodes c' n))
          = (\<Sum>n \<in> A - {root_node c} - {child}. weight P (nodes c n))"
        by (rule sum.cong) (use oth' lk in \<open>auto simp: weight_def\<close>)
      also have "weight P (nodes c' nn) + (weight P (nodes c' child) +
          (\<Sum>n \<in> A - {root_node c} - {child}. weight P (nodes c n)))
          = weight P (nodes c child) + (\<Sum>n \<in> A - {root_node c} - {child}. weight P (nodes c n))"
        using c'(7-9) ch v m by (simp add: weight_def of_nat_diff)
      also have "\<dots> = (\<Sum>n \<in> A - {root_node c}. weight P (nodes c n))"
        using fin cs by (intro sum.remove[symmetric]) auto
      finally show ?thesis .
    qed
    then show ?thesis using i(4) c'(3) r by (simp add: size_ok_def same_counters_def)
  qed
  moreover have "leaf_ok c' ?A"
  proof -
    have lv: "evictable_leaves c' = evictable_leaves c" using c'(3) by (simp add: same_counters_def)
    have sub: "set (evictable_leaves c) \<subseteq> A" using i(5) by (simp add: leaf_ok_except_def)
    have nil: "children (nodes c' n) = [] \<longleftrightarrow> n \<noteq> nn \<and> children (nodes c n) = []" if "n \<in> ?A" for n
    proof -
      have p1: "children (nodes c p) \<noteq> []" using p(3) by (auto simp: kids_def)
      have p2: "children (nodes c' p) \<noteq> []"
        using pp(1) by (cases "children (nodes c p)") (auto split: if_splits)
      consider "n = p" | "n = child" | "n = nn" | "n \<noteq> p" "n \<noteq> child" "n \<noteq> nn" by blast
      then show ?thesis
      proof cases
        case 1
        then show ?thesis using p1 p2 by simp
      next
        case 2
        then show ?thesis using ch(1) ne by simp
      next
        case 3
        then show ?thesis using c'(5) by simp
      next
        case 4
        then show ?thesis using oth[of n] by simp
      qed
    qed
    show ?thesis
      unfolding leaf_ok_except_def lv
    proof (intro conjI ballI)
      show "distinct (evictable_leaves c)" "set (evictable_leaves c) \<subseteq> ?A"
        using i(5) sub by (auto simp: leaf_ok_except_def)
      fix n assume n: "n \<in> ?A - {}"
      show "n \<in> set (evictable_leaves c) \<longleftrightarrow> is_leaf c' n"
      proof (cases "n = nn")
        case True
        then show ?thesis using sub nnA is_leaf_iff[OF tree val, of n] nil[of n] n by auto
      next
        case False
        then have nA: "n \<in> A" using n by simp
        have "n \<in> set (evictable_leaves c) \<longleftrightarrow> is_leaf c n" using i(5) nA by (simp add: leaf_ok_except_def)
        then show ?thesis
          using is_leaf_iff[OF tree val, of n] is_leaf_iff[OF t i(2) nA] nil[of n] lk[OF nA] n False by simp
      qed
    qed
  qed
  moreover have "own_ok c' ?A"
  proof -
    note o = i(6)[unfolded own_ok_def]
    have al: "kv_allocator c' = kv_allocator c" using c'(3) by (simp add: same_counters_def)
    have pv: "paged_value c v" using o child v(1) by auto
    note sp = paged_list_split[OF d(1) _ m(3), of v]
    have pvs: "paged_value c (take m v)" "paged_value c (drop m v)"
      using pv sp al_freeable_take_drop[where g = "al_geom (kv_allocator c)" and v = v and m = m]
      by (simp_all add: paged_value_def)
    have pages: "node_pages c' nn = hp_pages (r_page_size c) (take m v)"
      "node_pages c' child = hp_pages (r_page_size c) (drop m v)"
      "node_pages c child = hp_pages (r_page_size c) v"
      using c'(8) ch(4) v(1) r by (simp_all add: node_pages_def)
    have same: "node_pages c' n = node_pages c n" if "n \<in> A" "n \<noteq> child" for n
      using oth'[OF that] r by (simp add: node_pages_def split: option.splits)
    have sub: "node_pages c' nn \<union> node_pages c' child = node_pages c child"
      unfolding pages by (rule hp_pages_take_drop)
    have dis: "node_pages c' nn \<inter> node_pages c' child = {}"
      unfolding pages using sp(3) pv by (simp add: paged_value_def)
    have old: "node_pages c n \<inter> node_pages c k = {}" if "n \<in> A" "k \<in> A" "n \<noteq> k" for n k
      using o that by blast
    show ?thesis
      unfolding own_ok_def al r
    proof (intro conjI ballI allI impI)
      fix n w assume n: "n \<in> ?A - {root_node c}" and w: "tn_value (nodes c' n) = Some w"
      have pvc: "paged_value c' u = paged_value c u" for u using al r by (simp add: paged_value_def)
      consider "n = nn" | "n = child" | "n \<in> A - {root_node c}" "n \<noteq> child" using n by auto
      then show "paged_value c' w"
      proof cases
        case 1
        then show ?thesis using w c'(8) pvc pvs by simp
      next
        case 2
        then show ?thesis using w ch(4) pvc pvs by simp
      next
        case 3
        then show ?thesis using w oth'[of n] pvc o by auto
      qed
    next
      fix n assume n: "n \<in> ?A"
      have "node_pages c k \<inter> al_avail (kv_allocator c) = {}" if "k \<in> A" for k using o that by blast
      then show "node_pages c' n \<inter> al_avail (kv_allocator c) = {}"
        using n same[of n] sub child(1) by (cases "n = nn"; cases "n = child") blast+
      fix k assume k: "k \<in> ?A" and nk: "n \<noteq> k"
      have half: "node_pages c' x \<inter> node_pages c' y = {}" if "x = nn \<or> x = child" "y \<in> A" "y \<noteq> child" for x y
        using that sub old[OF child(1), of y] same[of y] by blast
      consider "n = nn \<or> n = child" "k = nn \<or> k = child" | "n = nn \<or> n = child" "k \<in> A" "k \<noteq> child"
        | "k = nn \<or> k = child" "n \<in> A" "n \<noteq> child" | "n \<in> A" "n \<noteq> child" "k \<in> A" "k \<noteq> child"
        using n k by blast
      then show "node_pages c' n \<inter> node_pages c' k = {}"
      proof cases
        case 1
        then show ?thesis using dis nk by blast
      next
        case 2
        then show ?thesis by (rule half)
      next
        case 3
        then show ?thesis using half[of k n] by blast
      next
        case 4
        then show ?thesis using same[of n] same[of k] old[of n k] nk by simp
      qed
    qed (use o in simp_all)
  qed
  ultimately show ?thesis
    using c' nnA ch(3) v(1) by (simp add: rinv_def same_counters_def)
qed

end
