(* ===== verification/RadixLocks.thy ===== *)
theory RadixLocks
  imports RadixState
begin

text \<open>
  Leaf bookkeeping and locks of the radix cache: \<open>update_leaf_status\<close> restores the set of
  evictable leaves at one node, \<open>inc_lock_ref\<close> adds a holder of a path and \<open>dec_lock_ref\<close>
  removes one. The walk to the root ends within the fuel given, whatever the tree.
\<close>

section \<open>Leaf status\<close>

lemma update_leaf_status_alt:
  "update_leaf_status n c = c\<lparr>evictable_leaves :=
     (if is_leaf c n
      then (if n \<in> set (evictable_leaves c) then evictable_leaves c else evictable_leaves c @ [n])
      else removeAll n (evictable_leaves c))\<rparr>"
  by (auto simp: update_leaf_status_def is_leaf_def drop_leaf_def kids_def Let_def)

lemma update_leaf_status_fields [simp]:
  "nodes (update_leaf_status n c) = nodes c" "next_ref (update_leaf_status n c) = next_ref c"
  "root_node (update_leaf_status n c) = root_node c" "r_page_size (update_leaf_status n c) = r_page_size c"
  "r_is_eagle (update_leaf_status n c) = r_is_eagle c" "r_disable (update_leaf_status n c) = r_disable c"
  "r_policy (update_leaf_status n c) = r_policy c" "kv_allocator (update_leaf_status n c) = kv_allocator c"
  "r_evictable_size (update_leaf_status n c) = r_evictable_size c"
  "r_protected_size (update_leaf_status n c) = r_protected_size c"
  "enable_kv_cache_events (update_leaf_status n c) = enable_kv_cache_events c"
  "kv_event_queue (update_leaf_status n c) = kv_event_queue c" "ticks (update_leaf_status n c) = ticks c"
  by (simp_all add: update_leaf_status_alt)

lemma is_leaf_nodes: "nodes c' = nodes c \<Longrightarrow> is_leaf c' n = is_leaf c n"
  by (simp add: is_leaf_def kids_def)

lemma update_leaf_status_leaf_ok:
  assumes "leaf_ok_except c A S" "n \<in> A"
  shows "leaf_ok_except (update_leaf_status n c) A (S - {n})"
  using assms unfolding leaf_ok_except_def is_leaf_nodes[OF update_leaf_status_fields(1)]
  by (auto simp: update_leaf_status_alt distinct_removeAll)

section \<open>The invariant during an operation\<close>

text \<open>\<open>S\<close> are the nodes whose leaf status is yet to be updated.\<close>

definition rcore ::
  "'a radix_cache_scheme \<Rightarrow> nat set \<Rightarrow> (nat \<Rightarrow> unit_key list) \<Rightarrow> (nat \<Rightarrow> int list) \<Rightarrow> nat set \<Rightarrow> bool" where
  "rcore c A pk pv S \<longleftrightarrow> tree_ok c A pk \<and> val_ok c A pv \<and> size_ok c A \<and> leaf_ok_except c A S \<and> own_ok c A"

lemma rinv_rcore: "rinv c A pk pv L \<longleftrightarrow> rcore c A pk pv {} \<and> lock_ok c A pk L"
  by (auto simp: rinv_def rcore_def)

lemma rcoreD:
  assumes "rcore c A pk pv S"
  shows "tree_ok c A pk" "val_ok c A pv" "size_ok c A" "leaf_ok_except c A S" "own_ok c A"
  using assms by (simp_all add: rcore_def)

lemma same_store_ok:
  assumes "nodes c' = nodes c" "same_config c c'" "next_ref c' = next_ref c" "kv_allocator c' = kv_allocator c"
  shows "tree_ok c A pk \<Longrightarrow> tree_ok c' A pk" "val_ok c A pv \<Longrightarrow> val_ok c' A pv"
    "own_ok c A \<Longrightarrow> own_ok c' A" "lock_ok c A pk L \<Longrightarrow> lock_ok c' A pk L"
proof -
  have r: "root_node c' = root_node c" "r_page_size c' = r_page_size c" "r_is_eagle c' = r_is_eagle c"
    using assms(2) by (simp_all add: same_config_def)
  have k: "kids c' n = kids c n" for n using assms(1) by (simp add: kids_def)
  show "tree_ok c A pk \<Longrightarrow> tree_ok c' A pk"
    by (rule tree_ok_cong[OF _ assms(2)]) (use assms in \<open>simp_all add: same_shape_def\<close>)
  show "val_ok c A pv \<Longrightarrow> val_ok c' A pv" "lock_ok c A pk L \<Longrightarrow> lock_ok c' A pk L"
    using assms r by (simp_all add: val_ok_def lock_ok_def)
  have "node_pages c' n = node_pages c n" for n using assms r by (simp add: node_pages_def split: option.splits)
  then show "own_ok c A \<Longrightarrow> own_ok c' A"
    using assms r by (simp add: own_ok_def paged_value_def)
qed

lemma update_leaf_status_core:
  assumes "rcore c A pk pv S" "n \<in> A"
  shows "rcore (update_leaf_status n c) A pk pv (S - {n})"
proof -
  note i = rcoreD[OF assms(1)]
  have cfg: "same_config c (update_leaf_status n c)" by (simp add: same_config_def)
  note s = same_store_ok[OF update_leaf_status_fields(1) cfg update_leaf_status_fields(2,8)]
  have "size_ok (update_leaf_status n c) A" using i(3) by (simp add: size_ok_def)
  then show ?thesis
    using s(1-3) i update_leaf_status_leaf_ok[OF i(4) assms(2)] by (simp add: rcore_def)
qed

section \<open>Changing one lock\<close>

lemma sum_point:
  fixes f g :: "nat \<Rightarrow> int"
  assumes "finite B" "n \<in> B" "\<And>m. m \<in> B \<Longrightarrow> m \<noteq> n \<Longrightarrow> g m = f m"
  shows "sum g B = sum f B - f n + g n"
proof -
  have "sum g B = g n + sum g (B - {n})" using assms by (intro sum.remove)
  also have "sum g (B - {n}) = sum f (B - {n})" by (rule sum.cong) (use assms(3) in auto)
  also have "\<dots> = sum f B - f n" using sum.remove[OF assms(1,2), of f] by simp
  finally show ?thesis by simp
qed

text \<open>
  A change of the reference count of \<open>n\<close> that moves the length of \<open>n\<close> between the counters
  when the count leaves or reaches 0.
\<close>

lemma rcore_relock:
  assumes inv: "rcore c A pk pv {}" and n: "n \<in> A" "n \<noteq> root_node c"
    and nodes: "nodes c' = (nodes c)(n := (nodes c n)\<lparr>lock_ref := l\<rparr>)"
    and rest: "same_config c c'" "next_ref c' = next_ref c" "kv_allocator c' = kv_allocator c"
      "evictable_leaves c' = evictable_leaves c"
    and ev: "r_evictable_size c' = r_evictable_size c
        + (if l = 0 then int (rk_len (tn_key (nodes c n))) else 0)
        - (if lock_ref (nodes c n) = 0 then int (rk_len (tn_key (nodes c n))) else 0)"
    and pr: "r_protected_size c' = r_protected_size c
        + (if l = 0 then 0 else int (rk_len (tn_key (nodes c n))))
        - (if lock_ref (nodes c n) = 0 then 0 else int (rk_len (tn_key (nodes c n))))"
  shows "rcore (update_leaf_status n c') A pk pv {}"
proof -
  note i = rcoreD[OF inv]
  note d = tree_okD[OF i(1)]
  have r: "root_node c' = root_node c" "r_page_size c' = r_page_size c"
    using rest by (simp_all add: same_config_def)
  have f: "children (nodes c' m) = children (nodes c m)" "parent (nodes c' m) = parent (nodes c m)"
    "tn_key (nodes c' m) = tn_key (nodes c m)" "tn_value (nodes c' m) = tn_value (nodes c m)"
    "m \<noteq> n \<Longrightarrow> lock_ref (nodes c' m) = lock_ref (nodes c m)" for m
    using nodes by simp_all
  have kd: "kids c' m = kids c m" for m using f by (simp add: kids_def)
  have "tree_ok c' A pk"
    by (rule tree_ok_cong[OF i(1) rest(1)]) (use rest f in \<open>simp_all add: same_shape_def\<close>)
  moreover have "val_ok c' A pv" using i(2) f r by (simp add: val_ok_def)
  moreover have "own_ok c' A"
  proof -
    have "node_pages c' m = node_pages c m" for m using f r by (simp add: node_pages_def split: option.splits)
    then show ?thesis using i(5) f r rest by (simp add: own_ok_def paged_value_def)
  qed
  moreover have "size_ok c' A"
  proof -
    have ne: "tn_value (nodes c n) \<noteq> None" using val_not_evicted[OF i(2) n(1)] by (simp add: evicted_def)
    have "(\<Sum>m \<in> A - {root_node c}. weight P (nodes c' m))
        = (\<Sum>m \<in> A - {root_node c}. weight P (nodes c m)) - weight P (nodes c n) + weight P (nodes c' n)" for P
      by (rule sum_point) (use d(6) n f in \<open>auto simp: weight_def\<close>)
    moreover have "weight P (nodes c n) = (if P (lock_ref (nodes c n)) then int (rk_len (tn_key (nodes c n))) else 0)"
      "weight P (nodes c' n) = (if P l then int (rk_len (tn_key (nodes c n))) else 0)" for P
      using ne nodes by (simp_all add: weight_def)
    ultimately show ?thesis
      using i(3) ev pr unfolding size_ok_def r by simp
  qed
  moreover have "leaf_ok_except c' A {n}"
  proof -
    have "is_leaf c' m = is_leaf c m" if "m \<noteq> n" for m
      by (rule is_leaf_cong) (use kd f that in \<open>simp_all add: evicted_def\<close>)
    then show ?thesis using i(4) rest by (simp add: leaf_ok_except_def)
  qed
  ultimately have "rcore c' A pk pv {n}" by (simp add: rcore_def)
  from update_leaf_status_core[OF this n(1)] show ?thesis by simp
qed

section \<open>The walk to the root\<close>

text \<open>
  Walking from \<open>s\<close>, the nodes strictly below \<open>cur\<close> on the path have been changed by \<open>d\<close>.
\<close>

definition lock_walk ::
  "'a radix_cache_scheme \<Rightarrow> nat set \<Rightarrow> (nat \<Rightarrow> unit_key list) \<Rightarrow> nat multiset \<Rightarrow> nat \<Rightarrow> nat \<Rightarrow> int \<Rightarrow> bool" where
  "lock_walk c A pk L s cur d \<longleftrightarrow> 0 < lock_ref (nodes c (root_node c)) \<and>
     (\<forall>n \<in> A - {root_node c}. lock_ref (nodes c n) = int (lock_cnt pk L n) +
        (if prefix (pk n) (pk s) \<and> length (pk cur) < length (pk n) then d else 0))"

lemma lock_walk_start:
  assumes "lock_ok c A pk L"
  shows "lock_walk c A pk L s s d"
proof -
  have "\<not> (prefix (pk n) (pk s) \<and> length (pk s) < length (pk n))" for n
    using prefix_length_le by fastforce
  then show ?thesis using assms unfolding lock_walk_def lock_ok_def by auto
qed

lemma pk_pos:
  assumes "tree_ok c A pk" "n \<in> A" "n \<noteq> root_node c"
  shows "0 < length (pk n)"
  using tree_parent[OF assms] by (metis gr0I less_nat_zero_code)

lemma pk_inj:
  assumes t: "tree_ok c A pk" and "n \<in> A" "m \<in> A" "pk n = pk m"
  shows "n = m"
proof (rule ccontr)
  assume "n \<noteq> m"
  then obtain k ch where ch: "(k, ch) \<in> kids c n" "prefix (pk ch) (pk m)"
    using trie_descend[OF t assms(2,3)] assms(4) by auto
  then have "length (pk ch) \<le> length (pk n)" using assms(4) prefix_length_le by fastforce
  then show False using tree_child[OF t assms(2) ch(1)] by simp
qed

lemma lock_cnt_add: "lock_cnt pk (add_mset s L) n = lock_cnt pk L n + (if prefix (pk n) (pk s) then 1 else 0)"
  by (simp add: lock_cnt_def)

lemma lock_walk_step:
  assumes t: "tree_ok c A pk" and w: "lock_walk c A pk L s cur d"
    and cur: "cur \<in> A" "cur \<noteq> root_node c" "prefix (pk cur) (pk s)" and p: "parent (nodes c cur) = Some p"
    and nodes: "\<And>n. n \<noteq> cur \<Longrightarrow> lock_ref (nodes c' n) = lock_ref (nodes c n)"
      "lock_ref (nodes c' cur) = lock_ref (nodes c cur) + d" "root_node c' = root_node c"
  shows "lock_walk c' A pk L s p d" "prefix (pk p) (pk s)" "p \<in> A" "length (pk p) < length (pk cur)"
proof -
  obtain q where q: "q \<in> A" "parent (nodes c cur) = Some q" "cur \<in> snd ` kids c q"
      "pk cur = pk q @ units_of c cur" "length (pk q) < length (pk cur)"
    using tree_parent[OF t cur(1,2)] by metis
  have "q = p" using q(2) p by simp
  note q = q(1,3,4,5)[unfolded this]
  show pA: "p \<in> A" "length (pk p) < length (pk cur)" using q by simp_all
  have pcur: "prefix (pk p) (pk cur)" using q(3) by simp
  then show "prefix (pk p) (pk s)" using cur(3) prefix_order.trans by blast
  have eq: "length (pk p) < length (pk n) \<longleftrightarrow> n = cur \<or> length (pk cur) < length (pk n)"
    if n: "n \<in> A" "prefix (pk n) (pk s)" for n
  proof
    assume pn: "length (pk p) < length (pk n)"
    show "n = cur \<or> length (pk cur) < length (pk n)"
    proof (rule disjCI)
      assume le: "\<not> length (pk cur) < length (pk n)"
      have pre: "prefix (pk n) (pk cur)" by (rule prefix_length_prefix[OF n(2) cur(3)]) (use le in simp)
      have "prefix (pk p) (pk n)" by (rule prefix_length_prefix[OF pcur pre]) (use pn in simp)
      moreover have "p \<noteq> n" using pn by auto
      ultimately obtain k ch where ch: "(k, ch) \<in> kids c p" "prefix (pk ch) (pk n)"
        using trie_descend[OF t pA(1) n(1)] by auto
      obtain k' where k': "(k', cur) \<in> kids c p" using q(2) by auto
      have pcc: "prefix (pk ch) (pk cur)" using ch(2) pre prefix_order.trans by blast
      have "take (r_page_size c) (units_of c ch) = take (r_page_size c) (units_of c cur)"
        by (rule pk_page_prefix[of "pk p" _ "pk cur"])
          (use pcc tree_child[OF t pA(1) ch(1)] tree_child[OF t pA(1) k'] in simp_all)
      then have "ch = cur" by (rule child_unique[OF t pA(1) ch(1) k'])
      then have "pk n = pk cur" using ch(2) pre prefix_order.antisym by blast
      then show "n = cur" by (rule pk_inj[OF t n(1) cur(1)])
    qed
  qed (use pA in auto)
  show "lock_walk c' A pk L s p d"
    unfolding lock_walk_def nodes(3)
  proof (intro conjI ballI)
    show "0 < lock_ref (nodes c' (root_node c))" using w cur(2) nodes(1) by (simp add: lock_walk_def)
    fix n assume n: "n \<in> A - {root_node c}"
    have old: "lock_ref (nodes c n) = int (lock_cnt pk L n) +
        (if prefix (pk n) (pk s) \<and> length (pk cur) < length (pk n) then d else 0)"
      using w n by (simp add: lock_walk_def)
    show "lock_ref (nodes c' n) = int (lock_cnt pk L n) +
        (if prefix (pk n) (pk s) \<and> length (pk p) < length (pk n) then d else 0)"
    proof (cases "n = cur")
      case True
      then show ?thesis using old nodes(2) cur(3) pA(2) by simp
    next
      case False
      then show ?thesis using old nodes(1)[OF False] eq[of n] n by auto
    qed
  qed
qed

section \<open>Locking and unlocking\<close>

definition relocked :: "'a radix_cache_scheme \<Rightarrow> 'a radix_cache_scheme \<Rightarrow> bool" where
  "relocked c c' \<longleftrightarrow> (\<exists>ls lv e p. c' = c\<lparr>nodes := (\<lambda>n. (nodes c n)\<lparr>lock_ref := ls n\<rparr>),
     evictable_leaves := lv, r_evictable_size := e, r_protected_size := p\<rparr>)"

lemma relocked_refl: "relocked c c"
  unfolding relocked_def
  by (intro exI[of _ "\<lambda>n. lock_ref (nodes c n)"] exI[of _ "evictable_leaves c"]
      exI[of _ "r_evictable_size c"] exI[of _ "r_protected_size c"]) simp

lemma relocked_trans: "relocked c c' \<Longrightarrow> relocked c' c'' \<Longrightarrow> relocked c c''"
  unfolding relocked_def by force

lemma relocked_fields:
  assumes "relocked c c'"
  shows "same_config c c'" "next_ref c' = next_ref c" "kv_allocator c' = kv_allocator c" "ticks c' = ticks c"
    "same_shape (nodes c n) (nodes c' n)" "tn_value (nodes c' n) = tn_value (nodes c n)"
    "last_access_time (nodes c' n) = last_access_time (nodes c n)"
  using assms by (auto simp: relocked_def same_config_def same_shape_def)

lemma relocked_step:
  "relocked c (update_leaf_status n (upd n (\<lambda>x. x\<lparr>lock_ref := l\<rparr>)
     (c\<lparr>r_evictable_size := e, r_protected_size := p\<rparr>)))"
proof -
  have n: "(nodes c)(n := (nodes c n)\<lparr>lock_ref := l\<rparr>)
      = (\<lambda>m. (nodes c m)\<lparr>lock_ref := if m = n then l else lock_ref (nodes c m)\<rparr>)"
    by (simp add: fun_eq_iff)
  let ?c = "c\<lparr>r_evictable_size := e, r_protected_size := p\<rparr>"
  obtain lv where "update_leaf_status n (upd n (\<lambda>x. x\<lparr>lock_ref := l\<rparr>) ?c)
      = (upd n (\<lambda>x. x\<lparr>lock_ref := l\<rparr>) ?c)\<lparr>evictable_leaves := lv\<rparr>"
    unfolding update_leaf_status_alt by blast
  also have "\<dots> = c\<lparr>nodes := (\<lambda>m. (nodes c m)\<lparr>lock_ref := if m = n then l else lock_ref (nodes c m)\<rparr>),
      evictable_leaves := lv, r_evictable_size := e, r_protected_size := p\<rparr>"
    unfolding upd_def by (simp add: n)
  finally show ?thesis
    unfolding relocked_def by (intro exI[of _ "\<lambda>m. if m = n then l else lock_ref (nodes c m)"] exI)
qed

lemma depth_0:
  assumes t: "tree_ok c A pk" and "n \<in> A" "depth A pk n = 0"
  shows "n = root_node c"
proof (rule ccontr)
  assume "n \<noteq> root_node c"
  then have "root_node c \<in> {m \<in> A. length (pk m) < length (pk n)}"
    using tree_okD(3,4)[OF t] pk_pos[OF t assms(2)] by simp
  then show False using assms(3) tree_okD(6)[OF t] by (auto simp: depth_def)
qed

definition walked ::
  "'a radix_cache_scheme \<Rightarrow> nat set \<Rightarrow> (nat \<Rightarrow> unit_key list) \<Rightarrow> (nat \<Rightarrow> int list) \<Rightarrow> nat multiset \<Rightarrow> nat \<Rightarrow>
   int \<Rightarrow> int \<Rightarrow> 'a radix_cache_scheme \<Rightarrow> bool" where
  "walked c A pk pv L s d delta c' \<longleftrightarrow> rcore c' A pk pv {} \<and> lock_walk c' A pk L s (root_node c) d \<and>
     relocked c c' \<and> delta = r_evictable_size c' - r_evictable_size c \<and>
     r_evictable_size c' + r_protected_size c' = r_evictable_size c + r_protected_size c"

lemma walked_refl:
  "rcore c A pk pv {} \<Longrightarrow> lock_walk c A pk L s (root_node c) d \<Longrightarrow> walked c A pk pv L s d 0 c"
  by (simp add: walked_def relocked_refl)

lemma walked_step:
  assumes "walked c1 A pk pv L s d delta c'" "relocked c c1"
    "r_evictable_size c1 + r_protected_size c1 = r_evictable_size c + r_protected_size c"
  shows "walked c A pk pv L s d (delta + r_evictable_size c1 - r_evictable_size c) c'"
  using assms relocked_trans[OF assms(2), of c'] relocked_fields(1)[OF assms(2)]
  by (simp add: walked_def same_config_def)

text \<open>One iteration of either loop, before the rest of the walk.\<close>

lemma walk_iter:
  assumes inv: "rcore c A pk pv {}" and w: "lock_walk c A pk L s cur d"
    and cur: "cur \<in> A" "cur \<noteq> root_node c" "prefix (pk cur) (pk s)"
    and l: "l = lock_ref (nodes c cur) + d"
  defines "k \<equiv> int (rk_len (tn_key (nodes c cur)))"
  defines "e \<equiv> (if l = 0 then k else 0) - (if lock_ref (nodes c cur) = 0 then k else 0)"
  defines "c1 \<equiv> update_leaf_status cur (upd cur (\<lambda>x. x\<lparr>lock_ref := l\<rparr>)
      (c\<lparr>r_evictable_size := r_evictable_size c + e, r_protected_size := r_protected_size c - e\<rparr>))"
  obtains p where "parent (nodes c1 cur) = Some p" "rcore c1 A pk pv {}" "lock_walk c1 A pk L s p d"
    "p \<in> A" "prefix (pk p) (pk s)" "depth A pk p < depth A pk cur" "relocked c c1"
    "r_evictable_size c1 = r_evictable_size c + e" "r_protected_size c1 = r_protected_size c - e"
proof -
  note t = rcoreD(1)[OF inv]
  obtain p where p: "parent (nodes c cur) = Some p" using tree_parent[OF t cur(1,2)] by metis
  have core: "rcore c1 A pk pv {}"
    unfolding c1_def
    by (rule rcore_relock[OF inv cur(1,2), where l = l])
      (simp_all add: same_config_def e_def k_def fun_eq_iff)
  have refs: "\<And>n. n \<noteq> cur \<Longrightarrow> lock_ref (nodes c1 n) = lock_ref (nodes c n)"
    "lock_ref (nodes c1 cur) = lock_ref (nodes c cur) + d" "root_node c1 = root_node c"
    by (simp_all add: c1_def l)
  note st = lock_walk_step[OF t w cur p refs]
  show thesis
  proof (rule that[OF _ core st(1,3,2)])
    show "parent (nodes c1 cur) = Some p" using p by (simp add: c1_def)
    show "depth A pk p < depth A pk cur" by (rule depth_less[OF tree_okD(6)[OF t] st(3,4)])
    show "relocked c c1" unfolding c1_def by (rule relocked_step)
  qed (simp_all add: c1_def)
qed

lemma inc_lock_loop_ok:
  assumes "rcore c A pk pv {}" "lock_walk c A pk L s cur 1" "cur \<in> A" "prefix (pk cur) (pk s)"
    "depth A pk cur \<le> fuel"
  shows "\<exists>dl c'. inc_lock_loop fuel cur delta c = Inr (delta + dl, c') \<and> walked c A pk pv L s 1 dl c'"
  using assms
proof (induction fuel arbitrary: cur delta c)
  case 0
  then show ?case
    using depth_0[OF rcoreD(1)] walked_refl by (fastforce intro: exI[of _ 0])
next
  case (Suc fuel)
  show ?case
  proof (cases "cur = root_node c")
    case True
    then show ?thesis using Suc.prems walked_refl by (fastforce intro: exI[of _ 0])
  next
    case False
    let ?k = "int (rk_len (tn_key (nodes c cur)))"
    have pos: "0 \<le> lock_ref (nodes c cur)"
      using Suc.prems(2,3) False by (simp add: lock_walk_def)
    let ?e = "(if lock_ref (nodes c cur) + 1 = 0 then ?k else 0) - (if lock_ref (nodes c cur) = 0 then ?k else 0)"
    define c1 where "c1 = update_leaf_status cur (upd cur (\<lambda>x. x\<lparr>lock_ref := lock_ref (nodes c cur) + 1\<rparr>)
      (c\<lparr>r_evictable_size := r_evictable_size c + ?e, r_protected_size := r_protected_size c - ?e\<rparr>))"
    obtain p where p: "parent (nodes c1 cur) = Some p" "rcore c1 A pk pv {}" "lock_walk c1 A pk L s p 1"
      "p \<in> A" "prefix (pk p) (pk s)" "depth A pk p < depth A pk cur" "relocked c c1"
      "r_evictable_size c1 = r_evictable_size c + ?e" "r_protected_size c1 = r_protected_size c - ?e"
      using walk_iter[OF Suc.prems(1,2,3) False Suc.prems(4) refl] unfolding c1_def by metis
    have run: "inc_lock_loop (Suc fuel) cur delta c = inc_lock_loop fuel p (delta + ?e) c1"
      using False p(1) pos by (simp add: c1_def upd_def Let_def)
    obtain dl c' where c': "inc_lock_loop fuel p (delta + ?e) c1 = Inr (delta + ?e + dl, c')"
        "walked c1 A pk pv L s 1 dl c'"
      using Suc.IH[OF p(2,3,4,5)] p(6) Suc.prems(5) by fastforce
    have "walked c A pk pv L s 1 (dl + r_evictable_size c1 - r_evictable_size c) c'"
      by (rule walked_step[OF c'(2) p(7)]) (use p(8,9) in simp)
    then show ?thesis
      using run c'(1) p(8) by (intro exI[of _ "dl + ?e"] exI[of _ c']) (simp add: algebra_simps)
  qed
qed

lemma lock_walk_pos:
  assumes "lock_walk c A pk L s cur (- 1)" "s \<in># L" "cur \<in> A" "cur \<noteq> root_node c" "prefix (pk cur) (pk s)"
  shows "0 < lock_ref (nodes c cur)"
proof -
  have "s \<in># filter_mset (\<lambda>m. prefix (pk cur) (pk m)) L" using assms(2,5) by simp
  then have "0 < lock_cnt pk L cur" unfolding lock_cnt_def by (metis gr0I size_eq_0_iff_empty empty_iff set_mset_empty)
  then show ?thesis using assms(1,3,4) by (simp add: lock_walk_def)
qed

lemma dec_lock_loop_ok:
  assumes "rcore c A pk pv {}" "lock_walk c A pk L s cur (- 1)" "cur \<in> A" "prefix (pk cur) (pk s)"
    "depth A pk cur \<le> fuel" and held: "s \<in># L"
  shows "\<exists>dl c'. dec_lock_loop fuel cur delta c = Inr (delta + dl, c') \<and> walked c A pk pv L s (- 1) dl c'"
  using assms(1-5)
proof (induction fuel arbitrary: cur delta c)
  case 0
  then show ?case
    using depth_0[OF rcoreD(1)] walked_refl by (fastforce intro: exI[of _ 0])
next
  case (Suc fuel)
  show ?case
  proof (cases "cur = root_node c")
    case True
    then show ?thesis using Suc.prems walked_refl by (fastforce intro: exI[of _ 0])
  next
    case False
    let ?k = "int (rk_len (tn_key (nodes c cur)))"
    have pos: "0 < lock_ref (nodes c cur)"
      by (rule lock_walk_pos[OF Suc.prems(2) held Suc.prems(3) False Suc.prems(4)])
    let ?e = "(if lock_ref (nodes c cur) + - 1 = 0 then ?k else 0) - (if lock_ref (nodes c cur) = 0 then ?k else 0)"
    define c1 where "c1 = update_leaf_status cur (upd cur (\<lambda>x. x\<lparr>lock_ref := lock_ref (nodes c cur) + - 1\<rparr>)
      (c\<lparr>r_evictable_size := r_evictable_size c + ?e, r_protected_size := r_protected_size c - ?e\<rparr>))"
    obtain p where p: "parent (nodes c1 cur) = Some p" "rcore c1 A pk pv {}" "lock_walk c1 A pk L s p (- 1)"
      "p \<in> A" "prefix (pk p) (pk s)" "depth A pk p < depth A pk cur" "relocked c c1"
      "r_evictable_size c1 = r_evictable_size c + ?e" "r_protected_size c1 = r_protected_size c - ?e"
      using walk_iter[OF Suc.prems(1,2,3) False Suc.prems(4) refl] unfolding c1_def by metis
    have run: "dec_lock_loop (Suc fuel) cur delta c = dec_lock_loop fuel p (delta + ?e) c1"
      using False p(1) pos by (simp add: c1_def upd_def Let_def)
    obtain dl c' where c': "dec_lock_loop fuel p (delta + ?e) c1 = Inr (delta + ?e + dl, c')"
        "walked c1 A pk pv L s (- 1) dl c'"
      using Suc.IH[OF p(2,3,4,5)] p(6) Suc.prems(5) by fastforce
    have "walked c A pk pv L s (- 1) (dl + r_evictable_size c1 - r_evictable_size c) c'"
      by (rule walked_step[OF c'(2) p(7)]) (use p(8,9) in simp)
    then show ?thesis
      using run c'(1) p(8) by (intro exI[of _ "dl + ?e"] exI[of _ c']) (simp add: algebra_simps)
  qed
qed

lemma lock_walk_end:
  assumes t: "tree_ok c A pk" and w: "lock_walk c A pk L s (root_node c) d" and L': "set_mset L' \<subseteq> A"
    and cnt: "\<And>n. int (lock_cnt pk L' n) = int (lock_cnt pk L n) + (if prefix (pk n) (pk s) then d else 0)"
  shows "lock_ok c A pk L'"
  unfolding lock_ok_def
proof (intro conjI ballI)
  fix n assume n: "n \<in> A - {root_node c}"
  then have "length (pk (root_node c)) < length (pk n)" using pk_pos[OF t] tree_okD(4)[OF t] by simp
  then show "lock_ref (nodes c n) = int (lock_cnt pk L' n)" using w n cnt[of n] by (auto simp: lock_walk_def)
qed (use w L' in \<open>simp_all add: lock_walk_def\<close>)

lemma walked_inv:
  assumes "walked c A pk pv L s d delta c'" "set_mset L' \<subseteq> A"
    "\<And>n. int (lock_cnt pk L' n) = int (lock_cnt pk L n) + (if prefix (pk n) (pk s) then d else 0)"
  shows "rinv c' A pk pv L'"
proof -
  have w: "rcore c' A pk pv {}" "lock_walk c' A pk L s (root_node c) d" "root_node c' = root_node c"
    using assms(1) relocked_fields(1)[of c c'] by (auto simp: walked_def same_config_def)
  have "lock_ok c' A pk L'"
    by (rule lock_walk_end[OF rcoreD(1)[OF w(1)] _ assms(2,3)]) (use w in simp)
  then show ?thesis using w by (simp add: rinv_rcore)
qed

lemma inc_lock_ref_ok:
  assumes inv: "rinv c A pk pv L" and s: "s \<in> A" and "\<not> r_disable c"
  shows "\<exists>delta c'. inc_lock_ref s c = Inr (delta, c') \<and> rinv c' A pk pv (add_mset s L) \<and> relocked c c' \<and>
    delta = r_evictable_size c' - r_evictable_size c \<and>
    r_evictable_size c' + r_protected_size c' = r_evictable_size c + r_protected_size c"
proof -
  have core: "rcore c A pk pv {}" "lock_ok c A pk L" using inv by (simp_all add: rinv_rcore)
  have "depth A pk s \<le> next_ref c" using depth_bound[OF rcoreD(1)[OF core(1)] s] by simp
  from inc_lock_loop_ok[OF core(1) lock_walk_start[OF core(2)] s prefix_order.refl this, where delta = 0]
  obtain dl c' where c': "inc_lock_loop (next_ref c) s 0 c = Inr (dl, c')" "walked c A pk pv L s 1 dl c'"
    by auto
  have "rinv c' A pk pv (add_mset s L)"
    by (rule walked_inv[OF c'(2)]) (use core(2) s in \<open>simp_all add: lock_ok_def lock_cnt_add\<close>)
  then show ?thesis using c' assms(3) by (simp add: inc_lock_ref_def walked_def)
qed

lemma dec_lock_ref_ok:
  assumes inv: "rinv c A pk pv L" and s: "s \<in># L" and "\<not> r_disable c"
  shows "\<exists>delta c'. dec_lock_ref s c = Inr (delta, c') \<and> rinv c' A pk pv (L - {#s#}) \<and> relocked c c' \<and>
    delta = r_evictable_size c' - r_evictable_size c \<and>
    r_evictable_size c' + r_protected_size c' = r_evictable_size c + r_protected_size c"
proof -
  have core: "rcore c A pk pv {}" "lock_ok c A pk L" using inv by (simp_all add: rinv_rcore)
  have sA: "s \<in> A" "set_mset L \<subseteq> A" using core(2) s by (auto simp: lock_ok_def)
  have "depth A pk s \<le> next_ref c" using depth_bound[OF rcoreD(1)[OF core(1)] sA(1)] by simp
  from dec_lock_loop_ok[OF core(1) lock_walk_start[OF core(2)] sA(1) prefix_order.refl this s, where delta = 0]
  obtain dl c' where c': "dec_lock_loop (next_ref c) s 0 c = Inr (dl, c')" "walked c A pk pv L s (- 1) dl c'"
    by auto
  have L: "L = add_mset s (L - {#s#})" using s by simp
  have "rinv c' A pk pv (L - {#s#})"
  proof (rule walked_inv[OF c'(2)])
    show "set_mset (L - {#s#}) \<subseteq> A" using sA(2) in_diffD by fastforce
    show "int (lock_cnt pk (L - {#s#}) n) = int (lock_cnt pk L n) + (if prefix (pk n) (pk s) then - 1 else 0)" for n
      using lock_cnt_add[of pk s "L - {#s#}" n] L by simp
  qed
  then show ?thesis using c' assms(3) by (simp add: dec_lock_ref_def walked_def)
qed

end
