(* ===== verification/RadixMatch.thy ===== *)
theory RadixMatch
  imports RadixLocks
begin

text \<open>
  Matching and insertion in the radix cache. Both walk from the root, one child per step, and
  split the edge at which the key diverges. The walk finds the longest page-aligned prefix
  that is cached, and neither changes the cached contents it passes.
\<close>

section \<open>Attaching a leaf\<close>

lemma rcore_attach:
  assumes inv: "rinv c A pk pv L" and p: "p \<in> A" and nn: "nn \<notin> A" "nn < next_ref c'"
    and cfg: "same_config c c'" and nr: "next_ref c \<le> next_ref c'"
    and key: "key_ok c (tn_key (nodes c' nn))"
      "child_key (tn_key (nodes c' nn)) (r_page_size c) = Inr k" "k \<notin> fst ` kids c p"
    and new: "children (nodes c' nn) = []" "parent (nodes c' nn) = Some p"
      "tn_value (nodes c' nn) = Some v" "lock_ref (nodes c' nn) = 0"
      "length v = rk_len (tn_key (nodes c' nn))"
    and par: "children (nodes c' p) = AList.update k nn (children (nodes c p))"
      "parent (nodes c' p) = parent (nodes c p)" "tn_key (nodes c' p) = tn_key (nodes c p)"
      "tn_value (nodes c' p) = tn_value (nodes c p)" "lock_ref (nodes c' p) = lock_ref (nodes c p)"
    and oth: "\<And>n. n \<in> A \<Longrightarrow> n \<noteq> p \<Longrightarrow> same_core (nodes c n) (nodes c' n)"
    and cnt: "r_evictable_size c' = r_evictable_size c + int (length v)"
      "r_protected_size c' = r_protected_size c" "evictable_leaves c' = evictable_leaves c"
      "kv_allocator c' = kv_allocator c"
    and fresh: "paged_value c v" "hp_pages (r_page_size c) v \<inter> al_avail (kv_allocator c) = {}"
      "\<And>n. n \<in> A \<Longrightarrow> node_pages c n \<inter> hp_pages (r_page_size c) v = {}"
  shows "rcore c' (Set.insert nn A) (pk(nn := pk p @ units_of c' nn)) (pv(nn := pv p @ v)) {p, nn}"
    "lock_ok c' (Set.insert nn A) (pk(nn := pk p @ units_of c' nn)) L"
proof -
  note i = rinvD[OF inv]
  note d = tree_okD[OF i(1)]
  let ?A = "Set.insert nn A" and ?pk = "pk(nn := pk p @ units_of c' nn)" and ?pv = "pv(nn := pv p @ v)"
  have r: "root_node c' = root_node c" "r_page_size c' = r_page_size c"
    using cfg by (simp_all add: same_config_def)
  have ne: "p \<noteq> nn" "root_node c \<noteq> nn" using p nn d(3) by auto
  have old: "parent (nodes c' n) = parent (nodes c n)" "tn_key (nodes c' n) = tn_key (nodes c n)"
    "tn_value (nodes c' n) = tn_value (nodes c n)" "lock_ref (nodes c' n) = lock_ref (nodes c n)" if "n \<in> A" for n
    using oth[OF that] par by (cases "n = p"; simp add: same_core_def same_shape_def)+
  have tree: "tree_ok c' ?A ?pk"
    by (rule tree_ok_attach[OF i(1) p nn cfg nr key new(1,2) par(1-3)]) (use oth in \<open>simp add: same_core_def\<close>)
  moreover have val: "val_ok c' ?A ?pv"
    unfolding val_ok_def r
  proof (intro conjI ballI)
    show "?pv (root_node c) = []" "tn_value (nodes c' (root_node c)) = Some []"
      using i(2) ne old[OF d(3)] by (simp_all add: val_ok_def)
    fix n assume n: "n \<in> ?A - {root_node c}"
    show "\<exists>w s. tn_value (nodes c' n) = Some w \<and> length w = rk_len (tn_key (nodes c' n)) \<and>
        parent (nodes c' n) = Some s \<and> ?pv n = ?pv s @ w"
    proof (cases "n = nn")
      case True
      then show ?thesis using new ne by simp
    next
      case False
      then have nA: "n \<in> A" "n \<noteq> root_node c" using n by auto
      obtain w s where ws: "tn_value (nodes c n) = Some w" "length w = rk_len (tn_key (nodes c n))"
        "parent (nodes c n) = Some s" "pv n = pv s @ w" using val_node[OF i(2) nA] by metis
      have "s \<noteq> nn" using tree_parent[OF i(1) nA] ws(3) nn by auto
      then show ?thesis using ws False old[OF nA(1)] by simp
    qed
  qed
  moreover have "size_ok c' ?A"
  proof -
    have "(\<Sum>n \<in> ?A - {root_node c}. weight P (nodes c' n))
        = weight P (nodes c' nn) + (\<Sum>n \<in> A - {root_node c}. weight P (nodes c n))" for P
    proof -
      have "(\<Sum>n \<in> ?A - {root_node c}. weight P (nodes c' n))
          = weight P (nodes c' nn) + (\<Sum>n \<in> A - {root_node c}. weight P (nodes c' n))"
        using d(6) nn ne by (simp add: insert_Diff_if)
      also have "(\<Sum>n \<in> A - {root_node c}. weight P (nodes c' n)) = (\<Sum>n \<in> A - {root_node c}. weight P (nodes c n))"
        by (rule sum.cong) (use old in \<open>simp_all add: weight_def\<close>)
      finally show ?thesis .
    qed
    moreover have "weight P (nodes c' nn) = (if P 0 then int (length v) else 0)" for P
      using new by (simp add: weight_def)
    ultimately show ?thesis using i(4) cnt unfolding size_ok_def r by simp
  qed
  moreover have "leaf_ok_except c' ?A {p, nn}"
  proof -
    have "is_leaf c' n = is_leaf c n" if n: "n \<in> A" "n \<noteq> p" for n
    proof (rule is_leaf_cong)
      show "kids c' n = kids c n" using oth[OF n] by (simp add: same_core_def same_shape_def kids_def)
      show "evicted (nodes c' ch) = evicted (nodes c ch)" if "(k, ch) \<in> kids c n" for k ch
        using old[OF d(8)[OF n(1) that]] by (simp add: evicted_def)
    qed (use old[OF n(1)] in \<open>simp_all add: evicted_def\<close>)
    then show ?thesis using i(5) cnt by (auto simp: leaf_ok_except_def)
  qed
  moreover have "own_ok c' ?A"
  proof -
    note o = i(6)[unfolded own_ok_def]
    have pages: "node_pages c' nn = hp_pages (r_page_size c) v" using new r by (simp add: node_pages_def)
    have same: "node_pages c' n = node_pages c n" if "n \<in> A" for n
      using old[OF that] r by (simp add: node_pages_def split: option.splits)
    have pvc: "paged_value c' u = paged_value c u" for u using cnt r by (simp add: paged_value_def)
    show ?thesis
      unfolding own_ok_def cnt r
    proof (intro conjI ballI allI impI)
      fix n w assume n: "n \<in> ?A - {root_node c}" and w: "tn_value (nodes c' n) = Some w"
      show "paged_value c' w"
        using n w new old[of n] o fresh(1) pvc by (cases "n = nn") auto
    next
      fix n assume n: "n \<in> ?A"
      show "node_pages c' n \<inter> al_avail (kv_allocator c) = {}"
        using n same[of n] o pages fresh(2) by (cases "n = nn") auto
      fix m assume m: "m \<in> ?A" and nm: "n \<noteq> m"
      consider "n = nn" "m \<in> A" | "m = nn" "n \<in> A" | "n \<in> A" "m \<in> A" using n m nm by blast
      then show "node_pages c' n \<inter> node_pages c' m = {}"
      proof cases
        case 1
        then show ?thesis using pages same[of m] fresh(3)[of m] by auto
      next
        case 2
        then show ?thesis using pages same[of n] fresh(3)[of n] by auto
      next
        case 3
        then show ?thesis using same[of n] same[of m] o nm by simp
      qed
    qed (use o in simp_all)
  qed
  ultimately show "rcore c' ?A ?pk ?pv {p, nn}" by (simp add: rcore_def)
  have L: "set_mset L \<subseteq> A" using i(3) by (simp add: lock_ok_def)
  have no: "\<not> prefix (pk p @ units_of c' nn) (pk m)" if m: "m \<in> A" for m
  proof
    assume pre: "prefix (pk p @ units_of c' nn) (pk m)"
    have K: "0 < rk_len (tn_key (nodes c' nn))" "r_page_size c \<le> rk_len (tn_key (nodes c' nn))"
      using key(1) by (auto simp: key_ok_def intro: dvd_imp_le)
    have "prefix (pk p) (pk m)" using pre by (meson prefixI prefix_order.trans)
    moreover have "p \<noteq> m" using pre K by (auto simp: prefix_def simp flip: length_0_conv)
    ultimately obtain kx x where x: "(kx, x) \<in> kids c p" "prefix (pk x) (pk m)"
      using trie_descend[OF i(1) p m] by auto
    note tx = tree_child[OF i(1) p x(1)]
    have xA: "x \<in> A" "x \<noteq> root_node c" using d(8,9)[OF p x(1)] by auto
    have "take (r_page_size c) (units_of c' nn) = take (r_page_size c) (units_of c x)"
      by (rule pk_page_prefix[OF pre]) (use x(2) tx K in simp_all)
    then have "child_key (tn_key (nodes c' nn)) (r_page_size c) = child_key (tn_key (nodes c x)) (r_page_size c)"
      using child_key_units[OF d(1) K(2) tx(4)] key(1) d(12)[OF xA] by (simp add: key_ok_def)
    then have "k = kx" using key(2) d(11)[OF p x(1)] by simp
    then show False using key(3) x(1) by force
  qed
  have c1: "lock_cnt ?pk L nn = 0"
  proof -
    have "filter_mset (\<lambda>m. prefix (?pk nn) (?pk m)) L = filter_mset (\<lambda>_. False) L"
      by (rule filter_mset_cong[OF refl]) (use no L nn(1) in auto)
    then show ?thesis unfolding lock_cnt_def by simp
  qed
  have c2: "lock_cnt ?pk L n = lock_cnt pk L n" if "n \<in> A" for n
    unfolding lock_cnt_def
    by (rule arg_cong[where f = size], rule filter_mset_cong[OF refl]) (use that nn L in auto)
  show "lock_ok c' ?A ?pk L"
    unfolding lock_ok_def r
  proof (intro conjI ballI)
    show "set_mset L \<subseteq> ?A" using L by auto
    show "0 < lock_ref (nodes c' (root_node c))" using i(3) old[OF d(3)] by (simp add: lock_ok_def)
    fix n assume n: "n \<in> ?A - {root_node c}"
    show "lock_ref (nodes c' n) = int (lock_cnt ?pk L n)"
    proof (cases "n = nn")
      case True
      then show ?thesis using c1 new by simp
    next
      case False
      then show ?thesis using n c2[of n] old(4)[of n] i(3) by (simp add: lock_ok_def)
    qed
  qed
qed

lemma rinv_attach:
  assumes "rcore c A pk pv {p, nn}" "lock_ok c A pk L" "p \<in> A" "nn \<in> A"
  shows "rinv (update_leaf_status nn (update_leaf_status p c)) A pk pv L" (is "rinv ?c A pk pv L")
proof -
  have "rcore (update_leaf_status p c) A pk pv ({p, nn} - {p})"
    by (rule update_leaf_status_core[OF assms(1,3)])
  from update_leaf_status_core[OF this assms(4)] have "rcore ?c A pk pv ({p, nn} - {p} - {nn})" .
  moreover have none: "{p, nn} - {p} - {nn} = {}" by auto
  moreover have "lock_ok ?c A pk L"
    by (rule same_store_ok(4)[OF _ _ _ _ assms(2)]) (simp_all add: same_config_def)
  ultimately show ?thesis unfolding rinv_rcore none by blast
qed

section \<open>Contents\<close>

text \<open>
  Two trees with the same contents: nodes may be added on edges, and every node keeps its path
  and its slots.
\<close>

definition same_content ::
  "nat set \<Rightarrow> (nat \<Rightarrow> unit_key list) \<Rightarrow> (nat \<Rightarrow> int list) \<Rightarrow>
   nat set \<Rightarrow> (nat \<Rightarrow> unit_key list) \<Rightarrow> (nat \<Rightarrow> int list) \<Rightarrow> bool" where
  "same_content A pk pv A' pk' pv' \<longleftrightarrow> A \<subseteq> A' \<and> (\<forall>a \<in> A. pk' a = pk a \<and> pv' a = pv a) \<and>
     (\<forall>a \<in> A'. \<exists>b \<in> A. prefix (pk' a) (pk b) \<and> pv' a = take (length (pk' a)) (pv b))"

lemma same_content_refl:
  assumes "tree_ok c A pk" "val_ok c A pv"
  shows "same_content A pk pv A pk pv"
  unfolding same_content_def by (auto simp flip: length_pv[OF assms])

lemma same_content_trans:
  assumes "same_content A pk pv B qk qv" "same_content B qk qv C rk rv"
  shows "same_content A pk pv C rk rv"
  unfolding same_content_def
proof (intro conjI ballI)
  show "A \<subseteq> C" using assms by (auto simp: same_content_def)
  show "rk a = pk a" "rv a = pv a" if "a \<in> A" for a
    using assms that by (auto simp: same_content_def)
  fix a assume "a \<in> C"
  then obtain b where b: "b \<in> B" "prefix (rk a) (qk b)" "rv a = take (length (rk a)) (qv b)"
    using assms(2) by (auto simp: same_content_def)
  then obtain b' where b': "b' \<in> A" "prefix (qk b) (pk b')" "qv b = take (length (qk b)) (pv b')"
    using assms(1) by (auto simp: same_content_def)
  have "length (rk a) \<le> length (qk b)" using b(2) by (rule prefix_length_le)
  then have "rv a = take (length (rk a)) (pv b')" using b(3) b'(3) by (simp add: min.absorb1)
  then show "\<exists>b \<in> A. prefix (rk a) (pk b) \<and> rv a = take (length (rk a)) (pv b)"
    using b(2) b'(1,2) prefix_order.trans by blast
qed

lemma same_content_split:
  assumes "tree_ok c A pk" "val_ok c A pv" "child \<in> A" "nn \<notin> A" "prefix q (pk child)"
  shows "same_content A pk pv (Set.insert nn A) (pk(nn := q)) (pv(nn := take (length q) (pv child)))"
  using assms unfolding same_content_def by (auto simp flip: length_pv[OF assms(1,2)])

lemma pk_aligned:
  assumes t: "tree_ok c A pk" and "n \<in> A"
  shows "r_page_size c dvd length (pk n)"
  using assms(2)
proof (induction "length (pk n)" arbitrary: n rule: less_induct)
  case less
  show ?case
  proof (cases "n = root_node c")
    case True
    then show ?thesis using tree_okD(4)[OF t] by simp
  next
    case False
    obtain p where p: "p \<in> A" "pk n = pk p @ units_of c n" "length (pk p) < length (pk n)"
      using tree_parent[OF t less.prems False] by metis
    have "r_page_size c dvd rk_len (tn_key (nodes c n))"
      using tree_okD(12)[OF t less.prems False] by (simp add: key_ok_def)
    then show ?thesis using less.hyps[OF p(3,1)] p(2) by simp
  qed
qed

section \<open>One step of the walk\<close>

text \<open>What a walk knows at \<open>node\<close>: the rest of the key and its dict key.\<close>

definition walk_key :: "'a radix_cache_scheme \<Rightarrow> radix_key \<Rightarrow> pyval \<Rightarrow> bool" where
  "walk_key c key ck \<longleftrightarrow> r_page_size c dvd rk_len key \<and> is_bigram key = r_is_eagle c \<and>
     (0 < rk_len key \<longrightarrow> child_key key (r_page_size c) = Inr ck)"

lemma walk_key_cong: "same_config c c' \<Longrightarrow> walk_key c' key ck = walk_key c key ck"
  by (simp add: walk_key_def same_config_def)

lemma walk_key_next:
  assumes "walk_key c key ck" "0 < r_page_size c" "r_page_size c dvd m"
  shows "\<exists>ck'. (if 0 < rk_len (rk_from key m) then child_key (rk_from key m) (r_page_size c) else Inr ck) = Inr ck' \<and>
    walk_key c (rk_from key m) ck'"
proof -
  have d: "r_page_size c dvd rk_len (rk_from key m)" using assms by (simp add: walk_key_def dvd_diff_nat)
  show ?thesis
  proof (cases "0 < rk_len (rk_from key m)")
    case True
    then have "r_page_size c \<le> rk_len (rk_from key m)" using d by (auto intro: dvd_imp_le)
    then show ?thesis
      using True d assms(1) child_key_eq[OF assms(2), of "rk_from key m"] by (simp add: walk_key_def)
  next
    case False
    then show ?thesis using d assms(1) by (simp add: walk_key_def)
  qed
qed

text \<open>A longer cached prefix of the key lies below the child found by the dict key.\<close>

lemma walk_descend:
  assumes t: "tree_ok c A pk" and node: "node \<in> A" and key: "walk_key c key ck"
    and us: "prefix us (pk node @ rk_units key)" "length (pk node) < length us" "r_page_size c dvd length us"
    and a: "a \<in> A" "prefix us (pk a)"
  shows "\<exists>child. (ck, child) \<in> kids c node \<and> prefix (pk child) (pk a)"
proof -
  note d = tree_okD[OF t]
  have pn: "prefix (pk node) us"
    by (rule prefix_length_prefix[OF _ us(1)]) (use us(2) in simp_all)
  have "prefix (pk node) (pk a)" using pn a(2) prefix_order.trans by blast
  moreover have "node \<noteq> a" using us(2) prefix_length_le[OF a(2)] by auto
  ultimately obtain k x where x: "(k, x) \<in> kids c node" "prefix (pk x) (pk a)"
    using trie_descend[OF t node a(1)] by blast
  note tx = tree_child[OF t node x(1)]
  obtain w where w: "us = pk node @ w" using pn by (auto simp: prefix_def)
  have wk: "prefix w (rk_units key)" using us(1) w by simp
  have lw: "r_page_size c \<le> length w"
  proof -
    have "r_page_size c dvd length w"
      using us(3) pk_aligned[OF t node] w dvd_add_right_iff[of "r_page_size c" "length (pk node)"] by simp
    then show ?thesis using us(2) w by (auto intro: dvd_imp_le)
  qed
  have lk: "r_page_size c \<le> rk_len key" using lw prefix_length_le[OF wk] by simp
  have "take (r_page_size c) w = take (r_page_size c) (units_of c x)"
    by (rule pk_page_prefix[of "pk node" _ "pk a"]) (use a(2) w x(2) tx lw in simp_all)
  moreover have "take (r_page_size c) w = take (r_page_size c) (rk_units key)"
    using wk lw by (auto simp: prefix_def)
  ultimately have "take (r_page_size c) (rk_units key) = take (r_page_size c) (units_of c x)" by simp
  moreover have "is_bigram key = is_bigram (tn_key (nodes c x))"
    using key d(12)[OF d(8,9)[OF node x(1)]] by (simp add: walk_key_def key_ok_def)
  ultimately have "child_key key (r_page_size c) = child_key (tn_key (nodes c x)) (r_page_size c)"
    using child_key_units[OF d(1) lk tx(4)] by simp
  moreover have "0 < rk_len key" using lk d(1) by simp
  ultimately have "k = ck" using d(11)[OF node x(1)] key by (simp add: walk_key_def)
  then show ?thesis using x by blast
qed

text \<open>The match of the rest of the key with the child found by its dict key.\<close>

lemma rk_units_extra:
  assumes "0 < n" "n \<le> rk_len k" "n \<le> rk_len k'" "take n (rk_units k) = take n (rk_units k')"
  shows "extra_key k = extra_key k'"
proof -
  have "take n (rk_units k) ! 0 = take n (rk_units k') ! 0" using assms(4) by simp
  then show ?thesis using assms(1-3) by (simp add: rk_units_def)
qed

lemma walk_child:
  assumes t: "tree_ok c A pk" and node: "node \<in> A" and key: "walk_key c key ck" "0 < rk_len key"
    and child: "(ck, child) \<in> kids c node"
  defines "m \<equiv> lcp_len (units_of c child) (rk_units key) div r_page_size c * r_page_size c"
  shows "rk_match (tn_key (nodes c child)) key (r_page_size c) = Inr m" "r_page_size c \<le> m"
    "r_page_size c dvd m" "m \<le> rk_len (tn_key (nodes c child))" "m \<le> rk_len key"
    "take m (units_of c child) = take m (rk_units key)"
    "extra_key (tn_key (nodes c child)) = extra_key key"
proof -
  note d = tree_okD[OF t] and tx = tree_child[OF t node child]
  have K: "key_ok c (tn_key (nodes c child))" by (rule d(12)[OF d(8,9)[OF node child]])
  have lk: "r_page_size c \<le> rk_len key" using key by (auto simp: walk_key_def intro: dvd_imp_le)
  have ck: "child_key key (r_page_size c) = Inr ck" using key by (simp add: walk_key_def)
  have big: "is_bigram (tn_key (nodes c child)) = is_bigram key" using K key by (simp add: walk_key_def key_ok_def)
  have page: "take (r_page_size c) (units_of c child) = take (r_page_size c) (rk_units key)"
    using child_key_units[OF d(1) tx(4) lk big] d(11)[OF node child] ck by simp
  show ex: "extra_key (tn_key (nodes c child)) = extra_key key"
    by (rule rk_units_extra[OF d(1) tx(4) lk page])
  show "rk_match (tn_key (nodes c child)) key (r_page_size c) = Inr m"
    unfolding m_def by (rule rk_match_units[OF ex big d(1) tx(3)]) (use key in \<open>simp add: walk_key_def\<close>)
  have le: "r_page_size c \<le> lcp_len (units_of c child) (rk_units key)"
    unfolding lcp_len_take using tx(4) lk page by simp
  then have "1 \<le> lcp_len (units_of c child) (rk_units key) div r_page_size c"
    using d(1) by (simp add: Suc_le_eq div_greater_zero_iff)
  then show "r_page_size c \<le> m" unfolding m_def by simp
  show "r_page_size c dvd m" by (simp add: m_def)
  have "m \<le> lcp_len (units_of c child) (rk_units key)" by (simp add: m_def)
  then show "m \<le> rk_len (tn_key (nodes c child))" "m \<le> rk_len key"
    "take m (units_of c child) = take m (rk_units key)"
    using lcp_len_take[of m "units_of c child" "rk_units key"] by simp_all
qed

text \<open>The maximal match: no longer page-aligned prefix of the key is below \<open>child\<close>.\<close>

lemma walk_max:
  assumes t: "tree_ok c A pk" and node: "node \<in> A" and key: "walk_key c key ck" "0 < rk_len key"
    and child: "(ck, child) \<in> kids c node"
    and m: "m = lcp_len (units_of c child) (rk_units key) div r_page_size c * r_page_size c"
      "m < rk_len (tn_key (nodes c child))"
    and us: "prefix us (pk node @ rk_units key)" "r_page_size c dvd length us"
    and a: "a \<in> A" "prefix us (pk a)"
  shows "length us \<le> length (pk node) + m"
proof (rule ccontr)
  assume long: "\<not> length us \<le> length (pk node) + m"
  note d = tree_okD[OF t] and tx = tree_child[OF t node child] and wc = walk_child[OF t node key child, folded m(1)]
  have pn: "prefix (pk node) us"
    by (rule prefix_length_prefix[OF _ us(1)]) (use long in simp_all)
  obtain w where w: "us = pk node @ w" using pn by (auto simp: prefix_def)
  have wk: "prefix w (rk_units key)" using us(1) w by simp
  have dw: "r_page_size c dvd length w"
    using us(2) pk_aligned[OF t node] w dvd_add_right_iff[of "r_page_size c" "length (pk node)"] by simp
  have lw: "m + r_page_size c \<le> length w"
    using long w by (intro dvd_add_le[OF wc(3) dw]) simp
  have lc: "m + r_page_size c \<le> rk_len (tn_key (nodes c child))" by (rule dvd_add_le[OF wc(3) tx(3) m(2)])
  have "length (pk node) < length us" using long by simp
  from walk_descend[OF t node key(1) us(1) this us(2) a] obtain x where
    x: "(ck, x) \<in> kids c node" "prefix (pk x) (pk a)" by blast
  have "x = child" using x(1) child d(7)[OF node] unfolding kids_def by (metis eq_key_imp_eq_value)
  then have "take (m + r_page_size c) w = take (m + r_page_size c) (units_of c child)"
    using a(2) w x(2) tx(1) lw lc by (intro pk_page_prefix[of "pk node" _ "pk a"]) simp_all
  moreover have "take (m + r_page_size c) w = take (m + r_page_size c) (rk_units key)"
    using wk lw by (auto simp: prefix_def)
  moreover have "m + r_page_size c \<le> length (rk_units key)" using lw prefix_length_le[OF wk] by simp
  ultimately have "m + r_page_size c \<le> lcp_len (units_of c child) (rk_units key)"
    unfolding lcp_len_take using lc by simp
  moreover have "lcp_len (units_of c child) (rk_units key) < m + r_page_size c"
    unfolding m(1) using d(1) by (metis add.commute dividend_less_div_times)
  ultimately show False by simp
qed

section \<open>Matching\<close>

text \<open>What the walk returns: a node on the longest cached prefix of the units \<open>U\<close>.\<close>

definition best_node ::
  "nat \<Rightarrow> nat set \<Rightarrow> (nat \<Rightarrow> unit_key list) \<Rightarrow> unit_key list \<Rightarrow> unit_key list \<Rightarrow> bool" where
  "best_node ps A pk U q \<longleftrightarrow> prefix q U \<and>
     (\<forall>us a. prefix us U \<longrightarrow> ps dvd length us \<longrightarrow> a \<in> A \<longrightarrow> prefix us (pk a) \<longrightarrow> length us \<le> length q)"

definition same_meta :: "'a radix_cache_scheme \<Rightarrow> 'a radix_cache_scheme \<Rightarrow> bool" where
  "same_meta c c' \<longleftrightarrow> same_config c c' \<and> same_counters c c' \<and> next_ref c \<le> next_ref c'"

lemma same_meta_refl: "same_meta c c"
  by (simp add: same_meta_def same_config_def same_counters_def)

lemma same_meta_trans: "same_meta c c' \<Longrightarrow> same_meta c' c'' \<Longrightarrow> same_meta c c''"
  by (simp add: same_meta_def same_config_def same_counters_def)

lemma same_meta_upd [simp]: "same_meta c (upd n f c)"
  by (simp add: same_meta_def same_config_def same_counters_def)

text \<open>
  One step of either walk, on the child found: the end of the edge is either \<open>child\<close> itself or
  the node that splits it.
\<close>

lemma walk_split:
  assumes inv: "rinv c A pk pv L" and node: "node \<in> A" and key: "walk_key c key ck" "0 < rk_len key"
    and child: "(ck, child) \<in> kids c node"
    and m: "m = lcp_len (units_of c child) (rk_units key) div r_page_size c * r_page_size c"
      "m < rk_len (tn_key (nodes c child))"
  shows "\<exists>nn c' pk' pv'. split_node env (tn_key (nodes c child)) child m c = Inr (nn, c') \<and>
    rinv c' (Set.insert nn A) pk' pv' L \<and> same_meta c c' \<and> nn \<notin> A \<and>
    same_content A pk pv (Set.insert nn A) pk' pv' \<and> pk' nn = pk node @ take m (rk_units key) \<and>
    (\<exists>v. tn_value (nodes c' nn) = Some v \<and> pv' nn = pv node @ v) \<and>
    best_node (r_page_size c) A pk (pk node @ rk_units key) (pk' nn)"
proof -
  note i = rinvD[OF inv]
  note t = i(1)
  note d = tree_okD[OF t] and tx = tree_child[OF t node child] and wc = walk_child[OF t node key child, folded m(1)]
  have ch: "child \<in> A" "child \<noteq> root_node c" "parent (nodes c child) = Some node"
    using d(8-10)[OF node child] by auto
  let ?q = "take (length (pk child) - (rk_len (tn_key (nodes c child)) - m)) (pk child)"
  have q: "?q = pk node @ take m (rk_units key)" using tx(1) m(2) wc(6) by simp
  obtain v where v: "tn_value (nodes c child) = Some v" "pv child = pv node @ v"
    using val_node[OF i(2) ch(1,2)] ch(3) by auto
  have "0 < m" using wc(2) d(1) by simp
  from rinv_split[OF inv ch(1,2) this m(2) wc(3), of env] obtain c' where
    c': "split_node env (tn_key (nodes c child)) child m c = Inr (next_ref c, c')"
      "rinv c' (Set.insert (next_ref c) A) (pk(next_ref c := ?q)) (pv(next_ref c := take (length ?q) (pv child))) L"
      "same_config c c'" "same_counters c c'" "next_ref c' = Suc (next_ref c)" "next_ref c \<notin> A"
      "tn_value (nodes c' (next_ref c)) = map_option (take m) (tn_value (nodes c child))" by blast
  let ?pk = "pk(next_ref c := ?q)" and ?pv = "pv(next_ref c := take (length ?q) (pv child))"
  have cont: "same_content A pk pv (Set.insert (next_ref c) A) ?pk ?pv"
    by (rule same_content_split[OF t i(2) ch(1) c'(6)]) (rule take_is_prefix)
  have "take (length ?q) (pv child) = pv node @ take m v"
    unfolding q using v(2) length_pv[OF t i(2) node] wc(5) by simp
  moreover have "best_node (r_page_size c) A pk (pk node @ rk_units key) ?q"
    unfolding best_node_def q
    using walk_max[OF t node key child m] wc(5) by (auto simp: take_is_prefix)
  moreover have "same_meta c c'" using c'(3-5) by (simp add: same_meta_def)
  ultimately show ?thesis
    using c'(1,2,6,7) cont q v(1)
    by (intro exI[of _ "next_ref c"] exI[of _ c'] exI[of _ ?pk] exI[of _ ?pv]) simp
qed

lemma walk_stop:
  assumes t: "tree_ok c A pk" and node: "node \<in> A" and key: "walk_key c key ck"
    and stop: "rk_len key = 0 \<or> map_of (children (nodes c node)) ck = None"
  shows "best_node (r_page_size c) A pk (pk node @ rk_units key) (pk node)"
  unfolding best_node_def
proof (intro conjI allI impI)
  fix us a assume us: "prefix us (pk node @ rk_units key)" "r_page_size c dvd length us" and a: "a \<in> A" "prefix us (pk a)"
  show "length us \<le> length (pk node)"
  proof (rule ccontr)
    assume "\<not> length us \<le> length (pk node)"
    then have long: "length (pk node) < length us" by simp
    then have "rk_len key \<noteq> 0" using prefix_length_le[OF us(1)] by auto
    moreover obtain child where "(ck, child) \<in> kids c node"
      using walk_descend[OF t node key us(1) long us(2) a] by blast
    then have "map_of (children (nodes c node)) ck \<noteq> None"
      unfolding kids_def by (simp add: map_of_eq_None_iff) force
    ultimately show False using stop by simp
  qed
qed simp

lemma match_loop_ok:
  assumes "rinv c A pk pv L" "node \<in> A" "walk_key c key ck" "concat ws = pv node" "rk_len key < fuel"
  shows "\<exists>ws' n' c' A' pk' pv'. match_loop fuel env t node key ck (map Some ws) c = Inr (map Some ws', n', c') \<and>
    rinv c' A' pk' pv' L \<and> same_meta c c' \<and> same_content A pk pv A' pk' pv' \<and> n' \<in> A' \<and>
    concat ws' = pv' n' \<and> best_node (r_page_size c) A pk (pk node @ rk_units key) (pk' n')"
  using assms
proof (induction fuel arbitrary: node key ck ws c)
  case (Suc fuel)
  note inv = Suc.prems(1) and node = Suc.prems(2) and key = Suc.prems(3)
  note t = rinvD(1)[OF inv]
  note d = tree_okD[OF t]
  show ?case
  proof (cases "rk_len key = 0 \<or> map_of (children (nodes c node)) ck = None")
    case True
    moreover have "same_content A pk pv A pk pv" by (rule same_content_refl[OF t rinvD(2)[OF inv]])
    ultimately show ?thesis
      using walk_stop[OF t node key True] inv node Suc.prems(4) same_meta_refl[of c] by (cases "rk_len key = 0") auto
  next
    case False
    then obtain child where child: "map_of (children (nodes c node)) ck = Some child" and pos: "0 < rk_len key" by auto
    then have ckid: "(ck, child) \<in> kids c node" using map_of_SomeD by (fastforce simp: kids_def)
    define c1 where "c1 = upd child (\<lambda>x. x\<lparr>last_access_time := t\<rparr>) c"
    have inv1: "rinv c1 A pk pv L" unfolding c1_def by (rule rinv_upd[OF inv]) (simp add: same_core_def same_shape_def)
    have same: "tn_key (nodes c1 n) = tn_key (nodes c n)" "kids c1 n = kids c n"
      "tn_value (nodes c1 n) = tn_value (nodes c n)" "r_page_size c1 = r_page_size c" "same_meta c c1" for n
      by (simp_all add: c1_def kids_def)
    have key1: "walk_key c1 key ck" using key same(5) walk_key_cong by (fastforce simp: same_meta_def)
    let ?m = "lcp_len (units_of c child) (rk_units key) div r_page_size c * r_page_size c"
    note wc = walk_child[OF t node key pos ckid]
    have ch: "child \<in> A" "child \<noteq> root_node c" "parent (nodes c child) = Some node"
      using d(8-10)[OF node ckid] by auto
    show ?thesis
    proof (cases "?m < rk_len (tn_key (nodes c child))")
      case True
      have "\<exists>nn c' pk' pv'. split_node env (tn_key (nodes c1 child)) child ?m c1 = Inr (nn, c') \<and>
        rinv c' (Set.insert nn A) pk' pv' L \<and> same_meta c1 c' \<and> nn \<notin> A \<and>
        same_content A pk pv (Set.insert nn A) pk' pv' \<and> pk' nn = pk node @ take ?m (rk_units key) \<and>
        (\<exists>v. tn_value (nodes c' nn) = Some v \<and> pv' nn = pv node @ v) \<and>
        best_node (r_page_size c1) A pk (pk node @ rk_units key) (pk' nn)"
        by (rule walk_split[OF inv1 node key1 pos]) (use ckid same True in simp_all)
      then obtain nn c' pk' pv' v where s: "split_node env (tn_key (nodes c child)) child ?m c1 = Inr (nn, c')"
        "rinv c' (Set.insert nn A) pk' pv' L" "same_meta c1 c'" "same_content A pk pv (Set.insert nn A) pk' pv'"
        "tn_value (nodes c' nn) = Some v" "pv' nn = pv node @ v"
        "best_node (r_page_size c) A pk (pk node @ rk_units key) (pk' nn)"
        unfolding same by blast
      have "match_loop (Suc fuel) env t node key ck (map Some ws) c = Inr (map Some (ws @ [v]), nn, c')"
        using pos child True wc(1) s(1,5) by (simp add: c1_def[symmetric] same Let_def)
      moreover have "same_meta c c'" using same(5) s(3) by (rule same_meta_trans)
      moreover have "concat (ws @ [v]) = pv' nn" using s(6) Suc.prems(4) by simp
      ultimately show ?thesis using s(2,4,7) by blast
    next
      case full: False
      then have m: "?m = rk_len (tn_key (nodes c child))" using wc(4) by simp
      have "r_page_size c1 dvd ?m" using same by simp
      from walk_key_next[OF key1 _ this] d(1) obtain ck' where
        ck': "(if 0 < rk_len (rk_from key ?m) then child_key (rk_from key ?m) (r_page_size c) else Inr ck) = Inr ck'"
          "walk_key c1 (rk_from key ?m) ck'" unfolding same by blast
      obtain v where v: "tn_value (nodes c child) = Some v" "pv child = pv node @ v"
        using val_node[OF rinvD(2)[OF inv] ch(1,2)] ch(3) by auto
      have run: "match_loop (Suc fuel) env t node key ck (map Some ws) c
          = match_loop fuel env t child (rk_from key ?m) ck' (map Some (ws @ [v])) c1"
        using pos child full wc(1) ck'(1) v(1) by (simp add: c1_def[symmetric] same Let_def split: if_splits)
      have path: "pk child @ rk_units (rk_from key ?m) = pk node @ rk_units key"
      proof -
        have "take ?m (units_of c child) = units_of c child" unfolding m by simp
        then have "pk child = pk node @ take ?m (rk_units key)" using tree_child(1)[OF t node ckid] wc(6) by simp
        then show ?thesis by simp
      qed
      have "concat (ws @ [v]) = pv child" using Suc.prems(4) v(2) by simp
      moreover have "rk_len (rk_from key ?m) < fuel"
      proof -
        have "0 < ?m" using wc(2) d(1) by linarith
        then show ?thesis using Suc.prems(5) pos unfolding rk_from_upto_fields by linarith
      qed
      ultimately obtain ws' n' c' A' pk' pv' where
        "match_loop fuel env t child (rk_from key ?m) ck' (map Some (ws @ [v])) c1 = Inr (map Some ws', n', c')"
        "rinv c' A' pk' pv' L" "same_meta c1 c'" "same_content A pk pv A' pk' pv'" "n' \<in> A'"
        "concat ws' = pv' n'" "best_node (r_page_size c) A pk (pk node @ rk_units key) (pk' n')"
        using Suc.IH[OF inv1 ch(1) ck'(2)] unfolding same path by metis
      then show ?thesis unfolding run using same_meta_trans[OF same(5)] by blast
    qed
  qed
qed simp

end
