(* ===== verification/RadixInsert.thy ===== *)
theory RadixInsert
  imports RadixMatch
begin

text \<open>
  Insertion into the radix cache: the walk keeps the contents, and what is left of the key
  becomes a new leaf below the longest cached prefix.
\<close>

section \<open>The walk\<close>

lemma inc_hit_count_core:
  assumes "rinv c A pk pv L"
  shows "rinv (inc_hit_count n chunked c) A pk pv L"
  unfolding inc_hit_count_def using assms by (auto intro: rinv_upd simp: same_core_def same_shape_def)

lemma inc_hit_count_meta: "same_meta c (inc_hit_count n chunked c)"
  by (simp add: inc_hit_count_def same_meta_refl)

lemma walk_edge:
  assumes inv: "rinv c A pk pv L" and node: "node \<in> A" and key: "walk_key c key ck" "0 < rk_len key"
    and child: "(ck, child) \<in> kids c node"
    and f: "f = (\<lambda>n c. inc_hit_count n chunked (upd n (\<lambda>x. x\<lparr>priority := max (priority x) prio\<rparr>) c))"
    and m: "m = lcp_len (units_of c child) (rk_units key) div r_page_size c * r_page_size c"
  shows "\<exists>nn c' A' pk' pv'.
    (if m < rk_len (tn_key (nodes c child))
     then bindR (split_node env (tn_key (nodes c child)) child m c) (\<lambda>(nn, c). Inr (nn, f nn c))
     else Inr (child, f child c)) = Inr (nn, c') \<and>
    rinv c' A' pk' pv' L \<and> same_meta c c' \<and> same_content A pk pv A' pk' pv' \<and> nn \<in> A' \<and>
    pk' nn = pk node @ take m (rk_units key)"
proof -
  note t = rinvD(1)[OF inv]
  note wc = walk_child[OF t node key child, folded m]
  have keep: "rinv (f n c') A' pk' pv' L" "same_meta c' (f n c')" if "rinv c' A' pk' pv' L" for n c' A' pk' pv'
  proof -
    have "rinv (upd n (\<lambda>x. x\<lparr>priority := max (priority x) prio\<rparr>) c') A' pk' pv' L"
      by (rule rinv_upd[OF that]) (simp add: same_core_def same_shape_def)
    then show "rinv (f n c') A' pk' pv' L" unfolding f by (rule inc_hit_count_core)
    show "same_meta c' (f n c')"
      unfolding f by (rule same_meta_trans[OF same_meta_upd inc_hit_count_meta])
  qed
  show ?thesis
  proof (cases "m < rk_len (tn_key (nodes c child))")
    case True
    obtain nn c' pk' pv' where s: "split_node env (tn_key (nodes c child)) child m c = Inr (nn, c')"
      "rinv c' (Set.insert nn A) pk' pv' L" "same_meta c c'" "same_content A pk pv (Set.insert nn A) pk' pv'"
      "pk' nn = pk node @ take m (rk_units key)"
      using walk_split[OF inv node key child m True] by blast
    have meta: "same_meta c (f nn c')" by (rule same_meta_trans[OF s(3) keep(2)[OF s(2)]])
    show ?thesis
      using True s(1,4,5) keep(1)[OF s(2), of nn] meta
      by (intro exI[of _ nn] exI[of _ "f nn c'"] exI[of _ "Set.insert nn A"] exI[of _ pk'] exI[of _ pv']) simp
  next
    case False
    then have mm: "m = rk_len (tn_key (nodes c child))" using wc(4) by simp
    have "take m (units_of c child) = units_of c child" unfolding mm by simp
    then have "pk child = pk node @ take m (rk_units key)" using tree_child(1)[OF t node child] wc(6) by simp
    then show ?thesis
      using False keep[OF inv, of child] same_content_refl[OF t rinvD(2)[OF inv]] tree_okD(8)[OF t node child]
      by (intro exI[of _ child] exI[of _ "f child c"] exI[of _ A] exI[of _ pk] exI[of _ pv]) simp
  qed
qed

lemma insert_loop_ok:
  assumes "rinv c A pk pv L" "node \<in> A" "walk_key c key ck" "rk_len key < fuel"
  shows "\<exists>node' key' ck' c' A' pk' pv' j.
    insert_loop fuel env t prio chunked node key val ck total_len c
      = Inr (node', key', drop j val, ck', total_len + j, c') \<and>
    rinv c' A' pk' pv' L \<and> same_meta c c' \<and> same_content A pk pv A' pk' pv' \<and> node' \<in> A' \<and>
    walk_key c' key' ck' \<and> j \<le> rk_len key \<and> pk' node' = pk node @ take j (rk_units key) \<and>
    rk_units key' = drop j (rk_units key) \<and>
    (rk_len key' = 0 \<or> map_of (children (nodes c' node')) ck' = None)"
  using assms
proof (induction fuel arbitrary: node key ck c A pk pv val total_len)
  case (Suc fuel)
  note inv = Suc.prems(1) and node = Suc.prems(2) and key = Suc.prems(3)
  note t = rinvD(1)[OF inv]
  note d = tree_okD[OF t]
  show ?case
  proof (cases "rk_len key = 0 \<or> map_of (children (nodes c node)) ck = None")
    case True
    then have "insert_loop (Suc fuel) env t prio chunked node key val ck total_len c
        = Inr (node, key, drop 0 val, ck, total_len + 0, c)" by (cases "rk_len key = 0") simp_all
    moreover have "same_content A pk pv A pk pv" by (rule same_content_refl[OF t rinvD(2)[OF inv]])
    moreover have "pk node = pk node @ take 0 (rk_units key)" "rk_units key = drop 0 (rk_units key)" by simp_all
    ultimately show ?thesis using inv node key True same_meta_refl[of c] by blast
  next
    case False
    then obtain child where child: "map_of (children (nodes c node)) ck = Some child" and pos: "0 < rk_len key" by auto
    then have ckid: "(ck, child) \<in> kids c node" using map_of_SomeD by (fastforce simp: kids_def)
    define c1 where "c1 = upd child (\<lambda>x. x\<lparr>last_access_time := t\<rparr>) c"
    have inv1: "rinv c1 A pk pv L" unfolding c1_def by (rule rinv_upd[OF inv]) (simp add: same_core_def same_shape_def)
    have same: "tn_key (nodes c1 n) = tn_key (nodes c n)" "kids c1 n = kids c n"
      "r_page_size c1 = r_page_size c" "same_meta c c1" for n
      by (simp_all add: c1_def kids_def)
    have key1: "walk_key c1 key ck" using key same(4) walk_key_cong by (fastforce simp: same_meta_def)
    define m where "m = lcp_len (units_of c child) (rk_units key) div r_page_size c * r_page_size c"
    note wc = walk_child[OF t node key pos ckid, folded m_def]
    let ?f = "\<lambda>n c. inc_hit_count n chunked (upd n (\<lambda>x. x\<lparr>priority := max (priority x) prio\<rparr>) c)"
    have edge: "\<exists>nn c' A' pk' pv'.
      (if m < rk_len (tn_key (nodes c1 child))
       then bindR (split_node env (tn_key (nodes c1 child)) child m c1) (\<lambda>(nn, c). Inr (nn, ?f nn c))
       else Inr (child, ?f child c1)) = Inr (nn, c') \<and>
      rinv c' A' pk' pv' L \<and> same_meta c1 c' \<and> same_content A pk pv A' pk' pv' \<and> nn \<in> A' \<and>
      pk' nn = pk node @ take m (rk_units key)"
      by (rule walk_edge[OF inv1 node key1 pos _ refl]) (use ckid same m_def in simp_all)
    then obtain nn c2 A2 pk2 pv2 where e:
      "(if m < rk_len (tn_key (nodes c child))
        then bindR (split_node env (tn_key (nodes c child)) child m c1) (\<lambda>(nn, c). Inr (nn, ?f nn c))
        else Inr (child, ?f child c1)) = Inr (nn, c2)"
      "rinv c2 A2 pk2 pv2 L" "same_meta c1 c2" "same_content A pk pv A2 pk2 pv2" "nn \<in> A2"
      "pk2 nn = pk node @ take m (rk_units key)" unfolding same(1) by blast
    have ps2: "r_page_size c2 = r_page_size c" using e(3) same by (simp add: same_meta_def same_config_def)
    have key2: "walk_key c2 key ck" using key1 e(3) walk_key_cong by (fastforce simp: same_meta_def)
    from walk_key_next[OF key2, of m] d(1) wc(3) obtain ck2 where
      ck2: "(if 0 < rk_len (rk_from key m) then child_key (rk_from key m) (r_page_size c2) else Inr ck) = Inr ck2"
        "walk_key c2 (rk_from key m) ck2" unfolding ps2 by blast
    have run: "insert_loop (Suc fuel) env t prio chunked node key val ck total_len c
        = insert_loop fuel env t prio chunked nn (rk_from key m) (drop m val) ck2 (total_len + m) c2"
    proof -
      have nz: "rk_len key \<noteq> 0" using pos by simp
      show ?thesis
        by (simp only: insert_loop.simps nz if_False child option.case Let_def c1_def[symmetric] same(1,3)
            wc(1) bindR_simps e(1) prod.case ck2(1))
    qed
    have "0 < m" using wc(2) d(1) by linarith
    then have "rk_len (rk_from key m) < fuel"
      using Suc.prems(4) pos unfolding rk_from_upto_fields by linarith
    from Suc.IH[OF e(2,5) ck2(2) this, where val = "drop m val" and total_len = "total_len + m"]
    obtain node' key' ck' c' A' pk' pv' j where r:
      "insert_loop fuel env t prio chunked nn (rk_from key m) (drop m val) ck2 (total_len + m) c2
        = Inr (node', key', drop j (drop m val), ck', total_len + m + j, c')"
      "rinv c' A' pk' pv' L" "same_meta c2 c'" "same_content A2 pk2 pv2 A' pk' pv'" "node' \<in> A'"
      "walk_key c' key' ck'" "j \<le> rk_len (rk_from key m)" "pk' node' = pk2 nn @ take j (rk_units (rk_from key m))"
      "rk_units key' = drop j (rk_units (rk_from key m))"
      "rk_len key' = 0 \<or> map_of (children (nodes c' node')) ck' = None"
      by blast
    have "same_meta c c'" using same_meta_trans[OF same_meta_trans[OF same(4) e(3)] r(3)] .
    moreover have "same_content A pk pv A' pk' pv'" by (rule same_content_trans[OF e(4) r(4)])
    moreover have "pk' node' = pk node @ take (m + j) (rk_units key)" using r(8) e(6) by (simp add: take_add)
    moreover have "rk_units key' = drop (m + j) (rk_units key)" using r(9) by (simp add: add.commute)
    moreover have "m + j \<le> rk_len key" using r(7) wc(5) by simp
    moreover have "insert_loop (Suc fuel) env t prio chunked node key val ck total_len c
        = Inr (node', key', drop (m + j) val, ck', total_len + (m + j), c')"
      unfolding run r(1) by (simp add: ac_simps)
    ultimately show ?thesis using r(2,5,6,10) by blast
  qed
qed simp

section \<open>Contents after an insertion\<close>

lemma pv_prefix:
  assumes t: "tree_ok c A pk" and v: "val_ok c A pv" and "n \<in> A" "m \<in> A" "prefix (pk n) (pk m)"
  shows "prefix (pv n) (pv m)"
  using assms(3-5)
proof (induction "length (pk m) - length (pk n)" arbitrary: n rule: less_induct)
  case less
  show ?case
  proof (cases "n = m")
    case False
    then obtain k ch where ch: "(k, ch) \<in> kids c n" "prefix (pk ch) (pk m)"
      using trie_descend[OF t less.prems(1,2,3)] by blast
    note d = tree_okD(8-10)[OF t less.prems(1) ch(1)]
    have "length (pk n) < length (pk ch)" "length (pk ch) \<le> length (pk m)"
      using tree_child[OF t less.prems(1) ch(1)] prefix_length_le[OF ch(2)] by simp_all
    then have "prefix (pv ch) (pv m)" using less.hyps[of ch] d(1) ch(2) less.prems(2) by simp
    moreover obtain w where "pv ch = pv n @ w" using val_node[OF v d(1,2)] d(3) by fastforce
    ultimately show ?thesis by (metis append_prefixD)
  qed simp
qed

text \<open>The contents after \<open>U\<close> has been inserted with the slots \<open>vs\<close>.\<close>

definition inserted ::
  "nat set \<Rightarrow> (nat \<Rightarrow> unit_key list) \<Rightarrow> (nat \<Rightarrow> int list) \<Rightarrow> nat set \<Rightarrow> (nat \<Rightarrow> unit_key list) \<Rightarrow>
   (nat \<Rightarrow> int list) \<Rightarrow> unit_key list \<Rightarrow> int list \<Rightarrow> bool" where
  "inserted A pk pv A' pk' pv' U vs \<longleftrightarrow> A \<subseteq> A' \<and> (\<forall>a \<in> A. pk' a = pk a \<and> pv' a = pv a) \<and>
     (\<exists>n \<in> A'. pk' n = U \<and> pv' n = vs) \<and>
     (\<forall>a \<in> A'. (\<exists>b \<in> A. prefix (pk' a) (pk b) \<and> pv' a = take (length (pk' a)) (pv b)) \<or>
        prefix (pk' a) U \<and> pv' a = take (length (pk' a)) vs)"

lemma node_pages_pv:
  assumes "val_ok c A pv" "n \<in> A"
  shows "node_pages c n \<subseteq> hp_pages (r_page_size c) (pv n)"
proof (cases "n = root_node c")
  case True
  then show ?thesis using assms(1) by (simp add: val_ok_def node_pages_def hp_pages_def)
next
  case False
  then obtain v p where "tn_value (nodes c n) = Some v" "pv n = pv p @ v" using val_node[OF assms] by metis
  then show ?thesis by (simp add: node_pages_def hp_pages_append)
qed

lemma hp_pages_take: "hp_pages ps (take n xs) \<subseteq> hp_pages ps xs"
  by (auto simp: hp_pages_def dest: in_set_takeD)

lemma best_node_hit:
  assumes q: "best_node ps A pk U q" "ps dvd length q" "a \<in> A" "prefix q (pk a)"
    and cont: "same_content A pk pv A' pk' pv'"
    and b: "best_node ps A' pk' U (pk' n)" "n \<in> A'" "ps dvd length (pk' n)"
  shows "pk' n = q"
proof -
  have qU: "prefix q U" "prefix (pk' n) U" using q(1) b(1) by (auto simp: best_node_def)
  have "a \<in> A'" "prefix q (pk' a)" using cont q(3,4) by (auto simp: same_content_def)
  then have le: "length q \<le> length (pk' n)" using b(1) q(2) qU(1) by (auto simp: best_node_def)
  obtain a' where "a' \<in> A" "prefix (pk' n) (pk a')" using cont b(2) by (auto simp: same_content_def)
  then have "length (pk' n) \<le> length q" using q(1) qU(2) b(3) by (auto simp: best_node_def)
  then show ?thesis
    using le prefix_length_prefix[OF qU] prefix_length_prefix[OF qU(2,1)] prefix_order.antisym by simp
qed

section \<open>The insertion\<close>

lemma same_core_root_upd: "same_core x (x\<lparr>last_access_time := t, priority := p\<rparr>)"
  by (simp add: same_core_def same_shape_def)

text \<open>The end of the insertion, when something is left of the key.\<close>

definition attach_leaf ::
  "pyenv \<Rightarrow> int \<Rightarrow> bool \<Rightarrow> nat \<Rightarrow> radix_key \<Rightarrow> int list \<Rightarrow> pyval \<Rightarrow> 'a radix_cache_scheme \<Rightarrow> 'a radix_cache_scheme" where
  "attach_leaf env prio chunked node key val ck c =
     (let (nn, c) = new_tree_node env key prio c;
          c = upd nn (\<lambda>x. x\<lparr>parent := Some node, tn_value := Some val\<rparr>) c;
          c = inc_hit_count nn chunked c;
          c = upd node (\<lambda>x. x\<lparr>children := AList.update ck nn (children x)\<rparr>) c;
          c = c\<lparr>r_evictable_size := r_evictable_size c + int (rk_len key)\<rparr>
      in update_leaf_status nn (update_leaf_status node c))"

lemma attach_leaf_ok:
  fixes env :: pyenv and prio :: int and chunked :: bool
  assumes inv: "rinv c A pk pv L" and node: "node \<in> A" and key: "walk_key c key ck" "0 < rk_len key"
    and none: "map_of (children (nodes c node)) ck = None" and len: "length val = rk_len key"
    and fresh: "paged_value c val" "hp_pages (r_page_size c) val \<inter> al_avail (kv_allocator c) = {}"
      "\<And>n. n \<in> A \<Longrightarrow> hp_pages (r_page_size c) (pv n) \<inter> hp_pages (r_page_size c) val = {}"
  defines "c' \<equiv> attach_leaf env prio chunked node key val ck c" and "nn \<equiv> next_ref c"
  shows "rinv c' (Set.insert nn A) (pk(nn := pk node @ rk_units key)) (pv(nn := pv node @ val)) L"
    "same_config c c'" "kv_allocator c' = kv_allocator c" "nn \<notin> A"
    "r_evictable_size c' = r_evictable_size c + int (rk_len key)" "r_protected_size c' = r_protected_size c"
proof -
  note i = rinvD[OF inv]
  note d = tree_okD[OF i(1)]
  show nnA: "nn \<notin> A" using d(2) by (auto simp: nn_def)
  then have ne: "node \<noteq> nn" using node by auto
  define c1 where "c1 = (let (nn, c) = new_tree_node env key prio c;
          c = upd nn (\<lambda>x. x\<lparr>parent := Some node, tn_value := Some val\<rparr>) c;
          c = inc_hit_count nn chunked c;
          c = upd node (\<lambda>x. x\<lparr>children := AList.update ck nn (children x)\<rparr>) c
      in c\<lparr>r_evictable_size := r_evictable_size c + int (rk_len key)\<rparr>)"
  have c': "c' = update_leaf_status nn (update_leaf_status node c1)"
    by (simp add: c'_def attach_leaf_def c1_def nn_def new_tree_node_def Let_def)
  have new: "children (nodes c1 nn) = []" "parent (nodes c1 nn) = Some node" "tn_key (nodes c1 nn) = key"
    "tn_value (nodes c1 nn) = Some val" "lock_ref (nodes c1 nn) = 0"
    using ne by (simp_all add: c1_def new_tree_node_def inc_hit_count_def Let_def nn_def)
  have par: "children (nodes c1 node) = AList.update ck nn (children (nodes c node))"
    "parent (nodes c1 node) = parent (nodes c node)" "tn_key (nodes c1 node) = tn_key (nodes c node)"
    "tn_value (nodes c1 node) = tn_value (nodes c node)" "lock_ref (nodes c1 node) = lock_ref (nodes c node)"
    using ne by (simp_all add: c1_def new_tree_node_def inc_hit_count_def Let_def nn_def)
  have oth: "same_core (nodes c n) (nodes c1 n)" if "n \<in> A" "n \<noteq> node" for n
  proof -
    have "n \<noteq> nn" using that nnA by auto
    then show ?thesis using that by (simp add: c1_def new_tree_node_def inc_hit_count_def Let_def nn_def)
  qed
  have flds: "same_config c c1" "next_ref c1 = Suc nn" "kv_allocator c1 = kv_allocator c"
    "r_evictable_size c1 = r_evictable_size c + int (rk_len key)" "r_protected_size c1 = r_protected_size c"
    "evictable_leaves c1 = evictable_leaves c"
    by (simp_all add: c1_def new_tree_node_def inc_hit_count_def Let_def nn_def same_config_def)
  have K: "key_ok c (tn_key (nodes c1 nn))" "child_key (tn_key (nodes c1 nn)) (r_page_size c) = Inr ck"
    "ck \<notin> fst ` kids c node"
    using key none new by (auto simp: walk_key_def key_ok_def kids_def map_of_eq_None_iff)
  have dis: "node_pages c n \<inter> hp_pages (r_page_size c) val = {}" if "n \<in> A" for n
    using node_pages_pv[OF i(2) that] fresh(3)[OF that] by blast
  have nr: "nn < next_ref c1" "next_ref c \<le> next_ref c1" using flds(2) by (simp_all add: nn_def)
  have lv: "length val = rk_len (tn_key (nodes c1 nn))" "r_evictable_size c1 = r_evictable_size c + int (length val)"
    using len new(3) flds(4) by simp_all
  note core = rcore_attach[OF inv node nnA nr(1) flds(1) nr(2) K new(1,2,4,5) lv(1) par oth lv(2)
      flds(5,6,3) fresh(1,2) dis]
  show "rinv c' (Set.insert nn A) (pk(nn := pk node @ rk_units key)) (pv(nn := pv node @ val)) L"
    unfolding c' using rinv_attach[OF core] node new(3) by simp
  show "same_config c c'" "kv_allocator c' = kv_allocator c" "r_protected_size c' = r_protected_size c"
    "r_evictable_size c' = r_evictable_size c + int (rk_len key)"
    using flds by (simp_all add: c' same_config_def)
qed

lemma attach_leaf_events [simp]:
  "enable_kv_cache_events (attach_leaf env prio chunked node key val ck c) = enable_kv_cache_events c"
  by (simp add: attach_leaf_def new_tree_node_def inc_hit_count_def Let_def)

lemma insert_helper_eq:
  assumes "0 < rk_len key" "child_key key (r_page_size c) = Inr ck" "\<not> enable_kv_cache_events c"
    and loop: "insert_loop (Suc (rk_len key)) env t prio chunked node key val ck 0 c1
      = Inr (node', key', val', ck', total_len, c')"
    and t: "t = clk env (ticks c)" "prio = (case prio_opt of None \<Rightarrow> 0 | Some p \<Rightarrow> p)"
      "c1 = upd node (\<lambda>x. x\<lparr>last_access_time := t, priority := max (priority x) prio\<rparr>) (c\<lparr>ticks := ticks c + 1\<rparr>)"
    and ev: "enable_kv_cache_events c' = enable_kv_cache_events c"
  shows "insert_helper env node key val prio_opt chunked c =
    Inr (total_len, if 0 < rk_len key' then attach_leaf env prio chunked node' key' val' ck' c' else c')"
proof -
  let ?a = "attach_leaf env prio chunked node' key' val' ck' c'"
  have rec: "record_store_event env n GPU ?a = Inr ?a" for n
    using assms(3) ev by (simp add: record_store_event_def)
  show ?thesis
    using assms(1,2) rec[of "next_ref c'"] loop
    by (simp add: t insert_helper_def attach_leaf_def monotonic_def new_tree_node_def Let_def
        del: insert_loop.simps)
qed

lemma insert_helper_ok:
  assumes inv: "rinv c A pk pv L" and key: "r_page_size c dvd rk_len key" "is_bigram key = r_is_eagle c"
    and ev: "\<not> enable_kv_cache_events c" and len: "length val = rk_len key"
    and q: "best_node (r_page_size c) A pk (rk_units key) q" "r_page_size c dvd length q" "a \<in> A" "prefix q (pk a)"
    and fresh: "paged_value c (drop (length q) val)"
      "hp_pages (r_page_size c) (drop (length q) val) \<inter> al_avail (kv_allocator c) = {}"
      "\<And>n. n \<in> A \<Longrightarrow> hp_pages (r_page_size c) (pv n) \<inter> hp_pages (r_page_size c) (drop (length q) val) = {}"
  shows "\<exists>c' A' pk' pv'. insert_helper env (root_node c) key val prio_opt chunked c = Inr (length q, c') \<and>
    rinv c' A' pk' pv' L \<and> same_config c c' \<and> kv_allocator c' = kv_allocator c \<and>
    inserted A pk pv A' pk' pv' (rk_units key) (take (length q) (pv a) @ drop (length q) val) \<and>
    r_evictable_size c' = r_evictable_size c + int (rk_len key - length q) \<and>
    r_protected_size c' = r_protected_size c"
proof -
  note i = rinvD[OF inv]
  note d = tree_okD[OF i(1)]
  let ?U = "rk_units key" and ?root = "root_node c" and ?ps = "r_page_size c"
  define prio where "prio = (case prio_opt of None \<Rightarrow> 0 | Some p \<Rightarrow> p)"
  define t where "t = clk env (ticks c)"
  define c1 where "c1 = upd ?root (\<lambda>x. x\<lparr>last_access_time := t, priority := max (priority x) prio\<rparr>)
      (c\<lparr>ticks := ticks c + 1\<rparr>)"
  have inv0: "rinv (c\<lparr>ticks := ticks c + 1\<rparr>) A pk pv L"
    by (rule rinv_cong[OF inv]) (simp_all add: same_config_def same_counters_def)
  have inv1: "rinv c1 A pk pv L" unfolding c1_def by (rule rinv_upd[OF inv0]) (rule same_core_root_upd)
  have meta1: "same_meta c c1" by (simp add: c1_def same_meta_def same_config_def same_counters_def)
  have qU: "prefix q ?U" using q(1) by (simp add: best_node_def)
  show ?thesis
  proof (cases "rk_len key = 0")
    case True
    then have U: "?U = []" "q = []" using prefix_length_le[OF qU] by (simp_all flip: length_0_conv)
    have "insert_helper env ?root key val prio_opt chunked c = Inr (length q, c1)"
      using True U by (simp add: insert_helper_def monotonic_def Let_def c1_def t_def prio_def)
    moreover have "inserted A pk pv A pk pv ?U (take (length q) (pv a) @ drop (length q) val)"
      using same_content_refl[OF i(1,2)] U d(3,4) i(2) len True
      by (auto simp: inserted_def same_content_def val_ok_def intro!: bexI[of _ ?root])
    ultimately show ?thesis
      using inv1 meta1 True by (auto simp: same_meta_def same_counters_def intro!: exI[of _ c1])
  next
    case False
    then have pos: "0 < rk_len key" by simp
    have "?ps \<le> rk_len key" using key(1) pos by (rule dvd_imp_le)
    then obtain ck where ck: "child_key key ?ps = Inr ck" using child_key_eq[OF d(1)] by blast
    have wk: "walk_key c1 key ck" using key ck by (simp add: walk_key_def c1_def)
    obtain node' key' ck' c2 A2 pk2 pv2 j where r:
      "insert_loop (Suc (rk_len key)) env t prio chunked ?root key val ck 0 c1
        = Inr (node', key', drop j val, ck', 0 + j, c2)"
      "rinv c2 A2 pk2 pv2 L" "same_meta c1 c2" "same_content A pk pv A2 pk2 pv2" "node' \<in> A2"
      "walk_key c2 key' ck'" "j \<le> rk_len key" "pk2 node' = pk ?root @ take j ?U"
      "rk_units key' = drop j ?U" "rk_len key' = 0 \<or> map_of (children (nodes c2 node')) ck' = None"
      using insert_loop_ok[OF inv1 d(3) wk lessI, where env = env and t = t and prio = prio and
        chunked = chunked and val = val and total_len = 0] by blast
    note i2 = rinvD[OF r(2)]
    have meta2: "same_meta c c2" by (rule same_meta_trans[OF meta1 r(3)])
    then have f2: "r_page_size c2 = ?ps" "kv_allocator c2 = kv_allocator c" "same_config c c2"
      "r_evictable_size c2 = r_evictable_size c" "r_protected_size c2 = r_protected_size c"
      "enable_kv_cache_events c2 = enable_kv_cache_events c"
      by (simp_all add: same_meta_def same_config_def same_counters_def)
    have path: "pk2 node' = take j ?U" using r(8) d(4) by simp
    have lenk: "rk_len key' = rk_len key - j" using r(9) by (metis length_drop length_rk_units)
    have U: "pk2 node' @ rk_units key' = ?U" using path r(9) by simp
    have best: "best_node ?ps A2 pk2 ?U (pk2 node')"
      using walk_stop[OF i2(1) r(5,6,10)] unfolding U f2 .
    have "pk2 node' = q"
      by (rule best_node_hit[OF q r(4) best r(5)]) (use pk_aligned[OF i2(1) r(5)] f2 in simp)
    then have j: "j = length q" "q = take j ?U" using path r(7) by auto
    have pva: "take j (pv a) = pv2 node'"
    proof -
      have "a \<in> A2" "pk2 a = pk a" "pv2 a = pv a" using r(4) q(3) by (auto simp: same_content_def)
      moreover have "prefix (pk2 node') (pk2 a)" using q(4) \<open>pk2 node' = q\<close> \<open>pk2 a = pk a\<close> by simp
      ultimately have "prefix (pv2 node') (pv a)" using pv_prefix[OF i2(1,2) r(5), of a] by simp
      moreover have "length (pv2 node') = j" using length_pv[OF i2(1,2) r(5)] path r(7) by simp
      ultimately show ?thesis by (auto simp: prefix_def)
    qed
    have res: "insert_helper env ?root key val prio_opt chunked c =
        Inr (0 + j, if 0 < rk_len key' then attach_leaf env prio chunked node' key' (drop j val) ck' c2 else c2)"
      by (rule insert_helper_eq[OF pos ck ev r(1) t_def prio_def c1_def f2(6)])
    have cov: "(\<exists>b \<in> A. prefix (pk2 n) (pk b) \<and> pv2 n = take (length (pk2 n)) (pv b))" if "n \<in> A2" for n
      using r(4) that by (auto simp: same_content_def)
    have old: "A \<subseteq> A2" "\<forall>a \<in> A. pk2 a = pk a \<and> pv2 a = pv a" using r(4) by (auto simp: same_content_def)
    show ?thesis
    proof (cases "0 < rk_len key'")
      case False
      then have "j = rk_len key" using lenk r(7) by simp
      then have "inserted A pk pv A2 pk2 pv2 ?U (take (length q) (pv a) @ drop (length q) val)"
        unfolding inserted_def using cov old r(5) path pva j(1) len by (auto intro!: bexI[of _ node'])
      then show ?thesis
        using res False r(2) f2 j(1) \<open>j = rk_len key\<close> by auto
    next
      case more: True
      define c3 where "c3 = attach_leaf env prio chunked node' key' (drop j val) ck' c2"
      let ?nn = "next_ref c2"
      have dis: "hp_pages ?ps (pv2 n) \<inter> hp_pages ?ps (drop j val) = {}" if n: "n \<in> A2" for n
      proof -
        obtain b where b: "b \<in> A" "pv2 n = take (length (pk2 n)) (pv b)" using cov[OF n] by blast
        have "hp_pages ?ps (pv2 n) \<subseteq> hp_pages ?ps (pv b)" unfolding b(2) by (rule hp_pages_take)
        then show ?thesis using fresh(3)[OF b(1)] j(1) by blast
      qed
      have none: "map_of (children (nodes c2 node')) ck' = None" using more r(10) by simp
      have lv: "length (drop j val) = rk_len key'" using len lenk by simp
      have fr: "paged_value c2 (drop j val)" "hp_pages (r_page_size c2) (drop j val) \<inter> al_avail (kv_allocator c2) = {}"
        "\<And>n. n \<in> A2 \<Longrightarrow> hp_pages (r_page_size c2) (pv2 n) \<inter> hp_pages (r_page_size c2) (drop j val) = {}"
        using fresh(1,2) f2 j(1) dis by (simp_all add: paged_value_def)
      note at = attach_leaf_ok(1-3,5,6)[OF r(2,5,6) more none lv fr, where env = env and prio = prio and
          chunked = chunked, folded c3_def]
      note atn = attach_leaf_ok(4)[OF r(2,5,6) more none lv fr]
      have "inserted A pk pv (Set.insert ?nn A2) (pk2(?nn := pk2 node' @ rk_units key')) (pv2(?nn := pv2 node' @ drop j val))
          ?U (take (length q) (pv a) @ drop (length q) val)"
      proof -
        have nA: "?nn \<notin> A" using atn old by auto
        have vs: "pv2 node' @ drop j val = take (length q) (pv a) @ drop (length q) val" using pva j(1) by simp
        define vs where "vs = pv2 node' @ drop j val"
        have lvs: "take (length ?U) vs = vs"
          using length_pv[OF i2(1,2) r(5)] path r(7) len by (simp add: vs_def)
        show ?thesis
          unfolding inserted_def U vs[symmetric] vs_def[symmetric] using old cov nA lvs by auto
      qed
      moreover have "same_config c c3" using f2(3) at(2) by (simp add: same_config_def)
      ultimately show ?thesis
        using res more at f2 j(1) lenk unfolding c3_def[symmetric] by auto
    qed
  qed
qed

end
