(* ===== verification/RadixEvict.thy ===== *)
theory RadixEvict
  imports RadixInsert
begin

text \<open>
  Eviction from the radix cache. The heap of the loop holds the evictable leaves, so every
  round frees the pages of one unlocked leaf, removes it and offers its parent when that has
  become a leaf. The loop ends with enough tokens freed or with nothing left to evict.
\<close>

section \<open>Freeing device memory\<close>

lemma paged_list_card:
  assumes "0 < ps" "paged_list (int ps) v"
  shows "distinct v" "card (hp_pages ps v) * ps = length v"
proof -
  from assms(2) obtain pages where pg: "v = concat (map (page_slots (int ps)) pages)" "distinct pages"
    by (auto simp: paged_list_def)
  show "distinct v" unfolding pg(1) by (rule distinct_slots) (use assms pg in simp_all)
  show "card (hp_pages ps v) * ps = length v"
    unfolding pg(1) hp_pages_concat[OF assms(1)] using pg(2) by (simp only: length_slots nat_int distinct_card)
qed

lemma kv_free_ok:
  assumes a: "kv_inv a" and v: "paged_list (int (al_page_size a)) v" "al_freeable (al_geom a) v"
    and new: "hp_pages (al_page_size a) v \<inter> al_avail a = {}"
  shows "\<exists>a'. kv_free a v = Inr a' \<and> kv_inv a' \<and> al_geom a' = al_geom a \<and>
    al_avail a' = al_avail a \<union> hp_pages (al_page_size a) v"
proof -
  have pages: "al_page_of (al_geom a) ` set v = hp_pages (al_page_size a) v"
    by (simp add: al_page_of_def al_geom_def hp_pages_def)
  have pos: "0 < al_page_size a" using a by (simp add: kv_inv_def alloc_inv_def)
  show ?thesis
  proof (cases "al_page_size a = 1")
    case True
    have "tk_inv a" "tk_freeable (al_geom a) v"
      using a True v paged_list_card(1)[OF pos v(1)] by (simp_all add: kv_inv_def tk_inv_def tk_freeable_def)
    from tk_free_law[OF this] new pages True show ?thesis
      by (auto simp: kv_free_def kv_inv_def tk_inv_def)
  next
    case False
    have "pg_inv a" using a by (simp add: kv_inv_def pg_inv_def)
    from pg_free_law[OF this v(2)] new pages False show ?thesis
      by (auto simp: kv_free_def kv_inv_def pg_inv_def)
  qed
qed

section \<open>Detaching a leaf\<close>

lemma rcore_detach:
  assumes inv: "rinv c A pk pv L" and x: "x \<in> A" "x \<noteq> root_node c" "children (nodes c x) = []" "lock_ref (nodes c x) = 0"
    and par: "parent (nodes c x) = Some p"
    and k: "child_key (tn_key (nodes c x)) (r_page_size c) = Inr k"
    and v: "tn_value (nodes c x) = Some v"
    and cfg: "same_config c c'" and nr: "next_ref c' = next_ref c"
    and nodes: "nodes c' = (nodes c)(p := (nodes c p)\<lparr>children := AList.delete k (children (nodes c p))\<rparr>)"
    and cnt: "r_evictable_size c' = r_evictable_size c - int (rk_len (tn_key (nodes c x)))"
      "r_protected_size c' = r_protected_size c" "evictable_leaves c' = removeAll x (evictable_leaves c)"
    and al: "kv_inv (kv_allocator c')" "al_geom (kv_allocator c') = al_geom (kv_allocator c)"
      "al_avail (kv_allocator c') = al_avail (kv_allocator c) \<union> hp_pages (r_page_size c) v"
  shows "rcore c' (A - {x}) pk pv {p}" "lock_ok c' (A - {x}) pk L"
proof -
  note i = rinvD[OF inv]
  note d = tree_okD[OF i(1)]
  have r: "root_node c' = root_node c" "r_page_size c' = r_page_size c" using cfg by (simp_all add: same_config_def)
  have f: "parent (nodes c' n) = parent (nodes c n)" "tn_key (nodes c' n) = tn_key (nodes c n)"
    "tn_value (nodes c' n) = tn_value (nodes c n)" "lock_ref (nodes c' n) = lock_ref (nodes c n)" for n
    using nodes by simp_all
  obtain p' where p': "p' \<in> A" "parent (nodes c x) = Some p'" "length (pk p') < length (pk x)"
    using tree_parent[OF i(1) x(1,2)] by metis
  have p: "p \<in> A" "p \<noteq> x" using p' par by auto
  have rA: "root_node c \<in> A - {x}" using d(3) x by auto
  have "tree_ok c' (A - {x}) pk"
    by (rule tree_ok_detach[OF i(1) x(1-3) par k cfg]) (use nr nodes in \<open>simp_all add: same_shape_def\<close>)
  moreover have "val_ok c' (A - {x}) pv" using i(2) f r by (simp add: val_ok_def)
  moreover have "size_ok c' (A - {x})"
  proof -
    have "(\<Sum>n \<in> A - {x} - {root_node c}. weight P (nodes c' n))
        = (\<Sum>n \<in> A - {root_node c}. weight P (nodes c n)) - weight P (nodes c x)" for P
    proof -
      have "(\<Sum>n \<in> A - {x} - {root_node c}. weight P (nodes c' n)) = (\<Sum>n \<in> A - {root_node c} - {x}. weight P (nodes c n))"
        by (rule sum.cong) (use f in \<open>auto simp: weight_def\<close>)
      also have "\<dots> = (\<Sum>n \<in> A - {root_node c}. weight P (nodes c n)) - weight P (nodes c x)"
        using sum.remove[of "A - {root_node c}" x "\<lambda>n. weight P (nodes c n)"] d(6) x by simp
      finally show ?thesis .
    qed
    moreover have "weight P (nodes c x) = (if P 0 then int (rk_len (tn_key (nodes c x))) else 0)" for P
      using v x(4) by (simp add: weight_def)
    ultimately show ?thesis using i(4) cnt unfolding size_ok_def r by simp
  qed
  moreover have "leaf_ok_except c' (A - {x}) {p}"
  proof -
    have "is_leaf c' n = is_leaf c n" if "n \<noteq> p" for n
      by (rule is_leaf_cong) (use that nodes in \<open>simp_all add: kids_def evicted_def\<close>)
    then show ?thesis using i(5) cnt by (auto simp: leaf_ok_except_def distinct_removeAll)
  qed
  moreover have "own_ok c' (A - {x})"
  proof -
    note o = i(6)[unfolded own_ok_def]
    have same: "node_pages c' n = node_pages c n" for n
      using f r by (simp add: node_pages_def split: option.splits)
    have x_pages: "hp_pages (r_page_size c) v = node_pages c x" using v by (simp add: node_pages_def)
    have pvc: "paged_value c' u = paged_value c u" for u using al r by (simp add: paged_value_def)
    show ?thesis
      unfolding own_ok_def al(3) r same pvc f x_pages
    proof (intro conjI ballI allI impI)
      show "al_page_size (kv_allocator c') = r_page_size c" using o al(2) by (simp add: al_geom_def)
      show "node_pages c n \<inter> (al_avail (kv_allocator c) \<union> node_pages c x) = {}" if "n \<in> A - {x}" for n
        using that x(1) o by (simp add: Int_Un_distrib)
      show "node_pages c n \<inter> node_pages c m = {}" if "n \<in> A - {x}" "m \<in> A - {x}" "n \<noteq> m" for n m
        using that o by simp
    qed (use al o in auto)
  qed
  ultimately show "rcore c' (A - {x}) pk pv {p}" by (simp add: rcore_def)
  have "x \<notin># L"
  proof
    assume "x \<in># L"
    then have "x \<in># filter_mset (\<lambda>m. prefix (pk x) (pk m)) L" by simp
    then have "0 < lock_cnt pk L x" unfolding lock_cnt_def by (metis gr0I size_eq_0_iff_empty empty_iff set_mset_empty)
    then show False using i(3) x by (simp add: lock_ok_def)
  qed
  then show "lock_ok c' (A - {x}) pk L" using i(3) f r rA by (auto simp: lock_ok_def)
qed

lemma leaf_facts:
  assumes inv: "rinv c A pk pv L" and x: "x \<in> set (evictable_leaves c)"
  shows "x \<in> A" "x \<noteq> root_node c" "children (nodes c x) = []" "lock_ref (nodes c x) = 0"
proof -
  note i = rinvD[OF inv]
  show xA: "x \<in> A" using i(5) x by (auto simp: leaf_ok_except_def)
  have "is_leaf c x" using i(5) x xA by (auto simp: leaf_ok_except_def)
  then have l: "lock_ref (nodes c x) \<le> 0" "children (nodes c x) = []" using is_leaf_iff[OF i(1,2) xA] by auto
  show root: "x \<noteq> root_node c" using l i(3) by (auto simp: lock_ok_def)
  show "children (nodes c x) = []" using l by simp
  show "lock_ref (nodes c x) = 0" using l root xA i(3) by (simp add: lock_ok_def)
qed

definition shed ::
  "'a radix_cache_scheme \<Rightarrow> nat set \<Rightarrow> 'a radix_cache_scheme \<Rightarrow> nat set \<Rightarrow> nat \<Rightarrow> bool" where
  "shed c A c' A' k \<longleftrightarrow> A' \<subseteq> A \<and> same_config c c' \<and> next_ref c' = next_ref c \<and>
     int k = r_evictable_size c - r_evictable_size c' \<and> r_protected_size c' = r_protected_size c \<and>
     al_geom (kv_allocator c') = al_geom (kv_allocator c) \<and>
     al_avail (kv_allocator c') = al_avail (kv_allocator c) \<union> (\<Union>n \<in> A - A'. node_pages c n) \<and>
     card (al_avail (kv_allocator c')) * r_page_size c = card (al_avail (kv_allocator c)) * r_page_size c + k \<and>
     (\<forall>n. lock_ref (nodes c' n) = lock_ref (nodes c n) \<and> tn_value (nodes c' n) = tn_value (nodes c n) \<and>
        last_access_time (nodes c' n) = last_access_time (nodes c n) \<and>
        get_priority (r_policy c) (nodes c' n) = get_priority (r_policy c) (nodes c n)) \<and>
     (\<forall>n \<in> A - A'. lock_ref (nodes c n) = 0)"

lemma evict_one:
  assumes inv: "rinv c A pk pv L" and x: "x \<in> set (evictable_leaves c)"
  shows "\<exists>v c1 c' p. tn_value (nodes c x) = Some v \<and> cache_free v c = Inr c1 \<and> delete_leaf x c1 = Inr c' \<and>
    parent (nodes c' x) = Some p \<and> rinv c' (A - {x}) pk pv L \<and> shed c A c' (A - {x}) (length v) \<and>
    p \<in> A \<and> enable_kv_cache_events c' = enable_kv_cache_events c \<and>
    set (evictable_leaves c') = set (evictable_leaves c) - {x} \<union>
      (if children (nodes c' p) = [] \<and> lock_ref (nodes c' p) = 0 then {p} else {}) \<and>
    p \<notin> set (evictable_leaves c)"
proof -
  note i = rinvD[OF inv]
  note d = tree_okD[OF i(1)]
  note lf = leaf_facts[OF inv x]
  obtain v where v: "tn_value (nodes c x) = Some v" "length v = rk_len (tn_key (nodes c x))"
    using val_node[OF i(2) lf(1,2)] by metis
  obtain p where p: "p \<in> A" "parent (nodes c x) = Some p" "x \<in> snd ` kids c p" "length (pk p) < length (pk x)"
    using tree_parent[OF i(1) lf(1,2)] by metis
  obtain k where k: "(k, x) \<in> kids c p" using p(3) by auto
  have ck: "child_key (tn_key (nodes c x)) (r_page_size c) = Inr k" by (rule d(11)[OF p(1) k])
  have mk: "map_of (children (nodes c p)) k = Some x"
    using k d(7)[OF p(1)] by (simp add: kids_def map_of_eq_Some_iff)
  note o = i(6)[unfolded own_ok_def]
  have pv: "paged_value c v" and ps: "al_page_size (kv_allocator c) = r_page_size c" and kv: "kv_inv (kv_allocator c)"
    using o lf v(1) by auto
  have dis: "hp_pages (r_page_size c) v \<inter> al_avail (kv_allocator c) = {}"
  proof -
    have "node_pages c x \<inter> al_avail (kv_allocator c) = {}" using o lf(1) by blast
    then show ?thesis using v(1) by (simp add: node_pages_def)
  qed
  obtain a' where a': "kv_free (kv_allocator c) v = Inr a'" "kv_inv a'" "al_geom a' = al_geom (kv_allocator c)"
    "al_avail a' = al_avail (kv_allocator c) \<union> hp_pages (r_page_size c) v"
    using kv_free_ok[OF kv, of v] pv dis ps by (auto simp: paged_value_def)
  define c1 where "c1 = c\<lparr>kv_allocator := a'\<rparr>"
  define c2 where "c2 = drop_leaf x ((upd p (\<lambda>y. y\<lparr>children := AList.delete k (children y)\<rparr>) c1)
      \<lparr>r_evictable_size := r_evictable_size c - int (rk_len (tn_key (nodes c x)))\<rparr>)"
  define c' where "c' = update_leaf_status p c2"
  have run: "cache_free v c = Inr c1" "delete_leaf x c1 = Inr c'"
    using a'(1) ck p(2) mk by (simp_all add: cache_free_def c1_def delete_leaf_def c'_def c2_def Let_def)
  have c2: "nodes c2 = (nodes c)(p := (nodes c p)\<lparr>children := AList.delete k (children (nodes c p))\<rparr>)"
    "same_config c c2" "next_ref c2 = next_ref c" "r_protected_size c2 = r_protected_size c"
    "r_evictable_size c2 = r_evictable_size c - int (rk_len (tn_key (nodes c x)))"
    "evictable_leaves c2 = removeAll x (evictable_leaves c)" "kv_allocator c2 = a'"
    by (simp_all add: c2_def c1_def drop_leaf_def same_config_def)
  have core: "rcore c2 (A - {x}) pk pv {p}" "lock_ok c2 (A - {x}) pk L"
    using rcore_detach[OF inv lf p(2) ck v(1) c2(2,3,1,5,4,6)] a' c2(7) by simp_all
  have px: "p \<in> A - {x}" using p by auto
  have inv': "rinv c' (A - {x}) pk pv L"
  proof -
    have "rcore c' (A - {x}) pk pv ({p} - {p})" unfolding c'_def by (rule update_leaf_status_core[OF core(1) px])
    moreover have "lock_ok c' (A - {x}) pk L"
      unfolding c'_def by (rule same_store_ok(4)[OF _ _ _ _ core(2)]) (simp_all add: same_config_def)
    ultimately show ?thesis by (simp add: rinv_rcore)
  qed
  have nodes': "nodes c' = nodes c2" by (simp add: c'_def)
  have par': "parent (nodes c' x) = Some p" using nodes' c2(1) p(2,4) by auto
  have pl: "p \<notin> set (evictable_leaves c)" using leaf_facts(3)[OF inv, of p] p(3) by (auto simp: kids_def)
  have leaf: "is_leaf c2 p \<longleftrightarrow> children (nodes c' p) = [] \<and> lock_ref (nodes c' p) = 0"
  proof -
    have "is_leaf c2 p \<longleftrightarrow> lock_ref (nodes c2 p) \<le> 0 \<and> children (nodes c2 p) = []"
      by (rule is_leaf_iff[OF rcoreD(1,2)[OF core(1)] px])
    moreover have "0 \<le> lock_ref (nodes c2 p)"
      using core(2) px by (cases "p = root_node c2") (auto simp: lock_ok_def)
    ultimately show ?thesis using nodes' by auto
  qed
  have lv: "set (evictable_leaves c') = set (evictable_leaves c) - {x} \<union>
      (if children (nodes c' p) = [] \<and> lock_ref (nodes c' p) = 0 then {p} else {})"
  proof -
    have "evictable_leaves c' = (if is_leaf c2 p then (if p \<in> set (evictable_leaves c2) then evictable_leaves c2
        else evictable_leaves c2 @ [p]) else removeAll p (evictable_leaves c2))"
      by (simp add: c'_def update_leaf_status_alt)
    then show ?thesis using pl unfolding c2(6) leaf by auto
  qed
  have "shed c A c' (A - {x}) (length v)"
  proof -
    have av: "al_avail (kv_allocator c') = al_avail (kv_allocator c) \<union> hp_pages (r_page_size c) v"
      "al_geom (kv_allocator c') = al_geom (kv_allocator c)"
      using a' c2(7) by (simp_all add: c'_def)
    have "A - (A - {x}) = {x}" using lf(1) by auto
    moreover have "node_pages c x = hp_pages (r_page_size c) v" using v by (simp add: node_pages_def)
    moreover have "card (al_avail (kv_allocator c')) = card (al_avail (kv_allocator c)) + card (hp_pages (r_page_size c) v)"
      unfolding av using dis by (subst card_Un_disjoint) (auto simp: al_avail_def hp_pages_def)
    moreover have "card (hp_pages (r_page_size c) v) * r_page_size c = length v"
      using paged_list_card(2)[OF d(1)] pv by (simp add: paged_value_def)
    moreover have "get_priority (r_policy c) (nodes c' n) = get_priority (r_policy c) (nodes c n)" for n
      unfolding nodes' c2(1) by (cases "r_policy c") simp_all
    ultimately show ?thesis
      using av c2 lf(4) v(2) nodes' by (simp add: shed_def c'_def same_config_def add_mult_distrib)
  qed
  then show ?thesis
    using v(1) run par' inv' p(1) lv pl c2(2) by (auto simp: c'_def same_config_def)
qed

section \<open>The loop\<close>

lemma shed_refl: "shed c A c A 0"
  by (simp add: shed_def same_config_def)

lemma shed_trans:
  assumes 1: "shed c A c1 B k" and 2: "shed c1 B c2 C l"
  shows "shed c A c2 C (k + l)"
proof -
  have pages: "node_pages c1 n = node_pages c n" for n
    using 1 by (simp add: shed_def node_pages_def same_config_def split: option.splits)
  have sub: "C \<subseteq> B" "B \<subseteq> A" using 1 2 by (auto simp: shed_def)
  have "(\<Union>n \<in> A - C. node_pages c n) = (\<Union>n \<in> A - B. node_pages c n) \<union> (\<Union>n \<in> B - C. node_pages c n)"
    using sub by blast
  then have "al_avail (kv_allocator c2) = al_avail (kv_allocator c) \<union> (\<Union>n \<in> A - C. node_pages c n)"
    using 1 2 pages by (simp add: shed_def Un_assoc)
  moreover have "lock_ref (nodes c n) = 0" if "n \<in> A - C" for n
    using that 1 2 by (cases "n \<in> B") (auto simp: shed_def)
  moreover have "C \<subseteq> A" using sub by blast
  moreover have "card (al_avail (kv_allocator c2)) * r_page_size c = card (al_avail (kv_allocator c)) * r_page_size c + (k + l)"
  proof -
    have "card (al_avail (kv_allocator c1)) * r_page_size c = card (al_avail (kv_allocator c)) * r_page_size c + k"
      "card (al_avail (kv_allocator c2)) * r_page_size c1 = card (al_avail (kv_allocator c1)) * r_page_size c1 + l"
      "r_page_size c1 = r_page_size c"
      using 1 2 unfolding shed_def same_config_def by blast+
    then show ?thesis by simp
  qed
  ultimately show ?thesis
    using 1 2 unfolding shed_def same_config_def by simp
qed

definition leaf_heap :: "'a radix_cache_scheme \<Rightarrow> heap_entry list \<Rightarrow> bool" where
  "leaf_heap c h \<longleftrightarrow> heap_from (entry_key c) h 0 \<and> mset (map snd h) = mset (evictable_leaves c) \<and>
     (\<forall>e \<in> set h. fst e = get_priority (r_policy c) (nodes c (snd e)))"

lemma entry_key_shed: "shed c A c' A' k \<Longrightarrow> entry_key c' = entry_key c"
  by (simp add: entry_key_def shed_def fun_eq_iff)

lemma leaf_heap_pop:
  assumes "leaf_heap c h" "h \<noteq> []"
  shows "\<exists>e h'. heappop (entry_key c) h = Inr (e, h') \<and> snd e \<in> set (evictable_leaves c) \<and>
    add_mset (snd e) (mset (map snd h')) = mset (evictable_leaves c) \<and> heap_from (entry_key c) h' 0 \<and>
    (\<forall>e' \<in> set h'. fst e' = get_priority (r_policy c) (nodes c (snd e'))) \<and>
    fst e = get_priority (r_policy c) (nodes c (snd e)) \<and>
    (\<forall>n \<in> set (evictable_leaves c). entry_key c e \<le> entry_key c (get_priority (r_policy c) (nodes c n), n))"
proof -
  from heappop_ok[of "entry_key c" h] assms obtain e h' where
    e: "heappop (entry_key c) h = Inr (e, h')" "mset h = add_mset e (mset h')" "heap_from (entry_key c) h' 0"
      "\<forall>y \<in> set h. entry_key c e \<le> entry_key c y" by (auto simp: leaf_heap_def)
  have ms: "add_mset (snd e) (mset (map snd h')) = mset (evictable_leaves c)"
    using assms(1) e(2) by (simp add: leaf_heap_def)
  have "snd e \<in># mset (evictable_leaves c)" unfolding ms[symmetric] by simp
  moreover have sub: "set h' \<subseteq> set h" "e \<in> set h"
    using e(2) by (metis add_mset_add_single mset_subset_eq_add_left set_mset_mono set_mset_mset)
      (metis e(2) set_mset_mset union_single_eq_member)
  moreover have "entry_key c e \<le> entry_key c (get_priority (r_policy c) (nodes c n), n)"
    if "n \<in> set (evictable_leaves c)" for n
  proof -
    have "n \<in># mset (map snd h)" using that assms(1) unfolding leaf_heap_def by (metis set_mset_mset)
    then obtain y where "y \<in> set h" "snd y = n" by auto
    moreover have "fst y = get_priority (r_policy c) (nodes c n)" using assms(1) calculation by (auto simp: leaf_heap_def)
    ultimately show ?thesis using e(4) by (metis prod.collapse)
  qed
  ultimately show ?thesis using e(1,3) ms assms(1) by (auto simp: leaf_heap_def)
qed

text \<open>One round of the loop.\<close>

lemma evict_round:
  assumes inv: "rinv c A pk pv L" and heap: "leaf_heap c h" and ne: "h \<noteq> []" "int k < num"
    and ev: "\<not> enable_kv_cache_events c"
  shows "\<exists>x v c' h'. evict_loop (Suc fuel) env num h k c = evict_loop fuel env num h' (k + length v) c' \<and>
    rinv c' (A - {x}) pk pv L \<and> shed c A c' (A - {x}) (length v) \<and> leaf_heap c' h' \<and>
    x \<in> set (evictable_leaves c) \<and> x \<in> A \<and> tn_value (nodes c x) = Some v \<and> \<not> enable_kv_cache_events c' \<and>
    (\<forall>n \<in> set (evictable_leaves c). entry_key c (get_priority (r_policy c) (nodes c x), x)
        \<le> entry_key c (get_priority (r_policy c) (nodes c n), n))"
proof -
  obtain pr x h1 where pop: "heappop (entry_key c) h = Inr ((pr, x), h1)" "x \<in> set (evictable_leaves c)"
    "add_mset x (mset (map snd h1)) = mset (evictable_leaves c)" "heap_from (entry_key c) h1 0"
    "\<forall>e \<in> set h1. fst e = get_priority (r_policy c) (nodes c (snd e))"
    "pr = get_priority (r_policy c) (nodes c x)"
    "\<forall>n \<in> set (evictable_leaves c). entry_key c (pr, x) \<le> entry_key c (get_priority (r_policy c) (nodes c n), n)"
    using leaf_heap_pop[OF heap ne(1)] by (metis prod.collapse fst_conv snd_conv)
  obtain v c1 c' p where one: "tn_value (nodes c x) = Some v" "cache_free v c = Inr c1" "delete_leaf x c1 = Inr c'"
    "parent (nodes c' x) = Some p" "rinv c' (A - {x}) pk pv L" "shed c A c' (A - {x}) (length v)" "p \<in> A"
    "enable_kv_cache_events c' = enable_kv_cache_events c"
    "set (evictable_leaves c') = set (evictable_leaves c) - {x} \<union>
      (if children (nodes c' p) = [] \<and> lock_ref (nodes c' p) = 0 then {p} else {})"
    "p \<notin> set (evictable_leaves c)"
    using evict_one[OF inv pop(2)] by blast
  let ?b = "children (nodes c' p) = [] \<and> lock_ref (nodes c' p) = 0"
  define h' where "h' = (if ?b then heappush (entry_key c') h1 (get_priority (r_policy c') (nodes c' p), p) else h1)"
  have pol: "r_policy c' = r_policy c" "\<And>n. get_priority (r_policy c) (nodes c' n) = get_priority (r_policy c) (nodes c n)"
    using one(6) by (simp_all add: shed_def same_config_def)
  have run: "evict_loop (Suc fuel) env num h k c = evict_loop fuel env num h' (k + length v) c'"
    using ne pop(1) one(1-4,8) ev by (simp add: the_value_def record_remove_event_def h'_def Let_def)
  have h1: "distinct (map snd h1)" "set (map snd h1) = set (evictable_leaves c) - {x}"
  proof -
    have dl: "distinct (evictable_leaves c)" using rinvD(5)[OF inv] by (simp add: leaf_ok_except_def)
    have ms: "mset (x # map snd h1) = mset (evictable_leaves c)" using pop(3) by simp
    have "distinct (x # map snd h1)" using mset_eq_imp_distinct_iff[OF ms] dl by simp
    moreover have "set (x # map snd h1) = set (evictable_leaves c)" by (rule mset_eq_setD[OF ms])
    ultimately show "distinct (map snd h1)" "set (map snd h1) = set (evictable_leaves c) - {x}" by auto
  qed
  have hp: "heap_from (entry_key c') h1 0" using pop(4) entry_key_shed[OF one(6)] by simp
  have mh: "mset h' = mset h1 + (if ?b then {#(get_priority (r_policy c') (nodes c' p), p)#} else {#})"
    by (simp add: h'_def heappush_mset)
  have "leaf_heap c' h'"
    unfolding leaf_heap_def
  proof (intro conjI)
    show "heap_from (entry_key c') h' 0" using hp by (simp add: h'_def heappush_heap)
    have "mset (map snd h') = mset (map snd h1) + (if ?b then {#p#} else {#})" using mh by simp
    also have "\<dots> = mset (map snd h1 @ (if ?b then [p] else []))" by simp
    also have "\<dots> = mset (evictable_leaves c')"
    proof (rule set_eq_iff_mset_eq_distinct[THEN iffD1])
      show "distinct (map snd h1 @ (if ?b then [p] else []))" using h1 one(10) by auto
      show "distinct (evictable_leaves c')" using rinvD(5)[OF one(5)] by (simp add: leaf_ok_except_def)
      show "set (map snd h1 @ (if ?b then [p] else [])) = set (evictable_leaves c')" using h1(2) one(9) by auto
    qed
    finally show "mset (map snd h') = mset (evictable_leaves c')" .
    show "\<forall>e \<in> set h'. fst e = get_priority (r_policy c') (nodes c' (snd e))"
    proof
      fix e assume "e \<in> set h'"
      then have "e \<in># mset h1 + (if ?b then {#(get_priority (r_policy c') (nodes c' p), p)#} else {#})"
        unfolding mh[symmetric] by simp
      then show "fst e = get_priority (r_policy c') (nodes c' (snd e))"
        using pop(5) pol by (auto split: if_splits)
    qed
  qed
  then show ?thesis
    using run one(1,5,6,8) pop(2,6,7) leaf_facts(1)[OF inv pop(2)] ev by blast
qed

lemma evict_loop_ok:
  assumes "rinv c A pk pv L" "leaf_heap c h" "\<not> enable_kv_cache_events c" "card A < fuel"
  shows "\<exists>j c' A'. evict_loop fuel env num h k c = Inr (k + j, c') \<and> rinv c' A' pk pv L \<and>
    shed c A c' A' j \<and> (num \<le> int (k + j) \<or> evictable_leaves c' = [])"
  using assms
proof (induction fuel arbitrary: c A h k)
  case (Suc fuel)
  show ?case
  proof (cases "int k < num \<and> h \<noteq> []")
    case False
    then have "num \<le> int (k + 0) \<or> evictable_leaves c = []" using Suc.prems(2) by (auto simp: leaf_heap_def)
    moreover have "evict_loop (Suc fuel) env num h k c = Inr (k + 0, c)" using False by auto
    ultimately show ?thesis using Suc.prems(1) shed_refl[of c A] by blast
  next
    case True
    obtain x and v :: "int list" and c1 h1 where r: "evict_loop (Suc fuel) env num h k c = evict_loop fuel env num h1 (k + length v) c1"
      "rinv c1 (A - {x}) pk pv L" "shed c A c1 (A - {x}) (length v)" "leaf_heap c1 h1" "x \<in> A"
      "\<not> enable_kv_cache_events c1"
      using evict_round[OF Suc.prems(1,2) _ _ Suc.prems(3), where k = k and num = num and fuel = fuel and env = env]
        True by blast
    have "card (A - {x}) < card A"
      by (rule card_Diff1_less) (use r(5) tree_okD(6)[OF rinvD(1)[OF Suc.prems(1)]] in simp_all)
    then have "card (A - {x}) < fuel" using Suc.prems(4) by simp
    from Suc.IH[OF r(2,4,6) this, where k = "k + length v"] obtain j c' A' where
      "evict_loop fuel env num h1 (k + length v) c1 = Inr (k + length v + j, c')" "rinv c' A' pk pv L"
      "shed c1 (A - {x}) c' A' j" "num \<le> int (k + length v + j) \<or> evictable_leaves c' = []" by blast
    moreover have "shed c A c' A' (length v + j)" by (rule shed_trans[OF r(3) calculation(3)])
    ultimately show ?thesis unfolding r(1) by (metis add.assoc)
  qed
qed simp

section \<open>Nothing left to evict\<close>

text \<open>An unlocked node has an evictable leaf at or below it.\<close>

lemma lock_cnt_mono:
  assumes "prefix (pk a) (pk b)"
  shows "lock_cnt pk L b \<le> lock_cnt pk L a"
  unfolding lock_cnt_def
  by (rule size_mset_mono) (use assms in \<open>auto simp: subseteq_mset_def dest: prefix_order.trans\<close>)

lemma unlocked_leaf:
  assumes inv: "rinv c A pk pv L" and n: "n \<in> A" "n \<noteq> root_node c" "lock_ref (nodes c n) = 0"
  shows "evictable_leaves c \<noteq> []"
proof -
  note i = rinvD[OF inv]
  note d = tree_okD[OF i(1)]
  let ?S = "{m \<in> A. m \<noteq> root_node c \<and> lock_ref (nodes c m) = 0}"
  have S: "finite ?S" "?S \<noteq> {}" using d(6) n by auto
  let ?M = "Max ((\<lambda>m. length (pk m)) ` ?S)"
  have "?M \<in> (\<lambda>m. length (pk m)) ` ?S" using S by (intro Max_in) auto
  then obtain m where mS': "m \<in> ?S" "length (pk m) = ?M" by auto
  have mS: "m \<in> ?S" "\<And>y. y \<in> ?S \<Longrightarrow> length (pk y) \<le> length (pk m)"
    using mS' S(1) by (auto intro!: Max_ge)
  have "children (nodes c m) = []"
  proof (rule ccontr)
    assume "children (nodes c m) \<noteq> []"
    then obtain k ch where ch: "(k, ch) \<in> kids c m" unfolding kids_def by (cases "children (nodes c m)") auto
    have mA: "m \<in> A" "m \<noteq> root_node c" using mS by auto
    note cA = d(8,9)[OF mA(1) ch]
    have "lock_cnt pk L ch \<le> lock_cnt pk L m"
      by (rule lock_cnt_mono) (use tree_child(1)[OF i(1) mA(1) ch] in simp)
    moreover have "lock_ref (nodes c m) = int (lock_cnt pk L m)" "lock_ref (nodes c ch) = int (lock_cnt pk L ch)"
      using i(3) cA mA by (simp_all add: lock_ok_def)
    moreover have "lock_ref (nodes c m) = 0" using mS by auto
    ultimately have "ch \<in> ?S" using cA by simp
    then have "length (pk ch) \<le> length (pk m)" by (rule mS(2))
    then show False using tree_child(1,2)[OF i(1) mA(1) ch] by simp
  qed
  then have "is_leaf c m" using is_leaf_iff[OF i(1,2)] mS by simp
  then have "m \<in> set (evictable_leaves c)" using i(5) mS by (auto simp: leaf_ok_except_def)
  then show ?thesis by auto
qed

lemma no_leaves_no_size:
  assumes inv: "rinv c A pk pv L" and "evictable_leaves c = []"
  shows "r_evictable_size c = 0"
proof -
  have "weight (\<lambda>l. l = 0) (nodes c n) = 0" if "n \<in> A - {root_node c}" for n
    using that unlocked_leaf[OF inv] assms(2) by (auto simp: weight_def)
  then show ?thesis using rinvD(4)[OF inv] by (simp add: size_ok_def)
qed

lemma leaf_heap_init:
  assumes order: "\<And>xs. mset (set_iter env xs) = mset xs"
  shows "leaf_heap c (heapify (entry_key c)
    (map (\<lambda>n. (get_priority (r_policy c) (nodes c n), n)) (set_iter env (evictable_leaves c))))" (is "leaf_heap c ?h")
  unfolding leaf_heap_def
proof (intro conjI)
  have mh: "mset ?h = mset (map (\<lambda>n. (get_priority (r_policy c) (nodes c n), n)) (evictable_leaves c))"
    unfolding mset_heapify using order by (simp add: mset_map)
  show "heap_from (entry_key c) ?h 0" by (rule heapify_heap)
  show "mset (map snd ?h) = mset (evictable_leaves c)"
    unfolding mset_map mh by (simp add: image_mset.compositionality o_def)
  show "\<forall>e \<in> set ?h. fst e = get_priority (r_policy c) (nodes c (snd e))"
    using mset_eq_setD[OF mh] by auto
qed

lemma evict_ok:
  assumes inv: "rinv c A pk pv L" and "\<not> enable_kv_cache_events c" "\<not> r_disable c"
    and order: "\<And>xs. mset (set_iter env xs) = mset xs"
  shows "\<exists>j c' A'. evict env num c = Inr (j, c') \<and> rinv c' A' pk pv L \<and>
    shed c A c' A' j \<and> (num \<le> int j \<or> r_evictable_size c' = 0)"
proof -
  define h where "h = heapify (entry_key c) (map (\<lambda>n. (get_priority (r_policy c) (nodes c n), n)) (set_iter env (evictable_leaves c)))"
  have "leaf_heap c h" unfolding h_def by (rule leaf_heap_init[OF order])
  moreover have "card A < Suc (next_ref c)"
    using tree_okD(2)[OF rinvD(1)[OF inv]] card_mono[of "{..<next_ref c}" A] by simp
  ultimately obtain j c' A' where r: "evict_loop (Suc (next_ref c)) env num h 0 c = Inr (0 + j, c')" "rinv c' A' pk pv L"
    "shed c A c' A' j" "num \<le> int (0 + j) \<or> evictable_leaves c' = []"
    using evict_loop_ok[OF inv _ assms(2)] by blast
  moreover have "evict env num c = Inr (j, c')" using r(1) assms(3) by (simp add: evict_def h_def Let_def)
  ultimately show ?thesis using no_leaves_no_size[OF r(2)] by auto
qed

end
