(* ===== verification/RadixSpec.thy ===== *)
theory RadixSpec
  imports RadixEvict
begin

text \<open>
  What the radix cache promises, stated on the tree alone: \<open>tree_path c n us vs\<close> says that the
  path from the root to \<open>n\<close> spells the units \<open>us\<close> and holds the slots \<open>vs\<close>; \<open>cached c us vs\<close>
  that the page-aligned sequence \<open>us\<close> is served with the slots \<open>vs\<close>; \<open>radix_inv c L\<close> that
  the cache is well formed and the nodes \<open>L\<close> are held by requests.
\<close>

section \<open>Contents\<close>

inductive tree_path :: "'a radix_cache_scheme \<Rightarrow> nat \<Rightarrow> unit_key list \<Rightarrow> int list \<Rightarrow> bool" for c where
  path_root: "tree_path c (root_node c) [] []"
| path_child: "tree_path c n us vs \<Longrightarrow> (k, ch) \<in> kids c n \<Longrightarrow> tn_value (nodes c ch) = Some v \<Longrightarrow>
    tree_path c ch (us @ units_of c ch) (vs @ v)"

definition cached :: "'a radix_cache_scheme \<Rightarrow> unit_key list \<Rightarrow> int list \<Rightarrow> bool" where
  "cached c us vs \<longleftrightarrow> r_page_size c dvd length us \<and>
     (\<exists>n us' vs'. tree_path c n us' vs' \<and> prefix us us' \<and> vs = take (length us) vs')"

definition radix_inv :: "'a radix_cache_scheme \<Rightarrow> nat multiset \<Rightarrow> bool" where
  "radix_inv c L \<longleftrightarrow> (\<exists>A pk pv. rinv c A pk pv L)"

text \<open>\<open>k\<close> units of \<open>U\<close> are the longest cached prefix.\<close>

definition hit_len :: "'a radix_cache_scheme \<Rightarrow> unit_key list \<Rightarrow> nat \<Rightarrow> bool" where
  "hit_len c U k \<longleftrightarrow> k \<le> length U \<and> (\<exists>vs. cached c (take k U) vs) \<and>
     (\<forall>us vs. prefix us U \<longrightarrow> cached c us vs \<longrightarrow> length us \<le> k)"

text \<open>The key a lookup or an insertion works with.\<close>

definition lookup_key :: "'a radix_cache_scheme \<Rightarrow> radix_key \<Rightarrow> radix_key" where
  "lookup_key c key = page_aligned (if r_is_eagle c then key\<lparr>is_bigram := True\<rparr> else key) (r_page_size c)"

text \<open>Slots of whole pages that are neither free nor cached.\<close>

definition fresh_slots :: "'a radix_cache_scheme \<Rightarrow> int list \<Rightarrow> bool" where
  "fresh_slots c v \<longleftrightarrow> paged_value c v \<and> hp_pages (r_page_size c) v \<inter> al_avail (kv_allocator c) = {} \<and>
     (\<forall>us vs. cached c us vs \<longrightarrow> hp_pages (r_page_size c) vs \<inter> hp_pages (r_page_size c) v = {})"

lemma tree_path_iff:
  assumes inv: "rinv c A pk pv L"
  shows "tree_path c n us vs \<longleftrightarrow> n \<in> A \<and> us = pk n \<and> vs = pv n"
proof
  note i = rinvD[OF inv]
  note d = tree_okD[OF i(1)]
  show "n \<in> A \<and> us = pk n \<and> vs = pv n" if "tree_path c n us vs"
    using that
  proof (induction rule: tree_path.induct)
    case path_root
    then show ?case using d(3,4) i(2) by (simp add: val_ok_def)
  next
    case (path_child n us vs k ch v)
    then have n: "n \<in> A" "us = pk n" "vs = pv n" by auto
    note ch = d(8-10)[OF n(1) path_child.hyps(2)]
    obtain w q where "tn_value (nodes c ch) = Some w" "parent (nodes c ch) = Some q" "pv ch = pv q @ w"
      using val_node[OF i(2) ch(1,2)] by metis
    then show ?case
      using n tree_child(1)[OF i(1) n(1) path_child.hyps(2)] ch path_child.hyps(3) by simp
  qed
  show "tree_path c n us vs" if "n \<in> A \<and> us = pk n \<and> vs = pv n"
    using that
  proof (induction "length (pk n)" arbitrary: n us vs rule: less_induct)
    case less
    show ?case
    proof (cases "n = root_node c")
      case True
      then show ?thesis using less.prems d(4) i(2) path_root by (simp add: val_ok_def)
    next
      case False
      obtain p where p: "p \<in> A" "parent (nodes c n) = Some p" "n \<in> snd ` kids c p" "pk n = pk p @ units_of c n"
          "length (pk p) < length (pk n)" using tree_parent[OF i(1) _ False] less.prems by metis
      obtain v where v: "tn_value (nodes c n) = Some v" "pv n = pv p @ v"
        using val_node[OF i(2) _ False] less.prems p(2) by (metis option.inject)
      obtain k where "(k, n) \<in> kids c p" using p(3) by auto
      from path_child[OF less.hyps[OF p(5), of "pk p" "pv p"] this v(1)] show ?thesis
        using p(1,4) v(2) less.prems by simp
    qed
  qed
qed

lemma cached_iff:
  assumes inv: "rinv c A pk pv L"
  shows "cached c us vs \<longleftrightarrow> r_page_size c dvd length us \<and> (\<exists>n \<in> A. prefix us (pk n) \<and> vs = take (length us) (pv n))"
  unfolding cached_def tree_path_iff[OF inv] by blast

text \<open>A sequence is cached with one list of slots.\<close>

lemma pv_agree:
  assumes inv: "rinv c A pk pv L" and nm: "n \<in> A" "m \<in> A"
    and us: "prefix us (pk n)" "prefix us (pk m)" "r_page_size c dvd length us"
  shows "take (length us) (pv n) = take (length us) (pv m)"
proof -
  note i = rinvD[OF inv]
  note d = tree_okD[OF i(1)]
  have main: "take (length us) (pv n) = take (length us) (pv m)"
    if "a \<in> A" "prefix (pk a) (pk n)" "prefix (pk a) (pk m)" for a
    using that
  proof (induction "length us - length (pk a)" arbitrary: a rule: less_induct)
    case less
    note a = less.prems
    have la: "length (pv a) = length (pk a)" by (rule length_pv[OF i(1,2) a(1)])
    have pre: "prefix (pv a) (pv n)" "prefix (pv a) (pv m)" using pv_prefix[OF i(1,2)] a nm by auto
    show ?case
    proof (cases "length us \<le> length (pk a)")
      case True
      then show ?thesis using pre la by (auto simp: prefix_def)
    next
      case False
      have ne: "a \<noteq> n" "a \<noteq> m" using False us prefix_length_le by fastforce+
      obtain k x where x: "(k, x) \<in> kids c a" "prefix (pk x) (pk n)" using trie_descend[OF i(1) a(1) nm(1) a(2)] ne by blast
      obtain l y where y: "(l, y) \<in> kids c a" "prefix (pk y) (pk m)" using trie_descend[OF i(1) a(1) nm(2) a(3)] ne by blast
      note tx = tree_child[OF i(1) a(1) x(1)] and ty = tree_child[OF i(1) a(1) y(1)]
      have "prefix (pk a) us" by (rule prefix_length_prefix[OF a(2) us(1)]) (use False in simp)
      then obtain w where w: "us = pk a @ w" by (auto simp: prefix_def)
      have lw: "r_page_size c \<le> length w"
      proof -
        have "r_page_size c dvd length w"
          using us(3) pk_aligned[OF i(1) a(1)] w dvd_add_right_iff[of "r_page_size c" "length (pk a)"] by simp
        then show ?thesis using False w by (auto intro: dvd_imp_le)
      qed
      have "take (r_page_size c) w = take (r_page_size c) (units_of c x)"
        by (rule pk_page_prefix[of "pk a" _ "pk n"]) (use us(1) w x(2) tx lw in simp_all)
      moreover have "take (r_page_size c) w = take (r_page_size c) (units_of c y)"
        by (rule pk_page_prefix[of "pk a" _ "pk m"]) (use us(2) w y(2) ty lw in simp_all)
      ultimately have "x = y" using child_unique[OF i(1) a(1) x(1) y(1)] by simp
      moreover have "length us - length (pk x) < length us - length (pk a)" using tx False by simp
      ultimately show ?thesis using less.hyps[of x] d(8)[OF a(1) x(1)] x(2) y(2) by simp
    qed
  qed
  show ?thesis by (rule main[OF d(3)]) (simp_all add: d(4))
qed

lemma cached_unique:
  assumes "radix_inv c L" "cached c us vs" "cached c us ws"
  shows "vs = ws"
proof -
  obtain A pk pv where inv: "rinv c A pk pv L" using assms(1) by (auto simp: radix_inv_def)
  show ?thesis using assms(2,3) pv_agree[OF inv] unfolding cached_iff[OF inv] by blast
qed

lemma cached_length:
  assumes "radix_inv c L" "cached c us vs"
  shows "length vs = length us"
proof -
  obtain A pk pv where inv: "rinv c A pk pv L" using assms(1) by (auto simp: radix_inv_def)
  obtain n where n: "n \<in> A" "prefix us (pk n)" "vs = take (length us) (pv n)"
    using assms(2) unfolding cached_iff[OF inv] by blast
  then show ?thesis using length_pv[OF rinvD(1,2)[OF inv] n(1)] prefix_length_le[OF n(2)] by simp
qed

lemma cached_content:
  assumes inv: "rinv c A pk pv L" and inv': "rinv c' A' pk' pv' L'"
    and cont: "same_content A pk pv A' pk' pv'" and ps: "r_page_size c' = r_page_size c"
  shows "cached c' us vs \<longleftrightarrow> cached c us vs"
proof
  assume "cached c us vs"
  then obtain n where n: "r_page_size c dvd length us" "n \<in> A" "prefix us (pk n)" "vs = take (length us) (pv n)"
    unfolding cached_iff[OF inv] by blast
  then show "cached c' us vs"
    unfolding cached_iff[OF inv'] using cont ps by (auto simp: same_content_def intro!: bexI[of _ n])
next
  assume "cached c' us vs"
  then obtain n where n: "r_page_size c dvd length us" "n \<in> A'" "prefix us (pk' n)" "vs = take (length us) (pv' n)"
    unfolding cached_iff[OF inv'] ps by blast
  obtain b where b: "b \<in> A" "prefix (pk' n) (pk b)" "pv' n = take (length (pk' n)) (pv b)"
    using cont n(2) unfolding same_content_def by blast
  have "length us \<le> length (pk' n)" using n(3) by (rule prefix_length_le)
  then have "vs = take (length us) (pv b)" using n(4) b(3) by (simp add: min.absorb1)
  moreover have "prefix us (pk b)" using n(3) b(2) prefix_order.trans by blast
  ultimately show "cached c us vs" unfolding cached_iff[OF inv] using n(1) b(1) by blast
qed

section \<open>Keys\<close>

lemma lookup_key_ok:
  assumes "0 < r_page_size c" "is_bigram key \<longrightarrow> r_is_eagle c"
  shows "r_page_size c dvd rk_len (lookup_key c key)" "is_bigram (lookup_key c key) = r_is_eagle c"
proof -
  define k where "k = (if r_is_eagle c then key\<lparr>is_bigram := True\<rparr> else key)"
  have k: "is_bigram k = r_is_eagle c" using assms(2) by (auto simp: k_def)
  have l: "lookup_key c key = page_aligned k (r_page_size c)" by (simp add: lookup_key_def k_def)
  have "min (rk_len k div p * p) (rk_len k) = rk_len k div p * p" for p by simp
  then show "r_page_size c dvd rk_len (lookup_key c key)"
    unfolding l page_aligned_def Let_def by (simp split: if_splits)
  show "is_bigram (lookup_key c key) = r_is_eagle c" unfolding l page_aligned_def using k by (simp add: Let_def)
qed

lemma bigram_view_key:
  assumes "is_bigram key \<longrightarrow> r_is_eagle c"
  shows "fst (maybe_to_bigram_view key (r_is_eagle c) val) = (if r_is_eagle c then key\<lparr>is_bigram := True\<rparr> else key)"
  using assms by (cases "is_bigram key") (auto simp: maybe_to_bigram_view_def Let_def)

section \<open>Matching\<close>

lemma cat_values_Some: "cat_values (map Some ws) = Inr (concat ws)"
proof -
  have "mapR (\<lambda>v. case v of None \<Rightarrow> Inl TypeError | Some xs \<Rightarrow> Inr xs) (map Some ws) = Inr ws"
    by (induction ws) simp_all
  then show ?thesis by (simp add: cat_values_def)
qed

definition matched ::
  "'a radix_cache_scheme \<Rightarrow> unit_key list \<Rightarrow> match_result \<Rightarrow> 'a radix_cache_scheme \<Rightarrow> bool" where
  "matched c U r c' \<longleftrightarrow> (\<forall>us vs. cached c' us vs \<longleftrightarrow> cached c us vs) \<and>
     hit_len c U (length (device_indices r)) \<and>
     cached c (take (length (device_indices r)) U) (device_indices r) \<and>
     tree_path c' (last_device_node r) (take (length (device_indices r)) U) (device_indices r)"

lemma hit_len_best:
  assumes inv: "rinv c A pk pv L" and b: "best_node (r_page_size c) A pk U q" "r_page_size c dvd length q"
    "a \<in> A" "prefix q (pk a)"
  shows "hit_len c U (length q)" "cached c q (take (length q) (pv a))" "q = take (length q) U"
proof -
  have pre: "prefix q U" using b(1) by (simp add: best_node_def)
  then show q: "q = take (length q) U" by (auto simp: prefix_def)
  show ca: "cached c q (take (length q) (pv a))" unfolding cached_iff[OF inv] using b by auto
  have "length us \<le> length q" if "prefix us U" "cached c us vs" for us vs
    using that b(1) unfolding cached_iff[OF inv] best_node_def by blast
  then show "hit_len c U (length q)"
    unfolding hit_len_def using prefix_length_le[OF pre] ca q by auto
qed

lemma match_prefix_ok:
  assumes inv: "rinv c A pk pv L" and dis: "\<not> r_disable c" and key: "is_bigram key \<longrightarrow> r_is_eagle c"
  shows "\<exists>r c' A' pk' pv'. match_prefix env key c = Inr (r, c') \<and> rinv c' A' pk' pv' L \<and> same_meta c c' \<and>
    same_content A pk pv A' pk' pv' \<and> matched c (rk_units (lookup_key c key)) r c'"
proof -
  note i = rinvD[OF inv]
  note d = tree_okD[OF i(1)]
  let ?K = "lookup_key c key" and ?root = "root_node c" and ?ps = "r_page_size c"
  note K = lookup_key_ok[OF d(1) key]
  have pv0: "pv ?root = []" using i(2) by (simp add: val_ok_def)
  show ?thesis
  proof (cases "rk_len ?K = 0")
    case True
    then have U: "rk_units ?K = []" by (simp flip: length_0_conv)
    have "match_prefix env key c = Inr (empty_match_result c, c)"
      unfolding match_prefix_def Let_def bigram_view_key[OF key] using True by (simp add: lookup_key_def)
    moreover have "matched c (rk_units ?K) (empty_match_result c) c"
    proof -
      have b: "best_node ?ps A pk [] []" by (simp add: best_node_def)
      have "tree_path c ?root [] []" by (rule path_root)
      then show ?thesis
        using hit_len_best[OF inv b _ d(3)] U by (simp add: matched_def empty_match_result_def)
    qed
    ultimately show ?thesis using inv same_meta_refl same_content_refl[OF i(1,2)] by blast
  next
    case False
    then have pos: "0 < rk_len ?K" by simp
    have "?ps \<le> rk_len ?K" using K(1) pos by (rule dvd_imp_le)
    then obtain ck where ck: "child_key ?K ?ps = Inr ck" using child_key_eq[OF d(1)] by blast
    define t where "t = clk env (ticks c)"
    define c1 where "c1 = upd ?root (\<lambda>x. x\<lparr>last_access_time := t\<rparr>) (c\<lparr>ticks := ticks c + 1\<rparr>)"
    have inv0: "rinv (c\<lparr>ticks := ticks c + 1\<rparr>) A pk pv L"
      by (rule rinv_cong[OF inv]) (simp_all add: same_config_def same_counters_def)
    have inv1: "rinv c1 A pk pv L"
      unfolding c1_def by (rule rinv_upd[OF inv0]) (simp add: same_core_def same_shape_def)
    have meta1: "same_meta c c1" by (simp add: c1_def same_meta_def same_config_def same_counters_def)
    have wk: "walk_key c1 ?K ck" using K ck by (simp add: walk_key_def c1_def)
    have f1: "r_page_size c1 = ?ps" by (simp add: c1_def)
    have "\<exists>ws' n' c' A' pk' pv'. match_loop (Suc (rk_len ?K)) env t ?root ?K ck (map Some []) c1 = Inr (map Some ws', n', c') \<and>
      rinv c' A' pk' pv' L \<and> same_meta c1 c' \<and> same_content A pk pv A' pk' pv' \<and> n' \<in> A' \<and>
      concat ws' = pv' n' \<and> best_node (r_page_size c1) A pk (pk ?root @ rk_units ?K) (pk' n')"
      by (rule match_loop_ok[OF inv1 d(3) wk _ lessI]) (simp add: pv0)
    then obtain ws n' c' A' pk' pv' where
      r: "match_loop (Suc (rk_len ?K)) env t ?root ?K ck [] c1 = Inr (map Some ws, n', c')"
        "rinv c' A' pk' pv' L" "same_meta c1 c'" "same_content A pk pv A' pk' pv'" "n' \<in> A'"
        "concat ws = pv' n'" "best_node ?ps A pk (rk_units ?K) (pk' n')"
      unfolding f1 d(4) by auto
    let ?r = "\<lparr>device_indices = pv' n', last_device_node = n', last_host_node = n', best_match_node = n', host_hit_length = 0\<rparr>"
    have cat: "(if map Some ws \<noteq> [] then cat_values (map Some ws) else Inr []) = Inr (pv' n')"
      using r(6) cat_values_Some[of ws] by (cases ws) auto
    have run: "match_prefix env key c = Inr (?r, c')"
    proof -
      let ?k = "if r_is_eagle c then key\<lparr>is_bigram := True\<rparr> else key"
      have nz: "rk_len ?k \<noteq> 0"
      proof
        assume "rk_len ?k = 0"
        then have "rk_len (page_aligned ?k ?ps) = 0" by (simp only: page_aligned_def Let_def) simp
        then show False using pos by (simp add: lookup_key_def)
      qed
      have h: "match_prefix_helper env ?root ?K c = Inr (map Some ws, n', c')"
        using ck r(1) by (simp add: match_prefix_helper_def monotonic_def c1_def t_def del: match_loop.simps)
      have lk: "page_aligned ?k ?ps = ?K" by (simp add: lookup_key_def)
      show ?thesis
        unfolding match_prefix_def Let_def bigram_view_key[OF key] lk using nz dis pos h cat by simp
    qed
    have meta: "same_meta c c'" by (rule same_meta_trans[OF meta1 r(3)])
    then have ps': "r_page_size c' = ?ps" by (simp add: same_meta_def same_config_def)
    obtain b where b: "b \<in> A" "prefix (pk' n') (pk b)" "pv' n' = take (length (pk' n')) (pv b)"
      using r(4,5) unfolding same_content_def by blast
    have al: "?ps dvd length (pk' n')" using pk_aligned[OF rinvD(1)[OF r(2)] r(5)] ps' by simp
    note hb = hit_len_best[OF inv r(7) al b(1,2)]
    have len: "length (pv' n') = length (pk' n')" by (rule length_pv[OF rinvD(1,2)[OF r(2)] r(5)])
    have "matched c (rk_units ?K) ?r c'"
      unfolding matched_def using cached_content[OF inv r(2,4) ps'] hb b(3) len tree_path_iff[OF r(2)] r(5) by simp
    then show ?thesis using run r(2,4) meta by blast
  qed
qed

section \<open>Insertion\<close>

lemma hit_len_node:
  assumes inv: "rinv c A pk pv L" and h: "hit_len c U h"
  obtains a where "best_node (r_page_size c) A pk U (take h U)" "r_page_size c dvd length (take h U)" "a \<in> A"
    "prefix (take h U) (pk a)" "length (take h U) = h"
proof -
  have len: "length (take h U) = h" using h by (simp add: hit_len_def)
  obtain vs where "cached c (take h U) vs" using h by (auto simp: hit_len_def)
  then obtain a where a: "r_page_size c dvd length (take h U)" "a \<in> A" "prefix (take h U) (pk a)"
    unfolding cached_iff[OF inv] by blast
  have "best_node (r_page_size c) A pk U (take h U)"
    unfolding best_node_def len
  proof (intro conjI allI impI)
    show "prefix (take h U) U" by (rule take_is_prefix)
    fix us b assume "prefix us U" "r_page_size c dvd length us" "b \<in> A" "prefix us (pk b)"
    then show "length us \<le> h" using h cached_iff[OF inv] unfolding hit_len_def by blast
  qed
  then show thesis using that a len by blast
qed

definition grown ::
  "'a radix_cache_scheme \<Rightarrow> unit_key list \<Rightarrow> int list \<Rightarrow> 'a radix_cache_scheme \<Rightarrow> bool" where
  "grown c U ws c' \<longleftrightarrow> (\<forall>us vs. cached c' us vs \<longleftrightarrow>
     cached c us vs \<or> r_page_size c dvd length us \<and> prefix us U \<and> vs = take (length us) ws)"

lemma cached_inserted:
  assumes inv: "rinv c A pk pv L" and inv': "rinv c' A' pk' pv' L'" and ps: "r_page_size c' = r_page_size c"
    and ins: "inserted A pk pv A' pk' pv' U ws"
  shows "grown c U ws c'"
  unfolding grown_def
proof (intro allI iffI)
  note ins = ins[unfolded inserted_def]
  fix us vs
  assume "cached c us vs \<or> r_page_size c dvd length us \<and> prefix us U \<and> vs = take (length us) ws"
  then show "cached c' us vs"
  proof
    assume "cached c us vs"
    then obtain n where n: "r_page_size c dvd length us" "n \<in> A" "prefix us (pk n)" "vs = take (length us) (pv n)"
      unfolding cached_iff[OF inv] by blast
    then show ?thesis unfolding cached_iff[OF inv'] using ins ps by (auto intro!: bexI[of _ n])
  next
    assume u: "r_page_size c dvd length us \<and> prefix us U \<and> vs = take (length us) ws"
    obtain n where "n \<in> A'" "pk' n = U" "pv' n = ws" using ins by blast
    then show ?thesis unfolding cached_iff[OF inv'] using u ps by (auto intro!: bexI[of _ n])
  qed
next
  note ins = ins[unfolded inserted_def]
  fix us vs
  assume "cached c' us vs"
  then obtain n where n: "r_page_size c dvd length us" "n \<in> A'" "prefix us (pk' n)" "vs = take (length us) (pv' n)"
    unfolding cached_iff[OF inv'] ps by blast
  have le: "length us \<le> length (pk' n)" using n(3) by (rule prefix_length_le)
  consider b where "b \<in> A" "prefix (pk' n) (pk b)" "pv' n = take (length (pk' n)) (pv b)"
    | "prefix (pk' n) U" "pv' n = take (length (pk' n)) ws" using ins n(2) by blast
  then show "cached c us vs \<or> r_page_size c dvd length us \<and> prefix us U \<and> vs = take (length us) ws"
  proof cases
    case 1
    have "vs = take (length us) (pv b)" "prefix us (pk b)"
      using n(3,4) 1(2,3) le prefix_order.trans by (auto simp: min.absorb1)
    then show ?thesis unfolding cached_iff[OF inv] using n(1) 1(1) by blast
  next
    case 2
    then show ?thesis using n le prefix_order.trans by (auto simp: min.absorb1)
  qed
qed

lemma rc_insert_ok:
  assumes inv: "rinv c A pk pv L" and dis: "\<not> r_disable c" and ev: "\<not> enable_kv_cache_events c"
    and key: "is_bigram key \<longrightarrow> r_is_eagle c"
    and len: "rk_len (lookup_key c key) \<le> length val"
    and h: "hit_len c (rk_units (lookup_key c key)) h"
    and fresh: "fresh_slots c (drop h (take (rk_len (lookup_key c key)) val))"
    and hs: "cached c (take h (rk_units (lookup_key c key))) hs"
  shows "\<exists>c' A' pk' pv'. rc_insert env key (Some val) prio chunked c = Inr (h, c') \<and> rinv c' A' pk' pv' L \<and>
    same_config c c' \<and> kv_allocator c' = kv_allocator c \<and>
    inserted A pk pv A' pk' pv' (rk_units (lookup_key c key)) (hs @ drop h (take (rk_len (lookup_key c key)) val)) \<and>
    r_evictable_size c' = r_evictable_size c + int (rk_len (lookup_key c key) - h) \<and>
    r_protected_size c' = r_protected_size c"
proof -
  note i = rinvD[OF inv]
  note d = tree_okD[OF i(1)]
  let ?K = "lookup_key c key" and ?ps = "r_page_size c"
  let ?U = "rk_units ?K" and ?v = "take (rk_len ?K) val"
  note K = lookup_key_ok[OF d(1) key]
  obtain a where a: "best_node ?ps A pk ?U (take h ?U)" "?ps dvd length (take h ?U)" "a \<in> A"
    "prefix (take h ?U) (pk a)" "length (take h ?U) = h"
    using hit_len_node[OF inv h] by metis
  have "cached c (take h ?U) (take h (pv a))" unfolding cached_iff[OF inv] using a by (metis)
  then have hs': "hs = take h (pv a)"
    using cached_unique hs inv unfolding radix_inv_def by blast
  have pages: "hp_pages ?ps (pv n) \<inter> hp_pages ?ps (drop (length (take h ?U)) ?v) = {}" if n: "n \<in> A" for n
  proof -
    have "cached c (pk n) (pv n)"
      unfolding cached_iff[OF inv] using n pk_aligned[OF i(1) n] length_pv[OF i(1,2) n] by auto
    then show ?thesis using fresh a(5) by (simp add: fresh_slots_def)
  qed
  have "\<exists>c' A' pk' pv'. insert_helper env (root_node c) ?K ?v prio chunked c = Inr (length (take h ?U), c') \<and>
    rinv c' A' pk' pv' L \<and> same_config c c' \<and> kv_allocator c' = kv_allocator c \<and>
    inserted A pk pv A' pk' pv' ?U (take (length (take h ?U)) (pv a) @ drop (length (take h ?U)) ?v) \<and>
    r_evictable_size c' = r_evictable_size c + int (rk_len ?K - length (take h ?U)) \<and>
    r_protected_size c' = r_protected_size c"
    by (rule insert_helper_ok[OF inv K ev _ a(1-4) _ _ pages])
      (use len fresh a(5) in \<open>simp_all add: fresh_slots_def\<close>)
  moreover have "rc_insert env key (Some val) prio chunked c = insert_helper env (root_node c) ?K ?v prio chunked c"
  proof -
    obtain k w where kw: "maybe_to_bigram_view key (r_is_eagle c) (Some val) = (k, Some w)"
      by (cases "r_is_eagle c \<and> \<not> is_bigram key") (simp_all add: maybe_to_bigram_view_def Let_def)
    have k: "page_aligned k ?ps = ?K" using bigram_view_key[OF key, of "Some val"] kw by (simp add: lookup_key_def)
    have "take (rk_len ?K) w = ?v"
    proof (cases "w = val")
      case False
      then have "w = take (rk_len k) val" using kw by (auto simp: maybe_to_bigram_view_def Let_def split: if_splits)
      moreover have "rk_len ?K \<le> rk_len k" unfolding k[symmetric] by (simp add: page_aligned_def Let_def)
      ultimately show ?thesis by (simp add: min.absorb1)
    qed simp
    then show ?thesis using dis kw k by (simp add: rc_insert_def Let_def)
  qed
  ultimately show ?thesis unfolding a(5) hs' by simp
qed

section \<open>Reset\<close>

lemma reset_inv:
  assumes "0 < r_page_size c" "kv_inv (kv_allocator c)" "al_page_size (kv_allocator c) = r_page_size c"
  shows "rinv (reset env c) {next_ref c} (\<lambda>_. []) (\<lambda>_. []) {#}"
proof -
  let ?c = "reset env c" and ?r = "next_ref c"
  have n: "children (nodes ?c ?r) = []" "parent (nodes ?c ?r) = None" "tn_value (nodes ?c ?r) = Some []"
    "lock_ref (nodes ?c ?r) = 1" "root_node ?c = ?r" "next_ref ?c = Suc ?r" "r_page_size ?c = r_page_size c"
    "r_evictable_size ?c = 0" "r_protected_size ?c = 0" "evictable_leaves ?c = []" "kv_allocator ?c = kv_allocator c"
    by (simp_all add: reset_def new_tree_node_def record_all_cleared_event_def Let_def)
  have "tree_ok ?c {?r} (\<lambda>_. [])"
    by (rule tree_okI) (use n assms in \<open>simp_all add: kids_def\<close>)
  moreover have "val_ok ?c {?r} (\<lambda>_. [])" using n by (simp add: val_ok_def)
  moreover have "lock_ok ?c {?r} (\<lambda>_. []) {#}" using n by (simp add: lock_ok_def)
  moreover have "size_ok ?c {?r}" using n by (simp add: size_ok_def)
  moreover have "leaf_ok ?c {?r}" using n by (simp add: leaf_ok_except_def is_leaf_def)
  moreover have "own_ok ?c {?r}" using n assms by (simp add: own_ok_def node_pages_def hp_pages_def)
  ultimately show ?thesis by (simp add: rinv_def)
qed

lemma cached_reset:
  assumes "0 < r_page_size c" "kv_inv (kv_allocator c)" "al_page_size (kv_allocator c) = r_page_size c"
  shows "cached (reset env c) us vs \<longleftrightarrow> us = [] \<and> vs = []"
  unfolding cached_iff[OF reset_inv[OF assms]] by auto

section \<open>Size of the tree\<close>

text \<open>The nodes at or below a set of nodes none of which is below another.\<close>

definition below :: "nat set \<Rightarrow> (nat \<Rightarrow> unit_key list) \<Rightarrow> nat list \<Rightarrow> nat set" where
  "below A pk stack = {n \<in> A. \<exists>m \<in> set stack. prefix (pk m) (pk n)}"

definition antichain :: "(nat \<Rightarrow> unit_key list) \<Rightarrow> nat list \<Rightarrow> bool" where
  "antichain pk stack \<longleftrightarrow> distinct stack \<and>
     (\<forall>m \<in> set stack. \<forall>m' \<in> set stack. prefix (pk m) (pk m') \<longrightarrow> m = m')"

lemma distinct_kids:
  assumes t: "tree_ok c A pk" and n: "n \<in> A"
  shows "distinct (map snd (children (nodes c n)))"
proof -
  note d = tree_okD[OF t]
  have "inj_on snd (set (children (nodes c n)))"
  proof (rule inj_onI)
    fix x y assume xy: "x \<in> set (children (nodes c n))" "y \<in> set (children (nodes c n))" "snd x = snd y"
    have "child_key (tn_key (nodes c (snd x))) (r_page_size c) = Inr (fst x)"
      "child_key (tn_key (nodes c (snd y))) (r_page_size c) = Inr (fst y)"
      by (rule d(11)[OF n]; use xy(1,2) in \<open>simp add: kids_def\<close>)+
    then show "x = y" using xy(3) by (intro prod_eqI) simp_all
  qed
  then show ?thesis using d(7)[OF n] by (simp add: distinct_map)
qed

lemma below_step:
  assumes t: "tree_ok c A pk" and n: "n \<in> A" and ac: "antichain pk (n # stack)" "set stack \<subseteq> A"
  defines "stack' \<equiv> rev (map snd (children (nodes c n))) @ stack"
  shows "below A pk (n # stack) = Set.insert n (below A pk stack')" "n \<notin> below A pk stack'"
    "antichain pk stack'" "set stack' \<subseteq> A"
proof -
  note d = tree_okD[OF t]
  have kid: "x \<in> A" "prefix (pk n) (pk x)" "length (pk n) < length (pk x)" "\<exists>k. (k, x) \<in> kids c n"
    if "x \<in> snd ` set (children (nodes c n))" for x
    using that d(8)[OF n] tree_child[OF t n] by (auto simp: kids_def)
  show sub: "set stack' \<subseteq> A" using kid(1) ac(2) by (auto simp: stack'_def)
  have anti: "m = m'" if "m \<in> set (n # stack)" "m' \<in> set (n # stack)" "prefix (pk m) (pk m')" for m m'
    using ac(1) that unfolding antichain_def by blast
  show "below A pk (n # stack) = Set.insert n (below A pk stack')"
  proof (intro equalityI subsetI)
    fix x assume "x \<in> below A pk (n # stack)"
    then have x: "x \<in> A" "(\<exists>m \<in> set stack. prefix (pk m) (pk x)) \<or> prefix (pk n) (pk x)" by (auto simp: below_def)
    show "x \<in> Set.insert n (below A pk stack')"
    proof (cases "prefix (pk n) (pk x)")
      case True
      then have "n = x \<or> (\<exists>k ch. (k, ch) \<in> kids c n \<and> prefix (pk ch) (pk x))" by (rule trie_descend[OF t n x(1)])
      then show ?thesis using x(1) by (force simp: below_def stack'_def kids_def)
    next
      case False
      then show ?thesis using x by (auto simp: below_def stack'_def)
    qed
  next
    fix x assume "x \<in> Set.insert n (below A pk stack')"
    then consider "x = n" | m where "x \<in> A" "m \<in> set stack'" "prefix (pk m) (pk x)" by (auto simp: below_def)
    then show "x \<in> below A pk (n # stack)"
    proof cases
      case 1
      then show ?thesis using n by (simp add: below_def)
    next
      case 2
      then show ?thesis
        using kid(2)[of m] prefix_order.trans[of "pk n" "pk m" "pk x"] by (auto simp: below_def stack'_def)
    qed
  qed
  show "n \<notin> below A pk stack'"
  proof
    assume "n \<in> below A pk stack'"
    then obtain m where m: "m \<in> set stack'" "prefix (pk m) (pk n)" by (auto simp: below_def)
    show False
    proof (cases "m \<in> set stack")
      case True
      then have "m = n" using anti[of m n] m(2) by simp
      then show False using True ac(1) by (auto simp: antichain_def)
    next
      case False
      then show False using kid(3)[of m] m prefix_length_le[OF m(2)] by (auto simp: stack'_def)
    qed
  qed
  show "antichain pk stack'"
    unfolding antichain_def
  proof (intro conjI ballI impI)
    have "set stack \<inter> snd ` set (children (nodes c n)) = {}"
    proof (rule ccontr)
      assume "set stack \<inter> snd ` set (children (nodes c n)) \<noteq> {}"
      then obtain x where x: "x \<in> set stack" "x \<in> snd ` set (children (nodes c n))" by auto
      then have "n = x" using anti[of n x] kid(2)[OF x(2)] by simp
      then show False using x(1) ac(1) by (simp add: antichain_def)
    qed
    then show "distinct stack'" using distinct_kids[OF t n] ac(1) by (auto simp: stack'_def antichain_def)
    fix m m' assume mm: "m \<in> set stack'" "m' \<in> set stack'" "prefix (pk m) (pk m')"
    consider "m \<in> set stack" "m' \<in> set stack" | "m \<in> snd ` set (children (nodes c n))" "m' \<in> snd ` set (children (nodes c n))"
      | "m \<in> set stack" "m' \<in> snd ` set (children (nodes c n))" | "m \<in> snd ` set (children (nodes c n))" "m' \<in> set stack"
      using mm(1,2) by (auto simp: stack'_def)
    then show "m = m'"
    proof cases
      case 1
      then show ?thesis using anti[of m m'] mm(3) by simp
    next
      case 2
      obtain k k' where kk: "(k, m) \<in> kids c n" "(k', m') \<in> kids c n" using kid(4)[OF 2(1)] kid(4)[OF 2(2)] by auto
      note tm = tree_child[OF t n kk(1)] and tm' = tree_child[OF t n kk(2)]
      have "take (r_page_size c) (units_of c m) = take (r_page_size c) (units_of c m')"
        by (rule pk_page_prefix[of "pk n" _ "pk m'"]) (use mm(3) tm tm' in simp_all)
      then show ?thesis by (rule child_unique[OF t n kk])
    next
      case 3
      have "prefix (pk m) (pk n) \<or> prefix (pk n) (pk m)"
        by (rule prefix_same_cases[OF mm(3) kid(2)[OF 3(2)]])
      then have "m = n" using anti[of m n] anti[of n m] 3(1) by auto
      then show ?thesis using 3(1) ac(1) by (simp add: antichain_def)
    next
      case 4
      have "prefix (pk n) (pk m')" using kid(2)[OF 4(1)] mm(3) prefix_order.trans by blast
      then have "n = m'" using anti[of n m'] 4(2) by simp
      then show ?thesis using 4(2) ac(1) by (simp add: antichain_def)
    qed
  qed
qed

lemma total_size_loop_ok:
  assumes inv: "rinv c A pk pv L"
  shows "set stack \<subseteq> A \<Longrightarrow> antichain pk stack \<Longrightarrow> card (below A pk stack) \<le> fuel \<Longrightarrow>
    total_size_loop fuel c stack acc = Inr (acc + (\<Sum>n \<in> below A pk stack. length (the (tn_value (nodes c n)))))"
proof (induction fuel arbitrary: stack acc)
  case 0
  note t = rinvD(1)[OF inv]
  have "finite (below A pk stack)" using tree_okD(6)[OF t] by (simp add: below_def)
  then have "below A pk stack = {}" using 0 by simp
  moreover have "n \<in> below A pk (n # st)" if "n \<in> A" for n st using that by (simp add: below_def)
  ultimately show ?case using 0 by (cases stack) (auto simp: below_def)
next
  case (Suc fuel)
  note i = rinvD[OF inv]
  show ?case
  proof (cases stack)
    case (Cons n st)
    have n: "n \<in> A" "set st \<subseteq> A" "antichain pk (n # st)" using Suc.prems Cons by auto
    let ?st = "rev (map snd (children (nodes c n))) @ st"
    note b = below_step[OF i(1) n(1,3,2)]
    obtain v where v: "tn_value (nodes c n) = Some v" using val_not_evicted[OF i(2) n(1)] by (auto simp: evicted_def)
    have fil: "filter (\<lambda>ch. \<not> evicted (nodes c ch)) (map snd (children (nodes c n))) = map snd (children (nodes c n))"
      by (rule filter_True) (use tree_okD(8)[OF i(1) n(1)] val_not_evicted[OF i(2)] in \<open>auto simp: kids_def\<close>)
    have fin: "finite (below A pk ?st)" using tree_okD(6)[OF i(1)] by (simp add: below_def)
    have "card (below A pk ?st) \<le> fuel" using Suc.prems(3) Cons b(1,2) fin by simp
    from Suc.IH[OF b(4,3) this] show ?thesis
      unfolding Cons b(1) using v b(2) fin fil by (simp add: the_value_def)
  qed (simp add: below_def)
qed

lemma total_size_ok:
  assumes inv: "rinv c A pk pv L"
  shows "\<exists>k. total_size c = Inr k \<and> int k = r_evictable_size c + r_protected_size c"
proof -
  note i = rinvD[OF inv]
  note d = tree_okD[OF i(1)]
  have all: "below A pk [root_node c] = A" using d(3,4) by (auto simp: below_def)
  have "card A \<le> next_ref c" using d(2) card_mono[of "{..<next_ref c}" A] by simp
  then have "total_size c = Inr (\<Sum>n \<in> A. length (the (tn_value (nodes c n))))"
    using total_size_loop_ok[OF inv, of "[root_node c]" "next_ref c" 0] d(3) all
    by (simp add: total_size_def antichain_def)
  moreover have "int (\<Sum>n \<in> A. length (the (tn_value (nodes c n)))) = r_evictable_size c + r_protected_size c"
  proof -
    have w: "int (length (the (tn_value (nodes c n)))) = weight (\<lambda>l. l = 0) (nodes c n) + weight (\<lambda>l. l \<noteq> 0) (nodes c n)"
      if n: "n \<in> A - {root_node c}" for n
    proof -
      obtain v where "tn_value (nodes c n) = Some v" "length v = rk_len (tn_key (nodes c n))"
        using val_node[OF i(2), of n] n by auto
      then show ?thesis by (simp add: weight_def)
    qed
    have "int (\<Sum>n \<in> A. length (the (tn_value (nodes c n)))) = (\<Sum>n \<in> A. int (length (the (tn_value (nodes c n)))))" by simp
    also have "\<dots> = int (length (the (tn_value (nodes c (root_node c))))) +
        (\<Sum>n \<in> A - {root_node c}. int (length (the (tn_value (nodes c n)))))"
      using d(3,6) by (intro sum.remove)
    also have "\<dots> = (\<Sum>n \<in> A - {root_node c}. weight (\<lambda>l. l = 0) (nodes c n) + weight (\<lambda>l. l \<noteq> 0) (nodes c n))"
      using i(2) w by (simp add: val_ok_def)
    finally show ?thesis using i(4) by (simp add: size_ok_def sum.distrib)
  qed
  ultimately show ?thesis by blast
qed

end
