(* ===== verification/RadixReq.thy ===== *)
theory RadixReq
  imports RadixSpec
begin

text \<open>
  Caching of requests: \<open>cache_unfinished_req\<close> and \<open>cache_finished_req\<close>. A request holds the node
  of its cached prefix and owns the slots after it, the last of which may be a partial page.
\<close>

section \<open>Freeing slots that are not cached\<close>

lemma kv_free_slots:
  assumes a: "kv_inv a" and v: "al_freeable (al_geom a) v" "distinct v"
    and new: "hp_pages (al_page_size a) v \<inter> al_avail a = {}"
  shows "\<exists>a'. kv_free a v = Inr a' \<and> kv_inv a' \<and> al_geom a' = al_geom a \<and>
    al_avail a' = al_avail a \<union> hp_pages (al_page_size a) v"
proof -
  have pages: "al_page_of (al_geom a) ` set v = hp_pages (al_page_size a) v"
    by (simp add: al_page_of_def al_geom_def hp_pages_def)
  show ?thesis
  proof (cases "al_page_size a = 1")
    case True
    have "tk_inv a" "tk_freeable (al_geom a) v"
      using a True v by (simp_all add: kv_inv_def tk_inv_def tk_freeable_def)
    from tk_free_law[OF this] new pages True show ?thesis
      by (auto simp: kv_free_def kv_inv_def tk_inv_def)
  next
    case False
    have "pg_inv a" using a by (simp add: kv_inv_def pg_inv_def)
    from pg_free_law[OF this v(1)] new pages False show ?thesis
      by (auto simp: kv_free_def kv_inv_def pg_inv_def)
  qed
qed

definition tree_pages :: "'a radix_cache_scheme \<Rightarrow> int set" where
  "tree_pages c = \<Union>{hp_pages (r_page_size c) vs | us vs. cached c us vs}"

text \<open>Slots, possibly of a partial page, that are neither free nor cached.\<close>

definition own_slots :: "'a radix_cache_scheme \<Rightarrow> int list \<Rightarrow> bool" where
  "own_slots c v \<longleftrightarrow> al_freeable (al_geom (kv_allocator c)) v \<and> distinct v \<and>
     hp_pages (r_page_size c) v \<inter> (al_avail (kv_allocator c) \<union> tree_pages c) = {}"

lemma tree_pages_iff:
  assumes inv: "rinv c A pk pv L"
  shows "tree_pages c = (\<Union>n \<in> A. hp_pages (r_page_size c) (pv n))"
proof (intro equalityI subsetI)
  note i = rinvD[OF inv]
  fix x assume "x \<in> tree_pages c"
  then obtain us vs where "cached c us vs" "x \<in> hp_pages (r_page_size c) vs" by (auto simp: tree_pages_def)
  then show "x \<in> (\<Union>n \<in> A. hp_pages (r_page_size c) (pv n))"
    unfolding cached_iff[OF inv] using hp_pages_take by blast
next
  note i = rinvD[OF inv]
  fix x assume "x \<in> (\<Union>n \<in> A. hp_pages (r_page_size c) (pv n))"
  then obtain n where n: "n \<in> A" "x \<in> hp_pages (r_page_size c) (pv n)" by blast
  have "cached c (pk n) (pv n)"
    unfolding cached_iff[OF inv] using n pk_aligned[OF i(1) n(1)] length_pv[OF i(1,2) n(1)] by auto
  then show "x \<in> tree_pages c" using n(2) by (auto simp: tree_pages_def)
qed

text \<open>The cached pages are those of the nodes.\<close>

lemma tree_pages_nodes:
  assumes inv: "rinv c A pk pv L"
  shows "tree_pages c = (\<Union>n \<in> A. node_pages c n)"
proof (intro equalityI subsetI)
  note i = rinvD[OF inv]
  have path: "hp_pages (r_page_size c) (pv n) \<subseteq> (\<Union>n \<in> A. node_pages c n)" if "n \<in> A" for n
    using that
  proof (induction "length (pk n)" arbitrary: n rule: less_induct)
    case less
    show ?case
    proof (cases "n = root_node c")
      case True
      then show ?thesis using i(2) by (simp add: val_ok_def hp_pages_def)
    next
      case False
      obtain p where p: "p \<in> A" "parent (nodes c n) = Some p" "length (pk p) < length (pk n)"
        using tree_parent[OF i(1) less.prems False] by metis
      obtain v where v: "tn_value (nodes c n) = Some v" "pv n = pv p @ v"
        using val_node[OF i(2) less.prems False] p(2) by (metis option.inject)
      have "hp_pages (r_page_size c) v = node_pages c n" using v(1) by (simp add: node_pages_def)
      then show ?thesis unfolding v(2) hp_pages_append using less.hyps[OF p(3,1)] less.prems by blast
    qed
  qed
  fix x assume "x \<in> tree_pages c"
  then show "x \<in> (\<Union>n \<in> A. node_pages c n)" unfolding tree_pages_iff[OF inv] using path by blast
next
  note i = rinvD[OF inv]
  fix x assume "x \<in> (\<Union>n \<in> A. node_pages c n)"
  then show "x \<in> tree_pages c" unfolding tree_pages_iff[OF inv] using node_pages_pv[OF i(2)] by blast
qed

lemma fresh_own:
  assumes inv: "rinv c A pk pv L" and "fresh_slots c v"
  shows "own_slots c v"
proof -
  have "tree_pages c \<inter> hp_pages (r_page_size c) v = {}"
    using assms(2) unfolding fresh_slots_def tree_pages_def by blast
  then show ?thesis
    using assms(2) paged_list_card(1)[OF tree_okD(1)[OF rinvD(1)[OF inv]]]
    by (auto simp: own_slots_def fresh_slots_def paged_value_def)
qed

lemma cache_free_ok:
  assumes inv: "rinv c A pk pv L" and own: "own_slots c v"
  shows "\<exists>a'. cache_free v c = Inr (c\<lparr>kv_allocator := a'\<rparr>) \<and> rinv (c\<lparr>kv_allocator := a'\<rparr>) A pk pv L \<and>
    al_geom a' = al_geom (kv_allocator c) \<and>
    al_avail a' = al_avail (kv_allocator c) \<union> hp_pages (r_page_size c) v"
proof -
  note i = rinvD[OF inv]
  note o = i(6)[unfolded own_ok_def]
  have ps: "al_page_size (kv_allocator c) = r_page_size c" using o by simp
  obtain a' where a': "kv_free (kv_allocator c) v = Inr a'" "kv_inv a'" "al_geom a' = al_geom (kv_allocator c)"
    "al_avail a' = al_avail (kv_allocator c) \<union> hp_pages (r_page_size c) v"
    using kv_free_slots[of "kv_allocator c" v] o own ps by (auto simp: own_slots_def)
  let ?c = "c\<lparr>kv_allocator := a'\<rparr>"
  have np: "node_pages ?c n = node_pages c n" for n by (simp add: node_pages_def split: option.splits)
  have dis: "node_pages c n \<inter> al_avail a' = {}" if "n \<in> A" for n
  proof -
    have "node_pages c n \<subseteq> tree_pages c" unfolding tree_pages_iff[OF inv] using node_pages_pv[OF i(2) that] that by blast
    then have "node_pages c n \<inter> hp_pages (r_page_size c) v = {}" using own by (auto simp: own_slots_def)
    moreover have "node_pages c n \<inter> al_avail (kv_allocator c) = {}" using o that by blast
    ultimately show ?thesis unfolding a'(4) by blast
  qed
  have "tree_ok ?c A pk"
    by (rule tree_ok_cong[OF i(1)]) (simp_all add: same_config_def same_shape_def)
  moreover have "val_ok ?c A pv" "lock_ok ?c A pk L" "size_ok ?c A"
    using i(2,3,4) by (simp_all add: val_ok_def lock_ok_def size_ok_def)
  moreover have "leaf_ok ?c A" using i(5) is_leaf_nodes[of ?c c] by (simp add: leaf_ok_except_def)
  moreover have "own_ok ?c A"
  proof -
    have "al_page_size a' = r_page_size c" using ps a'(3) by (simp add: al_geom_def)
    then show ?thesis unfolding own_ok_def np using o a'(2,3) dis by (simp add: paged_value_def)
  qed
  ultimately have "rinv ?c A pk pv L" by (simp add: rinv_def)
  then show ?thesis using a' by (intro exI[of _ a']) (simp add: cache_free_def)
qed

section \<open>What a request holds\<close>

definition req_key :: "'a radix_cache_scheme \<Rightarrow> req \<Rightarrow> int list \<Rightarrow> radix_key" where
  "req_key c r toks = page_aligned \<lparr>token_ids = toks, extra_key = rq_extra_key r, is_bigram = r_is_eagle c\<rparr> (r_page_size c)"

definition req_holds ::
  "'a radix_cache_scheme \<Rightarrow> nat multiset \<Rightarrow> req_to_token_pool \<Rightarrow> req \<Rightarrow> int list \<Rightarrow> bool" where
  "req_holds c L p r toks \<longleftrightarrow> (\<exists>idx s. req_pool_idx r = Some idx \<and> last_node r = Some s \<and> s \<in># L \<and>
     length toks \<le> length (req_to_token p idx) \<and>
     (let U = rk_units (req_key c r toks); m = rk_len (req_key c r toks);
          kv = rp_read p idx (length toks); cpl = cache_protected_len r
      in cpl \<le> m \<and> tree_path c s (take cpl U) (take cpl kv) \<and> fresh_slots c (pyslice kv cpl m) \<and>
         own_slots c (drop m kv) \<and>
         hp_pages (r_page_size c) (pyslice kv cpl m) \<inter> hp_pages (r_page_size c) (drop m kv) = {}))"

lemma page_aligned_len:
  "0 < ps \<Longrightarrow> rk_len (page_aligned k ps) = rk_len k div ps * ps"
  by (simp add: page_aligned_def Let_def)

lemma req_key_facts:
  assumes "0 < r_page_size c"
  shows "r_page_size c dvd rk_len (req_key c r toks)" "is_bigram (req_key c r toks) = r_is_eagle c"
    "rk_len (req_key c r toks) \<le> length toks"
    "rk_units (lookup_key c (req_key c r toks)) = rk_units (req_key c r toks)"
    "rk_len (lookup_key c (req_key c r toks)) = rk_len (req_key c r toks)"
proof -
  let ?K = "req_key c r toks"
  let ?k = "\<lparr>token_ids = toks, extra_key = rq_extra_key r, is_bigram = r_is_eagle c\<rparr>"
  show len: "r_page_size c dvd rk_len ?K" unfolding req_key_def by (simp add: page_aligned_len[OF assms])
  show big: "is_bigram ?K = r_is_eagle c" by (simp add: req_key_def page_aligned_def Let_def)
  have "rk_len ?K \<le> rk_len ?k" unfolding req_key_def page_aligned_len[OF assms] by simp
  also have "rk_len ?k \<le> length toks" by (simp add: rk_len_alt)
  finally show "rk_len ?K \<le> length toks" .
  have "(if r_is_eagle c then ?K\<lparr>is_bigram := True\<rparr> else ?K) = ?K" using big by simp
  then have lk: "lookup_key c ?K = page_aligned ?K (r_page_size c)" by (simp add: lookup_key_def)
  have "rk_len ?K div r_page_size c * r_page_size c = rk_len ?K" using len by simp
  then show "rk_units (lookup_key c ?K) = rk_units ?K" "rk_len (lookup_key c ?K) = rk_len ?K"
    unfolding lk page_aligned_def Let_def by (simp_all)
qed

section \<open>Inserting the sequence of a request\<close>

text \<open>
  The common part of both operations: insertion, and the release of the request's own copies of
  what was already cached. \<open>ws\<close> are the slots under which the sequence is cached afterwards.
\<close>

lemma fresh_drop:
  assumes ps: "0 < r_page_size c" and "fresh_slots c v" "r_page_size c dvd k"
  shows "fresh_slots c (drop k v)" "fresh_slots c (take k v)"
    "hp_pages (r_page_size c) (take k v) \<inter> hp_pages (r_page_size c) (drop k v) = {}"
  using paged_list_split[OF ps _ assms(3), of v] assms(2) hp_pages_take_drop[of "r_page_size c" k v]
    al_freeable_take_drop[of "al_geom (kv_allocator c)" v k]
  unfolding fresh_slots_def paged_value_def by blast+

lemma tree_path_cached: "radix_inv c L \<Longrightarrow> tree_path c n us vs \<Longrightarrow> cached c us vs \<and> length us = length vs"
proof -
  assume inv: "radix_inv c L" and p: "tree_path c n us vs"
  obtain A pk pv where r: "rinv c A pk pv L" using inv by (auto simp: radix_inv_def)
  have n: "n \<in> A" "us = pk n" "vs = pv n" using p tree_path_iff[OF r] by auto
  then show ?thesis
    unfolding cached_iff[OF r] using pk_aligned[OF rinvD(1)[OF r] n(1)] length_pv[OF rinvD(1,2)[OF r] n(1)] by auto
qed

lemma insert_and_free:
  assumes inv: "rinv c A pk pv L" and dis: "\<not> r_disable c" and ev: "\<not> enable_kv_cache_events c"
    and holds: "req_holds c L p r toks" and idx: "req_pool_idx r = Some idx"
  defines "K \<equiv> req_key c r toks" and "kv \<equiv> rp_read p idx (length toks)" and "cpl \<equiv> cache_protected_len r"
  shows "\<exists>h c1 a' A' pk' pv' ws. rc_insert env K (Some (take (rk_len K) kv)) (Some prio) chunked c = Inr (h, c1) \<and>
    cache_free (pyslice kv cpl h) c1 = Inr (c1\<lparr>kv_allocator := a'\<rparr>) \<and>
    rinv (c1\<lparr>kv_allocator := a'\<rparr>) A' pk' pv' L \<and> same_config c c1 \<and> inserted A pk pv A' pk' pv' (rk_units K) ws \<and>
    length ws = rk_len K \<and> take cpl ws = take cpl kv \<and> cpl \<le> h \<and> h \<le> rk_len K \<and>
    (\<exists>hs. cached c (take h (rk_units K)) hs \<and> ws = hs @ drop h (take (rk_len K) kv)) \<and>
    al_geom a' = al_geom (kv_allocator c) \<and>
    al_avail a' = al_avail (kv_allocator c) \<union> hp_pages (r_page_size c) (pyslice kv cpl h)"
proof -
  note i = rinvD[OF inv]
  note d = tree_okD[OF i(1)]
  let ?ps = "r_page_size c" and ?U = "rk_units K" and ?n = "rk_len K"
  have ri: "radix_inv c L" using inv by (auto simp: radix_inv_def)
  note K = req_key_facts[OF d(1), of r toks, folded K_def]
  obtain s where s: "last_node r = Some s" "s \<in># L" "length toks \<le> length (req_to_token p idx)" "cpl \<le> ?n"
    "tree_path c s (take cpl ?U) (take cpl kv)" "fresh_slots c (pyslice kv cpl ?n)"
    using holds idx unfolding req_holds_def K_def kv_def cpl_def Let_def by auto
  have lkv: "length kv = length toks" using s(3) by (simp add: kv_def rp_read_def)
  have ccpl: "cached c (take cpl ?U) (take cpl kv)" using tree_path_cached[OF ri s(5)] by simp
  have dcpl: "?ps dvd cpl" using ccpl s(4) by (simp add: cached_def)
  have big: "is_bigram K \<longrightarrow> r_is_eagle c" using K(2) by simp
  obtain m0 c0 where "match_prefix env K c = Inr (m0, c0)" "matched c ?U m0 c0"
    using match_prefix_ok[OF inv dis big] K(4) by (metis K(4))
  then obtain h hs where h: "hit_len c ?U h" "cached c (take h ?U) hs" by (auto simp: matched_def)
  have hn: "h \<le> ?n" using h(1) by (simp add: hit_len_def)
  have cplh: "cpl \<le> h"
    using h(1) ccpl s(4) take_is_prefix[of cpl ?U] by (fastforce simp: hit_len_def)
  have dh: "?ps dvd h" using h(2) hn by (simp add: cached_def)
  have dd: "?ps dvd h - cpl" using dh dcpl by (rule dvd_diff_nat)
  have slice: "drop h (take ?n kv) = drop (h - cpl) (pyslice kv cpl ?n)" "pyslice kv cpl h = take (h - cpl) (pyslice kv cpl ?n)"
    using cplh hn by (simp_all add: pyslice_def take_drop)
  note fr = fresh_drop[OF d(1) s(6) dd, folded slice]
  have lhs: "length hs = h" using cached_length[OF ri h(2)] hn by simp
  define ws where "ws = hs @ drop h (take ?n kv)"
  have tk: "take ?n (take ?n kv) = take ?n kv" by simp
  have "\<exists>c' A' pk' pv'. rc_insert env K (Some (take ?n kv)) (Some prio) chunked c = Inr (h, c') \<and> rinv c' A' pk' pv' L \<and>
    same_config c c' \<and> kv_allocator c' = kv_allocator c \<and> inserted A pk pv A' pk' pv' ?U ws \<and>
    r_evictable_size c' = r_evictable_size c + int (?n - h) \<and> r_protected_size c' = r_protected_size c"
    using rc_insert_ok[OF inv dis ev big, of "take ?n kv" h hs env "Some prio" chunked]
    unfolding K(4,5) tk ws_def using h fr(1) K(3) lkv by simp
  then obtain c1 A' pk' pv' where c1: "rc_insert env K (Some (take ?n kv)) (Some prio) chunked c = Inr (h, c1)"
    "rinv c1 A' pk' pv' L" "same_config c c1" "kv_allocator c1 = kv_allocator c" "inserted A pk pv A' pk' pv' ?U ws" by blast
  have ps1: "r_page_size c1 = ?ps" using c1(3) by (simp add: same_config_def)
  have grown: "grown c ?U ws c1" by (rule cached_inserted[OF inv c1(2) ps1 c1(5)])
  have tcpl: "take cpl ws = take cpl kv"
  proof -
    have "cached c (take cpl ?U) (take cpl hs)"
    proof -
      obtain n us' vs' where n: "tree_path c n us' vs'" "prefix (take h ?U) us'" "hs = take (length (take h ?U)) vs'"
        using h(2) by (auto simp: cached_def)
      have "prefix (take cpl ?U) (take h ?U)" using cplh by (metis min.absorb1 take_is_prefix take_take)
      then have "prefix (take cpl ?U) us'" using n(2) prefix_order.trans by blast
      moreover have "take cpl hs = take (length (take cpl ?U)) vs'" using n(3) cplh hn s(4) by (simp add: min.absorb1)
      moreover have "?ps dvd length (take cpl ?U)" using dcpl s(4) by simp
      ultimately show ?thesis unfolding cached_def using n(1) by blast
    qed
    then have "take cpl hs = take cpl kv" by (rule cached_unique[OF ri _ ccpl])
    then show ?thesis using lhs cplh by (simp add: ws_def)
  qed
  have own1: "own_slots c1 (pyslice kv cpl h)"
  proof -
    have "hp_pages ?ps vs \<inter> hp_pages ?ps (pyslice kv cpl h) = {}" if c1c: "cached c1 us vs" for us vs
    proof -
      have old: "hp_pages ?ps zs \<inter> hp_pages ?ps (pyslice kv cpl h) = {}" if "cached c ys zs" for ys zs
        using fr(2) that by (auto simp: fresh_slots_def)
      consider "cached c us vs" | "vs = take (length us) ws" using grown c1c by (auto simp: grown_def)
      then show ?thesis
      proof cases
        case 2
        have "hp_pages ?ps vs \<subseteq> hp_pages ?ps hs \<union> hp_pages ?ps (drop h (take ?n kv))"
          unfolding 2 ws_def hp_pages_append[symmetric] by (rule hp_pages_take)
        then show ?thesis using old[OF h(2)] fr(3) by blast
      qed (rule old)
    qed
    then have "tree_pages c1 \<inter> hp_pages ?ps (pyslice kv cpl h) = {}" using ps1 by (auto simp: tree_pages_def)
    then show ?thesis
      using fresh_own[OF inv fr(2)] c1(4) ps1 by (auto simp: own_slots_def)
  qed
  obtain a' where a': "cache_free (pyslice kv cpl h) c1 = Inr (c1\<lparr>kv_allocator := a'\<rparr>)"
    "rinv (c1\<lparr>kv_allocator := a'\<rparr>) A' pk' pv' L" "al_geom a' = al_geom (kv_allocator c)"
    "al_avail a' = al_avail (kv_allocator c) \<union> hp_pages ?ps (pyslice kv cpl h)"
    using cache_free_ok[OF c1(2) own1] unfolding c1(4) ps1 by blast
  have lws: "length ws = ?n" using lhs hn lkv K(3) by (simp add: ws_def)
  have hsx: "\<exists>hs. cached c (take h ?U) hs \<and> ws = hs @ drop h (take ?n kv)" using h(2) by (auto simp: ws_def)
  show ?thesis
    using c1(1,3,5) a' lws tcpl cplh hn hsx by blast
qed

section \<open>Unfinished requests\<close>

lemma tree_path_relocked:
  assumes "relocked c c'"
  shows "tree_path c' n us vs \<longleftrightarrow> tree_path c n us vs"
proof -
  have r: "root_node c' = root_node c" "kids c' m = kids c m" "tn_value (nodes c' m) = tn_value (nodes c m)"
    "units_of c' m = units_of c m" for m
    using relocked_fields(1,6)[OF assms] relocked_fields(5)[OF assms, of m]
    by (auto simp: same_config_def same_shape_def kids_def)
  have "tree_path c' n us vs" if "tree_path c n us vs"
    using that by (induction rule: tree_path.induct) (use path_root[of c'] path_child[of c'] r in metis)+
  moreover have "tree_path c n us vs" if "tree_path c' n us vs"
    using that by (induction rule: tree_path.induct) (use path_root[of c] path_child[of c] r in metis)+
  ultimately show ?thesis by blast
qed

lemma cached_relocked:
  assumes "relocked c c'"
  shows "cached c' us vs \<longleftrightarrow> cached c us vs"
  using relocked_fields(1)[OF assms] unfolding cached_def tree_path_relocked[OF assms] by (simp add: same_config_def)

lemma rp_write_ok:
  assumes "a \<le> b" "b \<le> length (req_to_token p idx)" "length vs = b - a"
  shows "rp_write p idx a b vs = Inr (p\<lparr>req_to_token := (req_to_token p)(idx :=
    take a (req_to_token p idx) @ vs @ drop b (req_to_token p idx))\<rparr>)"
  using assms by (simp add: rp_write_def assign_slice_def min.absorb1)

text \<open>The pages of the cached slots after an insertion.\<close>

lemma grown_pages:
  assumes "grown c U ws c'" "r_page_size c' = r_page_size c"
  shows "tree_pages c \<subseteq> tree_pages c'" "tree_pages c' \<subseteq> tree_pages c \<union> hp_pages (r_page_size c) ws"
    "r_page_size c dvd length U \<Longrightarrow> length ws = length U \<Longrightarrow> hp_pages (r_page_size c) ws \<subseteq> tree_pages c'"
proof -
  have mono: "cached c' us vs" if "cached c us vs" for us vs using assms(1) that by (simp add: grown_def)
  show "tree_pages c \<subseteq> tree_pages c'" unfolding tree_pages_def assms(2) using mono by (intro Union_mono) auto
  show "tree_pages c' \<subseteq> tree_pages c \<union> hp_pages (r_page_size c) ws"
  proof
    fix x assume "x \<in> tree_pages c'"
    then obtain us vs where x: "cached c' us vs" "x \<in> hp_pages (r_page_size c) vs"
      using assms(2) by (auto simp: tree_pages_def)
    consider "cached c us vs" | "vs = take (length us) ws" using x(1) assms(1) unfolding grown_def by blast
    then show "x \<in> tree_pages c \<union> hp_pages (r_page_size c) ws"
    proof cases
      case 1
      then show ?thesis using x(2) by (auto simp: tree_pages_def)
    next
      case 2
      then have "hp_pages (r_page_size c) vs \<subseteq> hp_pages (r_page_size c) ws" using hp_pages_take by simp
      then show ?thesis using x(2) by blast
    qed
  qed
  assume "r_page_size c dvd length U" "length ws = length U"
  then have "cached c' U ws" using assms(1) by (simp add: grown_def)
  then show "hp_pages (r_page_size c) ws \<subseteq> tree_pages c'" using assms(2) by (auto simp: tree_pages_def)
qed

lemma slice_pages:
  assumes "a \<le> h" "h \<le> n"
  shows "hp_pages ps (pyslice kv a n) = hp_pages ps (pyslice kv a h) \<union> hp_pages ps (drop h (take n kv))"
proof -
  have "drop h (take n kv) = drop (h - a) (pyslice kv a n)" "pyslice kv a h = take (h - a) (pyslice kv a n)"
    using assms by (simp_all add: pyslice_def take_drop)
  then show ?thesis using hp_pages_take_drop[of ps "h - a" "pyslice kv a n"] by simp
qed

lemma cache_unfinished_ok:
  assumes inv: "radix_inv c L" and dis: "\<not> r_disable c" and ev: "\<not> enable_kv_cache_events c"
    and holds: "req_holds c L p r (fill_ids r)"
  shows "\<exists>p' r' c' s n ws. cache_unfinished_req env p r chunked c = Inr (p', r', c') \<and>
    last_node r = Some s \<and> last_node r' = Some n \<and> cache_protected_len r' = length ws \<and>
    radix_inv c' (add_mset n (L - {#s#})) \<and> req_holds c' (add_mset n (L - {#s#})) p' r' (fill_ids r) \<and>
    tree_path c' n (rk_units (req_key c r (fill_ids r))) ws \<and>
    grown c (rk_units (req_key c r (fill_ids r))) ws c' \<and>
    al_avail (kv_allocator c') \<union> tree_pages c' =
      al_avail (kv_allocator c) \<union> tree_pages c \<union>
        hp_pages (r_page_size c) (pyslice (rp_read p (the (req_pool_idx r)) (length (fill_ids r)))
          (cache_protected_len r) (rk_len (req_key c r (fill_ids r))))"
proof -
  obtain A pk pv where rv: "rinv c A pk pv L" using inv by (auto simp: radix_inv_def)
  note d = tree_okD[OF rinvD(1)[OF rv]]
  define toks where "toks = fill_ids r"
  define K where "K = req_key c r toks"
  let ?ps = "r_page_size c" and ?U = "rk_units K" and ?n = "rk_len K"
  define cpl where "cpl = cache_protected_len r"
  note Kf = req_key_facts[OF d(1), of r toks, folded K_def]
  have holds': "req_holds c L p r toks" using holds by (simp add: toks_def)
  obtain idx s where hs: "req_pool_idx r = Some idx" "last_node r = Some s" "s \<in># L"
      "length toks \<le> length (req_to_token p idx)" "cpl \<le> ?n"
    and tl: "own_slots c (drop ?n (rp_read p idx (length toks)))"
      "hp_pages ?ps (pyslice (rp_read p idx (length toks)) cpl ?n) \<inter> hp_pages ?ps (drop ?n (rp_read p idx (length toks))) = {}"
    using holds' unfolding req_holds_def K_def cpl_def Let_def by auto
  define kv where "kv = rp_read p idx (length toks)"
  note tl = tl[folded kv_def]
  have lkv: "length kv = length toks" using hs(4) by (simp add: kv_def rp_read_def)
  from insert_and_free[OF rv dis ev holds' hs(1), where env = env and prio = "req_priority r" and chunked = chunked,
      folded K_def kv_def cpl_def]
  obtain h c1 a' A1 pk1 pv1 ws zs where s1:
    "rc_insert env K (Some (take ?n kv)) (Some (req_priority r)) chunked c = Inr (h, c1)"
    "cache_free (pyslice kv cpl h) c1 = Inr (c1\<lparr>kv_allocator := a'\<rparr>)"
    "rinv (c1\<lparr>kv_allocator := a'\<rparr>) A1 pk1 pv1 L" "same_config c c1" "inserted A pk pv A1 pk1 pv1 ?U ws"
    "length ws = ?n" "take cpl ws = take cpl kv" "cpl \<le> h" "h \<le> ?n" "cached c (take h ?U) zs"
    "ws = zs @ drop h (take ?n kv)"
    "al_geom a' = al_geom (kv_allocator c)" "al_avail a' = al_avail (kv_allocator c) \<union> hp_pages ?ps (pyslice kv cpl h)"
    by blast
  define c2 where "c2 = c1\<lparr>kv_allocator := a'\<rparr>"
  have cfg2: "r_page_size c2 = ?ps" "r_disable c2 = r_disable c" "r_is_eagle c2 = r_is_eagle c"
    using s1(4) by (simp_all add: c2_def same_config_def)
  have rv2: "rinv c2 A1 pk1 pv1 L" using s1(3) by (simp add: c2_def)
  have grown2: "grown c ?U ws c2" by (rule cached_inserted[OF rv rv2 cfg2(1) s1(5)])
  have lk2: "rk_units (lookup_key c2 K) = ?U" using Kf(4) by (simp add: lookup_key_def cfg2)
  have "\<not> r_disable c2" "is_bigram K \<longrightarrow> r_is_eagle c2" using dis cfg2 Kf(2) by simp_all
  from match_prefix_ok[OF rv2 this, of env] obtain m c3 A3 pk3 pv3 where
    m: "match_prefix env K c2 = Inr (m, c3)" "rinv c3 A3 pk3 pv3 L" "same_meta c2 c3"
      "same_content A1 pk1 pv1 A3 pk3 pv3" "matched c2 ?U m c3"
    unfolding lk2 by blast
  have cU: "cached c2 ?U ws" using grown2 Kf(1) s1(6) by (simp add: grown_def)
  have len: "length (device_indices m) = ?n"
    using m(5) cU unfolding matched_def hit_len_def by (metis le_antisym length_rk_units prefix_order.refl)
  have di: "device_indices m = ws"
  proof (rule cached_unique[OF _ _ cU])
    show "radix_inv c2 L" using rv2 by (auto simp: radix_inv_def)
    show "cached c2 ?U (device_indices m)" using m(5) len by (simp add: matched_def)
  qed
  have tp3: "tree_path c3 (last_device_node m) ?U ws" using m(5) len di by (simp add: matched_def)
  have nA3: "last_device_node m \<in> A3" using tp3 tree_path_iff[OF m(2)] by simp
  have c3: "\<And>us vs. cached c3 us vs \<longleftrightarrow> cached c2 us vs" using m(5) by (simp add: matched_def)
  have dis3: "\<not> r_disable c3" using m(3) dis cfg2 by (simp add: same_meta_def same_config_def)
  from dec_lock_ref_ok[OF m(2) hs(3) dis3] obtain d1 c4 where
    c4: "dec_lock_ref s c3 = Inr (d1, c4)" "rinv c4 A3 pk3 pv3 (L - {#s#})" "relocked c3 c4" by blast
  have dis4: "\<not> r_disable c4" using relocked_fields(1)[OF c4(3)] dis3 by (simp add: same_config_def)
  from inc_lock_ref_ok[OF c4(2) nA3 dis4] obtain d2 c5 where
    c5: "inc_lock_ref (last_device_node m) c4 = Inr (d2, c5)" "relocked c4 c5"
      "rinv c5 A3 pk3 pv3 (add_mset (last_device_node m) (L - {#s#}))" by blast
  define L' where "L' = add_mset (last_device_node m) (L - {#s#})"
  define row where "row = take cpl (req_to_token p idx) @ drop cpl ws @ drop ?n (req_to_token p idx)"
  define p' where "p' = p\<lparr>req_to_token := (req_to_token p)(idx := row)\<rparr>"
  have wr: "rp_write p idx cpl ?n (drop cpl ws) = Inr p'"
    unfolding p'_def row_def by (rule rp_write_ok) (use hs(4,5) Kf(3) s1(6) in simp_all)
  define r' where "r' = r\<lparr>cache_protected_len := ?n,
     prefix_indices := (if ?n < length kv then ws @ drop ?n kv else ws), last_node := Some (last_device_node m)\<rparr>"
  have key: "page_aligned \<lparr>token_ids = toks, extra_key = rq_extra_key r, is_bigram = r_is_eagle c\<rparr> ?ps = K"
    by (simp add: K_def req_key_def)
  have run: "cache_unfinished_req env p r chunked c = Inr (p', r', c5)"
    unfolding cache_unfinished_req_def Let_def key toks_def[symmetric] cpl_def[symmetric]
    using dis hs(1,2) s1(1,2) m(1) len di wr c4(1) c5(1) s1(6)
    by (simp add: kv_def[symmetric] c2_def[symmetric] r'_def)
  have rel: "relocked c3 c5" by (rule relocked_trans[OF c4(3) c5(2)])
  have cached5: "cached c5 us vs \<longleftrightarrow> cached c2 us vs" for us vs using cached_relocked[OF rel] c3 by simp
  have ps5: "r_page_size c5 = ?ps"
    using relocked_fields(1)[OF rel] m(3) cfg2 by (simp add: same_meta_def same_config_def)
  have eagle5: "r_is_eagle c5 = r_is_eagle c"
    using relocked_fields(1)[OF rel] m(3) cfg2 by (simp add: same_meta_def same_config_def)
  have al5: "kv_allocator c5 = a'"
    using relocked_fields(3)[OF rel] m(3) by (simp add: same_meta_def same_counters_def c2_def)
  have grown5: "grown c ?U ws c5" using grown2 cached5 by (simp add: grown_def)
  have tp5: "tree_path c5 (last_device_node m) ?U ws" using tree_path_relocked[OF rel] tp3 by simp
  have inv5: "radix_inv c5 L'" using c5(3) by (auto simp: radix_inv_def L'_def)
  have wsp: "hp_pages ?ps ws \<subseteq> tree_pages c \<union> hp_pages ?ps (pyslice kv cpl ?n)"
  proof -
    have "hp_pages ?ps zs \<subseteq> tree_pages c" using s1(10) by (auto simp: tree_pages_def)
    moreover have "hp_pages ?ps (drop h (take ?n kv)) \<subseteq> hp_pages ?ps (pyslice kv cpl ?n)"
      using slice_pages[OF s1(8,9), of ?ps kv] by blast
    ultimately show ?thesis unfolding s1(11) hp_pages_append by blast
  qed
  have tree5: "tree_pages c5 \<subseteq> tree_pages c \<union> hp_pages ?ps (pyslice kv cpl ?n)"
    using grown_pages(2)[OF grown5 ps5] wsp by blast
  have sub: "hp_pages ?ps (pyslice kv cpl h) \<subseteq> hp_pages ?ps (pyslice kv cpl ?n)"
    using slice_pages[OF s1(8,9), of ?ps kv] by blast
  have key5: "req_key c5 r' toks = K" by (simp add: req_key_def K_def r'_def ps5 eagle5)
  have kv5: "rp_read p' idx (length toks) = ws @ drop ?n kv"
  proof -
    have "take cpl (req_to_token p idx) = take cpl ws"
      using s1(7) hs(5) Kf(3) by (simp add: kv_def rp_read_def min.absorb1)
    then have row: "row = ws @ drop ?n (req_to_token p idx)" by (simp add: row_def)
    show ?thesis
      unfolding rp_read_def p'_def using s1(6) Kf(3) row by (simp add: kv_def rp_read_def drop_take)
  qed
  have "req_holds c5 L' p' r' toks"
  proof -
    have fresh: "fresh_slots c5 (pyslice (ws @ drop ?n kv) ?n ?n)"
      using s1(6) by (simp add: pyslice_def fresh_slots_def paged_value_def paged_list_def al_freeable_def hp_pages_def exI[of _ "[]"])
    have own: "own_slots c5 (drop ?n kv)"
    proof -
      have "hp_pages ?ps (drop ?n kv) \<inter> (al_avail a' \<union> tree_pages c5) = {}"
        using tl tree5 sub unfolding own_slots_def s1(13) by blast
      then show ?thesis using tl(1) s1(12) unfolding own_slots_def al5 ps5 by simp
    qed
    have nil: "pyslice (ws @ drop ?n kv) ?n ?n = []" by (simp add: pyslice_def)
    have row_len: "length toks \<le> length row" using hs(4) s1(6) Kf(3) hs(5) by (simp add: row_def)
    have "req_pool_idx r' = Some idx" "last_node r' = Some (last_device_node m)" "last_device_node m \<in># L'"
      "cache_protected_len r' = ?n" using hs(1) by (simp_all add: r'_def L'_def)
    then show ?thesis
      unfolding req_holds_def key5 Let_def
      using kv5 tp5 fresh own nil s1(6) row_len
      by (intro exI[of _ idx] exI[of _ "last_device_node m"]) (simp add: p'_def hp_pages_def)
  qed
  moreover have "al_avail (kv_allocator c5) \<union> tree_pages c5 =
      al_avail (kv_allocator c) \<union> tree_pages c \<union> hp_pages ?ps (pyslice kv cpl ?n)"
    unfolding al5 s1(13) using tree5 sub grown_pages[OF grown5 ps5] slice_pages[OF s1(8,9), of ?ps kv] Kf(1) s1(6,11)
    by (auto simp: hp_pages_append)
  ultimately show ?thesis
    using run hs(1,2) inv5 tp5 grown5 s1(6)
    unfolding toks_def[symmetric] K_def[symmetric] cpl_def[symmetric] L'_def
    by (intro exI[of _ p'] exI[of _ r'] exI[of _ c5] exI[of _ s] exI[of _ "last_device_node m"] exI[of _ ws])
      (simp add: r'_def kv_def)
qed

section \<open>Finished requests\<close>

text \<open>
  The end of a request: the tail is freed and the held node is released. \<open>c1\<close> is the cache
  after the first part, in which the pages \<open>P\<close> have become free or cached.
\<close>

lemma finish_tail:
  assumes rv: "rinv c1 A pk pv L" and s: "s \<in># L" and dis: "\<not> r_disable c1" and own: "own_slots c1 tail"
  shows "\<exists>c2 d c3. cache_free tail c1 = Inr c2 \<and> dec_lock_ref s c2 = Inr (d, c3) \<and>
    radix_inv c3 (L - {#s#}) \<and> (\<forall>us vs. cached c3 us vs \<longleftrightarrow> cached c1 us vs) \<and>
    r_page_size c3 = r_page_size c1 \<and>
    al_avail (kv_allocator c3) = al_avail (kv_allocator c1) \<union> hp_pages (r_page_size c1) tail"
proof -
  obtain a2 where a2: "cache_free tail c1 = Inr (c1\<lparr>kv_allocator := a2\<rparr>)" "rinv (c1\<lparr>kv_allocator := a2\<rparr>) A pk pv L"
    "al_avail a2 = al_avail (kv_allocator c1) \<union> hp_pages (r_page_size c1) tail"
    using cache_free_ok[OF rv own] by blast
  define c2 where "c2 = c1\<lparr>kv_allocator := a2\<rparr>"
  have rv2: "rinv c2 A pk pv L" using a2(2) by (simp add: c2_def)
  have "\<not> r_disable c2" using dis by (simp add: c2_def)
  from dec_lock_ref_ok[OF rv2 s this] obtain dl c3 where
    c3: "dec_lock_ref s c2 = Inr (dl, c3)" "rinv c3 A pk pv (L - {#s#})" "relocked c2 c3" by blast
  have ps: "r_page_size c3 = r_page_size c1" using relocked_fields(1)[OF c3(3)] by (simp add: same_config_def c2_def)
  moreover have "cached c3 us vs \<longleftrightarrow> cached c1 us vs" for us vs
    unfolding cached_iff[OF c3(2)] cached_iff[OF rv] ps ..
  moreover have "radix_inv c3 (L - {#s#})" using c3(2) by (auto simp: radix_inv_def)
  moreover have "kv_allocator c3 = a2" using relocked_fields(3)[OF c3(3)] by (simp add: c2_def)
  ultimately show ?thesis using a2(1,3) c3(1) by (auto simp: c2_def)
qed

lemma cached_tree_pages:
  "(\<And>us vs. cached c' us vs \<longleftrightarrow> cached c us vs) \<Longrightarrow> r_page_size c' = r_page_size c \<Longrightarrow> tree_pages c' = tree_pages c"
  by (simp add: tree_pages_def)

lemma cache_finished_ok:
  fixes strip is_insert :: bool
  assumes inv: "radix_inv c L" and dis: "\<not> r_disable c" and ev: "\<not> enable_kv_cache_events c"
    and nf: "\<not> kv_committed_freed r"
  defines "toks \<equiv> take (cache_commit_len strip r) (origin_input_ids r @ output_ids r)"
  defines "ins \<equiv> \<not> r_disable_finished_insert c \<and> is_insert"
  assumes holds: "req_holds c L p r toks"
  shows "\<exists>s c' ws. cache_finished_req env strip p r is_insert c = Inr (r\<lparr>kv_committed_freed := True\<rparr>, c') \<and>
    last_node r = Some s \<and> radix_inv c' (L - {#s#}) \<and>
    (if ins then grown c (rk_units (req_key c r toks)) ws c' \<and> length ws = rk_len (req_key c r toks)
     else \<forall>us vs. cached c' us vs \<longleftrightarrow> cached c us vs) \<and>
    al_avail (kv_allocator c') \<union> tree_pages c' =
      al_avail (kv_allocator c) \<union> tree_pages c \<union>
        hp_pages (r_page_size c) (drop (cache_protected_len r) (rp_read p (the (req_pool_idx r)) (length toks)))"
proof -
  obtain A pk pv where rv: "rinv c A pk pv L" using inv by (auto simp: radix_inv_def)
  note d = tree_okD[OF rinvD(1)[OF rv]]
  define K where "K = req_key c r toks"
  let ?ps = "r_page_size c" and ?U = "rk_units K" and ?n = "rk_len K"
  define cpl where "cpl = cache_protected_len r"
  note Kf = req_key_facts[OF d(1), of r toks, folded K_def]
  obtain idx s where hs: "req_pool_idx r = Some idx" "last_node r = Some s" "s \<in># L"
      "length toks \<le> length (req_to_token p idx)" "cpl \<le> ?n" "fresh_slots c (pyslice (rp_read p idx (length toks)) cpl ?n)"
    and tl: "own_slots c (drop ?n (rp_read p idx (length toks)))"
      "hp_pages ?ps (pyslice (rp_read p idx (length toks)) cpl ?n) \<inter> hp_pages ?ps (drop ?n (rp_read p idx (length toks))) = {}"
    using holds unfolding req_holds_def K_def cpl_def Let_def by auto
  define kv where "kv = rp_read p idx (length toks)"
  note tl = tl[folded kv_def] and fr = hs(6)[folded kv_def]
  have split: "hp_pages ?ps (drop cpl kv) = hp_pages ?ps (pyslice kv cpl ?n) \<union> hp_pages ?ps (drop ?n kv)"
    using slice_pages[OF hs(5), of "max ?n (length kv)" ?ps kv] by (simp add: pyslice_def)
  define r1 where "r1 = r\<lparr>kv_committed_freed := True\<rparr>"
  have key: "page_aligned \<lparr>token_ids = toks, extra_key = rq_extra_key r, is_bigram = r_is_eagle c\<rparr> ?ps = K"
    by (simp add: K_def req_key_def)
  have run: "cache_finished_req env strip p r is_insert c =
      bindR (if ins
             then bindR (rc_insert env K (Some (take ?n kv)) (Some (req_priority r)) False c)
                    (\<lambda>(prefix_len, c). cache_free (pyslice kv cpl prefix_len) c)
             else cache_free (pyslice kv cpl ?n) c) (\<lambda>c.
      bindR (cache_free (drop ?n kv) c) (\<lambda>c. bindR (dec_lock_ref s c) (\<lambda>(_, c). Inr (r1, c))))"
    unfolding cache_finished_req_def pop_committed_kv_cache_def Let_def
    using nf dis hs(1,2)
    by (simp add: toks_def[symmetric] key kv_def[symmetric] cpl_def[symmetric] r1_def ins_def req_priority_def
        del: take_append length_take length_append)
  have fin: ?thesis
    if c1: "(if ins
             then bindR (rc_insert env K (Some (take ?n kv)) (Some (req_priority r)) False c)
                    (\<lambda>(prefix_len, c). cache_free (pyslice kv cpl prefix_len) c)
             else cache_free (pyslice kv cpl ?n) c) = Inr c1"
      and rv1: "rinv c1 A1 pk1 pv1 L" and cfg: "r_disable c1 = r_disable c" "r_page_size c1 = ?ps"
      and al: "al_geom (kv_allocator c1) = al_geom (kv_allocator c)"
      and pages: "al_avail (kv_allocator c1) \<union> tree_pages c1 =
          al_avail (kv_allocator c) \<union> tree_pages c \<union> hp_pages ?ps (pyslice kv cpl ?n)"
      and cont: "if ins then grown c ?U ws c1 \<and> length ws = ?n else \<forall>us vs. cached c1 us vs \<longleftrightarrow> cached c us vs"
    for c1 A1 pk1 pv1 ws
  proof -
    have own1: "own_slots c1 (drop ?n kv)"
    proof -
      have "hp_pages ?ps (drop ?n kv) \<inter> (al_avail (kv_allocator c1) \<union> tree_pages c1) = {}"
        unfolding pages using tl by (auto simp: own_slots_def)
      then show ?thesis using tl(1) al cfg(2) by (simp add: own_slots_def)
    qed
    have "\<not> r_disable c1" using cfg dis by simp
    from finish_tail[OF rv1 hs(3) this own1] obtain c2 dl c3 where
      f: "cache_free (drop ?n kv) c1 = Inr c2" "dec_lock_ref s c2 = Inr (dl, c3)" "radix_inv c3 (L - {#s#})"
        "\<And>us vs. cached c3 us vs \<longleftrightarrow> cached c1 us vs" "r_page_size c3 = r_page_size c1"
        "al_avail (kv_allocator c3) = al_avail (kv_allocator c1) \<union> hp_pages (r_page_size c1) (drop ?n kv)" by blast
    have tp: "tree_pages c3 = tree_pages c1" by (rule cached_tree_pages[OF f(4,5)])
    have "cache_finished_req env strip p r is_insert c = Inr (r1, c3)"
      unfolding run c1 using f(1,2) by simp
    moreover have "al_avail (kv_allocator c3) \<union> tree_pages c3 =
        al_avail (kv_allocator c) \<union> tree_pages c \<union> hp_pages ?ps (drop cpl kv)"
      unfolding tp f(6) cfg(2) split using pages by blast
    moreover have "if ins then grown c ?U ws c3 \<and> length ws = ?n else \<forall>us vs. cached c3 us vs \<longleftrightarrow> cached c us vs"
      using cont f(4) by (auto simp: grown_def)
    ultimately show ?thesis
      using f(3) hs(1,2) unfolding K_def[symmetric] cpl_def[symmetric] r1_def
      by (intro exI[of _ s] exI[of _ c3] exI[of _ ws]) (simp add: kv_def)
  qed
  show ?thesis
  proof (cases ins)
    case True
    from insert_and_free[OF rv dis ev holds hs(1), where env = env and prio = "req_priority r" and chunked = False,
        folded K_def kv_def cpl_def]
    obtain h c1 a' A1 pk1 pv1 ws zs where s1:
      "rc_insert env K (Some (take ?n kv)) (Some (req_priority r)) False c = Inr (h, c1)"
      "cache_free (pyslice kv cpl h) c1 = Inr (c1\<lparr>kv_allocator := a'\<rparr>)"
      "rinv (c1\<lparr>kv_allocator := a'\<rparr>) A1 pk1 pv1 L" "same_config c c1" "inserted A pk pv A1 pk1 pv1 ?U ws"
      "length ws = ?n" "cpl \<le> h" "h \<le> ?n" "cached c (take h ?U) zs" "ws = zs @ drop h (take ?n kv)"
      "al_geom a' = al_geom (kv_allocator c)" "al_avail a' = al_avail (kv_allocator c) \<union> hp_pages ?ps (pyslice kv cpl h)"
      by blast
    let ?c = "c1\<lparr>kv_allocator := a'\<rparr>"
    have cfg: "r_disable ?c = r_disable c" "r_page_size ?c = ?ps" using s1(4) by (simp_all add: same_config_def)
    have gr: "grown c ?U ws ?c" by (rule cached_inserted[OF rv s1(3) cfg(2) s1(5)])
    have "hp_pages ?ps zs \<subseteq> tree_pages c" using s1(9) by (auto simp: tree_pages_def)
    moreover have "hp_pages ?ps ws = hp_pages ?ps zs \<union> hp_pages ?ps (drop h (take ?n kv))"
      unfolding s1(10) hp_pages_append ..
    moreover have "hp_pages ?ps ws \<subseteq> tree_pages ?c" by (rule grown_pages(3)[OF gr cfg(2)]) (use Kf(1) s1(6) in simp_all)
    ultimately have pages: "al_avail (kv_allocator ?c) \<union> tree_pages ?c =
        al_avail (kv_allocator c) \<union> tree_pages c \<union> hp_pages ?ps (pyslice kv cpl ?n)"
      using grown_pages(1,2)[OF gr cfg(2)] slice_pages[OF s1(7,8), of ?ps kv] s1(12) by auto
    show ?thesis
      by (rule fin[of ?c A1 pk1 pv1 ws]) (use True s1 cfg gr pages in simp_all)
  next
    case False
    obtain a' where a': "cache_free (pyslice kv cpl ?n) c = Inr (c\<lparr>kv_allocator := a'\<rparr>)"
      "rinv (c\<lparr>kv_allocator := a'\<rparr>) A pk pv L" "al_geom a' = al_geom (kv_allocator c)"
      "al_avail a' = al_avail (kv_allocator c) \<union> hp_pages ?ps (pyslice kv cpl ?n)"
      using cache_free_ok[OF rv fresh_own[OF rv fr]] by blast
    let ?c = "c\<lparr>kv_allocator := a'\<rparr>"
    have ps: "r_page_size ?c = r_page_size c" by simp
    have same: "cached ?c us vs \<longleftrightarrow> cached c us vs" for us vs
      unfolding cached_iff[OF a'(2)] cached_iff[OF rv] ps ..
    have "tree_pages ?c = tree_pages c" by (rule cached_tree_pages[OF same ps])
    then show ?thesis
      by (intro fin[of ?c A pk pv "[]"]) (use False a' same in auto)
  qed
qed

end
