(* ===== verification/RadixProps.thy ===== *)
theory RadixProps
  imports RadixReq
begin

text \<open>
  The properties of the radix cache: lookup, insertion, locks, eviction, the caching of
  requests, and the invariant of every sequence of operations. The main theorems take the
  placement events to be off (\<^verbatim>\<open>enable_kv_cache_events\<close>), which only affects the event queue.
\<close>

section \<open>A concrete cache\<close>

text \<open>Pages of two slots; pages 5 and 6 are free, pages 1 and 2 hold the cached sequence.\<close>

definition demo_env :: pyenv where
  "demo_env = \<lparr>clk = int, sha256 = (\<lambda>_. replicate 64 (CHR ''a'')), set_iter = rev\<rparr>"

definition demo_base :: radix_cache where
  "demo_base = \<lparr>r_disable = False, r_page_size = 2, r_is_eagle = False, r_disable_finished_insert = False,
     r_policy = LRU, enable_kv_cache_events = False, kv_event_queue = [], nodes = (\<lambda>_. undefined), next_ref = 0,
     ticks = 0, root_node = 0, r_evictable_size = 0, r_protected_size = 0, evictable_leaves = [],
     kv_allocator = (pg_init 14 2 False False)\<lparr>free_pages := [5, 6]\<rparr>\<rparr>"

definition demo_empty :: radix_cache where
  "demo_empty = reset demo_env demo_base"

definition demo_key :: "int list \<Rightarrow> radix_key" where
  "demo_key ts = \<lparr>token_ids = ts, extra_key = None, is_bigram = False\<rparr>"

definition demo_cache :: radix_cache where
  "demo_cache = (case rc_insert demo_env (demo_key [7, 8, 9, 10]) (Some [2, 3, 4, 5]) None False demo_empty of
     Inr (_, c) \<Rightarrow> c | Inl _ \<Rightarrow> demo_base)"

lemma demo_base_facts:
  "r_page_size demo_base = 2" "kv_inv (kv_allocator demo_base)" "al_page_size (kv_allocator demo_base) = 2"
  "al_avail (kv_allocator demo_base) = {5, 6}" "al_geom (kv_allocator demo_base) = (14, 2, False, False)"
  by (simp_all add: demo_base_def pg_init_def pg_clear_def kv_inv_def alloc_inv_def al_pages_def al_num_pages_def
      al_avail_def al_geom_def)

lemma demo_empty_fields:
  "\<not> r_disable demo_empty" "r_page_size demo_empty = 2" "\<not> r_is_eagle demo_empty" "\<not> enable_kv_cache_events demo_empty"
  "kv_allocator demo_empty = kv_allocator demo_base" "r_policy demo_empty = LRU" "\<not> r_disable_finished_insert demo_empty"
  by (simp_all add: demo_empty_def reset_def demo_base_def new_tree_node_def record_all_cleared_event_def Let_def)

lemma demo_empty_inv: "radix_inv demo_empty {#}" "cached demo_empty us vs \<longleftrightarrow> us = [] \<and> vs = []"
proof -
  show "radix_inv demo_empty {#}"
    unfolding radix_inv_def demo_empty_def using reset_inv[of demo_base demo_env] demo_base_facts by auto
  show "cached demo_empty us vs \<longleftrightarrow> us = [] \<and> vs = []"
    unfolding demo_empty_def by (rule cached_reset) (simp_all add: demo_base_facts)
qed

lemma demo_paged:
  "fresh_slots demo_empty [2, 3, 4, 5]" "fresh_slots demo_empty [6, 7]"
proof -
  have "paged_list 2 [2, 3, 4, 5]" "paged_list 2 [6, 7]"
    unfolding paged_list_def by (rule exI[of _ "[1, 2]"], simp add: page_slots_def upt_rec)
      (rule exI[of _ "[3]"], simp add: page_slots_def upt_rec)
  then show "fresh_slots demo_empty [2, 3, 4, 5]" "fresh_slots demo_empty [6, 7]"
    by (auto simp: fresh_slots_def paged_value_def demo_empty_fields demo_base_facts demo_empty_inv(2)
        al_freeable_def al_page_of_def hp_pages_def)
qed

lemma demo_lookup: "lookup_key c (demo_key ts) = demo_key (take (length ts div 2 * 2) ts)"
  if "r_page_size c = 2" "\<not> r_is_eagle c"
  using that by (simp add: lookup_key_def demo_key_def page_aligned_def rk_upto_def rk_slice_def rk_len_def pyslice_def Let_def)

lemma demo_units: "rk_units (demo_key ts) = map (\<lambda>t. (None, PInt t)) ts" "rk_len (demo_key ts) = length ts"
  "is_bigram (demo_key ts) = False"
  by (simp_all add: rk_units_def rk_iter_def demo_key_def rk_len_def Let_def)

section \<open>Lookup and insertion\<close>

text \<open>
  C4. A lookup never raises. It returns the slots of the longest page-aligned prefix of the
  key that is cached and the node that ends this prefix, leaves the cached contents as they
  are (it may split one edge) and keeps the invariant.
\<close>

theorem match_prefix_longest:
  assumes "radix_inv c L" "\<not> r_disable c" "is_bigram key \<longrightarrow> r_is_eagle c"
  defines "U \<equiv> rk_units (lookup_key c key)"
  shows "\<exists>r c'. match_prefix env key c = Inr (r, c') \<and> radix_inv c' L \<and>
    (\<forall>us vs. cached c' us vs \<longleftrightarrow> cached c us vs) \<and>
    hit_len c U (length (device_indices r)) \<and>
    cached c (take (length (device_indices r)) U) (device_indices r) \<and>
    tree_path c' (last_device_node r) (take (length (device_indices r)) U) (device_indices r)"
proof -
  obtain A pk pv where "rinv c A pk pv L" using assms(1) by (auto simp: radix_inv_def)
  from match_prefix_ok[OF this assms(2,3), of env] show ?thesis
    unfolding radix_inv_def matched_def U_def by blast
qed

text \<open>
  C7. An insertion never raises, returns how many tokens were already cached and caches the
  sequence: the part found keeps its slots, the rest gets the slots passed in, and nothing
  else is added or lost. The new tokens count as evictable.
\<close>

theorem insert_caches:
  assumes "radix_inv c L" "\<not> r_disable c" "\<not> enable_kv_cache_events c" "is_bigram key \<longrightarrow> r_is_eagle c"
  defines "K \<equiv> lookup_key c key"
  assumes "rk_len K \<le> length val" "hit_len c (rk_units K) h" "fresh_slots c (drop h (take (rk_len K) val))"
  shows "\<exists>c' hs. rc_insert env key (Some val) prio chunked c = Inr (h, c') \<and> radix_inv c' L \<and>
    cached c (take h (rk_units K)) hs \<and>
    (\<forall>us vs. cached c' us vs \<longleftrightarrow> cached c us vs \<or> r_page_size c dvd length us \<and> prefix us (rk_units K) \<and>
       vs = take (length us) (hs @ drop h (take (rk_len K) val))) \<and>
    evictable_size c' = evictable_size c + int (rk_len K - h) \<and> protected_size c' = protected_size c"
proof -
  obtain A pk pv where inv: "rinv c A pk pv L" using assms(1) by (auto simp: radix_inv_def)
  obtain hs where hs: "cached c (take h (rk_units K)) hs" using assms(7) by (auto simp: hit_len_def)
  from rc_insert_ok[OF inv assms(2-4) assms(6-8)[unfolded K_def] hs[unfolded K_def], folded K_def, of env prio chunked]
  obtain c' A' pk' pv' where c': "rc_insert env key (Some val) prio chunked c = Inr (h, c')" "rinv c' A' pk' pv' L"
    "same_config c c'" "inserted A pk pv A' pk' pv' (rk_units K) (hs @ drop h (take (rk_len K) val))"
    "r_evictable_size c' = r_evictable_size c + int (rk_len K - h)" "r_protected_size c' = r_protected_size c" by blast
  have "r_page_size c' = r_page_size c" using c'(3) by (simp add: same_config_def)
  from cached_inserted[OF inv c'(2) this c'(4)] show ?thesis
    using c' hs unfolding radix_inv_def grown_def evictable_size_def protected_size_def by blast
qed

text \<open>
  C31. What has been inserted is found: looking the key up right after its insertion returns a
  slot for every token of the page-aligned key, the new tokens with the slots passed in.
\<close>

theorem insert_match_roundtrip:
  assumes "radix_inv c L" "\<not> r_disable c" "\<not> enable_kv_cache_events c" "is_bigram key \<longrightarrow> r_is_eagle c"
  defines "K \<equiv> lookup_key c key"
  assumes "rk_len K \<le> length val" "hit_len c (rk_units K) h" "fresh_slots c (drop h (take (rk_len K) val))"
  shows "\<exists>c' r c''. rc_insert env key (Some val) prio chunked c = Inr (h, c') \<and>
    match_prefix env' key c' = Inr (r, c'') \<and> length (device_indices r) = rk_len K \<and>
    drop h (device_indices r) = drop h (take (rk_len K) val) \<and>
    cached c (take h (rk_units K)) (take h (device_indices r))"
proof -
  obtain A pk pv where inv: "rinv c A pk pv L" using assms(1) by (auto simp: radix_inv_def)
  obtain hs where hs: "cached c (take h (rk_units K)) hs" using assms(7) by (auto simp: hit_len_def)
  from rc_insert_ok[OF inv assms(2-4) assms(6-8)[unfolded K_def] hs[unfolded K_def], folded K_def, of env prio chunked]
  obtain c' A' pk' pv' where c': "rc_insert env key (Some val) prio chunked c = Inr (h, c')" "rinv c' A' pk' pv' L"
    "same_config c c'" "inserted A pk pv A' pk' pv' (rk_units K) (hs @ drop h (take (rk_len K) val))" by blast
  have cfg: "r_page_size c' = r_page_size c" "r_is_eagle c' = r_is_eagle c" "r_disable c' = r_disable c"
    using c'(3) by (simp_all add: same_config_def)
  let ?ws = "hs @ drop h (take (rk_len K) val)"
  have h: "h \<le> rk_len K" using assms(7) by (simp add: hit_len_def)
  have lhs: "length hs = h" using cached_length[OF assms(1) hs] h by simp
  have lws: "length ?ws = rk_len K" using lhs h assms(6) by simp
  have "r_page_size c dvd rk_len K" unfolding K_def by (rule lookup_key_ok(1)) (use tree_okD(1)[OF rinvD(1)[OF inv]] assms(4) in auto)
  then have cU: "cached c' (rk_units K) ?ws"
    using cached_inserted[OF inv c'(2) cfg(1) c'(4)] lws unfolding grown_def by simp
  have K': "lookup_key c' key = K" using cfg by (simp add: lookup_key_def K_def)
  obtain r c'' where r: "match_prefix env' key c' = Inr (r, c'')" "matched c' (rk_units K) r c''"
    using match_prefix_ok[OF c'(2), of key env'] assms(2,4) cfg K' by auto
  have len: "length (device_indices r) = rk_len K"
    using r(2) cU unfolding matched_def hit_len_def by (metis le_antisym length_rk_units prefix_order.refl)
  have "device_indices r = ?ws"
  proof (rule cached_unique[OF _ _ cU])
    show "radix_inv c' L" using c'(2) by (auto simp: radix_inv_def)
    show "cached c' (rk_units K) (device_indices r)" using r(2) len by (simp add: matched_def)
  qed
  then show ?thesis using c'(1) r(1) len hs lhs by auto
qed

lemma demo_lookup_empty: "lookup_key demo_empty (demo_key [7, 8, 9, 10, 11]) = demo_key [7, 8, 9, 10]"
  by (simp add: demo_lookup demo_empty_fields)

lemma demo_hit: "hit_len demo_empty U 0"
  by (simp add: hit_len_def demo_empty_inv(2))

theorem insert_caches_witness:
  "\<exists>c' hs. rc_insert demo_env (demo_key [7, 8, 9, 10, 11]) (Some [2, 3, 4, 5, 6]) None False demo_empty = Inr (0, c') \<and>
     radix_inv c' {#} \<and> cached c' (map (\<lambda>t. (None, PInt t)) [7, 8, 9, 10]) [2, 3, 4, 5]"
  using insert_caches[OF demo_empty_inv(1) demo_empty_fields(1,4), of "demo_key [7, 8, 9, 10, 11]" "[2, 3, 4, 5, 6]" 0 demo_env None False]
    demo_paged(1) demo_hit demo_empty_inv(2)
  by (auto simp: demo_lookup_empty demo_empty_fields demo_units)

theorem insert_match_roundtrip_witness:
  "\<exists>c' r c''. rc_insert demo_env (demo_key [7, 8, 9, 10, 11]) (Some [2, 3, 4, 5, 6]) None False demo_empty = Inr (0, c') \<and>
     match_prefix demo_env (demo_key [7, 8, 9, 10, 11]) c' = Inr (r, c'') \<and> device_indices r = [2, 3, 4, 5]"
  using insert_match_roundtrip[OF demo_empty_inv(1) demo_empty_fields(1,4), of "demo_key [7, 8, 9, 10, 11]" "[2, 3, 4, 5, 6]" 0
      demo_env None False demo_env]
    demo_paged(1) demo_hit
  by (auto simp: demo_lookup_empty demo_empty_fields demo_units)

lemma demo_cache_facts:
  "radix_inv demo_cache {#}" "\<not> r_disable demo_cache" "\<not> enable_kv_cache_events demo_cache" "r_page_size demo_cache = 2"
  "\<not> r_is_eagle demo_cache" "kv_allocator demo_cache = kv_allocator demo_base"
  "cached demo_cache us vs \<longleftrightarrow> even (length us) \<and> prefix us (map (\<lambda>t. (None, PInt t)) [7, 8, 9, 10]) \<and>
     vs = take (length us) [2, 3, 4, 5]"
  "r_evictable_size demo_cache = 4"
proof -
  obtain A pk pv where inv: "rinv demo_empty A pk pv {#}" using demo_empty_inv(1) by (auto simp: radix_inv_def)
  have L: "lookup_key demo_empty (demo_key [7, 8, 9, 10]) = demo_key [7, 8, 9, 10]"
    by (simp add: demo_lookup demo_empty_fields)
  have "cached demo_empty (take 0 (rk_units (demo_key [7, 8, 9, 10]))) []" by (simp add: demo_empty_inv(2))
  from rc_insert_ok[OF inv demo_empty_fields(1,4), of "demo_key [7, 8, 9, 10]" "[2, 3, 4, 5]" 0 "[]" demo_env None False, unfolded L, OF _ _ _ _ this]
    demo_paged(1) demo_hit obtain c' A' pk' pv' where
    c': "rc_insert demo_env (demo_key [7, 8, 9, 10]) (Some [2, 3, 4, 5]) None False demo_empty = Inr (0, c')"
      "rinv c' A' pk' pv' {#}" "same_config demo_empty c'" "kv_allocator c' = kv_allocator demo_empty"
      "inserted A pk pv A' pk' pv' (rk_units (demo_key [7, 8, 9, 10])) [2, 3, 4, 5]"
      "r_evictable_size c' = r_evictable_size demo_empty + 4"
    by (auto simp: demo_units)
  have eq: "demo_cache = c'" by (simp add: demo_cache_def c'(1))
  have ps: "r_page_size c' = r_page_size demo_empty" using c'(3) by (simp add: same_config_def)
  have "grown demo_empty (rk_units (demo_key [7, 8, 9, 10])) [2, 3, 4, 5] c'"
    by (rule cached_inserted[OF inv c'(2) ps c'(5)])
  then show "cached demo_cache us vs \<longleftrightarrow> even (length us) \<and> prefix us (map (\<lambda>t. (None, PInt t)) [7, 8, 9, 10]) \<and>
     vs = take (length us) [2, 3, 4, 5]"
    unfolding eq grown_def by (auto simp: demo_empty_inv(2) demo_units demo_empty_fields)
  have "r_evictable_size demo_empty = 0"
    by (simp add: demo_empty_def reset_def demo_base_def new_tree_node_def record_all_cleared_event_def Let_def)
  then show "r_evictable_size demo_cache = 4" using c'(6) eq by simp
  show "radix_inv demo_cache {#}" using c'(2) eq by (auto simp: radix_inv_def)
  show "\<not> r_disable demo_cache" "\<not> enable_kv_cache_events demo_cache" "r_page_size demo_cache = 2"
    "\<not> r_is_eagle demo_cache" "kv_allocator demo_cache = kv_allocator demo_base"
    using c'(3,4) eq demo_empty_fields by (auto simp: same_config_def)
qed

lemma demo_cache_lookup: "lookup_key demo_cache (demo_key [7, 8, 1, 2, 3]) = demo_key [7, 8, 1, 2]"
  by (simp add: demo_lookup demo_cache_facts)

theorem match_prefix_longest_witness:
  "\<exists>r c'. match_prefix demo_env (demo_key [7, 8, 1, 2, 3]) demo_cache = Inr (r, c') \<and> radix_inv c' {#} \<and>
     hit_len demo_cache (map (\<lambda>t. (None, PInt t)) [7, 8, 1, 2]) (length (device_indices r))"
  using match_prefix_longest[OF demo_cache_facts(1,2), of "demo_key [7, 8, 1, 2, 3]" demo_env]
  by (auto simp: demo_cache_lookup demo_units)

section \<open>Locks\<close>

text \<open>
  C16. Locking a node of the tree and unlocking it never raises, keeps the invariant (every node
  counts the holders at or below it) and gives back the state before: the reference counts,
  the sizes and the evictable leaves. Each call reports the change of the evictable size.
\<close>

theorem lock_unlock_roundtrip:
  assumes "radix_inv c L" "\<not> r_disable c" "tree_path c n us vs"
  shows "\<exists>d c' c''. inc_lock_ref n c = Inr (d, c') \<and> radix_inv c' (add_mset n L) \<and>
    d = evictable_size c' - evictable_size c \<and> protected_size c' - protected_size c = - d \<and>
    dec_lock_ref n c' = Inr (- d, c'') \<and> radix_inv c'' L \<and>
    evictable_size c'' = evictable_size c \<and> protected_size c'' = protected_size c \<and>
    set (evictable_leaves c'') = set (evictable_leaves c) \<and>
    (\<forall>m us vs. tree_path c m us vs \<longrightarrow> m \<noteq> root_node c \<longrightarrow> lock_ref (nodes c'' m) = lock_ref (nodes c m))"
proof -
  obtain A pk pv where inv: "rinv c A pk pv L" using assms(1) by (auto simp: radix_inv_def)
  note i = rinvD[OF inv]
  have n: "n \<in> A" using assms(3) tree_path_iff[OF inv] by simp
  obtain d c' where c': "inc_lock_ref n c = Inr (d, c')" "rinv c' A pk pv (add_mset n L)" "relocked c c'"
    "d = r_evictable_size c' - r_evictable_size c"
    "r_evictable_size c' + r_protected_size c' = r_evictable_size c + r_protected_size c"
    using inc_lock_ref_ok[OF inv n assms(2)] by blast
  have "\<not> r_disable c'" using relocked_fields(1)[OF c'(3)] assms(2) by (simp add: same_config_def)
  from dec_lock_ref_ok[OF c'(2) _ this, of n] obtain e c'' where c'': "dec_lock_ref n c' = Inr (e, c'')"
    "rinv c'' A pk pv L" "relocked c' c''" "e = r_evictable_size c'' - r_evictable_size c'" by auto
  note j = rinvD[OF c''(2)]
  have rel: "relocked c c''" by (rule relocked_trans[OF c'(3) c''(3)])
  have root: "root_node c'' = root_node c" using relocked_fields(1)[OF rel] by (simp add: same_config_def)
  have lk: "lock_ref (nodes c'' m) = lock_ref (nodes c m)" if "m \<in> A" "m \<noteq> root_node c" for m
    using i(3) j(3) that root by (simp add: lock_ok_def)
  have w: "weight P (nodes c'' m) = weight P (nodes c m)" if "m \<in> A - {root_node c}" for P m
    using relocked_fields(5,6)[OF rel, of m] lk[of m] that by (simp add: weight_def same_shape_def)
  have sz: "r_evictable_size c'' = r_evictable_size c" "r_protected_size c'' = r_protected_size c"
    using i(4) j(4) w by (simp_all add: size_ok_def root)
  have "set (evictable_leaves c'') = set (evictable_leaves c)"
  proof -
    have "m \<in> set (evictable_leaves c'') \<longleftrightarrow> m \<in> set (evictable_leaves c)" if m: "m \<in> A" for m
    proof (cases "m = root_node c")
      case True
      then show ?thesis using leaf_facts(2)[OF inv, of m] leaf_facts(2)[OF c''(2), of m] root by auto
    next
      case False
      have "children (nodes c'' m) = children (nodes c m)"
        using relocked_fields(5)[OF rel, of m] by (simp add: same_shape_def)
      then have "is_leaf c'' m = is_leaf c m"
        using is_leaf_iff[OF i(1,2) m] is_leaf_iff[OF j(1,2) m] lk[OF m False] by simp
      then show ?thesis using i(5) j(5) m by (simp add: leaf_ok_except_def)
    qed
    moreover have "set (evictable_leaves c'') \<subseteq> A" "set (evictable_leaves c) \<subseteq> A"
      using i(5) j(5) by (simp_all add: leaf_ok_except_def)
    ultimately show ?thesis by blast
  qed
  moreover have "lock_ref (nodes c'' m) = lock_ref (nodes c m)" if "tree_path c m us vs" "m \<noteq> root_node c" for m us vs
    using that lk tree_path_iff[OF inv] by blast
  ultimately show ?thesis
    using c' c'' sz unfolding radix_inv_def evictable_size_def protected_size_def
    by (intro exI[of _ d] exI[of _ c'] exI[of _ c'']) auto
qed

lemma demo_path: "\<exists>n us vs. tree_path demo_cache n us vs \<and> n \<noteq> root_node demo_cache"
proof -
  obtain A pk pv where inv: "rinv demo_cache A pk pv {#}" using demo_cache_facts(1) by (auto simp: radix_inv_def)
  have "cached demo_cache (map (\<lambda>t. (None, PInt t)) [7, 8]) [2, 3]" by (simp add: demo_cache_facts)
  then obtain n us vs where n: "tree_path demo_cache n us vs" "prefix (map (\<lambda>t. (None, PInt t)) [7, 8]) us"
    unfolding cached_def by blast
  then have "us \<noteq> []" by auto
  then have "n \<noteq> root_node demo_cache"
    using n(1) tree_path_iff[OF inv] tree_okD(4)[OF rinvD(1)[OF inv]] by auto
  then show ?thesis using n by blast
qed

theorem lock_unlock_roundtrip_witness:
  "\<exists>n d c' c''. n \<noteq> root_node demo_cache \<and> inc_lock_ref n demo_cache = Inr (d, c') \<and> radix_inv c' {#n#} \<and>
     dec_lock_ref n c' = Inr (- d, c'') \<and> evictable_size c'' = 4"
proof -
  obtain n us vs where n: "tree_path demo_cache n us vs" "n \<noteq> root_node demo_cache" using demo_path by blast
  from lock_unlock_roundtrip[OF demo_cache_facts(1,2) n(1)] n(2) demo_cache_facts(8) show ?thesis
    by (auto simp: evictable_size_def)
qed

section \<open>Eviction\<close>

text \<open>
  C14. Evicting \<open>num\<close> tokens never raises and ends with that many tokens freed or with nothing
  evictable left. The number returned is what the evictable size shrinks and what the
  allocator gains. The invariant is kept, no cached contents change other than by
  disappearing, and every node held by a request stays, with the path above it.
\<close>

theorem evict_enough:
  assumes "radix_inv c L" "\<not> r_disable c" "\<not> enable_kv_cache_events c" "\<And>xs. mset (set_iter env xs) = mset xs"
  shows "\<exists>k c'. evict env num c = Inr (k, c') \<and> radix_inv c' L \<and>
    (num \<le> int k \<or> evictable_size c' = 0) \<and>
    int k = evictable_size c - evictable_size c' \<and> protected_size c' = protected_size c \<and>
    card (al_avail (kv_allocator c')) * r_page_size c = card (al_avail (kv_allocator c)) * r_page_size c + k \<and>
    (\<forall>us vs. cached c' us vs \<longrightarrow> cached c us vs) \<and>
    (\<forall>s us vs. s \<in># L \<longrightarrow> tree_path c s us vs \<longrightarrow> tree_path c' s us vs \<and> cached c' us vs)"
proof -
  obtain A pk pv where inv: "rinv c A pk pv L" using assms(1) by (auto simp: radix_inv_def)
  obtain k c' A' where c': "evict env num c = Inr (k, c')" "rinv c' A' pk pv L" "shed c A c' A' k"
    "num \<le> int k \<or> r_evictable_size c' = 0" using evict_ok[OF inv assms(3,2,4)] by blast
  have sub: "A' \<subseteq> A" "r_page_size c' = r_page_size c" using c'(3) by (auto simp: shed_def same_config_def)
  have "cached c us vs" if "cached c' us vs" for us vs
    using that sub unfolding cached_iff[OF inv] cached_iff[OF c'(2)] by auto
  moreover have "tree_path c' s us vs \<and> cached c' us vs" if "s \<in># L" "tree_path c s us vs" for s us vs
  proof -
    have "s \<in> A'" using rinvD(3)[OF c'(2)] that(1) by (auto simp: lock_ok_def)
    then have "tree_path c' s us vs" using that(2) tree_path_iff[OF inv] tree_path_iff[OF c'(2)] by simp
    moreover have "radix_inv c' L" using c'(2) by (auto simp: radix_inv_def)
    ultimately show ?thesis using tree_path_cached by blast
  qed
  moreover have "int k = r_evictable_size c - r_evictable_size c'" "r_protected_size c' = r_protected_size c"
    "card (al_avail (kv_allocator c')) * r_page_size c = card (al_avail (kv_allocator c)) * r_page_size c + k"
    using c'(3) unfolding shed_def by blast+
  ultimately show ?thesis
    using c'(1,2,4) unfolding radix_inv_def evictable_size_def protected_size_def by blast
qed

theorem evict_enough_witness:
  "\<exists>k c'. evict demo_env 3 demo_cache = Inr (k, c') \<and> radix_inv c' {#} \<and> (3 \<le> int k \<or> evictable_size c' = 0)"
  using evict_enough[OF demo_cache_facts(1,2,3), of demo_env 3] by (auto simp: demo_env_def)

text \<open>
  C15. The victim is chosen by the configured strategy: asked for one token, the cache removes
  exactly one leaf, one that no other evictable leaf precedes in the order of priority and,
  among equals, of the last access.
\<close>

theorem evict_victim:
  assumes "radix_inv c L" "\<not> r_disable c" "\<not> enable_kv_cache_events c" "\<And>xs. mset (set_iter env xs) = mset xs"
    "evictable_leaves c \<noteq> []"
  shows "\<exists>x v c'. evict env 1 c = Inr (length v, c') \<and> x \<in> set (evictable_leaves c) \<and>
    tn_value (nodes c x) = Some v \<and> radix_inv c' L \<and>
    (\<forall>m us vs. tree_path c' m us vs \<longleftrightarrow> tree_path c m us vs \<and> m \<noteq> x) \<and>
    (\<forall>y \<in> set (evictable_leaves c).
       (get_priority (r_policy c) (nodes c x), last_access_time (nodes c x))
         \<le> (get_priority (r_policy c) (nodes c y), last_access_time (nodes c y)))"
proof -
  obtain A pk pv where inv: "rinv c A pk pv L" using assms(1) by (auto simp: radix_inv_def)
  define h where "h = heapify (entry_key c) (map (\<lambda>n. (get_priority (r_policy c) (nodes c n), n)) (set_iter env (evictable_leaves c)))"
  have heap: "leaf_heap c h" unfolding h_def by (rule leaf_heap_init[OF assms(4)])
  then have ne: "h \<noteq> []" using assms(5) by (auto simp: leaf_heap_def)
  obtain x v c' h' where r: "evict_loop (Suc (next_ref c)) env 1 h 0 c = evict_loop (next_ref c) env 1 h' (0 + length v) c'"
    "rinv c' (A - {x}) pk pv L" "x \<in> set (evictable_leaves c)" "x \<in> A" "tn_value (nodes c x) = Some v"
    "\<forall>n \<in> set (evictable_leaves c). entry_key c (get_priority (r_policy c) (nodes c x), x)
        \<le> entry_key c (get_priority (r_policy c) (nodes c n), n)"
    using evict_round[OF inv heap ne _ assms(3), where k = 0 and num = 1 and fuel = "next_ref c" and env = env] by auto
  have "0 < length v"
  proof -
    have "x \<noteq> root_node c" using leaf_facts(2)[OF inv r(3)] .
    then have "length v = rk_len (tn_key (nodes c x))" "key_ok c (tn_key (nodes c x))"
      using val_node[OF rinvD(2)[OF inv] r(4)] r(5) tree_okD(12)[OF rinvD(1)[OF inv] r(4)] by auto
    then show ?thesis by (simp add: key_ok_def)
  qed
  moreover obtain f where "next_ref c = Suc f"
    using tree_okD(2,3)[OF rinvD(1)[OF inv]] by (cases "next_ref c") auto
  ultimately have "evict_loop (next_ref c) env 1 h' (0 + length v) c' = Inr (length v, c')" by simp
  then have "evict env 1 c = Inr (length v, c')" using r(1) assms(2) by (simp add: evict_def h_def Let_def)
  moreover have "tree_path c' m us vs \<longleftrightarrow> tree_path c m us vs \<and> m \<noteq> x" for m us vs
    unfolding tree_path_iff[OF inv] tree_path_iff[OF r(2)] by auto
  moreover have "radix_inv c' L" using r(2) by (auto simp: radix_inv_def)
  ultimately show ?thesis using r(3,5,6) by (auto simp: entry_key_def)
qed

lemma demo_leaves: "evictable_leaves demo_cache \<noteq> []"
proof -
  obtain A pk pv where inv: "rinv demo_cache A pk pv {#}" using demo_cache_facts(1) by (auto simp: radix_inv_def)
  show ?thesis using no_leaves_no_size[OF inv] demo_cache_facts(8) by auto
qed

theorem evict_victim_witness:
  "\<exists>x v c'. evict demo_env 1 demo_cache = Inr (length v, c') \<and> x \<in> set (evictable_leaves demo_cache) \<and>
     tn_value (nodes demo_cache x) = Some v \<and> radix_inv c' {#}"
  using evict_victim[OF demo_cache_facts(1,2,3) _ demo_leaves, of demo_env] by (fastforce simp: demo_env_def)

text \<open>C32. \<^verbatim>\<open>total_size\<close> ends and is the sum of the evictable and the protected size.\<close>

theorem total_size_sum:
  assumes "radix_inv c L"
  shows "\<exists>k. total_size c = Inr k \<and> int k = evictable_size c + protected_size c"
  using assms total_size_ok unfolding radix_inv_def evictable_size_def protected_size_def by blast

theorem total_size_sum_witness:
  "\<exists>k. total_size demo_cache = Inr k \<and> int k = evictable_size demo_cache + protected_size demo_cache"
  by (rule total_size_sum[OF demo_cache_facts(1)])

section \<open>Requests\<close>

text \<open>
  C8. Caching an unfinished request never raises; in particular the assertion that the sequence
  just inserted is found again in full length holds. Afterwards the request holds the node of
  its whole page-aligned sequence, with the cached slots in its row, so the operation can be
  repeated as the request grows. Slots that duplicate cached ones have been freed: every page
  the request brought is now either free or cached.
\<close>

theorem cache_unfinished_req_ok:
  assumes "radix_inv c L" "\<not> r_disable c" "\<not> enable_kv_cache_events c" "req_holds c L p r (fill_ids r)"
  defines "K \<equiv> req_key c r (fill_ids r)"
  shows "\<exists>p' r' c' s n ws. cache_unfinished_req env p r chunked c = Inr (p', r', c') \<and>
    last_node r = Some s \<and> last_node r' = Some n \<and> cache_protected_len r' = rk_len K \<and>
    radix_inv c' (add_mset n (L - {#s#})) \<and> req_holds c' (add_mset n (L - {#s#})) p' r' (fill_ids r) \<and>
    tree_path c' n (rk_units K) ws \<and>
    (\<forall>us vs. cached c' us vs \<longleftrightarrow>
       cached c us vs \<or> r_page_size c dvd length us \<and> prefix us (rk_units K) \<and> vs = take (length us) ws) \<and>
    al_avail (kv_allocator c') \<union> tree_pages c' = al_avail (kv_allocator c) \<union> tree_pages c \<union>
      hp_pages (r_page_size c) (pyslice (rp_read p (the (req_pool_idx r)) (length (fill_ids r)))
        (cache_protected_len r) (rk_len K))"
proof -
  from cache_unfinished_ok[OF assms(1-4), of env chunked, folded K_def] obtain p' r' c' s n ws where
    *: "cache_unfinished_req env p r chunked c = Inr (p', r', c')"
      "last_node r = Some s" "last_node r' = Some n" "cache_protected_len r' = length ws"
      "radix_inv c' (add_mset n (L - {#s#}))" "req_holds c' (add_mset n (L - {#s#})) p' r' (fill_ids r)"
      "tree_path c' n (rk_units K) ws" "grown c (rk_units K) ws c'"
      "al_avail (kv_allocator c') \<union> tree_pages c' = al_avail (kv_allocator c) \<union> tree_pages c \<union>
        hp_pages (r_page_size c) (pyslice (rp_read p (the (req_pool_idx r)) (length (fill_ids r)))
          (cache_protected_len r) (rk_len K))" by blast
  moreover have "length ws = rk_len K" using tree_path_cached[OF *(5,7)] by simp
  ultimately show ?thesis unfolding grown_def by auto
qed

text \<open>
  C3. Caching a finished request never raises and leaks nothing: the node it held is released,
  and every page of its slots after the protected prefix is afterwards free or cached. Unless
  insertion is disabled its page-aligned sequence is cached; otherwise the cached contents
  stay as they are.
\<close>

theorem cache_finished_req_no_leak:
  fixes strip is_insert :: bool
  assumes "radix_inv c L" "\<not> r_disable c" "\<not> enable_kv_cache_events c" "\<not> kv_committed_freed r"
  defines "toks \<equiv> take (cache_commit_len strip r) (origin_input_ids r @ output_ids r)"
  assumes "req_holds c L p r toks"
  shows "\<exists>s c' ws. cache_finished_req env strip p r is_insert c = Inr (r\<lparr>kv_committed_freed := True\<rparr>, c') \<and>
    last_node r = Some s \<and> radix_inv c' (L - {#s#}) \<and>
    (if \<not> r_disable_finished_insert c \<and> is_insert
     then cached c' (rk_units (req_key c r toks)) ws \<and> (\<forall>us vs. cached c us vs \<longrightarrow> cached c' us vs)
     else \<forall>us vs. cached c' us vs \<longleftrightarrow> cached c us vs) \<and>
    al_avail (kv_allocator c') \<union> tree_pages c' = al_avail (kv_allocator c) \<union> tree_pages c \<union>
      hp_pages (r_page_size c) (drop (cache_protected_len r) (rp_read p (the (req_pool_idx r)) (length toks)))"
proof -
  from cache_finished_ok[OF assms(1-4) assms(6)[unfolded toks_def], of env is_insert, folded toks_def] obtain s c' ws where
    *: "cache_finished_req env strip p r is_insert c = Inr (r\<lparr>kv_committed_freed := True\<rparr>, c')"
      "last_node r = Some s" "radix_inv c' (L - {#s#})"
      "if \<not> r_disable_finished_insert c \<and> is_insert
       then grown c (rk_units (req_key c r toks)) ws c' \<and> length ws = rk_len (req_key c r toks)
       else \<forall>us vs. cached c' us vs \<longleftrightarrow> cached c us vs"
      "al_avail (kv_allocator c') \<union> tree_pages c' = al_avail (kv_allocator c) \<union> tree_pages c \<union>
        hp_pages (r_page_size c) (drop (cache_protected_len r) (rp_read p (the (req_pool_idx r)) (length toks)))" by blast
  obtain A pk pv where inv: "rinv c A pk pv L" using assms(1) by (auto simp: radix_inv_def)
  have "r_page_size c dvd rk_len (req_key c r toks)" by (rule req_key_facts(1)[OF tree_okD(1)[OF rinvD(1)[OF inv]]])
  then have "if \<not> r_disable_finished_insert c \<and> is_insert
     then cached c' (rk_units (req_key c r toks)) ws \<and> (\<forall>us vs. cached c us vs \<longrightarrow> cached c' us vs)
     else \<forall>us vs. cached c' us vs \<longleftrightarrow> cached c us vs"
    using *(4) by (auto simp: grown_def)
  then show ?thesis using *(1-3,5) by blast
qed

definition demo_request :: req where
  "demo_request = (demo_req (Some 1))\<lparr>origin_input_ids := [7, 8, 1], output_ids := [2, 3], fill_ids := [7, 8, 1, 2, 3],
     last_node := Some (root_node demo_cache), cache_protected_len := 0, kv_committed_len := 5\<rparr>"

definition demo_rows :: req_to_token_pool where
  "demo_rows = (rp_init 2 8)\<lparr>req_to_token := (\<lambda>_. [6, 7, 8, 9, 14, 0, 0, 0])\<rparr>"

lemma demo_request_fields:
  "req_pool_idx demo_request = Some 1" "fill_ids demo_request = [7, 8, 1, 2, 3]" "cache_protected_len demo_request = 0"
  "last_node demo_request = Some (root_node demo_cache)" "\<not> kv_committed_freed demo_request"
  "cache_commit_len False demo_request = 5" "origin_input_ids demo_request @ output_ids demo_request = [7, 8, 1, 2, 3]"
  "rq_extra_key demo_request = None"
  by (simp_all add: demo_request_def demo_req_def new_req_def cache_commit_len_def)

lemma demo_locked: "radix_inv demo_cache {#root_node demo_cache#}"
proof -
  obtain A pk pv where inv: "rinv demo_cache A pk pv {#}" using demo_cache_facts(1) by (auto simp: radix_inv_def)
  have r: "root_node demo_cache \<in> A" by (rule tree_okD(3)[OF rinvD(1)[OF inv]])
  obtain n where "next_ref demo_cache = Suc n"
    using r tree_okD(2)[OF rinvD(1)[OF inv]] by (cases "next_ref demo_cache") auto
  then have "inc_lock_ref (root_node demo_cache) demo_cache = Inr (0, demo_cache)"
    using demo_cache_facts(2) by (simp add: inc_lock_ref_def)
  then show ?thesis
    using inc_lock_ref_ok[OF inv r demo_cache_facts(2)] by (auto simp: radix_inv_def)
qed

lemma demo_holds: "req_holds demo_cache {#root_node demo_cache#} demo_rows demo_request [7, 8, 1, 2, 3]"
proof -
  have key: "req_key demo_cache demo_request [7, 8, 1, 2, 3] = demo_key [7, 8, 1, 2]"
    using demo_lookup[of demo_cache "[7, 8, 1, 2, 3]"] demo_cache_facts(4,5) demo_request_fields(8)
    by (simp add: req_key_def lookup_key_def demo_key_def)
  have tree: "tree_pages demo_cache = {1, 2}"
  proof -
    have "hp_pages 2 vs \<subseteq> {1, 2}" if "cached demo_cache us vs" for us vs
      using that hp_pages_take[of 2 "length us" "[2, 3, 4, 5]"] by (auto simp: demo_cache_facts hp_pages_def)
    moreover have "cached demo_cache (map (\<lambda>t. (None, PInt t)) [7, 8, 9, 10]) [2, 3, 4, 5]" by (simp add: demo_cache_facts)
    moreover have "hp_pages 2 [2, 3, 4, 5] = {1, 2}" by (simp add: hp_pages_def insert_commute)
    ultimately show ?thesis unfolding tree_pages_def demo_cache_facts(4) by blast
  qed
  have "paged_list 2 [6, 7, 8, 9]"
    unfolding paged_list_def by (rule exI[of _ "[3, 4]"]) (simp add: page_slots_def upt_rec)
  moreover have "hp_pages 2 vs \<inter> {3, 4} = {}" if "cached demo_cache us vs" for us vs
    using that hp_pages_take[of 2 "length us" "[2, 3, 4, 5]"] by (auto simp: demo_cache_facts hp_pages_def)
  moreover have "hp_pages 2 [6, 7, 8, 9] = {3, 4}" "hp_pages 2 [14] = {7}" by (auto simp: hp_pages_def)
  ultimately have "fresh_slots demo_cache [6, 7, 8, 9]" "own_slots demo_cache [14]"
    "hp_pages 2 [6, 7, 8, 9] \<inter> hp_pages 2 [14] = {}"
    using tree by (auto simp: fresh_slots_def own_slots_def paged_value_def demo_cache_facts(4,6) demo_base_facts
        al_freeable_def al_page_of_def)
  then show ?thesis
    unfolding req_holds_def
    by - (rule exI[of _ 1], rule exI[of _ "root_node demo_cache"],
      simp add: demo_request_fields key demo_units path_root pyslice_def demo_cache_facts(4) demo_rows_def rp_read_def
        Let_def)
qed

theorem cache_unfinished_req_ok_witness:
  "\<exists>p' r' c' n. cache_unfinished_req demo_env demo_rows demo_request False demo_cache = Inr (p', r', c') \<and>
     cache_protected_len r' = 4 \<and> last_node r' = Some n \<and> radix_inv c' {#n#}"
proof -
  have len: "rk_len (req_key demo_cache demo_request (fill_ids demo_request)) = 4"
    by (simp add: req_key_def page_aligned_def rk_len_def demo_request_fields demo_cache_facts(4,5) rk_upto_def rk_slice_def
        pyslice_def Let_def)
  have h: "req_holds demo_cache {#root_node demo_cache#} demo_rows demo_request (fill_ids demo_request)"
    using demo_holds by (simp add: demo_request_fields)
  show ?thesis
    using cache_unfinished_req_ok[OF demo_locked demo_cache_facts(2,3) h, of demo_env False]
    by (auto simp: len demo_request_fields(4))
qed

theorem cache_finished_req_no_leak_witness:
  "\<exists>c'. cache_finished_req demo_env False demo_rows demo_request True demo_cache
       = Inr (demo_request\<lparr>kv_committed_freed := True\<rparr>, c') \<and> radix_inv c' {#}"
proof -
  have h: "req_holds demo_cache {#root_node demo_cache#} demo_rows demo_request
      (take (cache_commit_len False demo_request) (origin_input_ids demo_request @ output_ids demo_request))"
    unfolding demo_request_fields using demo_holds by simp
  show ?thesis
    using cache_finished_req_no_leak[OF demo_locked demo_cache_facts(2,3) demo_request_fields(5) h, of demo_env True]
    by (auto simp: demo_request_fields(4))
qed

section \<open>Every sequence of operations\<close>

lemma kv_alloc_ok:
  assumes "kv_inv a" "al_page_size a dvd n" "kv_alloc a n = Inr (r, a')"
  shows "kv_inv a'" "al_geom a' = al_geom a" "al_avail a' \<subseteq> al_avail a"
proof -
  have "kv_inv a' \<and> al_geom a' = al_geom a \<and> al_avail a' \<subseteq> al_avail a"
  proof (cases "al_page_size a = 1")
    case True
    have "tk_inv a" using assms(1) True by (simp add: kv_inv_def tk_inv_def)
    from tk_alloc_law[OF this, of n] assms(3) True show ?thesis
      by (auto simp: kv_alloc_def kv_inv_def tk_inv_def split: option.splits)
  next
    case False
    have "pg_inv a" "al_ok_size (al_geom a) n"
      using assms by (auto simp: kv_inv_def pg_inv_def al_ok_size_def al_geom_def)
    from pg_alloc_law[OF this] assms(3) False show ?thesis
      by (auto simp: kv_alloc_def kv_inv_def pg_inv_def split: option.splits)
  qed
  then show "kv_inv a'" "al_geom a' = al_geom a" "al_avail a' \<subseteq> al_avail a" by auto
qed

lemma rinv_alloc:
  assumes inv: "rinv c A pk pv L" and a: "kv_inv a'" "al_geom a' = al_geom (kv_allocator c)"
    "al_avail a' \<subseteq> al_avail (kv_allocator c)"
  shows "rinv (c\<lparr>kv_allocator := a'\<rparr>) A pk pv L" (is "rinv ?c A pk pv L")
proof -
  note i = rinvD[OF inv]
  note o = i(6)[unfolded own_ok_def]
  have np: "node_pages ?c n = node_pages c n" for n by (simp add: node_pages_def split: option.splits)
  have "tree_ok ?c A pk"
    by (rule tree_ok_cong[OF i(1)]) (simp_all add: same_config_def same_shape_def)
  moreover have "val_ok ?c A pv" "lock_ok ?c A pk L" "size_ok ?c A"
    using i(2,3,4) by (simp_all add: val_ok_def lock_ok_def size_ok_def)
  moreover have "leaf_ok ?c A" using i(5) is_leaf_nodes[of ?c c] by (simp add: leaf_ok_except_def)
  moreover have "own_ok ?c A"
  proof -
    have "al_page_size a' = r_page_size c" using o a(2) by (simp add: al_geom_def)
    moreover have "node_pages c n \<inter> al_avail a' = {}" if "n \<in> A" for n using o that a(3) by blast
    ultimately show ?thesis unfolding own_ok_def np using o a(1,2) by (simp add: paged_value_def)
  qed
  ultimately show ?thesis by (simp add: rinv_def)
qed

text \<open>
  The states a cache can reach: every operation of the cache with its caller's obligations, the
  allocation of slots by the scheduler, and the caching of requests.
\<close>

inductive cache_reach :: "'a radix_cache_scheme \<Rightarrow> nat multiset \<Rightarrow> bool" where
  reach_reset: "0 < r_page_size c \<Longrightarrow> kv_inv (kv_allocator c) \<Longrightarrow> al_page_size (kv_allocator c) = r_page_size c \<Longrightarrow>
    cache_reach (reset env c) {#}"
| reach_match: "cache_reach c L \<Longrightarrow> \<not> r_disable c \<Longrightarrow> is_bigram key \<longrightarrow> r_is_eagle c \<Longrightarrow>
    match_prefix env key c = Inr (r, c') \<Longrightarrow> cache_reach c' L"
| reach_insert: "cache_reach c L \<Longrightarrow> \<not> r_disable c \<Longrightarrow> \<not> enable_kv_cache_events c \<Longrightarrow> is_bigram key \<longrightarrow> r_is_eagle c \<Longrightarrow>
    rk_len (lookup_key c key) \<le> length val \<Longrightarrow> hit_len c (rk_units (lookup_key c key)) h \<Longrightarrow>
    fresh_slots c (drop h (take (rk_len (lookup_key c key)) val)) \<Longrightarrow>
    rc_insert env key (Some val) prio chunked c = Inr (k, c') \<Longrightarrow> cache_reach c' L"
| reach_lock: "cache_reach c L \<Longrightarrow> \<not> r_disable c \<Longrightarrow> tree_path c n us vs \<Longrightarrow>
    inc_lock_ref n c = Inr (d, c') \<Longrightarrow> cache_reach c' (add_mset n L)"
| reach_unlock: "cache_reach c L \<Longrightarrow> \<not> r_disable c \<Longrightarrow> n \<in># L \<Longrightarrow>
    dec_lock_ref n c = Inr (d, c') \<Longrightarrow> cache_reach c' (L - {#n#})"
| reach_evict: "cache_reach c L \<Longrightarrow> \<not> r_disable c \<Longrightarrow> \<not> enable_kv_cache_events c \<Longrightarrow>
    (\<And>xs. mset (set_iter env xs) = mset xs) \<Longrightarrow> evict env num c = Inr (k, c') \<Longrightarrow> cache_reach c' L"
| reach_alloc: "cache_reach c L \<Longrightarrow> r_page_size c dvd n \<Longrightarrow> kv_alloc (kv_allocator c) n = Inr (r, a') \<Longrightarrow>
    cache_reach (c\<lparr>kv_allocator := a'\<rparr>) L"
| reach_unfinished: "cache_reach c L \<Longrightarrow> \<not> r_disable c \<Longrightarrow> \<not> enable_kv_cache_events c \<Longrightarrow>
    req_holds c L p r (fill_ids r) \<Longrightarrow> last_node r = Some s \<Longrightarrow>
    cache_unfinished_req env p r chunked c = Inr (p', r', c') \<Longrightarrow> last_node r' = Some n \<Longrightarrow>
    cache_reach c' (add_mset n (L - {#s#}))"
| reach_finished: "cache_reach c L \<Longrightarrow> \<not> r_disable c \<Longrightarrow> \<not> enable_kv_cache_events c \<Longrightarrow> \<not> kv_committed_freed r \<Longrightarrow>
    req_holds c L p r (take (cache_commit_len strip r) (origin_input_ids r @ output_ids r)) \<Longrightarrow> last_node r = Some s \<Longrightarrow>
    cache_finished_req env strip p r is_insert c = Inr (r', c') \<Longrightarrow> cache_reach c' (L - {#s#})"

lemma cache_reach_radix_inv:
  assumes "cache_reach c L"
  shows "radix_inv c L"
  using assms
proof (induction rule: cache_reach.induct)
  case (reach_reset c env)
  then show ?case using reset_inv[of c env] by (auto simp: radix_inv_def)
next
  case (reach_match c L key env r c')
  then obtain A pk pv where "rinv c A pk pv L" by (auto simp: radix_inv_def)
  from match_prefix_ok[OF this reach_match.hyps(2,3), of env] reach_match.hyps(4) show ?case by (auto simp: radix_inv_def)
next
  case (reach_insert c L key val h env prio chunked k c')
  then obtain A pk pv where inv: "rinv c A pk pv L" by (auto simp: radix_inv_def)
  obtain hs where hs: "cached c (take h (rk_units (lookup_key c key))) hs" using reach_insert.hyps(6) by (auto simp: hit_len_def)
  from rc_insert_ok[OF inv reach_insert.hyps(2-7) hs, of env prio chunked] reach_insert.hyps(8) show ?case
    by (auto simp: radix_inv_def)
next
  case (reach_lock c L n us vs d c')
  then obtain A pk pv where inv: "rinv c A pk pv L" by (auto simp: radix_inv_def)
  have "n \<in> A" using reach_lock.hyps(3) tree_path_iff[OF inv] by simp
  from inc_lock_ref_ok[OF inv this reach_lock.hyps(2)] reach_lock.hyps(4) show ?case by (auto simp: radix_inv_def)
next
  case (reach_unlock c L n d c')
  then obtain A pk pv where inv: "rinv c A pk pv L" by (auto simp: radix_inv_def)
  from dec_lock_ref_ok[OF inv reach_unlock.hyps(3,2)] reach_unlock.hyps(4) show ?case by (auto simp: radix_inv_def)
next
  case (reach_evict c L env num k c')
  then obtain A pk pv where inv: "rinv c A pk pv L" by (auto simp: radix_inv_def)
  from evict_ok[OF inv reach_evict.hyps(3,2,4), of num] reach_evict.hyps(5) show ?case by (auto simp: radix_inv_def)
next
  case (reach_alloc c L n r a')
  then obtain A pk pv where inv: "rinv c A pk pv L" by (auto simp: radix_inv_def)
  have "kv_inv (kv_allocator c)" "al_page_size (kv_allocator c) dvd n"
    using rinvD(6)[OF inv] reach_alloc.hyps(2) by (simp_all add: own_ok_def)
  from rinv_alloc[OF inv kv_alloc_ok[OF this reach_alloc.hyps(3)]] show ?case by (auto simp: radix_inv_def)
next
  case (reach_unfinished c L p r s env chunked p' r' c' n)
  from cache_unfinished_ok[OF reach_unfinished.IH reach_unfinished.hyps(2-4), of env chunked] reach_unfinished.hyps(5-7)
  show ?case by auto
next
  case (reach_finished c L r p strip s env is_insert r' c')
  from cache_finished_ok[OF reach_finished.IH reach_finished.hyps(2-5), of env is_insert] reach_finished.hyps(6,7)
  show ?case by auto
qed

text \<open>
  C1. In every reachable state the cache is consistent: what it accounts for as evictable and
  protected is what the tree holds, no cached page is free, no page is cached under two nodes,
  every node counts its holders, and the evictable leaves are exactly the unlocked leaves.
\<close>

theorem cache_reach_inv:
  assumes "cache_reach c L"
  shows "radix_inv c L \<and> al_avail (kv_allocator c) \<inter> tree_pages c = {} \<and>
    (\<exists>k. total_size c = Inr k \<and> int k = evictable_size c + protected_size c) \<and>
    0 \<le> evictable_size c \<and> 0 \<le> protected_size c"
proof (intro conjI)
  show "radix_inv c L" by (rule cache_reach_radix_inv[OF assms])
  then obtain A pk pv where inv: "rinv c A pk pv L" by (auto simp: radix_inv_def)
  show "\<exists>k. total_size c = Inr k \<and> int k = evictable_size c + protected_size c"
    using total_size_ok[OF inv] by (simp add: evictable_size_def protected_size_def)
  have "0 \<le> weight P x" for P x by (simp add: weight_def)
  then show "0 \<le> evictable_size c" "0 \<le> protected_size c"
    using rinvD(4)[OF inv] by (simp_all add: evictable_size_def protected_size_def size_ok_def sum_nonneg)
  show "al_avail (kv_allocator c) \<inter> tree_pages c = {}"
    using rinvD(6)[OF inv] unfolding own_ok_def tree_pages_nodes[OF inv] by blast
qed

theorem cache_reach_inv_witness:
  "cache_reach demo_cache {#} \<and> radix_inv demo_cache {#} \<and>
   al_avail (kv_allocator demo_cache) \<inter> tree_pages demo_cache = {}"
proof -
  have L: "lookup_key demo_empty (demo_key [7, 8, 9, 10]) = demo_key [7, 8, 9, 10]"
    by (simp add: demo_lookup demo_empty_fields)
  have e: "cache_reach demo_empty {#}"
    unfolding demo_empty_def by (rule reach_reset) (simp_all add: demo_base_facts)
  obtain k where "rc_insert demo_env (demo_key [7, 8, 9, 10]) (Some [2, 3, 4, 5]) None False demo_empty = Inr (k, demo_cache)"
    using demo_cache_facts(8) unfolding demo_cache_def by (auto simp: demo_base_def split: sum.splits)
  from reach_insert[OF e demo_empty_fields(1,4) _ _ _ _ this, of 0] demo_paged(1) demo_hit
  have "cache_reach demo_cache {#}" by (simp add: L demo_units)
  from cache_reach_inv[OF this] this show ?thesis by simp
qed

end
