(* ===== verification/OnlineCost.thy ===== *)
theory OnlineCost
  imports PyFloat
begin

text \<open>
  \<^verbatim>\<open>mem_cache/online_prefill_cost.py\<close>: the rolling cost synopsis that decides how many host
  pages of a batch are loaded layer by layer (overlapped with compute) and how many as full
  blocks, and the recorder that measures the layers with reusable timing events.

  Timing events are handles; whether one has completed and the time between two of them are
  arguments of \<open>collect\<close>.
\<close>

section \<open>The rolling synopsis\<close>

definition LENGTH_BUCKET_TOKENS :: int where "LENGTH_BUCKET_TOKENS = 128"
definition REUSE_BUCKET_WIDTH :: "float_env \<Rightarrow> rat" where "REUSE_BUCKET_WIDTH F = rnd F (5 / 100)"
definition SAMPLES_PER_BUCKET :: nat where "SAMPLES_PER_BUCKET = 8"

definition supports_online_prefill_cost :: "string \<Rightarrow> bool" where
  "supports_online_prefill_cost architecture \<longleftrightarrow>
     architecture \<in> {''LlamaForCausalLM'', ''MistralForCausalLM'',
       ''Mistral3ForConditionalGeneration''}"

record sample_ring =
  sr_q :: "int list"
  sr_t :: "rat list"
  sr_size :: nat
  sr_next :: nat
  sum_q :: int
  sum_t :: rat

definition ring_init :: sample_ring where
  "ring_init = \<lparr>sr_q = replicate SAMPLES_PER_BUCKET 0, sr_t = replicate SAMPLES_PER_BUCKET 0,
     sr_size = 0, sr_next = 0, sum_q = 0, sum_t = 0\<rparr>"

definition ring_add :: "float_env \<Rightarrow> int \<Rightarrow> pyfloat \<Rightarrow> sample_ring \<Rightarrow> sample_ring" where
  "ring_add F q average_layer_seconds r =
     (case average_layer_seconds of
        Fin t \<Rightarrow>
          if q \<le> 0 \<or> t \<le> 0 then r
          else
            let r1 = (if sr_size r = SAMPLES_PER_BUCKET
                      then r\<lparr>sum_q := sum_q r - sr_q r ! sr_next r,
                             sum_t := rnd F (sum_t r - sr_t r ! sr_next r)\<rparr>
                      else r\<lparr>sr_size := sr_size r + 1\<rparr>)
            in r1\<lparr>sr_q := (sr_q r1)[sr_next r1 := q],
                  sr_t := (sr_t r1)[sr_next r1 := t],
                  sum_q := sum_q r1 + q,
                  sum_t := rnd F (sum_t r1 + t),
                  sr_next := (sr_next r1 + 1) mod SAMPLES_PER_BUCKET\<rparr>
      | _ \<Rightarrow> r)"

definition ring_estimate :: "float_env \<Rightarrow> int \<Rightarrow> sample_ring \<Rightarrow> rat option" where
  "ring_estimate F q r =
     (if sum_q r = 0 then None
      else Some (rnd F (rnd F (sum_t r / fint F (sum_q r)) * fint F q)))"

record synopsis =
  max_length_bucket :: int
  buckets :: "(int \<times> int) \<rightharpoonup> sample_ring"

definition synopsis_init :: "int \<Rightarrow> synopsis" where
  "synopsis_init max_batch_tokens =
     \<lparr>max_length_bucket = max 0 ((max_batch_tokens - 1) div LENGTH_BUCKET_TOKENS),
      buckets = Map.empty\<rparr>"

definition bucket_key :: "float_env \<Rightarrow> synopsis \<Rightarrow> int \<Rightarrow> int \<Rightarrow> (int \<times> int) result" where
  "bucket_key F s q h =
     (if q \<le> 0 \<or> h < 0 then Inl ValueError
      else
        let length_bucket = min ((q - 1) div LENGTH_BUCKET_TOKENS) (max_length_bucket s);
            reuse = rnd F (of_int h / of_int (h + q))
        in if reuse = 0 then Inr (length_bucket, 0)
           else bindR (fdivR F reuse (REUSE_BUCKET_WIDTH F))
             (\<lambda>x. Inr (length_bucket, min (\<lceil>x\<rceil> - 1) 19)))"

definition synopsis_add :: "float_env \<Rightarrow> int \<Rightarrow> int \<Rightarrow> pyfloat \<Rightarrow> synopsis \<Rightarrow> synopsis result" where
  "synopsis_add F q h average_layer_seconds s =
     bindR (bucket_key F s q h)
       (\<lambda>key. let ring = (case buckets s key of None \<Rightarrow> ring_init | Some r \<Rightarrow> r)
              in Inr (s\<lparr>buckets := (buckets s)(key \<mapsto> ring_add F q average_layer_seconds ring)\<rparr>))"

definition synopsis_estimate :: "float_env \<Rightarrow> synopsis \<Rightarrow> int \<Rightarrow> int \<Rightarrow> rat option result" where
  "synopsis_estimate F s q h =
     bindR (bucket_key F s q h)
       (\<lambda>key. Inr (case buckets s key of None \<Rightarrow> None | Some r \<Rightarrow> ring_estimate F q r))"

section \<open>Transfer samples\<close>

record transfer_sample =
  ts_sequence :: int
  byte_count :: int
  elapsed_seconds :: pyfloat

definition bandwidth_bytes_per_second :: "float_env \<Rightarrow> transfer_sample \<Rightarrow> pyfloat result" where
  "bandwidth_bytes_per_second F s =
     (case elapsed_seconds s of
        Fin t \<Rightarrow> bindR (fdivR F (fint F (byte_count s)) t) (\<lambda>x. Inr (Fin x))
      | PInf \<Rightarrow> Inr (Fin 0)
      | NInf \<Rightarrow> Inr (Fin 0)
      | NaN \<Rightarrow> Inr NaN)"

definition bandwidth_gbps :: "float_env \<Rightarrow> transfer_sample \<Rightarrow> pyfloat result" where
  "bandwidth_gbps F s =
     bindR (bandwidth_bytes_per_second F s)
       (\<lambda>b. Inr (case b of Fin x \<Rightarrow> Fin (rnd F (x / 10 ^ 9)) | y \<Rightarrow> y))"

record latest_transfer_samples =
  full_block :: "transfer_sample option"
  layer_wise :: "transfer_sample option"

definition samples_init :: latest_transfer_samples where
  "samples_init = \<lparr>full_block = None, layer_wise = None\<rparr>"

definition get_path :: "latest_transfer_samples \<Rightarrow> string \<Rightarrow> transfer_sample option result" where
  "get_path l path =
     (if path = ''full_block'' then Inr (full_block l)
      else if path = ''layer_wise'' then Inr (layer_wise l)
      else Inl AttributeError)"

definition set_path ::
  "latest_transfer_samples \<Rightarrow> string \<Rightarrow> transfer_sample \<Rightarrow> latest_transfer_samples" where
  "set_path l path s =
     (if path = ''full_block'' then l\<lparr>full_block := Some s\<rparr> else l\<lparr>layer_wise := Some s\<rparr>)"

definition samples_update ::
  "string \<Rightarrow> transfer_sample \<Rightarrow> latest_transfer_samples \<Rightarrow> (bool \<times> latest_transfer_samples) result"
where
  "samples_update path sample l =
     (case elapsed_seconds sample of
        Fin t \<Rightarrow>
          if byte_count sample \<le> 0 \<or> t \<le> 0 then Inr (False, l)
          else bindR (get_path l path)
            (\<lambda>current. case current of
                None \<Rightarrow> Inr (True, set_path l path sample)
              | Some c \<Rightarrow> if ts_sequence sample \<le> ts_sequence c then Inr (False, l)
                          else Inr (True, set_path l path sample))
      | _ \<Rightarrow> Inr (False, l))"

section \<open>Splitting the pages of a batch\<close>

definition should_log_hybrid_batch :: "int \<Rightarrow> bool" where
  "should_log_hybrid_batch host_pages \<longleftrightarrow> host_pages > 0"

definition select_fixed_ratio_split ::
  "float_env \<Rightarrow> int \<Rightarrow> int \<Rightarrow> int \<Rightarrow> rat \<Rightarrow> (int \<times> int) result" where
  "select_fixed_ratio_split F host_pages page_size compute_tokens ratio =
     bindR (fdivR F (rnd F (ratio * fint F compute_tokens)) (fint F page_size))
       (\<lambda>x. let layer_pages = min host_pages \<lfloor>x\<rfloor>
            in Inr (host_pages - layer_pages, layer_pages))"

definition select_batch_split ::
  "float_env \<Rightarrow> int \<Rightarrow> int \<Rightarrow> rat option \<Rightarrow> transfer_sample option
     \<Rightarrow> (int \<times> int \<times> string option) result" where
  "select_batch_split F host_pages bytes_per_page_per_layer compute_seconds layer_wise_sample =
     (if host_pages \<le> 0 then Inr (0, 0, Some ''no-host-pages'')
      else case compute_seconds of
        None \<Rightarrow> Inr (0, host_pages, Some ''empty-compute-bucket'')
      | Some seconds \<Rightarrow>
          (case layer_wise_sample of
             None \<Rightarrow> Inr (0, host_pages, Some ''missing-layer-wise-sample'')
           | Some s \<Rightarrow>
               bindR (bandwidth_bytes_per_second F s)
                 (\<lambda>b. if bytes_per_page_per_layer = 0 then Inl ZeroDivisionError
                      else case b of
                        Fin bw \<Rightarrow>
                          bindR (fdivR F (rnd F (bw * seconds)) (fint F bytes_per_page_per_layer))
                            (\<lambda>x. let layer_pages = min host_pages (max \<lfloor>x\<rfloor> 0)
                                 in Inr (host_pages - layer_pages, layer_pages, None))
                      | _ \<Rightarrow> Inl ValueError)))"

fun assign_pages :: "int list \<Rightarrow> int \<Rightarrow> int list \<times> int" where
  "assign_pages [] remaining = ([], remaining)"
| "assign_pages (page_count # rest) remaining =
     (let assigned = min (max page_count 0) remaining;
          (result, remaining') = assign_pages rest (remaining - assigned)
      in (assigned # result, remaining'))"

definition allocate_preload_pages :: "int list \<Rightarrow> int \<Rightarrow> int list result" where
  "allocate_preload_pages operation_page_counts full_pages =
     (if full_pages < 0 \<or> full_pages > sum_list operation_page_counts then Inl ValueError
      else
        let (result, remaining) = assign_pages operation_page_counts full_pages
        in assertR (remaining = 0) (Inr result))"

section \<open>Timing events\<close>

type_synonym event = nat
type_synonym event_pair = "event \<times> event"

record pending_compute =
  pc_sequence :: int
  pc_q :: int
  pc_h :: int
  layer_events :: "event_pair list"
  wait_events :: "event_pair list"
  update_synopsis :: bool

text \<open>
  The recorder with its pool. \<open>next_event\<close> numbers the events the factory has made,
  \<open>recorded\<close> is the sequence of \<^verbatim>\<open>record()\<close> calls and \<open>rec_finished\<close> that of the calls of the
  finish callback.
\<close>

record recorder =
  rec_synopsis :: synopsis
  ep_free :: "event_pair list"
  next_event :: event
  has_callback :: bool
  rec_active :: "pending_compute option"
  rec_prepared :: "pending_compute list"
  rec_pending :: "pending_compute list"
  recorded :: "event list"
  rec_finished :: "int list"

definition recorder_init :: "synopsis \<Rightarrow> bool \<Rightarrow> recorder" where
  "recorder_init s callback = \<lparr>rec_synopsis = s, ep_free = [], next_event = 0,
     has_callback = callback, rec_active = None, rec_prepared = [], rec_pending = [],
     recorded = [], rec_finished = []\<rparr>"

definition ep_acquire :: "recorder \<Rightarrow> event_pair \<times> recorder" where
  "ep_acquire r =
     (if ep_free r \<noteq> [] then (List.last (ep_free r), r\<lparr>ep_free := butlast (ep_free r)\<rparr>)
      else ((next_event r, next_event r + 1), r\<lparr>next_event := next_event r + 2\<rparr>))"

definition ep_release :: "event_pair \<Rightarrow> recorder \<Rightarrow> recorder" where
  "ep_release pair r = r\<lparr>ep_free := ep_free r @ [pair]\<rparr>"

definition record_event :: "event \<Rightarrow> recorder \<Rightarrow> recorder" where
  "record_event e r = r\<lparr>recorded := recorded r @ [e]\<rparr>"

definition item_done :: "(event \<Rightarrow> bool) \<Rightarrow> pending_compute \<Rightarrow> bool" where
  "item_done query item \<longleftrightarrow> (\<forall>p \<in> set (layer_events item @ wait_events item). query (snd p))"

definition pure_seconds ::
  "float_env \<Rightarrow> (event \<Rightarrow> event \<Rightarrow> rat) \<Rightarrow> pending_compute \<Rightarrow> rat" where
  "pure_seconds F elapsed item =
     (let layer_seconds =
            rnd F (fsum F (map (\<lambda>(s, e). elapsed s e) (layer_events item)) / 1000);
          wait_seconds =
            rnd F (fsum F (map (\<lambda>(s, e). elapsed s e) (wait_events item)) / 1000)
      in max (rnd F (layer_seconds - wait_seconds)) 0)"

definition add_measurement ::
  "float_env \<Rightarrow> (event \<Rightarrow> event \<Rightarrow> rat) \<Rightarrow> pending_compute \<Rightarrow> synopsis \<Rightarrow> synopsis result" where
  "add_measurement F elapsed item s =
     (let pure = pure_seconds F elapsed item
      in if pure > 0 \<and> update_synopsis item
         then bindR (fdivR F pure (fint F (int (length (layer_events item)))))
                (\<lambda>avg. synopsis_add F (pc_q item) (pc_h item) (Fin avg) s)
         else Inr s)"

text \<open>The callback is told before the events go back to the pool.\<close>

definition publish_item :: "pending_compute \<Rightarrow> recorder \<Rightarrow> recorder" where
  "publish_item item r =
     fold ep_release (layer_events item @ wait_events item)
       (if has_callback r then r\<lparr>rec_finished := rec_finished r @ [pc_sequence item]\<rparr> else r)"

definition collect_item ::
  "float_env \<Rightarrow> (event \<Rightarrow> bool) \<Rightarrow> (event \<Rightarrow> event \<Rightarrow> rat) \<Rightarrow> pending_compute
     \<Rightarrow> pending_compute list \<times> recorder \<Rightarrow> (pending_compute list \<times> recorder) result" where
  "collect_item F query elapsed item = (\<lambda>(remaining, r).
     if \<not> item_done query item then Inr (remaining @ [item], r)
     else bindR (add_measurement F elapsed item (rec_synopsis r))
       (\<lambda>s. Inr (remaining, publish_item item (r\<lparr>rec_synopsis := s\<rparr>))))"

definition collect ::
  "float_env \<Rightarrow> (event \<Rightarrow> bool) \<Rightarrow> (event \<Rightarrow> event \<Rightarrow> rat) \<Rightarrow> recorder \<Rightarrow> recorder result" where
  "collect F query elapsed r =
     bindR (foldR (collect_item F query elapsed) (rec_pending r) ([], r))
       (\<lambda>(remaining, r'). Inr (r'\<lparr>rec_pending := remaining\<rparr>))"

definition prepare ::
  "float_env \<Rightarrow> (event \<Rightarrow> bool) \<Rightarrow> (event \<Rightarrow> event \<Rightarrow> rat) \<Rightarrow> int \<Rightarrow> int \<Rightarrow> int
     \<Rightarrow> recorder \<Rightarrow> recorder result" where
  "prepare F query elapsed seq q h r =
     bindR (collect F query elapsed r)
       (\<lambda>r. Inr (if q > 0
                 then r\<lparr>rec_prepared := rec_prepared r @
                        [\<lparr>pc_sequence = seq, pc_q = q, pc_h = h, layer_events = [],
                          wait_events = [], update_synopsis = True\<rparr>]\<rparr>
                 else r))"

definition activate_next :: "recorder \<Rightarrow> recorder" where
  "activate_next r =
     (case (rec_active r, rec_prepared r) of
        (None, item # rest) \<Rightarrow> r\<lparr>rec_active := Some item, rec_prepared := rest\<rparr>
      | _ \<Rightarrow> r)"

definition begin_layer :: "recorder \<Rightarrow> recorder" where
  "begin_layer r =
     (case rec_active r of
        None \<Rightarrow> r
      | Some item \<Rightarrow>
          let (pair, r1) = ep_acquire r;
              r2 = record_event (fst pair) r1
          in r2\<lparr>rec_active := Some (item\<lparr>layer_events := layer_events item @ [pair]\<rparr>)\<rparr>)"

definition end_layer :: "recorder \<Rightarrow> recorder" where
  "end_layer r =
     (case rec_active r of
        None \<Rightarrow> r
      | Some item \<Rightarrow>
          if layer_events item = [] then r
          else record_event (snd (List.last (layer_events item))) r)"

definition begin_wait :: "recorder \<Rightarrow> recorder" where
  "begin_wait r =
     (case rec_active r of
        None \<Rightarrow> r
      | Some item \<Rightarrow>
          let (pair, r1) = ep_acquire r;
              r2 = record_event (fst pair) r1
          in r2\<lparr>rec_active := Some (item\<lparr>wait_events := wait_events item @ [pair]\<rparr>)\<rparr>)"

definition end_wait :: "recorder \<Rightarrow> recorder" where
  "end_wait r =
     (case rec_active r of
        None \<Rightarrow> r
      | Some item \<Rightarrow>
          if wait_events item = [] then r
          else record_event (snd (List.last (wait_events item))) r)"

definition finish :: "bool \<Rightarrow> recorder \<Rightarrow> recorder" where
  "finish upd r =
     (case rec_active r of
        Some item \<Rightarrow>
          if layer_events item \<noteq> []
          then r\<lparr>rec_pending := rec_pending r @ [item\<lparr>update_synopsis := upd\<rparr>], rec_active := None\<rparr>
          else r\<lparr>rec_active := None\<rparr>
      | None \<Rightarrow> r\<lparr>rec_active := None\<rparr>)"

definition discard :: "recorder \<Rightarrow> recorder" where
  "discard r = r\<lparr>rec_active := None\<rparr>"

end
