(* ===== verification/OnlineProps.thy ===== *)
theory OnlineProps
  imports OnlineCost
begin

text \<open>
  Properties of the online cost model: the ring buffer is the window of the last eight
  accepted samples, the split of a batch can always be allocated to its operations, and the
  recorder never has one timing event in two measurements.
\<close>

section \<open>The ring as a window of samples\<close>

definition accepted :: "(int \<times> pyfloat) list \<Rightarrow> (int \<times> rat) list" where
  "accepted xs = concat (map (\<lambda>(q, t). case t of Fin s \<Rightarrow> if 0 < q \<and> 0 < s then [(q, s)] else []
                                         | _ \<Rightarrow> []) xs)"

definition window :: "'a list \<Rightarrow> 'a list" where
  "window ys = drop (length ys - SAMPLES_PER_BUCKET) ys"

definition add_all :: "float_env \<Rightarrow> (int \<times> pyfloat) list \<Rightarrow> sample_ring \<Rightarrow> sample_ring" where
  "add_all F xs r = fold (\<lambda>(q, t). ring_add F q t) xs r"

definition exact_floats :: "float_env \<Rightarrow> bool" where
  "exact_floats F \<longleftrightarrow> (\<forall>x. rnd F x = x)"

text \<open>The position of the \<open>i\<close>-th oldest of \<open>m\<close> samples when the next one goes to \<open>n\<close>.\<close>

definition cell :: "nat \<Rightarrow> nat \<Rightarrow> nat \<Rightarrow> nat" where
  "cell n m i = (n + (8 - m) + i) mod 8"

definition ring_abs :: "sample_ring \<Rightarrow> (int \<times> rat) list \<Rightarrow> bool" where
  "ring_abs r ws \<longleftrightarrow>
     length (sr_q r) = 8 \<and> length (sr_t r) = 8 \<and> sr_size r = length ws \<and> length ws \<le> 8 \<and>
     sr_next r < 8 \<and> (length ws < 8 \<longrightarrow> sr_next r = length ws) \<and>
     (\<forall>i < length ws. sr_q r ! cell (sr_next r) (length ws) i = fst (ws ! i) \<and>
                      sr_t r ! cell (sr_next r) (length ws) i = snd (ws ! i)) \<and>
     sum_q r = sum_list (map fst ws) \<and> (\<forall>w \<in> set ws. 0 < fst w)"

definition ring_sum :: "sample_ring \<Rightarrow> (int \<times> rat) list \<Rightarrow> bool" where
  "ring_sum r ws \<longleftrightarrow> sum_t r = sum_list (map snd ws)"

lemma ring_abs_init: "ring_abs ring_init []"
  by (simp add: ring_abs_def ring_init_def SAMPLES_PER_BUCKET_def)

lemma cell_part: "m < 8 \<Longrightarrow> i \<le> m \<Longrightarrow> cell (Suc m mod 8) (Suc m) i = i"
  by (cases "m = 7") (auto simp: cell_def)

lemma cell_old: "m < 8 \<Longrightarrow> i < m \<Longrightarrow> cell m m i = i"
  by (simp add: cell_def)

lemma cell_next: "cell (Suc n mod 8) 8 i = cell n 8 (Suc i)"
  by (simp add: cell_def mod_simps)

lemma cell_hd: "n < 8 \<Longrightarrow> cell n 8 0 = n"
  by (simp add: cell_def)

lemma cell_last: "n < 8 \<Longrightarrow> cell n 8 8 = n"
  by (simp add: cell_def)

lemma cell_other: "n < 8 \<Longrightarrow> 0 < i \<Longrightarrow> i < 8 \<Longrightarrow> cell n 8 i \<noteq> n"
  by (cases "n + i < 8") (auto simp: cell_def mod_if)

lemma ring_add_fields:
  assumes "0 < q" "0 < t"
  shows "sr_q (ring_add F q (Fin t) r) = (sr_q r)[sr_next r := q]"
    "sr_t (ring_add F q (Fin t) r) = (sr_t r)[sr_next r := t]"
    "sr_next (ring_add F q (Fin t) r) = (sr_next r + 1) mod 8"
    "sr_size (ring_add F q (Fin t) r) = (if sr_size r = 8 then 8 else sr_size r + 1)"
    "sum_q (ring_add F q (Fin t) r) =
       (if sr_size r = 8 then sum_q r - sr_q r ! sr_next r else sum_q r) + q"
    "sum_t (ring_add F q (Fin t) r) =
       rnd F ((if sr_size r = 8 then rnd F (sum_t r - sr_t r ! sr_next r) else sum_t r) + t)"
  using assms by (simp_all add: ring_add_def Let_def SAMPLES_PER_BUCKET_def)

lemma ring_abs_full:
  assumes "ring_abs r (w # ws)" "length ws = 7"
  shows "sr_q r ! sr_next r = fst w" "sr_t r ! sr_next r = snd w" "sr_size r = 8" "sr_next r < 8"
    "length (sr_q r) = 8" "length (sr_t r) = 8" "sum_q r = fst w + sum_list (map fst ws)"
    "\<forall>w \<in> set ws. 0 < fst w"
    "i < 7 \<Longrightarrow> sr_q r ! cell (sr_next r) 8 (Suc i) = fst (ws ! i)"
    "i < 7 \<Longrightarrow> sr_t r ! cell (sr_next r) 8 (Suc i) = snd (ws ! i)"
proof -
  have c: "\<forall>i < 8. sr_q r ! cell (sr_next r) 8 i = fst ((w # ws) ! i) \<and>
             sr_t r ! cell (sr_next r) 8 i = snd ((w # ws) ! i)"
    using assms by (simp add: ring_abs_def)
  show n: "sr_next r < 8" using assms by (simp add: ring_abs_def)
  from c[rule_format, of 0] show "sr_q r ! sr_next r = fst w" "sr_t r ! sr_next r = snd w"
    by (simp_all add: cell_hd[OF n])
  from c[rule_format, of "Suc i"]
  show "i < 7 \<Longrightarrow> sr_q r ! cell (sr_next r) 8 (Suc i) = fst (ws ! i)"
    "i < 7 \<Longrightarrow> sr_t r ! cell (sr_next r) 8 (Suc i) = snd (ws ! i)" by simp_all
qed (use assms in \<open>auto simp: ring_abs_def\<close>)

lemma ring_add_full:
  assumes r: "ring_abs r ws" and ws: "length ws = 8" and q: "0 < q" and t: "0 < t"
  shows "ring_abs (ring_add F q (Fin t) r) (tl ws @ [(q, t)])"
proof -
  from ws obtain w ws' where ws': "ws = w # ws'" "length ws' = 7"
    by (cases ws) auto
  note f = ring_abs_full[OF r[unfolded ws'(1)] ws'(2)]
  have "(sr_q r)[sr_next r := q] ! cell (sr_next r) 8 (i + 1) = fst ((ws' @ [(q, t)]) ! i) \<and>
      (sr_t r)[sr_next r := t] ! cell (sr_next r) 8 (i + 1) = snd ((ws' @ [(q, t)]) ! i)"
    if "i < 8" for i
    using that f cell_last[of "sr_next r"] cell_other[of "sr_next r" "Suc i"] ws'(2)
    by (cases "i = 7") (simp_all add: nth_append)
  then show ?thesis
    using f q t ws' by (auto simp: ring_abs_def ring_add_fields[OF q t] cell_next)
qed

lemma ring_add_part:
  assumes r: "ring_abs r ws" and ws: "length ws < 8" and q: "0 < q" and t: "0 < t"
  shows "ring_abs (ring_add F q (Fin t) r) (ws @ [(q, t)])"
proof -
  let ?m = "length ws"
  from r ws have n: "sr_next r = ?m" and len: "length (sr_q r) = 8" "length (sr_t r) = 8"
    "sr_size r = ?m"
    and old: "\<And>i. i < ?m \<Longrightarrow> sr_q r ! i = fst (ws ! i) \<and> sr_t r ! i = snd (ws ! i)"
    and rest: "sum_q r = sum_list (map fst ws)" "\<forall>w \<in> set ws. 0 < fst w"
    by (auto simp: ring_abs_def cell_old)
  have "(sr_q r)[?m := q] ! cell ((?m + 1) mod 8) (?m + 1) i = fst ((ws @ [(q, t)]) ! i) \<and>
      (sr_t r)[?m := t] ! cell ((?m + 1) mod 8) (?m + 1) i = snd ((ws @ [(q, t)]) ! i)"
    if "i < ?m + 1" for i
    using that ws len old[of i] by (cases "i = ?m") (simp_all add: cell_part nth_append)
  then show ?thesis
    using len n ws q rest by (auto simp: ring_abs_def ring_add_fields[OF q t])
qed

lemma window_snoc: "window (ys @ [y]) = (if length (window ys) = 8 then tl (window ys) else window ys) @ [y]"
proof (cases "length ys < 8")
  case True
  then show ?thesis by (simp add: window_def SAMPLES_PER_BUCKET_def)
next
  case False
  then have "Suc (length ys - 8) = length ys + 1 - 8" by simp
  then have "tl (drop (length ys - 8) ys) = drop (length ys + 1 - 8) ys"
    by (metis drop_Suc tl_drop)
  with False show ?thesis
    by (simp add: window_def SAMPLES_PER_BUCKET_def)
qed

lemma ring_add_sum:
  assumes r: "ring_abs r ws" and s: "ring_sum r ws" and e: "exact_floats F" and q: "0 < q" and t: "0 < t"
  shows "ring_sum (ring_add F q (Fin t) r) ((if length ws = 8 then tl ws else ws) @ [(q, t)])"
proof (cases "length ws = 8")
  case True
  then obtain w ws' where ws': "ws = w # ws'" "length ws' = 7" by (cases ws) auto
  from ring_abs_full[OF r[unfolded ws'(1)] ws'(2)] ws' s e show ?thesis
    by (simp add: ring_sum_def ring_add_fields[OF q t] exact_floats_def)
next
  case False
  with s e r show ?thesis
    by (auto simp: ring_sum_def ring_add_fields[OF q t] exact_floats_def ring_abs_def)
qed

lemma accepted_snoc:
  "accepted (xs @ [(q, a)]) = accepted xs @
     (case a of Fin s \<Rightarrow> if 0 < q \<and> 0 < s then [(q, s)] else [] | _ \<Rightarrow> [])"
  by (simp add: accepted_def)

lemma ring_add_reject:
  "(\<And>s. a = Fin s \<Longrightarrow> q \<le> 0 \<or> s \<le> 0) \<Longrightarrow> ring_add F q a r = r"
  by (cases a) (auto simp: ring_add_def)

lemma add_all_snoc: "add_all F (xs @ [(q, a)]) r = ring_add F q a (add_all F xs r)"
  by (simp add: add_all_def)

lemma ring_run:
  "ring_abs (add_all F xs ring_init) (window (accepted xs)) \<and>
   (exact_floats F \<longrightarrow> ring_sum (add_all F xs ring_init) (window (accepted xs)))"
proof (induction xs rule: rev_induct)
  case Nil
  then show ?case
    by (simp add: add_all_def accepted_def window_def ring_abs_init ring_sum_def)
      (simp add: ring_init_def)
next
  case (snoc x xs)
  obtain q a where x: "x = (q, a)" by force
  let ?r = "add_all F xs ring_init" and ?w = "window (accepted xs)"
  from snoc.IH have abs: "ring_abs ?r ?w" and s: "exact_floats F \<longrightarrow> ring_sum ?r ?w" by auto
  show ?case
  proof (cases "\<exists>t. a = Fin t \<and> 0 < q \<and> 0 < t")
    case True
    then obtain t where t: "a = Fin t" "0 < q" "0 < t" by blast
    have "length ?w \<le> 8" using abs by (simp add: ring_abs_def)
    moreover have "window (accepted (xs @ [x])) = (if length ?w = 8 then tl ?w else ?w) @ [(q, t)]"
      using t by (simp add: x accepted_snoc window_snoc)
    ultimately show ?thesis
      using ring_add_full[OF abs _ t(2,3)] ring_add_part[OF abs _ t(2,3)]
        ring_add_sum[OF abs _ _ t(2,3)] s t
      by (simp add: x add_all_snoc)
  next
    case False
    then have "ring_add F q a ?r = ?r" by (intro ring_add_reject) (auto simp: not_less)
    moreover have "accepted (xs @ [x]) = accepted xs"
      using False by (auto simp: x accepted_snoc split: pyfloat.splits)
    ultimately show ?thesis using abs s by (simp add: x add_all_snoc)
  qed
qed

lemma window_Nil: "window ys = [] \<longleftrightarrow> ys = []"
  by (cases ys) (auto simp: window_def SAMPLES_PER_BUCKET_def)

lemma ring_abs_empty:
  assumes "ring_abs r ws" shows "sum_q r = 0 \<longleftrightarrow> ws = []"
proof -
  have "0 < sum_list (map fst ws)" if "ws \<noteq> []" "\<forall>w \<in> set ws. 0 < fst w" for ws :: "(int \<times> rat) list"
    using that
  proof (induction ws)
    case (Cons w ws)
    then show ?case by (cases "ws = []") (auto simp: add_pos_pos)
  qed simp
  with assms show ?thesis unfolding ring_abs_def by fastforce
qed



section \<open>Splitting a batch\<close>

lemma assign_pages_ok:
  "0 \<le> remaining \<Longrightarrow> assign_pages cs remaining = (res, left) \<Longrightarrow>
   length res = length cs \<and> sum_list res + left = remaining \<and> 0 \<le> left \<and>
   (\<forall>i < length cs. 0 \<le> res ! i \<and> res ! i \<le> max (cs ! i) 0) \<and>
   (left = 0 \<or> res = map (\<lambda>c. max c 0) cs)"
proof (induction cs arbitrary: remaining res left)
  case (Cons c cs)
  let ?a = "min (max c 0) remaining"
  obtain res' where res': "assign_pages cs (remaining - ?a) = (res', left)" "res = ?a # res'"
    using Cons.prems(2) by (auto simp: Let_def split: prod.splits)
  have "0 \<le> remaining - ?a" by simp
  note IH = Cons.IH[OF this res'(1)]
  show ?case
  proof (intro conjI allI impI)
    show "left = 0 \<or> res = map (\<lambda>c. max c 0) (c # cs)"
    proof (cases "left = 0")
      case False
      moreover have "sum_list res' \<ge> 0" using IH by (intro sum_list_nonneg) (auto simp: in_set_conv_nth)
      ultimately have "?a = max c 0" using IH by linarith
      with False IH res' show ?thesis by simp
    qed simp
  qed (use IH res'(2) Cons.prems(1) in \<open>auto simp: nth_Cons split: nat.splits\<close>)
qed simp

lemma assign_pages_order:
  assumes "0 \<le> remaining" "assign_pages cs remaining = (res, left)" "i < j" "j < length cs" "0 < res ! j"
  shows "res ! i = max (cs ! i) 0"
  using assms
proof (induction cs arbitrary: remaining res left i j)
  case (Cons c cs)
  let ?a = "min (max c 0) remaining"
  obtain res' where res': "assign_pages cs (remaining - ?a) = (res', left)" "res = ?a # res'"
    using Cons.prems(2) by (auto simp: Let_def split: prod.splits)
  have nn: "0 \<le> remaining - ?a" by simp
  obtain j' where j: "j = Suc j'" using Cons.prems(3) by (cases j) auto
  then have j': "j' < length cs" "0 < res' ! j'" using Cons.prems res'(2) by auto
  show ?case
  proof (cases i)
    case 0
    note ok = assign_pages_ok[OF nn res'(1)]
    have "res' ! j' \<le> sum_list res'"
      using ok j' by (intro member_le_sum_list) (auto simp: in_set_conv_nth)
    then have "0 < remaining - ?a" using ok j'(2) by linarith
    then show ?thesis using 0 res'(2) by simp
  next
    case (Suc i')
    then show ?thesis
      using Cons.IH[OF nn res'(1), of i' j'] j' j res'(2) Cons.prems(3) by simp
  qed
qed simp

lemma sum_list_max: "sum_list (cs :: int list) \<le> sum_list (map (\<lambda>c. max c 0) cs)"
  by (induction cs) auto

lemma allocate_preload_pages_ok:
  assumes "0 \<le> full" "full \<le> sum_list cs"
  obtains res where "allocate_preload_pages cs full = Inr res" "length res = length cs"
    "sum_list res = full" "\<forall>i < length cs. 0 \<le> res ! i \<and> res ! i \<le> max (cs ! i) 0"
    "\<forall>j < length cs. 0 < res ! j \<longrightarrow> (\<forall>i < j. res ! i = max (cs ! i) 0)"
proof -
  obtain res left where r: "assign_pages cs full = (res, left)" by force
  note ok = assign_pages_ok[OF assms(1) r]
  have "left = 0"
    using ok assms(2) sum_list_max[of cs] by (cases "left = 0") auto
  with ok r assms assign_pages_order[OF assms(1) r] show ?thesis
    by (intro that[of res]) (auto simp: allocate_preload_pages_def)
qed

definition update_all ::
  "(string \<times> transfer_sample) list \<Rightarrow> latest_transfer_samples \<Rightarrow> latest_transfer_samples result" where
  "update_all xs = foldR (\<lambda>(path, s) l. bindR (samples_update path s l) (\<lambda>(_, l'). Inr l')) xs"

definition valid_sample :: "transfer_sample \<Rightarrow> bool" where
  "valid_sample s \<longleftrightarrow> 0 < byte_count s \<and> (\<exists>t > 0. elapsed_seconds s = Fin t)"

definition samples_ok :: "latest_transfer_samples \<Rightarrow> bool" where
  "samples_ok l \<longleftrightarrow> (\<forall>s. full_block l = Some s \<or> layer_wise l = Some s \<longrightarrow> valid_sample s)"

lemma samples_update_ok:
  "samples_update path s l = Inr (b, l') \<Longrightarrow> samples_ok l \<Longrightarrow> samples_ok l'"
  by (auto simp: samples_update_def samples_ok_def valid_sample_def set_path_def bindR_eq_Inr not_le
      split: pyfloat.splits if_splits option.splits)

lemma update_all_ok: "update_all xs l = Inr l' \<Longrightarrow> samples_ok l \<Longrightarrow> samples_ok l'"
proof (induction xs arbitrary: l)
  case (Cons x xs)
  then show ?case
    by (cases x) (auto simp: update_all_def bindR_eq_Inr dest: samples_update_ok)
qed (simp add: update_all_def)

lemma samples_init_ok: "samples_ok samples_init"
  by (simp add: samples_ok_def samples_init_def)

lemma select_batch_split_ok:
  assumes "0 < bytes" "0 < fint F bytes" "\<And>s. sample = Some s \<Longrightarrow> valid_sample s"
  obtains full layer reason where
    "select_batch_split F host bytes seconds sample = Inr (full, layer, reason)"
    "0 \<le> full" "0 \<le> layer" "full + layer = max host 0"
proof (cases "0 < host \<and> seconds \<noteq> None \<and> sample \<noteq> None")
  case True
  then obtain sec s where s: "seconds = Some sec" "sample = Some s" by auto
  then obtain t where t: "0 < t" "elapsed_seconds s = Fin t"
    using assms(3) by (auto simp: valid_sample_def)
  show ?thesis
    by (rule that[of "host - min host (max \<lfloor>rnd F (rnd F (rnd F (fint F (byte_count s) / t) * sec) / fint F bytes)\<rfloor> 0)"
          "min host (max \<lfloor>rnd F (rnd F (rnd F (fint F (byte_count s) / t) * sec) / fint F bytes)\<rfloor> 0)" None])
      (use True s t assms(1,2) in \<open>auto simp: select_batch_split_def bandwidth_bytes_per_second_def fdivR_def Let_def\<close>)
next
  case False
  then consider "host \<le> 0" | "0 < host" "seconds = None" | "0 < host" "seconds \<noteq> None" "sample = None"
    by fastforce
  then show ?thesis
  proof cases
    case 1
    then show ?thesis by (intro that[of 0 0]) (simp_all add: select_batch_split_def)
  next
    case 2
    then show ?thesis by (intro that[of 0 host]) (simp_all add: select_batch_split_def)
  next
    case 3
    then show ?thesis by (intro that[of 0 host]) (auto simp: select_batch_split_def)
  qed
qed

text \<open>
  C22. The split of a batch can always be carried out. Whatever transfer samples have been
  reported, the host pages of a batch are divided without remainder into full-block pages and
  layer-wise pages, neither negative, and the full-block budget is then allocated exactly to
  the load operations: no operation gets more pages than it has, and an operation gets pages
  only when every operation before it got all of its own.
\<close>

theorem hybrid_split_allocates:
  assumes "update_all xs samples_init = Inr l" "0 < bytes" "0 < fint F bytes"
    "\<forall>c \<in> set counts. 0 \<le> c"
  shows "\<exists>full layer reason res.
    select_batch_split F (sum_list counts) bytes seconds (layer_wise l) = Inr (full, layer, reason) \<and>
    0 \<le> full \<and> 0 \<le> layer \<and> full + layer = sum_list counts \<and>
    allocate_preload_pages counts full = Inr res \<and> sum_list res = full \<and>
    length res = length counts \<and>
    (\<forall>i < length counts. 0 \<le> res ! i \<and> res ! i \<le> counts ! i) \<and>
    (\<forall>j < length counts. 0 < res ! j \<longrightarrow> (\<forall>i < j. res ! i = counts ! i))"
proof -
  have "samples_ok l" using update_all_ok[OF assms(1) samples_init_ok] .
  then obtain full layer reason where sp:
    "select_batch_split F (sum_list counts) bytes seconds (layer_wise l) = Inr (full, layer, reason)"
    "0 \<le> full" "0 \<le> layer" "full + layer = max (sum_list counts) 0"
    using select_batch_split_ok[OF assms(2,3), of "layer_wise l" "sum_list counts" seconds]
    unfolding samples_ok_def by blast
  have nn: "0 \<le> sum_list counts" using assms(4) by (simp add: sum_list_nonneg)
  then have "full \<le> sum_list counts" using sp by simp
  then obtain res where res: "allocate_preload_pages counts full = Inr res" "length res = length counts"
    "sum_list res = full" "\<forall>i < length counts. 0 \<le> res ! i \<and> res ! i \<le> max (counts ! i) 0"
    "\<forall>j < length counts. 0 < res ! j \<longrightarrow> (\<forall>i < j. res ! i = max (counts ! i) 0)"
    using allocate_preload_pages_ok[OF sp(2)] by blast
  have mx: "max (counts ! i) 0 = counts ! i" if "i < length counts" for i
    using assms(4) that by simp
  have "\<forall>i < length counts. 0 \<le> res ! i \<and> res ! i \<le> counts ! i"
    "\<forall>j < length counts. 0 < res ! j \<longrightarrow> (\<forall>i < j. res ! i = counts ! i)"
    using res(4,5) mx by auto
  moreover have "full + layer = sum_list counts" using sp(4) nn by simp
  ultimately show ?thesis using sp(1-3) res(1-3) by blast
qed

definition demo_sample :: transfer_sample where
  "demo_sample = \<lparr>ts_sequence = 1, byte_count = 4000, elapsed_seconds = Fin 2\<rparr>"

theorem hybrid_split_allocates_witness:
  "\<exists>full layer reason res.
    select_batch_split exact 7 1000 (Some 1) (Some demo_sample) = Inr (full, layer, reason) \<and>
    full + layer = 7 \<and> allocate_preload_pages [3, 4] full = Inr res \<and> sum_list res = full"
proof -
  have up: "update_all [(''layer_wise'', demo_sample)] samples_init =
      Inr (samples_init\<lparr>layer_wise := Some demo_sample\<rparr>)"
    by (simp add: update_all_def samples_update_def demo_sample_def samples_init_def get_path_def
        set_path_def)
  have pos: "(0::int) < 1000" "0 < fint exact 1000" "\<forall>c \<in> set [3, 4]. (0::int) \<le> c"
    by (simp_all add: fint_def exact_def)
  obtain full layer reason res where
    "select_batch_split exact (sum_list [3, 4]) 1000 (Some 1)
       (layer_wise (samples_init\<lparr>layer_wise := Some demo_sample\<rparr>)) = Inr (full, layer, reason)"
    "full + layer = sum_list [3, 4]" and al: "allocate_preload_pages [3, 4] full = Inr res" "sum_list res = full"
    using hybrid_split_allocates[OF up pos, of "Some 1"] by blast
  then have "select_batch_split exact 7 1000 (Some 1) (Some demo_sample) = Inr (full, layer, reason)"
    "full + layer = 7" by simp_all
  with al show ?thesis by blast
qed

section \<open>The recorder\<close>

definition item_events :: "pending_compute \<Rightarrow> event_pair list" where
  "item_events item = layer_events item @ wait_events item"

definition active_events :: "recorder \<Rightarrow> event_pair list" where
  "active_events r = (case rec_active r of None \<Rightarrow> [] | Some item \<Rightarrow> item_events item)"

text \<open>Every place of the recorder that holds a pair of events.\<close>

definition held_pairs :: "recorder \<Rightarrow> event_pair list" where
  "held_pairs r = ep_free r @ active_events r @ concat (map item_events (rec_pending r))"

definition events_of :: "event_pair list \<Rightarrow> event list" where
  "events_of ps = concat (map (\<lambda>(s, e). [s, e]) ps)"

definition item_ok :: "pending_compute \<Rightarrow> bool" where
  "item_ok item \<longleftrightarrow> 0 < pc_q item \<and> 0 \<le> pc_h item"

definition recorder_inv :: "recorder \<Rightarrow> bool" where
  "recorder_inv r \<longleftrightarrow>
     distinct (events_of (held_pairs r)) \<and> (\<forall>e \<in> set (events_of (held_pairs r)). e < next_event r) \<and>
     (\<forall>item \<in> set (rec_prepared r). item_events item = [] \<and> item_ok item) \<and>
     (\<forall>item \<in> set (rec_pending r). layer_events item \<noteq> [] \<and> item_ok item) \<and>
     (\<forall>item. rec_active r = Some item \<longrightarrow> item_ok item)"

lemma events_of_simps [simp]:
  "events_of [] = []" "events_of (p # ps) = fst p # snd p # events_of ps"
  "events_of (ps @ qs) = events_of ps @ events_of qs"
  by (auto simp: events_of_def split: prod.splits)

lemma mset_events_of: "mset (events_of ps) = (\<Sum>p \<in># mset ps. {#fst p, snd p#})"
  by (induction ps) simp_all

lemma events_of_perm: "mset ps = mset qs \<Longrightarrow> mset (events_of ps) = mset (events_of qs)"
  by (simp add: mset_events_of)

lemma recorder_inv_perm:
  assumes "recorder_inv r" "mset (held_pairs r') = mset (held_pairs r)" "next_event r' = next_event r"
    "set (rec_prepared r') \<subseteq> set (rec_prepared r)" "set (rec_pending r') \<subseteq> set (rec_pending r)"
    "\<And>item. rec_active r' = Some item \<Longrightarrow> item_ok item"
  shows "recorder_inv r'"
proof -
  note m = events_of_perm[OF assms(2)]
  have "distinct (events_of (held_pairs r')) = distinct (events_of (held_pairs r))"
    "set (events_of (held_pairs r')) = set (events_of (held_pairs r))"
    using mset_eq_imp_distinct_iff[OF m] mset_eq_setD[OF m] by simp_all
  then show ?thesis
    using assms(1,3-6) by (auto simp: recorder_inv_def)
qed

lemma release_all:
  "fold ep_release ps r = r\<lparr>ep_free := ep_free r @ ps\<rparr>"
  by (induction ps arbitrary: r) (simp_all add: ep_release_def)

definition split_pending :: "(event \<Rightarrow> bool) \<Rightarrow> recorder \<Rightarrow> pending_compute list \<Rightarrow> recorder \<Rightarrow> bool" where
  "split_pending query r items r' \<longleftrightarrow>
     ep_free r' = ep_free r @ concat (map item_events (filter (item_done query) items)) \<and>
     rec_finished r' = rec_finished r @
       (if has_callback r then map pc_sequence (filter (item_done query) items) else []) \<and>
     rec_active r' = rec_active r \<and> rec_prepared r' = rec_prepared r \<and>
     rec_pending r' = rec_pending r \<and> next_event r' = next_event r \<and>
     has_callback r' = has_callback r"

lemma collect_item_split:
  assumes "collect_item F query elapsed item (rem, r) = Inr (rem', r')"
  shows "rem' = rem @ (if item_done query item then [] else [item])" "split_pending query r [item] r'"
proof -
  have "rem' = rem @ (if item_done query item then [] else [item]) \<and> split_pending query r [item] r'"
  proof (cases "item_done query item")
    case True
    with assms obtain s where "rem' = rem" "r' = publish_item item (r\<lparr>rec_synopsis := s\<rparr>)"
      by (auto simp: collect_item_def bindR_eq_Inr)
    with True show ?thesis by (simp add: split_pending_def publish_item_def release_all item_events_def)
  next
    case False
    with assms show ?thesis by (simp add: collect_item_def split_pending_def)
  qed
  then show "rem' = rem @ (if item_done query item then [] else [item])" "split_pending query r [item] r'"
    by auto
qed

lemma collect_fold_split:
  "foldR (collect_item F query elapsed) items (rem, r) = Inr (rem', r') \<Longrightarrow>
   rem' = rem @ filter (\<lambda>i. \<not> item_done query i) items \<and> split_pending query r items r'"
proof (induction items arbitrary: rem r)
  case (Cons item items)
  then obtain rem1 r1 where s: "collect_item F query elapsed item (rem, r) = Inr (rem1, r1)"
    "foldR (collect_item F query elapsed) items (rem1, r1) = Inr (rem', r')"
    by (auto simp: bindR_eq_Inr)
  from collect_item_split[OF s(1)] Cons.IH[OF s(2)] show ?case
    by (auto simp: split_pending_def)
qed (simp add: split_pending_def)

lemma collect_split:
  assumes "collect F query elapsed r = Inr r'"
  shows "rec_pending r' = filter (\<lambda>i. \<not> item_done query i) (rec_pending r)"
    "ep_free r' = ep_free r @ concat (map item_events (filter (item_done query) (rec_pending r)))"
    "rec_finished r' = rec_finished r @
       (if has_callback r then map pc_sequence (filter (item_done query) (rec_pending r)) else [])"
    "rec_active r' = rec_active r" "rec_prepared r' = rec_prepared r"
    "next_event r' = next_event r"
proof -
  obtain rem r1 where s: "foldR (collect_item F query elapsed) (rec_pending r) ([], r) = Inr (rem, r1)"
    "r' = r1\<lparr>rec_pending := rem\<rparr>"
    using assms by (auto simp: collect_def bindR_eq_Inr)
  from collect_fold_split[OF s(1)]
  show "rec_pending r' = filter (\<lambda>i. \<not> item_done query i) (rec_pending r)"
    "ep_free r' = ep_free r @ concat (map item_events (filter (item_done query) (rec_pending r)))"
    "rec_finished r' = rec_finished r @
       (if has_callback r then map pc_sequence (filter (item_done query) (rec_pending r)) else [])"
    "rec_active r' = rec_active r" "rec_prepared r' = rec_prepared r"
    "next_event r' = next_event r"
    by (simp_all add: s(2) split_pending_def)
qed

lemma mset_concat_filter:
  "mset (concat (map f (filter P xs))) + mset (concat (map f (filter (\<lambda>x. \<not> P x) xs))) =
   mset (concat (map f xs))"
  by (induction xs) auto

lemma collect_inv:
  assumes "recorder_inv r" "collect F query elapsed r = Inr r'"
  shows "recorder_inv r'"
proof (rule recorder_inv_perm[OF assms(1)])
  note c = collect_split[OF assms(2)]
  show "mset (held_pairs r') = mset (held_pairs r)"
    using mset_concat_filter[of item_events "item_done query" "rec_pending r"]
    by (simp add: held_pairs_def active_events_def c algebra_simps)
  show "\<And>item. rec_active r' = Some item \<Longrightarrow> item_ok item"
    using assms(1) by (simp add: c recorder_inv_def)
qed (auto simp: collect_split[OF assms(2)])

lemma prepare_inv:
  assumes "recorder_inv r" "prepare F query elapsed sq q h r = Inr r'" "0 \<le> h"
  shows "recorder_inv r'"
proof -
  obtain r1 where r1: "collect F query elapsed r = Inr r1"
    "r' = (if q > 0 then r1\<lparr>rec_prepared := rec_prepared r1 @
        [\<lparr>pc_sequence = sq, pc_q = q, pc_h = h, layer_events = [], wait_events = [], update_synopsis = True\<rparr>]\<rparr>
      else r1)"
    using assms(2) by (auto simp: prepare_def bindR_eq_Inr)
  from collect_inv[OF assms(1) r1(1)] show ?thesis
    using assms(3) by (auto simp: r1(2) recorder_inv_def held_pairs_def active_events_def
        item_events_def item_ok_def)
qed

lemma activate_next_inv: "recorder_inv r \<Longrightarrow> recorder_inv (activate_next r)"
  by (auto simp: activate_next_def recorder_inv_def held_pairs_def active_events_def
      split: option.splits list.splits)

lemma acquire_inv:
  assumes "recorder_inv r" "ep_acquire r = (p, r')"
  shows "distinct (events_of (p # held_pairs r'))" "\<forall>e \<in> set (events_of (p # held_pairs r')). e < next_event r'"
    "rec_prepared r' = rec_prepared r" "rec_pending r' = rec_pending r" "rec_active r' = rec_active r"
proof -
  show "rec_prepared r' = rec_prepared r" "rec_pending r' = rec_pending r" "rec_active r' = rec_active r"
    using assms(2) by (auto simp: ep_acquire_def split: if_splits)
  have "distinct (events_of (p # held_pairs r')) \<and>
      (\<forall>e \<in> set (events_of (p # held_pairs r')). e < next_event r')"
  proof (cases "ep_free r = []")
    case True
    then have "p = (next_event r, next_event r + 1)" "held_pairs r' = held_pairs r"
      "next_event r' = next_event r + 2"
      using assms(2) by (auto simp: ep_acquire_def held_pairs_def active_events_def)
    with assms(1) show ?thesis by (fastforce simp: recorder_inv_def)
  next
    case False
    then have fr: "ep_free r = ep_free r' @ [p]" and nx: "next_event r' = next_event r"
      and rest: "active_events r' = active_events r" "rec_pending r' = rec_pending r"
      using assms(2) by (auto simp: ep_acquire_def active_events_def)
    have "mset (held_pairs r) = mset (p # held_pairs r')"
      by (simp add: held_pairs_def fr rest)
    note m = events_of_perm[OF this]
    have "distinct (events_of (p # held_pairs r')) = distinct (events_of (held_pairs r))"
      "set (events_of (p # held_pairs r')) = set (events_of (held_pairs r))"
      using mset_eq_imp_distinct_iff[OF m] mset_eq_setD[OF m] by simp_all
    with assms(1) nx show ?thesis by (simp add: recorder_inv_def)
  qed
  then show "distinct (events_of (p # held_pairs r'))"
    "\<forall>e \<in> set (events_of (p # held_pairs r')). e < next_event r'" by auto
qed

lemma record_event_simps [simp]:
  "held_pairs (record_event e r) = held_pairs r" "next_event (record_event e r) = next_event r"
  "rec_prepared (record_event e r) = rec_prepared r" "rec_pending (record_event e r) = rec_pending r"
  "rec_active (record_event e r) = rec_active r" "ep_free (record_event e r) = ep_free r"
  by (simp_all add: record_event_def held_pairs_def active_events_def)

lemma record_event_inv: "recorder_inv r \<Longrightarrow> recorder_inv (record_event e r)"
  by (simp add: recorder_inv_def)

text \<open>Giving a freshly acquired pair to the active measurement.\<close>

lemma grow_active_inv:
  assumes inv: "recorder_inv r" and act: "rec_active r = Some item" and acq: "ep_acquire r = (p, r1)"
    and it: "mset (item_events item') = mset (p # item_events item)" "item_ok item'"
    and r': "rec_active r' = Some item'" "ep_free r' = ep_free r1" "next_event r' = next_event r1"
      "rec_prepared r' = rec_prepared r1" "rec_pending r' = rec_pending r1"
  shows "recorder_inv r'"
proof -
  note a = acquire_inv[OF inv acq]
  have "mset (held_pairs r') = mset (p # held_pairs r1)"
    using it(1) act by (simp add: held_pairs_def active_events_def r' a)
  note m = events_of_perm[OF this]
  have "distinct (events_of (held_pairs r'))" "set (events_of (held_pairs r')) = set (events_of (p # held_pairs r1))"
    using a(1) mset_eq_imp_distinct_iff[OF m] mset_eq_setD[OF m] by auto
  with a(2) inv it(2) show ?thesis
    unfolding recorder_inv_def by (simp add: r' a)
qed

lemma begin_layer_inv:
  assumes "recorder_inv r" shows "recorder_inv (begin_layer r)"
proof (cases "rec_active r")
  case (Some item)
  obtain p r1 where a: "ep_acquire r = (p, r1)" by (metis surj_pair)
  have "item_ok item" using assms Some by (simp add: recorder_inv_def)
  then show ?thesis
    by (intro grow_active_inv[OF assms Some a, of "item\<lparr>layer_events := layer_events item @ [p]\<rparr>"])
      (simp_all add: begin_layer_def Some a item_events_def item_ok_def)
qed (use assms in \<open>simp add: begin_layer_def\<close>)

lemma begin_wait_inv:
  assumes "recorder_inv r" shows "recorder_inv (begin_wait r)"
proof (cases "rec_active r")
  case (Some item)
  obtain p r1 where a: "ep_acquire r = (p, r1)" by (metis surj_pair)
  have "item_ok item" using assms Some by (simp add: recorder_inv_def)
  then show ?thesis
    by (intro grow_active_inv[OF assms Some a, of "item\<lparr>wait_events := wait_events item @ [p]\<rparr>"])
      (simp_all add: begin_wait_def Some a item_events_def item_ok_def)
qed (use assms in \<open>simp add: begin_wait_def\<close>)

lemma end_inv:
  "recorder_inv r \<Longrightarrow> recorder_inv (end_layer r)" "recorder_inv r \<Longrightarrow> recorder_inv (end_wait r)"
  by (auto simp: end_layer_def end_wait_def record_event_inv split: option.splits)

lemma discard_inv: "recorder_inv r \<Longrightarrow> recorder_inv (discard r)"
  by (auto simp: discard_def recorder_inv_def held_pairs_def active_events_def split: option.splits)

lemma finish_inv:
  assumes "recorder_inv r" shows "recorder_inv (finish upd r)"
proof (cases "\<exists>item. rec_active r = Some item \<and> layer_events item \<noteq> []")
  case True
  then obtain item where item: "rec_active r = Some item" "layer_events item \<noteq> []" by blast
  let ?i = "item\<lparr>update_synopsis := upd\<rparr>"
  have ok: "item_ok ?i" using assms item by (simp add: recorder_inv_def item_ok_def)
  have "mset (held_pairs (finish upd r)) = mset (held_pairs r)"
    by (simp add: finish_def item held_pairs_def active_events_def item_events_def)
  note m = events_of_perm[OF this]
  from assms ok item(2) mset_eq_imp_distinct_iff[OF m] mset_eq_setD[OF m] show ?thesis
    unfolding recorder_inv_def by (simp add: finish_def item)
next
  case False
  then have "finish upd r = discard r"
    by (auto simp: finish_def discard_def split: option.splits)
  with discard_inv[OF assms] show ?thesis by simp
qed

text \<open>
  The states a recorder can be in: any interleaving of its methods, with the outcome of the
  event queries arbitrary at each \<^verbatim>\<open>collect\<close>.
\<close>

inductive rec_reach :: "float_env \<Rightarrow> synopsis \<Rightarrow> bool \<Rightarrow> recorder \<Rightarrow> bool" for F s cb where
  rr_init: "rec_reach F s cb (recorder_init s cb)"
| rr_prepare: "rec_reach F s cb r \<Longrightarrow> 0 \<le> h \<Longrightarrow> prepare F query elapsed sq q h r = Inr r' \<Longrightarrow>
    rec_reach F s cb r'"
| rr_activate: "rec_reach F s cb r \<Longrightarrow> rec_reach F s cb (activate_next r)"
| rr_begin_layer: "rec_reach F s cb r \<Longrightarrow> rec_reach F s cb (begin_layer r)"
| rr_end_layer: "rec_reach F s cb r \<Longrightarrow> rec_reach F s cb (end_layer r)"
| rr_begin_wait: "rec_reach F s cb r \<Longrightarrow> rec_reach F s cb (begin_wait r)"
| rr_end_wait: "rec_reach F s cb r \<Longrightarrow> rec_reach F s cb (end_wait r)"
| rr_finish: "rec_reach F s cb r \<Longrightarrow> rec_reach F s cb (finish upd r)"
| rr_discard: "rec_reach F s cb r \<Longrightarrow> rec_reach F s cb (discard r)"
| rr_collect: "rec_reach F s cb r \<Longrightarrow> collect F query elapsed r = Inr r' \<Longrightarrow> rec_reach F s cb r'"

lemma rec_reach_inv: "rec_reach F s cb r \<Longrightarrow> recorder_inv r"
proof (induction rule: rec_reach.induct)
  case rr_init
  show ?case by (simp add: recorder_inv_def recorder_init_def held_pairs_def active_events_def)
qed (auto intro: prepare_inv activate_next_inv begin_layer_inv begin_wait_inv end_inv finish_inv
    discard_inv collect_inv)

text \<open>
  C23. Under any interleaving of the recorder's methods no timing event is in two places: the
  free pool, the running measurement and the measurements whose results are outstanding never
  share an event, so a measurement that is still being read is never recorded over by a later
  layer.
\<close>

theorem recorder_events_distinct:
  assumes "rec_reach F s cb r"
  shows "distinct (events_of (ep_free r @ active_events r @ concat (map item_events (rec_pending r))))"
  using rec_reach_inv[OF assms] by (simp add: recorder_inv_def held_pairs_def)

definition demo_prepared :: recorder where
  "demo_prepared = (recorder_init (synopsis_init 256) True)\<lparr>rec_prepared :=
     [\<lparr>pc_sequence = 5, pc_q = 10, pc_h = 6, layer_events = [], wait_events = [], update_synopsis = True\<rparr>]\<rparr>"

definition demo_recorder :: recorder where
  "demo_recorder = finish True (end_layer (begin_layer (activate_next demo_prepared)))"

lemma demo_reach: "rec_reach exact (synopsis_init 256) True demo_recorder"
proof -
  have "prepare exact (\<lambda>_. False) (\<lambda>_ _. 0) 5 10 6 (recorder_init (synopsis_init 256) True) =
      Inr demo_prepared"
    by (simp add: prepare_def collect_def recorder_init_def demo_prepared_def)
  from rr_prepare[OF rr_init _ this] show ?thesis
    unfolding demo_recorder_def by (auto intro: rr_finish rr_end_layer rr_begin_layer rr_activate)
qed

lemma demo_recorder_fields:
  "ep_free demo_recorder = []" "active_events demo_recorder = []" "rec_finished demo_recorder = []"
  "has_callback demo_recorder"
  "rec_pending demo_recorder = [\<lparr>pc_sequence = 5, pc_q = 10, pc_h = 6, layer_events = [(0, 1)],
     wait_events = [], update_synopsis = True\<rparr>]"
  by (simp_all add: demo_recorder_def demo_prepared_def recorder_init_def activate_next_def
      begin_layer_def end_layer_def finish_def ep_acquire_def record_event_def active_events_def)

theorem recorder_events_distinct_witness:
  "distinct (events_of (concat (map item_events (rec_pending demo_recorder)))) \<and>
   rec_pending demo_recorder \<noteq> []"
  using recorder_events_distinct[OF demo_reach] by (simp add: demo_recorder_fields)

section \<open>Collecting\<close>

text \<open>Positive integers and the bucket width do not round to zero.\<close>

definition no_underflow :: "float_env \<Rightarrow> bool" where
  "no_underflow F \<longleftrightarrow> (\<forall>n > 0. 0 < rnd F (of_int n)) \<and> 0 < rnd F (5 / 100)"

lemma bucket_key_ok:
  "no_underflow F \<Longrightarrow> 0 < q \<Longrightarrow> 0 \<le> h \<Longrightarrow> \<exists>key. bucket_key F s q h = Inr key"
  by (auto simp: bucket_key_def Let_def fdivR_def REUSE_BUCKET_WIDTH_def no_underflow_def)

lemma add_measurement_ok:
  assumes "no_underflow F" "item_ok item" "layer_events item \<noteq> []"
  shows "\<exists>s'. add_measurement F elapsed item s = Inr s'"
proof -
  have "0 < fint F (int (length (layer_events item)))"
    using assms(1,3) unfolding fint_def no_underflow_def by (metis length_greater_0_conv of_nat_0_less_iff)
  then show ?thesis
    using bucket_key_ok[OF assms(1), of "pc_q item" "pc_h item" s] assms(2)
    by (auto simp: add_measurement_def Let_def fdivR_def synopsis_add_def item_ok_def)
qed

lemma collect_item_ok:
  assumes "no_underflow F" "item_ok item" "layer_events item \<noteq> []"
  shows "\<exists>y. collect_item F query elapsed item x = Inr y"
  using add_measurement_ok[OF assms, of elapsed "rec_synopsis (snd x)"]
  by (cases x) (auto simp: collect_item_def)

lemma collect_fold_ok:
  assumes "no_underflow F" "\<forall>item \<in> set items. layer_events item \<noteq> [] \<and> item_ok item"
  shows "\<exists>y. foldR (collect_item F query elapsed) items x = Inr y"
  using assms(2)
proof (induction items arbitrary: x)
  case (Cons item items)
  then obtain y where "collect_item F query elapsed item x = Inr y"
    using collect_item_ok[OF assms(1)] by (metis list.set_intros(1))
  with Cons show ?case by simp
qed simp



end
