(* ===== verification/PrefillDelayer.thy ===== *)
theory PrefillDelayer
  imports PyFloat
begin

text \<open>
  \<^verbatim>\<open>managers/prefill_delayer.py\<close>: the data-parallel ranks negotiate, once per scheduling pass,
  whether prefill may run. \<^verbatim>\<open>all_gather_into_tensor\<close> is an argument: from the row of this rank
  it gives the buffer that the collective fills, indexed by data-parallel rank, tensor-parallel
  rank and field. \<^verbatim>\<open>time.perf_counter\<close> readings are arguments of the pass.
\<close>

section \<open>State\<close>

record delay_state =
  delayed_count :: int
  start_time :: rat

definition bump_delayed_count :: "delay_state \<Rightarrow> delay_state" where
  "bump_delayed_count s = s\<lparr>delayed_count := delayed_count s + 1\<rparr>"

record negotiate_output =
  next_state :: "delay_state option"
  input_estimation :: string
  output_allow :: bool
  output_reason :: string
  num_prefillable :: int
  num_token_watermark_force_allow :: int

record delayer =
  max_delay_passes :: int
  token_usage_low_watermark :: "rat option"
  queue_min_ratio :: "rat option"
  max_delay_ms :: rat
  queue_trigger_enabled :: bool
  dl_dp_size :: int
  enable_dp_attention :: bool
  curr_state :: "delay_state option"
  skip_first_delayer :: bool

text \<open>
  The constructor, with the fields of \<^verbatim>\<open>server_args\<close> it reads, the environment flag and whether
  a device group was passed.
\<close>

definition delayer_init ::
  "int \<Rightarrow> int \<Rightarrow> rat option \<Rightarrow> rat option \<Rightarrow> rat option \<Rightarrow> bool \<Rightarrow> bool \<Rightarrow> bool \<Rightarrow> bool \<Rightarrow> delayer result"
where
  "delayer_init dp_size passes watermark queue_ratio delay_ms dp_attention
     disable_overlap_schedule nccl_env has_device_group =
     assertR ((disable_overlap_schedule \<or> nccl_env) \<longrightarrow> has_device_group)
      (assertR (\<not> disable_overlap_schedule)
        (Inr \<lparr>max_delay_passes = passes, token_usage_low_watermark = watermark,
              queue_min_ratio = queue_ratio,
              max_delay_ms = (case delay_ms of None \<Rightarrow> 5000 | Some t \<Rightarrow> t),
              queue_trigger_enabled = (queue_ratio \<noteq> None), dl_dp_size = dp_size,
              enable_dp_attention = dp_attention, curr_state = None,
              skip_first_delayer = True\<rparr>))"

section \<open>One negotiation\<close>

text \<open>What the scheduler passes in, the collective, and the two clock readings.\<close>

record pass_in =
  local_prefillable :: bool
  token_usage :: rat
  pi_running_batch :: int
  pi_max_prefill_bs :: int
  pi_max_running_requests :: int
  pi_waiting_queue_len :: int
  all_gather :: "int list \<Rightarrow> int list list list"
  now_check :: rat
  now_state :: rat

definition local_force_allow :: "delayer \<Rightarrow> pass_in \<Rightarrow> bool" where
  "local_force_allow dl p \<longleftrightarrow> local_prefillable p \<and>
     (case token_usage_low_watermark dl of None \<Rightarrow> False | Some x \<Rightarrow> token_usage p < x)"

definition local_info :: "delayer \<Rightarrow> pass_in \<Rightarrow> int list" where
  "local_info dl p =
     [of_bool (local_prefillable p), of_bool (local_force_allow dl p), pi_running_batch p,
      pi_max_prefill_bs p, pi_waiting_queue_len p]"

definition gather_info :: "delayer \<Rightarrow> pass_in \<Rightarrow> int list list" where
  "gather_info dl p = map (\<lambda>tp. tp ! 0) (all_gather p (local_info dl p))"

definition column :: "nat \<Rightarrow> int list list \<Rightarrow> int list" where
  "column k rows = map (\<lambda>row. row ! k) rows"

definition prefillable_status :: "int list list \<Rightarrow> string" where
  "prefillable_status info =
     (if Min (set (column 0 info)) > 0 then ''all''
      else if Max (set (column 0 info)) = 0 then ''none''
      else ''mixed'')"

definition mk_output ::
  "int list list \<Rightarrow> delay_state option \<Rightarrow> bool \<Rightarrow> string \<Rightarrow> negotiate_output" where
  "mk_output info st allow reason =
     \<lparr>next_state = st, input_estimation = prefillable_status info, output_allow = allow,
      output_reason = reason, num_prefillable = sum_list (column 0 info),
      num_token_watermark_force_allow = sum_list (column 1 info)\<rparr>"

definition delayed_state :: "delay_state option \<Rightarrow> rat \<Rightarrow> delay_state" where
  "delayed_state prev t =
     bump_delayed_count (case prev of Some s \<Rightarrow> s | None \<Rightarrow> \<lparr>delayed_count = 0, start_time = t\<rparr>)"

definition queue_condition ::
  "float_env \<Rightarrow> delayer \<Rightarrow> delay_state option \<Rightarrow> pass_in \<Rightarrow> int list list \<Rightarrow> bool" where
  "queue_condition F dl prev p info =
     (let running = Max (set (column 2 info)) in
      case queue_min_ratio dl of
        Some ratio \<Rightarrow>
          queue_trigger_enabled dl \<and> running > 0 \<and>
          (let queue_min = min (ftrunc (rnd F (fint F running * ratio))) (Max (set (column 3 info)))
           in queue_min > 0 \<and> Max (set (column 4 info)) < queue_min) \<and>
          (case prev of
             None \<Rightarrow> True
           | Some s \<Rightarrow> rnd F (rnd F (now_check p - start_time s) * 1000) < max_delay_ms dl)
      | None \<Rightarrow> False)"

definition slot_condition :: "delayer \<Rightarrow> pass_in \<Rightarrow> int list list \<Rightarrow> bool" where
  "slot_condition dl p info \<longleftrightarrow>
     (let max_running = (if enable_dp_attention dl then pi_max_running_requests p
                         else (pi_max_running_requests p + dl_dp_size dl - 1) div dl_dp_size dl)
      in max_running - Max (set (column 2 info)) < Max (set (column 3 info)))"

text \<open>The branch for the case that every rank could prefill.\<close>

definition negotiate_all ::
  "float_env \<Rightarrow> delayer \<Rightarrow> delay_state option \<Rightarrow> pass_in \<Rightarrow> int list list
     \<Rightarrow> (negotiate_output \<times> delayer) result" where
  "negotiate_all F dl prev p info =
     (if Max (set (column 1 info)) > 0 then Inr (mk_output info None True ''token_watermark'', dl)
      else if \<not> enable_dp_attention dl \<and> dl_dp_size dl = 0 then Inl ZeroDivisionError
      else
        let wait = (slot_condition dl p info \<or> queue_condition F dl prev p info)
        in if wait \<and> \<not> skip_first_delayer dl
           then Inr (mk_output info (Some (delayed_state prev (now_state p))) False ''delay'', dl)
           else Inr (mk_output info None True (if prev \<noteq> None then ''wait_success'' else ''no_wait''),
                     if wait then dl\<lparr>skip_first_delayer := False\<rparr> else dl))"

definition negotiate_mixed ::
  "delayer \<Rightarrow> delay_state option \<Rightarrow> pass_in \<Rightarrow> int list list \<Rightarrow> negotiate_output" where
  "negotiate_mixed dl prev p info =
     (if Max (set (column 1 info)) > 0 then mk_output info None True ''token_watermark''
      else if (case prev of Some s \<Rightarrow> delayed_count s | None \<Rightarrow> 0) < max_delay_passes dl - 1
      then mk_output info (Some (delayed_state prev (now_state p))) False ''delay''
      else mk_output info None True ''wait_timeout'')"

definition negotiate_pure ::
  "float_env \<Rightarrow> delayer \<Rightarrow> delay_state option \<Rightarrow> pass_in \<Rightarrow> (negotiate_output \<times> delayer) result" where
  "negotiate_pure F dl prev p =
     (let info = gather_info dl p in
      if prefillable_status info = ''all'' then negotiate_all F dl prev p info
      else if prefillable_status info = ''none'' then Inr (mk_output info None True [], dl)
      else Inr (negotiate_mixed dl prev p info, dl))"

definition negotiate ::
  "float_env \<Rightarrow> pass_in \<Rightarrow> delayer \<Rightarrow> (negotiate_output \<times> delayer) result" where
  "negotiate F p dl =
     bindR (negotiate_pure F dl (curr_state dl) p)
       (\<lambda>(out, dl'). Inr (out, dl'\<lparr>curr_state := next_state out\<rparr>))"

section \<open>One scheduling pass\<close>

text \<open>
  The executor negotiates at most once per pass and remembers the answer; \<open>ex_metrics\<close> is what
  the metrics collector has been told.
\<close>

record delay_outcome =
  forward_passes :: int
  wait_seconds :: rat
  oc_estimation :: string
  oc_allow :: bool
  oc_reason :: string
  actual_execution :: bool

record pass_executor =
  ex_delayer :: delayer
  ex_token_usage :: rat
  ex_result :: "negotiate_output option"
  ex_metrics :: "delay_outcome list"

definition executor_init :: "delayer \<Rightarrow> rat \<Rightarrow> pass_executor" where
  "executor_init dl usage = \<lparr>ex_delayer = dl, ex_token_usage = usage, ex_result = None, ex_metrics = []\<rparr>"

definition negotiate_should_allow_prefill ::
  "float_env \<Rightarrow> pass_in \<Rightarrow> pass_executor \<Rightarrow> (bool \<times> pass_executor) result" where
  "negotiate_should_allow_prefill F p ex =
     (case ex_result ex of
        Some out \<Rightarrow> Inr (output_allow out, ex)
      | None \<Rightarrow>
          bindR (negotiate F (p\<lparr>token_usage := ex_token_usage ex\<rparr>) (ex_delayer ex))
            (\<lambda>(out, dl). Inr (output_allow out, ex\<lparr>ex_delayer := dl, ex_result := Some out\<rparr>)))"

definition record_single_pass_result ::
  "float_env \<Rightarrow> bool \<Rightarrow> bool \<Rightarrow> rat \<Rightarrow> bool \<Rightarrow> negotiate_output \<Rightarrow> delay_outcome list
     \<Rightarrow> delay_outcome list result" where
  "record_single_pass_result F debug_log has_collector now actual out metrics =
     assertR (debug_log \<longrightarrow>
         output_allow out \<and> output_reason out \<in> {''wait_timeout'', ''token_watermark''} \<or>
         output_reason out \<in> {'''', ''wait_success'', ''no_wait'', ''delay''})
       (if has_collector
        then Inr (metrics @ [
           \<lparr>forward_passes = (case next_state out of Some s \<Rightarrow> delayed_count s | None \<Rightarrow> 0),
            wait_seconds = (case next_state out of Some s \<Rightarrow> rnd F (now - start_time s) | None \<Rightarrow> 0),
            oc_estimation = input_estimation out, oc_allow = output_allow out,
            oc_reason = output_reason out, actual_execution = actual\<rparr>])
        else Inr metrics)"

text \<open>\<open>p\<close> is the pass with the default arguments of the method.\<close>

definition finalize ::
  "float_env \<Rightarrow> bool \<Rightarrow> bool \<Rightarrow> rat \<Rightarrow> bool \<Rightarrow> pass_in \<Rightarrow> pass_executor \<Rightarrow> pass_executor result" where
  "finalize F debug_log has_collector now actual_prefill p ex =
     bindR (negotiate_should_allow_prefill F
              (p\<lparr>local_prefillable := False, pi_running_batch := 0, pi_max_prefill_bs := 0,
                 pi_max_running_requests := 0, pi_waiting_queue_len := 0\<rparr>) ex)
       (\<lambda>(_, ex1). bindR (the_attr (ex_result ex1))
          (\<lambda>out. bindR (record_single_pass_result F debug_log has_collector now actual_prefill out
                          (ex_metrics ex1))
             (\<lambda>ms. Inr (ex1\<lparr>ex_metrics := ms\<rparr>))))"

end
