(* ===== verification/DelayerProps.thy ===== *)
theory DelayerProps
  imports PrefillDelayer
begin

text \<open>
  Properties of the prefill negotiation: ranks that gather the same information decide alike,
  and a rank that could prefill while others cannot is delayed for a bounded number of passes.
\<close>

section \<open>Runs of passes\<close>

fun run_passes :: "float_env \<Rightarrow> pass_in list \<Rightarrow> delayer \<Rightarrow> (bool list \<times> delayer) result" where
  "run_passes F [] dl = Inr ([], dl)"
| "run_passes F (p # ps) dl =
     bindR (negotiate F p dl)
       (\<lambda>(out, dl1). bindR (run_passes F ps dl1)
          (\<lambda>(allows, dl2). Inr (output_allow out # allows, dl2)))"

text \<open>The configuration, which no negotiation changes.\<close>

definition same_setup :: "delayer \<Rightarrow> delayer \<Rightarrow> bool" where
  "same_setup a b \<longleftrightarrow>
     max_delay_passes b = max_delay_passes a \<and>
     token_usage_low_watermark b = token_usage_low_watermark a \<and>
     queue_min_ratio b = queue_min_ratio a \<and> max_delay_ms b = max_delay_ms a \<and>
     queue_trigger_enabled b = queue_trigger_enabled a \<and> dl_dp_size b = dl_dp_size a \<and>
     enable_dp_attention b = enable_dp_attention a"

lemma same_setup_refl [simp]: "same_setup a a"
  by (simp add: same_setup_def)

lemma same_setup_trans: "same_setup a b \<Longrightarrow> same_setup b c \<Longrightarrow> same_setup a c"
  by (simp add: same_setup_def)

lemma same_setup_info: "same_setup a b \<Longrightarrow> gather_info b p = gather_info a p"
  by (simp add: same_setup_def gather_info_def local_info_def local_force_allow_def)

lemma negotiate_config: "negotiate F p dl = Inr (out, dl') \<Longrightarrow> same_setup dl dl'"
  by (auto simp: negotiate_def negotiate_pure_def negotiate_all_def Let_def bindR_eq_Inr same_setup_def
      split: if_splits)

definition delay_count :: "delayer \<Rightarrow> int" where
  "delay_count dl = (case curr_state dl of Some s \<Rightarrow> delayed_count s | None \<Rightarrow> 0)"

lemma delay_count_delayed [simp]:
  "delayed_count (delayed_state prev t) = (case prev of Some s \<Rightarrow> delayed_count s | None \<Rightarrow> 0) + 1"
  by (simp add: delayed_state_def bump_delayed_count_def split: option.splits)

lemma negotiate_state: "negotiate F p dl = Inr (out, dl') \<Longrightarrow> curr_state dl' = next_state out"
  by (auto simp: negotiate_def bindR_eq_Inr)

section \<open>Bounded delay\<close>

definition mixed_pass :: "delayer \<Rightarrow> pass_in \<Rightarrow> bool" where
  "mixed_pass dl p \<longleftrightarrow> prefillable_status (gather_info dl p) = ''mixed''"

lemma negotiate_mixed_pass:
  assumes "mixed_pass dl p"
  obtains out dl' where "negotiate F p dl = Inr (out, dl')" "same_setup dl dl'"
    "output_allow out \<or> delay_count dl < max_delay_passes dl - 1 \<and> delay_count dl' = delay_count dl + 1"
proof -
  let ?out = "negotiate_mixed dl (curr_state dl) p (gather_info dl p)"
  have n: "negotiate F p dl = Inr (?out, dl\<lparr>curr_state := next_state ?out\<rparr>)"
    using assms by (simp add: negotiate_def negotiate_pure_def mixed_pass_def Let_def)
  moreover have "output_allow ?out \<or>
      delay_count dl < max_delay_passes dl - 1 \<and>
      delay_count (dl\<lparr>curr_state := next_state ?out\<rparr>) = delay_count dl + 1"
    by (simp add: negotiate_mixed_def mk_output_def delay_count_def)
  ultimately show ?thesis using that negotiate_config[OF n] by blast
qed

lemma mixed_run:
  assumes "\<forall>p \<in> set ps. mixed_pass dl p"
    "int (length ps) \<ge> 1" "int (length ps) \<ge> max_delay_passes dl - delay_count dl"
  shows "\<exists>allows dl'. run_passes F ps dl = Inr (allows, dl') \<and> True \<in> set allows"
  using assms
proof (induction ps arbitrary: dl)
  case (Cons p ps)
  from Cons.prems(1) have "mixed_pass dl p" by simp
  then obtain out dl1 where n: "negotiate F p dl = Inr (out, dl1)" and c: "same_setup dl dl1"
    and d: "output_allow out \<or> delay_count dl < max_delay_passes dl - 1 \<and> delay_count dl1 = delay_count dl + 1"
    by (rule negotiate_mixed_pass)
  have mx: "\<forall>p \<in> set ps. mixed_pass dl1 p"
    using Cons.prems(1) by (simp add: mixed_pass_def same_setup_info[OF c])
  show ?case
  proof (cases "output_allow out")
    case True
    have "\<exists>allows dl'. run_passes F ps dl1 = Inr (allows, dl')" using mx
    proof (induction ps arbitrary: dl1)
      case (Cons q qs)
      from Cons.prems have "mixed_pass dl1 q" by simp
      then obtain o2 dl2 where q: "negotiate F q dl1 = Inr (o2, dl2)" "same_setup dl1 dl2"
        by (rule negotiate_mixed_pass)
      with Cons.prems have "\<forall>p \<in> set qs. mixed_pass dl2 p"
        by (simp add: mixed_pass_def same_setup_info)
      from Cons.IH[OF this] q(1) show ?case by auto
    qed simp
    with n True show ?thesis by auto
  next
    case False
    with d have lt: "delay_count dl < max_delay_passes dl - 1" "delay_count dl1 = delay_count dl + 1" by auto
    have "int (length ps) \<ge> 1" using lt Cons.prems(3) by simp
    moreover have "int (length ps) \<ge> max_delay_passes dl1 - delay_count dl1"
      using lt Cons.prems(3) c by (simp add: same_setup_def)
    ultimately obtain allows dl' where "run_passes F ps dl1 = Inr (allows, dl')" "True \<in> set allows"
      using Cons.IH[OF mx] by blast
    with n show ?thesis by simp
  qed
qed simp

text \<open>
  C21. A delay is bounded: when only some of the ranks can prefill, pass after pass, then
  whatever state the negotiation is in, one of the next \<^verbatim>\<open>max_delay_passes\<close> passes (one pass
  when that bound is not positive) lets prefill run.
\<close>

theorem mixed_delay_bounded:
  assumes "\<forall>p \<in> set ps. mixed_pass dl p" "0 \<le> delay_count dl"
    "length ps = nat (max 1 (max_delay_passes dl))"
  shows "\<exists>allows dl'. run_passes F ps dl = Inr (allows, dl') \<and> True \<in> set allows"
proof -
  have "int (length ps) = max 1 (max_delay_passes dl)" using assms(3) by simp
  then have "1 \<le> int (length ps)" "max_delay_passes dl - delay_count dl \<le> int (length ps)"
    using assms(2) by linarith+
  then show ?thesis using mixed_run[OF assms(1), of F] by blast
qed

definition demo_delayer :: delayer where
  "demo_delayer = \<lparr>max_delay_passes = 2, token_usage_low_watermark = None, queue_min_ratio = None,
     max_delay_ms = 5000, queue_trigger_enabled = False, dl_dp_size = 2, enable_dp_attention = True,
     curr_state = None, skip_first_delayer = True\<rparr>"

text \<open>A pass in which this rank can prefill and a second rank cannot.\<close>

definition demo_pass :: pass_in where
  "demo_pass = \<lparr>local_prefillable = True, token_usage = 0, pi_running_batch = 1, pi_max_prefill_bs = 4,
     pi_max_running_requests = 8, pi_waiting_queue_len = 3,
     all_gather = (\<lambda>row. [[row], [[0, 0, 2, 4, 0]]]), now_check = 1, now_state = 1\<rparr>"

lemma demo_mixed: "mixed_pass demo_delayer demo_pass"
  by (simp add: mixed_pass_def demo_delayer_def demo_pass_def gather_info_def local_info_def
      prefillable_status_def column_def)

theorem mixed_delay_bounded_witness:
  "\<exists>allows dl'. run_passes exact [demo_pass, demo_pass] demo_delayer = Inr (allows, dl') \<and> True \<in> set allows"
proof -
  have "delay_count demo_delayer = 0" "max_delay_passes demo_delayer = 2"
    by (simp_all add: delay_count_def demo_delayer_def)
  then show ?thesis
    using mixed_delay_bounded[of "[demo_pass, demo_pass]" demo_delayer exact] demo_mixed by simp
qed

section \<open>Agreement\<close>

text \<open>
  Two ranks agree when they have the same configuration, have or have not both skipped the
  first delay, and count the same delayed passes. Their clocks may differ.
\<close>

definition same_count :: "delay_state option \<Rightarrow> delay_state option \<Rightarrow> bool" where
  "same_count a b \<longleftrightarrow> map_option delayed_count a = map_option delayed_count b"

definition agree :: "delayer \<Rightarrow> delayer \<Rightarrow> bool" where
  "agree a b \<longleftrightarrow> same_setup a b \<and> skip_first_delayer a = skip_first_delayer b \<and>
     same_count (curr_state a) (curr_state b)"

text \<open>What the collective guarantees of one pass: every rank sees the same rows.\<close>

definition same_pass :: "delayer \<Rightarrow> pass_in \<Rightarrow> pass_in \<Rightarrow> bool" where
  "same_pass dl p q \<longleftrightarrow> gather_info dl p = gather_info dl q \<and>
     pi_max_running_requests p = pi_max_running_requests q"

lemma same_count_iff:
  "same_count a b \<Longrightarrow> (a = None) = (b = None)"
  "same_count a b \<Longrightarrow> (case a of Some s \<Rightarrow> delayed_count s | None \<Rightarrow> 0) =
     (case b of Some s \<Rightarrow> delayed_count s | None \<Rightarrow> 0)"
  by (auto simp: same_count_def split: option.splits)

lemma same_count_delayed:
  "same_count a b \<Longrightarrow> same_count (Some (delayed_state a s)) (Some (delayed_state b t))"
  using same_count_iff(2)[of a b] by (simp add: same_count_def)

lemma slot_condition_cong:
  "same_setup a b \<Longrightarrow> pi_max_running_requests p = pi_max_running_requests q \<Longrightarrow>
   slot_condition a p info = slot_condition b q info"
  by (simp add: slot_condition_def same_setup_def)

lemma queue_condition_off: "\<not> queue_trigger_enabled dl \<Longrightarrow> \<not> queue_condition F dl prev p info"
  by (auto simp: queue_condition_def Let_def split: option.splits)

text \<open>What two negotiations have in common.\<close>

definition same_decision :: "(negotiate_output \<times> delayer) result \<Rightarrow> (negotiate_output \<times> delayer) result \<Rightarrow> bool"
where
  "same_decision x y \<longleftrightarrow>
     (case (x, y) of
        (Inl e, Inl e') \<Rightarrow> e = e'
      | (Inr (o1, d1), Inr (o2, d2)) \<Rightarrow>
          output_allow o1 = output_allow o2 \<and> output_reason o1 = output_reason o2 \<and>
          same_count (next_state o1) (next_state o2) \<and> same_setup d1 d2 \<and>
          skip_first_delayer d1 = skip_first_delayer d2
      | _ \<Rightarrow> False)"

lemma negotiate_all_agree:
  assumes "agree a b" "\<not> queue_trigger_enabled a" "pi_max_running_requests p = pi_max_running_requests q"
  shows "same_decision (negotiate_all F a (curr_state a) p info) (negotiate_all F b (curr_state b) q info)"
proof -
  have c: "same_setup a b" "skip_first_delayer b = skip_first_delayer a"
    "same_count (curr_state a) (curr_state b)"
    using assms(1) by (simp_all add: agree_def)
  have "\<not> queue_trigger_enabled b" using c(1) assms(2) by (simp add: same_setup_def)
  with assms(2) c show ?thesis
    using slot_condition_cong[OF c(1) assms(3), of info] same_count_iff(1)[OF c(3)]
      same_count_delayed[OF c(3), of "now_state p" "now_state q"]
    by (auto simp: negotiate_all_def same_decision_def Let_def mk_output_def queue_condition_off
        same_setup_def same_count_def)
qed

lemma negotiate_agree:
  assumes "agree a b" "\<not> queue_trigger_enabled a" "same_pass a p q"
  shows "same_decision (negotiate_pure F a (curr_state a) p) (negotiate_pure F b (curr_state b) q)"
proof -
  have c: "same_setup a b" "skip_first_delayer b = skip_first_delayer a"
    "same_count (curr_state a) (curr_state b)"
    using assms(1) by (simp_all add: agree_def)
  have info: "gather_info b q = gather_info a p"
    using assms(3) same_setup_info[OF c(1)] by (simp add: same_pass_def)
  show ?thesis
  proof (cases "prefillable_status (gather_info a p) = ''all''")
    case True
    with assms info show ?thesis
      by (simp add: negotiate_pure_def negotiate_all_agree same_pass_def)
  next
    case False
    with c info same_count_iff(2)[OF c(3)] same_count_delayed[OF c(3), of "now_state p" "now_state q"]
    show ?thesis
      by (simp add: negotiate_pure_def same_decision_def mk_output_def negotiate_mixed_def Let_def
          same_count_def same_setup_def)
  qed
qed

lemma negotiate_agree_step:
  assumes "agree a b" "\<not> queue_trigger_enabled a" "same_pass a p q" "negotiate F p a = Inr (out, a')"
  obtains out' b' where "negotiate F q b = Inr (out', b')" "output_allow out' = output_allow out" "agree a' b'"
proof -
  obtain a1 where a1: "negotiate_pure F a (curr_state a) p = Inr (out, a1)" "a' = a1\<lparr>curr_state := next_state out\<rparr>"
    using assms(4) by (auto simp: negotiate_def bindR_eq_Inr)
  from negotiate_agree[OF assms(1-3), of F] obtain out' b1 where
    b1: "negotiate_pure F b (curr_state b) q = Inr (out', b1)" "output_allow out = output_allow out'"
      "same_count (next_state out) (next_state out')" "same_setup a1 b1"
      "skip_first_delayer a1 = skip_first_delayer b1"
    by (auto simp: a1(1) same_decision_def split: sum.splits prod.splits)
  show ?thesis
    by (rule that[of out' "b1\<lparr>curr_state := next_state out'\<rparr>"])
      (use b1 a1(2) in \<open>simp_all add: negotiate_def agree_def same_setup_def\<close>)
qed


text \<open>The same two passes as the second rank sees them.\<close>

definition demo_pass2 :: pass_in where
  "demo_pass2 = \<lparr>local_prefillable = False, token_usage = 1 / 2, pi_running_batch = 2, pi_max_prefill_bs = 4,
     pi_max_running_requests = 8, pi_waiting_queue_len = 0,
     all_gather = (\<lambda>row. [[[1, 0, 1, 4, 3]], [row]]), now_check = 9, now_state = 9\<rparr>"

lemma demo_same_pass: "same_pass demo_delayer demo_pass demo_pass2"
  by (simp add: same_pass_def demo_delayer_def demo_pass_def demo_pass2_def gather_info_def
      local_info_def local_force_allow_def)


text \<open>
  With the queue trigger two ranks in agreement can part: each measures the delay on its own
  clock, so one lets prefill run while the other still waits.
\<close>

definition queue_delayer :: delayer where
  "queue_delayer = demo_delayer\<lparr>queue_min_ratio := Some 2, queue_trigger_enabled := True,
     skip_first_delayer := False, curr_state := Some \<lparr>delayed_count = 1, start_time = 0\<rparr>\<rparr>"

definition queue_pass :: "rat \<Rightarrow> pass_in" where
  "queue_pass t = demo_pass\<lparr>all_gather := (\<lambda>row. [[[1, 0, 2, 4, 1]], [[1, 0, 2, 4, 1]]]), now_check := t\<rparr>"

lemma queue_trigger_disagrees:
  "agree queue_delayer queue_delayer \<and> same_pass queue_delayer (queue_pass 1) (queue_pass 6) \<and>
   (\<exists>a b. run_passes exact [queue_pass 1] queue_delayer = Inr ([False], a) \<and>
          run_passes exact [queue_pass 6] queue_delayer = Inr ([True], b))"
  by (simp add: agree_def same_count_def same_pass_def queue_delayer_def queue_pass_def demo_delayer_def
      demo_pass_def gather_info_def local_info_def negotiate_def negotiate_pure_def prefillable_status_def
      column_def negotiate_all_def slot_condition_def queue_condition_def mk_output_def exact_def fint_def
      ftrunc_def Let_def)

end
