(* ===== verification/SamplingProps.thy ===== *)
theory SamplingProps
  imports SamplingParams
begin

text \<open>
  Properties of the sampling parameters: what verification and normalisation establish, and
  that the bound computed for a stop regex covers everything the regex can match.
\<close>

section \<open>What a regex matches\<close>

inductive sre_item :: "sre \<Rightarrow> string \<Rightarrow> bool"
  and sre_seq :: "sre list \<Rightarrow> string \<Rightarrow> bool"
  and sre_rep :: "nat \<Rightarrow> sre list \<Rightarrow> string \<Rightarrow> bool"
where
  item_literal: "sre_item (Literal c) [c]"
| item_in: "c \<in> set cs \<Longrightarrow> sre_item (In cs) [c]"
| item_any: "sre_item AnyChar [c]"
| item_sub: "sre_seq ps w \<Longrightarrow> sre_item (Subpattern ps) w"
| item_branch: "ps \<in> set bs \<Longrightarrow> sre_seq ps w \<Longrightarrow> sre_item (Branch bs) w"
| item_repeat: "lo \<le> k \<Longrightarrow> (\<And>h. hi = Some h \<Longrightarrow> k \<le> h) \<Longrightarrow> sre_rep k ps w \<Longrightarrow> sre_item (Repeat lo hi ps) w"
| item_at: "sre_item At []"
| item_other: "sre_item Other w"
| seq_nil: "sre_seq [] []"
| seq_cons: "sre_item x u \<Longrightarrow> sre_seq xs v \<Longrightarrow> sre_seq (x # xs) (u @ v)"
| rep_zero: "sre_rep 0 ps []"
| rep_suc: "sre_seq ps u \<Longrightarrow> sre_rep k ps v \<Longrightarrow> sre_rep (Suc k) ps (u @ v)"

lemma max_length_branches_le:
  "max_length_branches bs = Inr n \<Longrightarrow> b \<in> set bs \<Longrightarrow>
   \<exists>m. max_length_from_subpattern b = Inr m \<and> m \<le> n"
proof (induction bs arbitrary: n)
  case (Cons a bs)
  then show ?case
    by (cases "bs = []") (fastforce simp: bindR_eq_Inr)+
qed simp

definition covers :: "nat \<Rightarrow> string \<Rightarrow> bool" where
  "covers n w \<longleftrightarrow> length w \<le> n \<or> MAX_LEN \<le> n"

lemma covers_mono: "covers n w \<Longrightarrow> n \<le> m \<Longrightarrow> covers m w"
  by (auto simp: covers_def)

lemma covers_append: "covers n u \<Longrightarrow> covers m v \<Longrightarrow> covers (n + m) (u @ v)"
  by (auto simp: covers_def)

lemma MAX_LEN_covers: "MAX_LEN \<le> n \<Longrightarrow> covers n w"
  by (simp add: covers_def)

lemma regex_covered:
  "sre_item x w \<Longrightarrow> (\<And>n. max_length_item x = Inr n \<Longrightarrow> covers n w)"
  "sre_seq ps w \<Longrightarrow> (\<And>n. max_length_from_subpattern ps = Inr n \<Longrightarrow> covers n w)"
  "sre_rep k ps w \<Longrightarrow> (\<And>n h. max_length_from_subpattern ps = Inr n \<Longrightarrow> k \<le> h \<Longrightarrow> covers (h * n) w)"
proof (induction rule: sre_item_sre_seq_sre_rep.inducts)
  case (item_branch ps bs w)
  then obtain m where "max_length_from_subpattern ps = Inr m" "m \<le> n"
    using max_length_branches_le[of bs n ps] by auto
  then show ?case using item_branch.IH covers_mono by blast
next
  case (item_repeat lo k hi ps w)
  then show ?case
    by (cases hi) (auto simp: bindR_eq_Inr MAX_LEN_covers)
next
  case (seq_cons x u xs v)
  then show ?case by (auto simp: bindR_eq_Inr covers_append)
next
  case (rep_suc ps u k v)
  then obtain h' where h: "h = Suc h'" "k \<le> h'" by (cases h) auto
  have "covers (n + h' * n) (u @ v)"
    using rep_suc.IH(1)[OF rep_suc.prems(1)] rep_suc.IH(2)[OF rep_suc.prems(1) h(2)]
    by (rule covers_append)
  then show ?case by (simp add: h(1))
qed (auto simp: covers_def)

lemma fold_max_le:
  "foldR (\<lambda>r m. bindR (f r) (\<lambda>n. Inr (max m n))) rs m0 = Inr m \<Longrightarrow>
   m0 \<le> m \<and> (\<forall>r \<in> set rs. \<exists>n. f r = Inr n \<and> n \<le> (m :: nat))"
proof (induction rs arbitrary: m0)
  case (Cons r rs)
  then obtain n where "f r = Inr n" "foldR (\<lambda>r m. bindR (f r) (\<lambda>n. Inr (max m n))) rs (max m0 n) = Inr m"
    by (auto simp: bindR_eq_Inr)
  with Cons.IH show ?case by fastforce
qed simp

lemma fold_max_len: "m0 \<le> fold (\<lambda>s m. max m (f s)) xs m0 \<and> (\<forall>s \<in> set xs. f s \<le> fold (\<lambda>s m. max m (f s)) xs (m0 :: nat))"
proof (induction xs arbitrary: m0)
  case (Cons x xs)
  from Cons.IH[of "max m0 (f x)"] show ?case by auto
qed simp

lemma normalize_fields:
  assumes "normalize parse encode p = Inr p'"
  shows "\<exists>m. p' = p\<lparr>stop_strs := ManyStop (stop_list (stop_strs p)),
        stop_str_max_len := fold (\<lambda>s m. max m (stop_str_len encode s)) (stop_list (stop_strs p)) 0,
        stop_regex_strs := ManyStop (stop_list (stop_regex_strs p)), stop_regex_max_len := m\<rparr> \<and>
      (\<forall>r \<in> set (stop_list (stop_regex_strs p)). \<exists>n. get_max_seq_length parse r = Inr n \<and> n \<le> m)"
proof -
  obtain m where m: "foldR (\<lambda>r m. bindR (get_max_seq_length parse r) (\<lambda>n. Inr (max m n)))
      (stop_list (stop_regex_strs p)) 0 = Inr m"
    and "p' = p\<lparr>stop_strs := ManyStop (stop_list (stop_strs p)),
        stop_str_max_len := fold (\<lambda>s m. max m (stop_str_len encode s)) (stop_list (stop_strs p)) 0,
        stop_regex_strs := ManyStop (stop_list (stop_regex_strs p)), stop_regex_max_len := m\<rparr>"
    using assms unfolding normalize_def Let_def bindR_eq_Inr by blast
  with fold_max_le[OF m] show ?thesis by blast
qed

text \<open>
  C38. The buffer kept for stop regexes is long enough: after normalisation, whatever a stop
  regex of the request can match is no longer than the computed maximum, or the maximum has
  reached the cap for unbounded patterns.
\<close>

theorem stop_regex_bound:
  assumes "normalize parse encode p = Inr p'" "r \<in> set (stop_list (stop_regex_strs p))"
    "parse r = Inr ps" "sre_seq ps w"
  shows "length w \<le> stop_regex_max_len p' \<or> MAX_LEN \<le> stop_regex_max_len p'"
proof -
  obtain m n where m: "stop_regex_max_len p' = m" "max_length_from_subpattern ps = Inr n" "n \<le> m"
    using normalize_fields[OF assms(1)] assms(2,3) by (fastforce simp: get_max_seq_length_def)
  from regex_covered(2)[OF assms(4) m(2)] m(3) have "covers m w" by (rule covers_mono)
  with m(1) show ?thesis by (simp add: covers_def)
qed

definition demo_params :: sampling_params where
  "demo_params = sampling_init exact id (sampling_defaults\<lparr>a_stop_regex := OneStop ''a{2}'',
     a_stop := ManyStop [''END'', ''Z''], a_temperature := Some (Fin 0), a_stop_token_ids := Some [Some 5, None, Some 5]\<rparr>)"

definition demo_parse :: "string \<Rightarrow> sre list result" where
  "demo_parse s = Inr [Repeat 2 (Some 2) [Literal CHR ''a'']]"

lemma demo_params_fields:
  "stop_strs demo_params = ManyStop [''END'', ''Z'']" "stop_regex_strs demo_params = OneStop ''a{2}''"
  "temperature demo_params = Fin 1" "top_k demo_params = 1" "stop_token_ids demo_params = Some [5]"
  by (simp_all add: demo_params_def sampling_init_def sampling_defaults_def or_default_def SAMPLING_EPS_def
      exact_def filter_stop_token_ids_def Let_def)

lemma demo_normalize: "\<exists>p'. normalize demo_parse None demo_params = Inr p' \<and> stop_regex_max_len p' = 2"
  by (simp add: normalize_def demo_params_fields stop_list_def get_max_seq_length_def demo_parse_def Let_def)

theorem stop_regex_bound_witness:
  "\<exists>p'. normalize demo_parse None demo_params = Inr p' \<and>
     (length ''aa'' \<le> stop_regex_max_len p' \<or> MAX_LEN \<le> stop_regex_max_len p')"
proof -
  obtain p' where p': "normalize demo_parse None demo_params = Inr p'" using demo_normalize by blast
  have "sre_rep 2 [Literal CHR ''a''] ([CHR ''a''] @ [CHR ''a''] @ [])"
    unfolding numeral_2_eq_2 by (intro rep_suc rep_zero seq_cons[OF item_literal seq_nil, simplified])
  then have "sre_seq [Repeat 2 (Some 2) [Literal CHR ''a'']] (''aa'' @ [])"
    by (intro seq_cons[OF item_repeat[of _ 2] seq_nil]) simp_all
  with stop_regex_bound[OF p', of "''a{2}''" "[Repeat 2 (Some 2) [Literal CHR ''a'']]" "''aa''"] p'
  show ?thesis by (simp add: demo_params_fields stop_list_def demo_parse_def)
qed

section \<open>Verified parameters\<close>

definition flt_in :: "rat \<Rightarrow> rat \<Rightarrow> pyfloat \<Rightarrow> bool" where
  "flt_in a b x \<longleftrightarrow> (\<exists>y. x = Fin y \<and> a \<le> y \<and> y \<le> b)"

definition sampling_typed :: "(string \<Rightarrow> int list) option \<Rightarrow> int \<Rightarrow> sampling_params \<Rightarrow> bool" where
  "sampling_typed encode vocab_size p \<longleftrightarrow>
     (\<forall>t. temperature p = Fin t \<longrightarrow> 0 < t) \<and> temperature p \<noteq> NInf \<and>
     flt_in 0 1 (top_p p) \<and> top_p p \<noteq> Fin 0 \<and> flt_in 0 1 (min_p p) \<and> 1 \<le> top_k p \<and>
     flt_in (- 2) 2 (frequency_penalty p) \<and> flt_in (- 2) 2 (presence_penalty p) \<and>
     flt_in 0 2 (repetition_penalty p) \<and> repetition_penalty p \<noteq> Fin 0 \<and>
     0 \<le> min_new_tokens p \<and> (\<forall>m. sp_max_new_tokens p = Some m \<longrightarrow> min_new_tokens p \<le> m) \<and>
     (\<forall>ids. stop_token_ids p = Some ids \<longrightarrow> ids \<noteq> []) \<and>
     (\<forall>bs t b. logit_bias p = Some bs \<longrightarrow> (t, b) \<in> set bs \<longrightarrow> (\<exists>i. t = Some i \<and> 0 \<le> i \<and> i < vocab_size)) \<and>
     (json_schema p = None \<or> sp_regex p = None) \<and> (json_schema p = None \<or> ebnf p = None) \<and>
     (sp_regex p = None \<or> ebnf p = None) \<and>
     (\<exists>xs. stop_strs p = ManyStop xs \<and> (\<forall>s \<in> set xs. stop_str_len encode s \<le> stop_str_max_len p)) \<and>
     (\<exists>xs. stop_regex_strs p = ManyStop xs)"

lemma flt_in_le: "flt_le (Fin a) x \<Longrightarrow> flt_le x (Fin b) \<Longrightarrow> flt_in a b x"
  using flt_le_Fin(1) by (simp add: flt_in_def)

lemma flt_in_lt: "flt_lt (Fin a) x \<Longrightarrow> flt_le x (Fin b) \<Longrightarrow> flt_in a b x \<and> x \<noteq> Fin a"
  using flt_le_Fin(2) by (fastforce simp: flt_in_def)

lemma if_raise: "(if b then Inl e else m) = Inr x \<longleftrightarrow> \<not> b \<and> m = Inr x"
  by simp

lemmas verify_iff = verify_def[of vocab_size p, THEN arg_cong, of "\<lambda>m. m = Inr ()", unfolded if_raise]
  for vocab_size p

lemma verify_ranges:
  assumes "verify vocab_size p = Inr ()"
  shows "\<not> flt_lt (temperature p) (Fin 0)" "flt_in 0 1 (top_p p)" "top_p p \<noteq> Fin 0" "flt_in 0 1 (min_p p)" "1 \<le> top_k p"
    "flt_in (- 2) 2 (frequency_penalty p)" "flt_in (- 2) 2 (presence_penalty p)"
    "flt_in 0 2 (repetition_penalty p)" "repetition_penalty p \<noteq> Fin 0" "0 \<le> min_new_tokens p"
    "\<And>m. sp_max_new_tokens p = Some m \<Longrightarrow> min_new_tokens p \<le> m"
    "\<And>bs t b. logit_bias p = Some bs \<Longrightarrow> (t, b) \<in> set bs \<Longrightarrow> \<exists>i. t = Some i \<and> 0 \<le> i \<and> i < vocab_size"
    "json_schema p = None \<or> sp_regex p = None" "json_schema p = None \<or> ebnf p = None" "sp_regex p = None \<or> ebnf p = None"
proof -
  note v = assms[unfolded verify_iff]
  show "\<not> flt_lt (temperature p) (Fin 0)" "1 \<le> top_k p" "0 \<le> min_new_tokens p" using v by linarith+
  show "flt_in 0 1 (top_p p)" "top_p p \<noteq> Fin 0" "flt_in 0 1 (min_p p)"
    "flt_in (- 2) 2 (frequency_penalty p)" "flt_in (- 2) 2 (presence_penalty p)"
    "flt_in 0 2 (repetition_penalty p)" "repetition_penalty p \<noteq> Fin 0"
    using v flt_in_le flt_in_lt by blast+
  show "min_new_tokens p \<le> m" if "sp_max_new_tokens p = Some m" for m using v that by simp
  show "\<exists>i. t = Some i \<and> 0 \<le> i \<and> i < vocab_size" if "logit_bias p = Some bs" "(t, b) \<in> set bs" for bs t b
  proof -
    have "bias_key_ok vocab_size t" using v that by force
    then show ?thesis by (simp add: bias_key_ok_def split: option.splits)
  qed
  have "\<not> 1 < length (filter (\<lambda>g. g \<noteq> None) [json_schema p, sp_regex p, ebnf p])"
    using v by blast
  then show "json_schema p = None \<or> sp_regex p = None" "json_schema p = None \<or> ebnf p = None" "sp_regex p = None \<or> ebnf p = None"
    by (simp_all split: if_splits)
qed

lemma sampling_init_temperature:
  assumes "0 < rnd F (1 / 10 ^ 6)" "\<not> flt_lt (temperature (sampling_init F ord a)) (Fin 0)"
  shows "(\<forall>t. temperature (sampling_init F ord a) = Fin t \<longrightarrow> 0 < t) \<and> temperature (sampling_init F ord a) \<noteq> NInf"
  using assms by (auto simp: sampling_init_def SAMPLING_EPS_def Let_def split: if_splits)

lemma sampling_init_stop_ids:
  assumes "\<And>xs. set (ord xs) = set xs" "stop_token_ids (sampling_init F ord a) = Some ids"
  shows "ids \<noteq> []"
  using assms(2) assms(1)[of "remdups (map the (filter (\<lambda>t. t \<noteq> None) (the (a_stop_token_ids a))))"]
  by (auto simp: sampling_init_def filter_stop_token_ids_def Let_def split: option.splits if_splits)



text \<open>A temperature that is not a number passes verification: every comparison with it fails.\<close>

lemma nan_temperature_verified:
  "verify 100 (sampling_init exact id (sampling_defaults\<lparr>a_temperature := Some NaN\<rparr>)) = Inr ()"
  by (simp add: verify_def sampling_init_def sampling_defaults_def or_default_def exact_def TOP_K_ALL_def Let_def)

end
