(* ===== verification/ReqLife.thy ===== *)
theory ReqLife
  imports ReqPool "HOL-Library.Sublist"
begin

text \<open>
  The life of a request: the methods of \<^verbatim>\<open>Req\<close> in \<^verbatim>\<open>managers/schedule_batch.py\<close> that decide
  when it has finished, cut its output at the stop position, feed the detokenizer and reset it
  when it is retracted, and \<^verbatim>\<open>validate_input_length\<close> of \<^verbatim>\<open>managers/utils.py\<close>. \<^verbatim>\<open>re.search\<close> is an
  argument.
\<close>

section \<open>Slices with signed bounds\<close>

text \<open>\<^verbatim>\<open>xs[:n]\<close> and \<^verbatim>\<open>xs[-n:]\<close>; note that \<^verbatim>\<open>xs[-0:]\<close> is the whole list.\<close>

definition py_upto :: "'a list \<Rightarrow> int \<Rightarrow> 'a list" where
  "py_upto xs n = (if 0 \<le> n then take (nat n) xs else take (length xs - nat (- n)) xs)"

definition py_tail :: "'a list \<Rightarrow> int \<Rightarrow> 'a list" where
  "py_tail xs n = (if 0 < n then drop (length xs - nat n) xs else drop (nat (- n)) xs)"

section \<open>Output and tail text\<close>

definition is_prefill_only :: "bool \<Rightarrow> req \<Rightarrow> bool" where
  "is_prefill_only has_spec r \<longleftrightarrow> max_new_tokens r = 0 \<and> \<not> has_spec"

definition output_ids_through_stop :: "req \<Rightarrow> int list" where
  "output_ids_through_stop r =
     (case finished_len r of None \<Rightarrow> output_ids r | Some n \<Rightarrow> py_upto (output_ids r) n)"

definition tail_str :: "req \<Rightarrow> string result" where
  "tail_str r =
     (let sp = rq_sampling r in
      if stop_list (stop_strs sp) = [] \<and> stop_list (stop_regex_strs sp) = [] then Inr []
      else
        let max_len_tail_str = max (stop_str_max_len sp + 1) (stop_regex_max_len sp + 1);
            tail_len = min max_len_tail_str (length (output_ids r))
        in bindR (the_attr (rq_tokenizer r))
             (\<lambda>t. Inr (tk_decode t (py_tail (output_ids r) (int tail_len)))))"

definition overlaps :: "string \<Rightarrow> string \<Rightarrow> bool" where
  "overlaps tail stop_str \<longleftrightarrow>
     (\<exists>i \<in> set [1..<min (length tail) (length stop_str) + 1]. py_tail tail (int i) = take i stop_str)"

definition check_match_stop_str_prefix :: "req \<Rightarrow> bool result" where
  "check_match_stop_str_prefix r =
     (let strs = stop_list (stop_strs (rq_sampling r)) in
      if strs = [] then Inr False
      else bindR (tail_str r)
        (\<lambda>tail. if tail = [] then Inr False
                else Inr (\<exists>s \<in> set strs. s \<noteq> [] \<and> (sublist s tail \<or> overlaps tail s))))"

section \<open>Stop conditions\<close>

definition is_stop_token :: "req \<Rightarrow> int \<Rightarrow> bool" where
  "is_stop_token r t \<longleftrightarrow>
     (case stop_token_ids (rq_sampling r) of None \<Rightarrow> False | Some ids \<Rightarrow> t \<in> set ids) \<or>
     t \<in> set (eos_token_ids r) \<or>
     (case rq_tokenizer r of None \<Rightarrow> False
      | Some tk \<Rightarrow> eos_token_id tk = Some t \<or> t \<in> set (additional_stop_token_ids tk))"

fun token_based_loop :: "req \<Rightarrow> nat \<Rightarrow> nat \<Rightarrow> int list \<Rightarrow> bool \<times> req" where
  "token_based_loop r new_len i [] = (False, r)"
| "token_based_loop r new_len i (t # ts) =
     (if is_stop_token r t
      then (True, r\<lparr>finished_reason := Some (FINISH_MATCHED_TOKEN t),
                    finished_len := Some (int (length (output_ids r)) - int new_len + int i + 1)\<rparr>)
      else token_based_loop r new_len (i + 1) ts)"

definition check_token_based_finish :: "int list \<Rightarrow> req \<Rightarrow> bool \<times> req" where
  "check_token_based_finish new_accepted_tokens r =
     (if ignore_eos (rq_sampling r) then (False, r)
      else token_based_loop r (length new_accepted_tokens) 0 new_accepted_tokens)"

definition out_of_vocab :: "req \<Rightarrow> int \<Rightarrow> bool" where
  "out_of_vocab r t \<longleftrightarrow> t > vocab_size r \<or> t < 0"

fun vocab_boundary_loop :: "req \<Rightarrow> nat \<Rightarrow> nat \<Rightarrow> int list \<Rightarrow> bool \<times> req" where
  "vocab_boundary_loop r new_len i [] = (False, r)"
| "vocab_boundary_loop r new_len i (t # ts) =
     (if out_of_vocab r t
      then
        let offset = length (output_ids r) - new_len + i;
            out1 = (case stop_token_ids (rq_sampling r) of
                      Some (s # _) \<Rightarrow> (output_ids r)[offset := s] | _ \<Rightarrow> output_ids r);
            out2 = (case eos_token_ids r of e # _ \<Rightarrow> out1[offset := e] | [] \<Rightarrow> out1)
        in (True, r\<lparr>output_ids := out2, finished_reason := Some (FINISH_MATCHED_STR ''NaN happened''),
                    finished_len := Some (int offset + 1)\<rparr>)
      else vocab_boundary_loop r new_len (i + 1) ts)"

definition check_vocab_boundary_finish :: "int list \<Rightarrow> req \<Rightarrow> bool \<times> req" where
  "check_vocab_boundary_finish new_accepted_tokens r =
     vocab_boundary_loop r (length new_accepted_tokens) 0 new_accepted_tokens"

definition check_str_based_finish :: "(string \<Rightarrow> string \<Rightarrow> bool) \<Rightarrow> req \<Rightarrow> (bool \<times> req) result" where
  "check_str_based_finish re_search r =
     (let strs = stop_list (stop_strs (rq_sampling r));
          regs = stop_list (stop_regex_strs (rq_sampling r)) in
      if strs = [] \<and> regs = [] then Inr (False, r)
      else bindR (tail_str r)
        (\<lambda>tail.
           case find (\<lambda>s. sublist s tail \<or> sublist s (decoded_text r)) strs of
             Some s \<Rightarrow> Inr (True, r\<lparr>finished_reason := Some (FINISH_MATCHED_STR s)\<rparr>)
           | None \<Rightarrow>
               (case find (\<lambda>g. re_search g tail) regs of
                  Some g \<Rightarrow> Inr (True, r\<lparr>finished_reason := Some (FINISHED_MATCHED_REGEX g)\<rparr>)
                | None \<Rightarrow> Inr (False, r))))"

definition check_finished :: "(string \<Rightarrow> string \<Rightarrow> bool) \<Rightarrow> int \<Rightarrow> req \<Rightarrow> req result" where
  "check_finished re_search new_accepted_len r =
     (if is_finished r then Inr r
      else if to_finish r \<noteq> None then Inr (r\<lparr>finished_reason := to_finish r, to_finish := None\<rparr>)
      else if int (length (output_ids r)) \<ge> max_new_tokens r
      then Inr (r\<lparr>finished_reason := Some (FINISH_LENGTH (max_new_tokens r)),
                  finished_len := Some (max_new_tokens r)\<rparr>)
      else if grammar_terminated r = Some True
      then (if output_ids r = [] then Inl IndexError
            else Inr (r\<lparr>finished_reason := Some (FINISH_MATCHED_TOKEN (List.last (output_ids r)))\<rparr>))
      else
        let new_accepted_tokens = py_tail (output_ids r) new_accepted_len;
            (stop1, r1) = check_token_based_finish new_accepted_tokens r
        in if stop1 then Inr r1
           else
             let (stop2, r2) = check_vocab_boundary_finish new_accepted_tokens r1
             in if stop2 then Inr r2
                else bindR (check_str_based_finish re_search r2) (\<lambda>(_, r3). Inr r3))"

section \<open>Bookkeeping\<close>

definition reset_for_retract :: "req \<Rightarrow> req" where
  "reset_for_retract r =
     r\<lparr>retraction_count := retraction_count r + 1, prefix_indices := [], last_node := None,
       cache_protected_len := 0, extend_input_len := 0, is_retracted := True,
       extend_logprob_start_len := 0, rq_is_chunked := 0, mamba_pool_idx := None,
       kv_allocated_len := 0, kv_committed_len := 0, kv_committed_freed := False,
       kv_overallocated_freed := False,
       output_ids := (if has_input_embeds r then [] else output_ids r)\<rparr>"

definition set_extend_input_len :: "int \<Rightarrow> req \<Rightarrow> req" where
  "set_extend_input_len n r =
     (let start_len = (if logprob_start_len r = - 1 then int (length (fill_ids r))
                       else max (logprob_start_len r) (int (length (prefix_indices r))))
      in r\<lparr>extend_input_len := n,
           extend_logprob_start_len := min (start_len - int (length (prefix_indices r))) n\<rparr>)"

definition set_finish_with_abort :: "string \<Rightarrow> req \<Rightarrow> req" where
  "set_finish_with_abort error_msg r =
     r\<lparr>grammar_terminated := None, origin_input_ids := [0], return_logprob := False,
       logprob_start_len := - 1,
       to_finish := Some (FINISH_ABORT (if error_msg = [] then ''Aborted'' else error_msg))\<rparr>"

fun index_of :: "int \<Rightarrow> int list \<Rightarrow> nat option" where
  "index_of x [] = None"
| "index_of x (y # ys) = (if x = y then Some 0 else map_option Suc (index_of x ys))"

definition update_reasoning_tokens :: "int list \<Rightarrow> int \<Rightarrow> req \<Rightarrow> req" where
  "update_reasoning_tokens token_ids think_end_id r =
     (if is_reasoning_over r then r
      else case index_of think_end_id token_ids of
        Some end_pos \<Rightarrow> r\<lparr>reasoning_tokens := reasoning_tokens r + end_pos + 1, is_reasoning_over := True\<rparr>
      | None \<Rightarrow> r\<lparr>reasoning_tokens := reasoning_tokens r + length token_ids\<rparr>)"

definition update_spec_correct_drafts_histogram :: "nat \<Rightarrow> nat list \<Rightarrow> nat list" where
  "update_spec_correct_drafts_histogram k histogram =
     (let h = (if length histogram \<le> k then histogram @ replicate (k - length histogram + 1) 0 else histogram)
      in h[k := h ! k + 1])"

text \<open>The fields that feed the incremental detokenizer.\<close>

record detok_state =
  surr_offset :: "nat option"
  read_offset :: "nat option"
  surr_and_decode_ids :: "int list"
  cur_decode_ids_len :: nat

definition INIT_INCREMENTAL_DETOKENIZATION_OFFSET :: nat where
  "INIT_INCREMENTAL_DETOKENIZATION_OFFSET = 5"

definition init_incremental_detokenize ::
  "int list \<Rightarrow> int list \<Rightarrow> detok_state \<Rightarrow> (int list \<times> nat) \<times> detok_state" where
  "init_incremental_detokenize unpadded output_ids_to_stop d =
     (case (surr_offset d, read_offset d) of
        (Some s, Some r) \<Rightarrow>
          let ids = surr_and_decode_ids d @ drop (cur_decode_ids_len d) output_ids_to_stop
          in ((ids, r - s), d\<lparr>surr_and_decode_ids := ids, cur_decode_ids_len := length output_ids_to_stop\<rparr>)
      | _ \<Rightarrow>
          let r = length unpadded;
              s = r - INIT_INCREMENTAL_DETOKENIZATION_OFFSET;
              ids = drop s unpadded @ output_ids_to_stop
          in ((ids, r - s), \<lparr>surr_offset = Some s, read_offset = Some r, surr_and_decode_ids = ids,
               cur_decode_ids_len = length output_ids_to_stop\<rparr>))"

text \<open>An error message, or nothing; a long input may be cut.\<close>

definition validate_input_length :: "nat \<Rightarrow> bool \<Rightarrow> req \<Rightarrow> string option \<times> req" where
  "validate_input_length max_req_input_len allow_auto_truncate r =
     (if length (origin_input_ids r) \<ge> max_req_input_len
      then (if allow_auto_truncate
            then (None, r\<lparr>origin_input_ids := take max_req_input_len (origin_input_ids r)\<rparr>)
            else (Some ''Input length exceeds the maximum allowed length'', r))
      else (None, r))"

end
