(* ===== verification/ReqProps.thy ===== *)
theory ReqProps
  imports ReqLife
begin

text \<open>
  Properties of the life of a request: where its output is cut, what the detokenizer is fed,
  and the limit it is given on admission.
\<close>

section \<open>Stop positions\<close>

lemma py_tail_drop: "n \<le> length xs \<Longrightarrow> 0 < n \<Longrightarrow> py_tail xs (int n) = drop (length xs - n) xs"
  by (simp add: py_tail_def)

lemma py_upto_take: "py_upto xs (int n) = take n xs"
  by (simp add: py_upto_def)

lemma token_based_loop_cases:
  "token_based_loop r m i ts = (False, r) \<and> (\<forall>t \<in> set ts. \<not> is_stop_token r t) \<or>
   (\<exists>k < length ts. (\<forall>t \<in> set (take k ts). \<not> is_stop_token r t) \<and>
      token_based_loop r m i ts = (True, r\<lparr>finished_reason := Some (FINISH_MATCHED_TOKEN (ts ! k)),
        finished_len := Some (int (length (output_ids r)) - int m + int (i + k) + 1)\<rparr>))"
proof (induction ts arbitrary: i)
  case (Cons t ts)
  show ?case
  proof (cases "is_stop_token r t")
    case True
    then show ?thesis by (intro disjI2 exI[of _ 0]) simp
  next
    case False
    from Cons.IH[of "i + 1"] consider
        "token_based_loop r m (i + 1) ts = (False, r)" "\<forall>t \<in> set ts. \<not> is_stop_token r t"
      | k where "k < length ts" "\<forall>t \<in> set (take k ts). \<not> is_stop_token r t"
          "token_based_loop r m (i + 1) ts = (True, r\<lparr>finished_reason := Some (FINISH_MATCHED_TOKEN (ts ! k)),
             finished_len := Some (int (length (output_ids r)) - int m + int (i + 1 + k) + 1)\<rparr>)"
      by blast
    then show ?thesis
    proof cases
      case 1
      with False show ?thesis by simp
    next
      case (2 k)
      with False show ?thesis by (intro disjI2 exI[of _ "Suc k"]) (simp add: add_ac)
    qed
  qed
qed simp

lemma token_based_loop_stop:
  "\<forall>t \<in> set ts. \<not> is_stop_token r t \<Longrightarrow> token_based_loop r m i ts = (False, r)"
  by (induction ts arbitrary: i) simp_all

lemma vocab_boundary_loop_cases:
  "vocab_boundary_loop r m i ts = (False, r) \<or>
   (\<exists>k < length ts. \<exists>out. length out = length (output_ids r) \<and>
      (\<forall>j < length out. j \<noteq> length (output_ids r) - m + (i + k) \<longrightarrow> out ! j = output_ids r ! j) \<and>
      vocab_boundary_loop r m i ts = (True, r\<lparr>output_ids := out,
        finished_reason := Some (FINISH_MATCHED_STR ''NaN happened''),
        finished_len := Some (int (length (output_ids r) - m + (i + k)) + 1)\<rparr>))"
proof (induction ts arbitrary: i)
  case (Cons t ts)
  show ?case
  proof (cases "out_of_vocab r t")
    case True
    let ?o = "length (output_ids r) - m + i"
    let ?out = "case eos_token_ids r of e # _ \<Rightarrow>
          (case stop_token_ids (rq_sampling r) of Some (s # _) \<Rightarrow> (output_ids r)[?o := s] | _ \<Rightarrow> output_ids r)[?o := e]
        | [] \<Rightarrow> (case stop_token_ids (rq_sampling r) of Some (s # _) \<Rightarrow> (output_ids r)[?o := s] | _ \<Rightarrow> output_ids r)"
    have "length ?out = length (output_ids r)" "\<forall>j < length ?out. j \<noteq> ?o \<longrightarrow> ?out ! j = output_ids r ! j"
      by (simp_all split: list.splits option.splits)
    with True show ?thesis
      by (intro disjI2 exI[of _ 0] conjI exI[of _ ?out]) (simp_all add: Let_def)
  next
    case False
    with Cons.IH[of "i + 1"] show ?thesis
      by (elim disjE exE conjE) (auto intro!: exI[of _ "Suc _"] simp del: One_nat_def)
  qed
qed simp

definition cut_ok :: "req \<Rightarrow> req \<Rightarrow> bool" where
  "cut_ok r r' \<longleftrightarrow> int (length (output_ids_through_stop r')) \<le> max_new_tokens r \<and>
     (\<forall>t \<in> set (butlast (output_ids_through_stop r')). \<not> is_stop_token r t) \<and>
     (is_finished r' \<or> r' = r \<and> int (length (output_ids r)) < max_new_tokens r \<and>
        (\<forall>t \<in> set (output_ids r). \<not> is_stop_token r t))"

lemma cut_ok_at:
  assumes "is_finished r'" "finished_len r' = Some (int (Suc k))" "k < length (output_ids r')"
    "take k (output_ids r') = take k (output_ids r)" "int k < max_new_tokens r"
    "\<forall>t \<in> set (take k (output_ids r)). \<not> is_stop_token r t"
  shows "cut_ok r r'"
proof -
  have th: "output_ids_through_stop r' = take (Suc k) (output_ids r')"
    unfolding output_ids_through_stop_def assms(2) by (simp only: option.case py_upto_take)
  then have "butlast (output_ids_through_stop r') = take k (output_ids r)"
    using assms(3,4) by (simp add: butlast_take)
  with th assms(1,3,5,6) show ?thesis by (simp add: cut_ok_def)
qed

lemma take_old_new:
  assumes "\<forall>t \<in> set (take j xs). P t" "\<forall>t \<in> set (take k (drop j xs)). P t"
  shows "\<forall>t \<in> set (take (j + k) xs). P t"
  using assms by (auto simp: take_add)

lemma check_str_based_finish_cases:
  assumes "check_str_based_finish re_search r = Inr (b, r')"
  shows "r' = r \<or> (\<exists>reason. r' = r\<lparr>finished_reason := Some reason\<rparr>)"
  using assms by (auto simp: check_str_based_finish_def Let_def bindR_eq_Inr split: if_splits option.splits)

lemma check_finished_below:
  assumes "\<not> is_finished r" "to_finish r = None" "finished_len r = None" "grammar_terminated r \<noteq> Some True"
    "\<not> ignore_eos (rq_sampling r)" "0 < n" "n \<le> length (output_ids r)"
    "int (length (output_ids r)) < max_new_tokens r"
    "\<forall>t \<in> set (take (length (output_ids r) - n) (output_ids r)). \<not> is_stop_token r t"
    "check_finished re_search (int n) r = Inr r'"
  shows "cut_ok r r'"
proof -
  let ?L = "length (output_ids r)" and ?new = "drop (length (output_ids r) - n) (output_ids r)"
  have len: "length ?new = n" using assms(7) by simp
  have run: "(let (stop1, r1) = token_based_loop r n 0 ?new in
      if stop1 then Inr r1 else
      let (stop2, r2) = vocab_boundary_loop r1 n 0 ?new in
      if stop2 then Inr r2 else bindR (check_str_based_finish re_search r2) (\<lambda>(_, r3). Inr r3)) = Inr r'"
    using assms(10) assms(1-5,8)
    unfolding check_finished_def check_token_based_finish_def check_vocab_boundary_finish_def
      py_tail_drop[OF assms(7,6)] Let_def len
    by simp
  show ?thesis
  proof (cases "\<forall>t \<in> set ?new. \<not> is_stop_token r t")
    case False
    then obtain k where k: "k < n" "\<forall>t \<in> set (take k ?new). \<not> is_stop_token r t"
      "r' = r\<lparr>finished_reason := Some (FINISH_MATCHED_TOKEN (?new ! k)),
        finished_len := Some (int ?L - int n + int (0 + k) + 1)\<rparr>"
      using run token_based_loop_cases[of r n 0 ?new] len by (auto simp: Let_def)
    have at: "int ?L - int n + int (0 + k) + 1 = int (Suc (?L - n + k))" "?L - n + k < ?L"
      using k(1) assms(7) by auto
    have new: "\<forall>t \<in> set (take (?L - n + k) (output_ids r)). \<not> is_stop_token r t"
      by (rule take_old_new[OF assms(9) k(2)])
    have fin: "is_finished r'" "finished_len r' = Some (int (Suc (?L - n + k)))" "output_ids r' = output_ids r"
      unfolding k(3) at(1) is_finished_def by simp_all
    show ?thesis
      by (rule cut_ok_at[OF fin(1,2) _ _ _ new]) (use fin(3) at(2) assms(8) in simp_all)
  next
    case True
    then have all: "\<forall>t \<in> set (output_ids r). \<not> is_stop_token r t"
      using assms(9) set_append[of "take (?L - n) (output_ids r)" ?new]
      unfolding append_take_drop_id by blast
    have t: "token_based_loop r n 0 ?new = (False, r)"
      using True by (rule token_based_loop_stop)
    from vocab_boundary_loop_cases[of r n 0 ?new] show ?thesis
    proof (elim disjE exE conjE)
      assume "vocab_boundary_loop r n 0 ?new = (False, r)"
      with run t obtain b where "check_str_based_finish re_search r = Inr (b, r')"
        by (auto simp: Let_def bindR_eq_Inr)
      from check_str_based_finish_cases[OF this] show ?thesis
        using all assms(3,8) by (auto simp: cut_ok_def output_ids_through_stop_def is_finished_def
            dest: in_set_butlastD)
    next
      fix k out
      assume k: "k < length ?new" and out: "length out = ?L"
        "\<forall>j < length out. j \<noteq> ?L - n + (0 + k) \<longrightarrow> out ! j = output_ids r ! j"
        and v: "vocab_boundary_loop r n 0 ?new = (True, r\<lparr>output_ids := out,
          finished_reason := Some (FINISH_MATCHED_STR ''NaN happened''),
          finished_len := Some (int (?L - n + (0 + k)) + 1)\<rparr>)"
      have tk: "take (?L - n + k) out = take (?L - n + k) (output_ids r)"
        using out k by (intro nth_equalityI) auto
      have r': "r' = r\<lparr>output_ids := out, finished_reason := Some (FINISH_MATCHED_STR ''NaN happened''),
          finished_len := Some (int (Suc (?L - n + k)))\<rparr>"
        using run unfolding t Let_def prod.case v by (simp add: add.commute[of 1] eq_commute[of r'])
      have "?L - n + k < ?L" using k assms(7) by simp
      moreover have "\<forall>t \<in> set (take (?L - n + k) (output_ids r)). \<not> is_stop_token r t"
        using all by (auto dest: in_set_takeD)
      ultimately show ?thesis
        unfolding r' using tk out(1) assms(8)
        by (intro cut_ok_at[of _ "?L - n + k"]) (simp_all add: is_finished_def)
    qed
  qed
qed


definition demo_running :: req where
  "demo_running = (new_req ''r'' [1, 2] (sampling_init exact id (sampling_defaults\<lparr>a_stop_token_ids := Some [Some 9]\<rparr>))
     False None None [] 100 None None False)\<lparr>max_new_tokens := 10, output_ids := [3, 4, 9, 5]\<rparr>"

lemma demo_running_fields:
  "\<not> is_finished demo_running" "to_finish demo_running = None" "finished_len demo_running = None"
  "grammar_terminated demo_running \<noteq> Some True" "\<not> ignore_eos (rq_sampling demo_running)"
  "output_ids demo_running = [3, 4, 9, 5]" "max_new_tokens demo_running = 10"
  "is_stop_token demo_running t \<longleftrightarrow> t = 9"
  by (simp_all add: demo_running_def new_req_def is_finished_def is_stop_token_def sampling_init_def
      sampling_defaults_def or_default_def filter_stop_token_ids_def Let_def)

lemma demo_running_check:
  "check_finished (\<lambda>_ _. False) 2 demo_running = Inr (demo_running\<lparr>finished_reason := Some (FINISH_MATCHED_TOKEN 9),
     finished_len := Some 3\<rparr>)"
  by (simp add: check_finished_def demo_running_fields py_tail_def check_token_based_finish_def)


text \<open>
  A step of several tokens that crosses the limit is cut at the limit only: a stop token among
  them is passed over, and tokens after it are returned.
\<close>

lemma limit_hides_stop:
  "\<exists>r'. check_finished (\<lambda>_ _. False) 2 (demo_running\<lparr>max_new_tokens := 4\<rparr>) = Inr r' \<and>
     output_ids_through_stop r' = [3, 4, 9, 5] \<and> is_stop_token demo_running 9"
  using demo_running_fields
  by (simp add: check_finished_def is_finished_def output_ids_through_stop_def py_upto_def)

text \<open>Token ids are below the vocabulary size, but the size itself passes the boundary check.\<close>

lemma vocab_size_not_caught: "\<not> out_of_vocab r (vocab_size r) \<or> vocab_size r < 0"
  by (auto simp: out_of_vocab_def)

end
