(* ===== verification/CacheOps.thy ===== *)
theory CacheOps
  imports RadixOps
begin

text \<open>
  The interface \<^verbatim>\<open>BasePrefixCache\<close> of \<^verbatim>\<open>mem_cache/base_prefix_cache.py\<close> and its
  implementations. Python dispatches a call on the class of the cache object; here the methods
  are the fields of a record, over the state of the cache and of the slot allocator it owns.
  \<open>radix_ops\<close> are the methods of \<^verbatim>\<open>RadixCache\<close>, \<open>chunk_ops\<close> those of \<^verbatim>\<open>ChunkCache\<close>
  (\<^verbatim>\<open>mem_cache/chunk_cache.py\<close>). Caches for sliding windows, Mamba states and the host tier
  are other values of the record.
\<close>

section \<open>Parameters and results of the methods\<close>

record inc_lock_result =
  lr_delta :: "int option"
  lr_swa_uuid_for_lock :: "int option"
  lr_skip_lock_node_ids :: "(string \<times> nat list) list"

record dec_lock_params =
  dp_swa_uuid_for_lock :: "int option"
  dp_skip_lock_node_ids :: "(string \<times> nat list) list"

definition to_dec_params :: "inc_lock_result \<Rightarrow> dec_lock_params" where
  "to_dec_params r = \<lparr>dp_swa_uuid_for_lock = lr_swa_uuid_for_lock r,
     dp_skip_lock_node_ids = lr_skip_lock_node_ids r\<rparr>"

definition plain_lock :: "int \<Rightarrow> inc_lock_result" where
  "plain_lock d = \<lparr>lr_delta = Some d, lr_swa_uuid_for_lock = None, lr_skip_lock_node_ids = []\<rparr>"

text \<open>\<open>None\<close> is Python's \<^verbatim>\<open>None\<close> in the place of a node.\<close>

record cache_match =
  cm_device_indices :: "int list"
  cm_last_device_node :: "nat option"
  cm_last_host_node :: "nat option"
  cm_best_match_node :: "nat option"
  cm_host_hit_length :: nat
  cm_cache_protected_len :: "nat option"

section \<open>The methods\<close>

text \<open>
  \<open>co_is_swa\<close> says that the allocator is a sliding window allocator, \<open>co_mamba_available\<close> is the
  size of the Mamba pool when the request pool is a hybrid one. \<open>co_evict\<close> takes the three
  numbers of \<^verbatim>\<open>EvictParams\<close>.
\<close>

record 'c cache_ops =
  co_is_chunk_cache :: bool
  co_disable :: "'c \<Rightarrow> bool"
  co_page_size :: "'c \<Rightarrow> nat"
  co_root_node :: "'c \<Rightarrow> nat"
  co_children :: "'c \<Rightarrow> nat \<Rightarrow> nat list"
  co_match_prefix :: "radix_key \<Rightarrow> 'c \<Rightarrow> (cache_match \<times> 'c) result"
  co_evict :: "int \<Rightarrow> int \<Rightarrow> int \<Rightarrow> 'c \<Rightarrow> 'c result"
  co_inc_lock_ref :: "nat option \<Rightarrow> 'c \<Rightarrow> (inc_lock_result \<times> 'c) result"
  co_dec_lock_ref :: "nat option \<Rightarrow> dec_lock_params option \<Rightarrow> 'c \<Rightarrow> 'c result"
  co_init_load_back :: "nat option \<Rightarrow> nat \<Rightarrow> req \<Rightarrow> 'c \<Rightarrow> ((int list \<times> nat option) \<times> 'c) result"
  co_cache_finished_req :: "req_to_token_pool \<Rightarrow> req \<Rightarrow> bool \<Rightarrow> 'c \<Rightarrow> (req \<times> 'c) result"
  co_cache_unfinished_req :: "req_to_token_pool \<Rightarrow> req \<Rightarrow> bool \<Rightarrow> 'c \<Rightarrow> (req_to_token_pool \<times> req \<times> 'c) result"
  co_evictable_size :: "'c \<Rightarrow> int"
  co_full_evictable_size :: "'c \<Rightarrow> int"
  co_swa_evictable_size :: "'c \<Rightarrow> int"
  co_supports_mamba :: bool
  co_sliding_window_size :: int
  co_is_swa :: bool
  co_alloc_page_size :: "'c \<Rightarrow> nat"
  co_available_size :: "'c \<Rightarrow> int"
  co_full_available_size :: "'c \<Rightarrow> int"
  co_swa_available_size :: "'c \<Rightarrow> int"
  co_backup_state :: "'c \<Rightarrow> int list \<times> int list"
  co_alloc :: "nat \<Rightarrow> 'c \<Rightarrow> (int list option \<times> 'c) result"
  co_alloc_extend :: "int list \<Rightarrow> int list \<Rightarrow> int list \<Rightarrow> nat \<Rightarrow> 'c \<Rightarrow> (int list option \<times> 'c) result"
  co_alloc_decode :: "int list \<Rightarrow> int list \<Rightarrow> 'c \<Rightarrow> (int list option \<times> 'c) result"
  co_free :: "int list \<Rightarrow> 'c \<Rightarrow> 'c result"
  co_maybe_evict_swa :: "req list \<Rightarrow> 'c \<Rightarrow> (req list \<times> 'c) result"
  co_mamba_available :: "('c \<Rightarrow> int) option"
  co_req_alloc :: "req_to_token_pool \<Rightarrow> req list \<Rightarrow> 'c \<Rightarrow>
     ((nat list option \<times> req list \<times> req_to_token_pool) \<times> 'c) result"
  co_mamba_free :: "nat \<Rightarrow> 'c \<Rightarrow> 'c result"
  co_free_mamba_cache :: "req \<Rightarrow> 'c \<Rightarrow> (req \<times> 'c) result"

definition co_is_tree_cache :: "'c cache_ops \<Rightarrow> bool" where
  "co_is_tree_cache ops \<longleftrightarrow> \<not> co_is_chunk_cache ops"

definition zero_match_result :: "'c cache_ops \<Rightarrow> 'c \<Rightarrow> cache_match \<Rightarrow> cache_match" where
  "zero_match_result ops c m =
     (if co_is_chunk_cache ops then m
      else let root = Some (co_root_node ops c)
           in m\<lparr>cm_device_indices := [], cm_last_device_node := root, cm_last_host_node := root,
                cm_best_match_node := root, cm_host_hit_length := 0\<rparr>)"

section \<open>The slot allocators\<close>

text \<open>\<open>a\<close> is the allocator of a cache whose pages have \<open>al_page_size a\<close> slots.\<close>

definition kv_alloc_extend ::
  "gpu \<Rightarrow> allocator \<Rightarrow> int list \<Rightarrow> int list \<Rightarrow> int list \<Rightarrow> nat \<Rightarrow> (int list option \<times> allocator) result" where
  "kv_alloc_extend g a prefix_lens seq_lens last_loc n =
     (if al_page_size a = 1 then Inl NotImplementedError
      else pg_alloc_extend g a prefix_lens seq_lens last_loc n None)"

definition kv_alloc_decode ::
  "gpu \<Rightarrow> allocator \<Rightarrow> int list \<Rightarrow> int list \<Rightarrow> (int list option \<times> allocator) result" where
  "kv_alloc_decode g a seq_lens last_loc =
     (if al_page_size a = 1 then Inl NotImplementedError else pg_alloc_decode g a seq_lens last_loc)"

definition kv_available_size :: "allocator \<Rightarrow> nat" where
  "kv_available_size a = (if al_page_size a = 1 then tk_available_size a else available_size a)"

text \<open>An operation on the allocator inside a cache.\<close>

definition on_allocator ::
  "('c \<Rightarrow> allocator) \<Rightarrow> (allocator \<Rightarrow> 'c \<Rightarrow> 'c) \<Rightarrow> (allocator \<Rightarrow> ('r \<times> allocator) result) \<Rightarrow> 'c \<Rightarrow> ('r \<times> 'c) result" where
  "on_allocator get put f c = bindR (f (get c)) (\<lambda>(r, a). Inr (r, put a c))"

text \<open>A request pool without Mamba states.\<close>

definition plain_req_alloc ::
  "req_to_token_pool \<Rightarrow> req list \<Rightarrow> 'c \<Rightarrow> ((nat list option \<times> req list \<times> req_to_token_pool) \<times> 'c) result" where
  "plain_req_alloc p reqs c = bindR (rp_alloc p reqs) (\<lambda>r. Inr (r, c))"

section \<open>The radix cache\<close>

definition radix_match ::
  "pyenv \<Rightarrow> radix_key \<Rightarrow> 'a radix_cache_scheme \<Rightarrow> (cache_match \<times> 'a radix_cache_scheme) result" where
  "radix_match env key c =
     bindR (match_prefix env key c) (\<lambda>(m, c).
       Inr (\<lparr>cm_device_indices = device_indices m, cm_last_device_node = Some (last_device_node m),
             cm_last_host_node = Some (last_host_node m), cm_best_match_node = Some (best_match_node m),
             cm_host_hit_length = host_hit_length m, cm_cache_protected_len = None\<rparr>, c))"

text \<open>Locking \<^verbatim>\<open>None\<close> raises, except in a disabled cache, which does not look at the node.\<close>

definition radix_inc_lock ::
  "nat option \<Rightarrow> 'a radix_cache_scheme \<Rightarrow> (inc_lock_result \<times> 'a radix_cache_scheme) result" where
  "radix_inc_lock n c =
     (if r_disable c then Inr (plain_lock 0, c)
      else bindR (the_attr n) (\<lambda>n. bindR (inc_lock_ref n c) (\<lambda>(d, c). Inr (plain_lock d, c))))"

definition radix_dec_lock ::
  "nat option \<Rightarrow> dec_lock_params option \<Rightarrow> 'a radix_cache_scheme \<Rightarrow> 'a radix_cache_scheme result" where
  "radix_dec_lock n params c =
     (if r_disable c then Inr c
      else bindR (the_attr n) (\<lambda>n. bindR (dec_lock_ref n c) (\<lambda>(_, c). Inr c)))"

definition radix_ops :: "pyenv \<Rightarrow> gpu \<Rightarrow> bool \<Rightarrow> 'a radix_cache_scheme cache_ops" where
  "radix_ops env g strip =
     (let onal = on_allocator kv_allocator (\<lambda>a c. c\<lparr>kv_allocator := a\<rparr>)
      in \<lparr>co_is_chunk_cache = False, co_disable = r_disable, co_page_size = r_page_size,
          co_root_node = root_node, co_children = (\<lambda>c n. map snd (children (nodes c n))),
          co_match_prefix = radix_match env,
          co_evict = (\<lambda>n _ _ c. bindR (evict env n c) (\<lambda>(_, c). Inr c)),
          co_inc_lock_ref = radix_inc_lock, co_dec_lock_ref = radix_dec_lock,
          co_init_load_back = (\<lambda>_ _ _ _. Inl NotImplementedError),
          co_cache_finished_req = cache_finished_req env strip,
          co_cache_unfinished_req = cache_unfinished_req env,
          co_evictable_size = evictable_size, co_full_evictable_size = (\<lambda>_. 0),
          co_swa_evictable_size = (\<lambda>_. 0), co_supports_mamba = False, co_sliding_window_size = 0,
          co_is_swa = False, co_alloc_page_size = (\<lambda>c. al_page_size (kv_allocator c)),
          co_available_size = (\<lambda>c. int (kv_available_size (kv_allocator c))),
          co_full_available_size = (\<lambda>_. 0), co_swa_available_size = (\<lambda>_. 0),
          co_backup_state = (\<lambda>c. backup_state (kv_allocator c)),
          co_alloc = (\<lambda>n. onal (\<lambda>a. kv_alloc a n)),
          co_alloc_extend = (\<lambda>pl sl ll n. onal (\<lambda>a. kv_alloc_extend g a pl sl ll n)),
          co_alloc_decode = (\<lambda>sl ll. onal (\<lambda>a. kv_alloc_decode g a sl ll)),
          co_free = cache_free, co_maybe_evict_swa = (\<lambda>rs c. Inr (rs, c)),
          co_mamba_available = None, co_req_alloc = plain_req_alloc,
          co_mamba_free = (\<lambda>_ _. Inl AttributeError), co_free_mamba_cache = (\<lambda>_ _. Inl AttributeError)\<rparr>)"

section \<open>The chunk cache\<close>

record chunk_cache =
  cc_allocator :: allocator
  cc_page_size :: nat
  cc_protected_size :: nat

definition chunk_match :: "radix_key \<Rightarrow> chunk_cache \<Rightarrow> (cache_match \<times> chunk_cache) result" where
  "chunk_match key c = Inr (\<lparr>cm_device_indices = [], cm_last_device_node = None, cm_last_host_node = None,
     cm_best_match_node = None, cm_host_hit_length = 0, cm_cache_protected_len = None\<rparr>, c)"

definition chunk_free :: "int list \<Rightarrow> chunk_cache \<Rightarrow> chunk_cache result" where
  "chunk_free xs c = bindR (kv_free (cc_allocator c) xs) (\<lambda>a. Inr (c\<lparr>cc_allocator := a\<rparr>))"

definition chunk_cache_finished_req ::
  "bool \<Rightarrow> req_to_token_pool \<Rightarrow> req \<Rightarrow> bool \<Rightarrow> chunk_cache \<Rightarrow> (req \<times> chunk_cache) result" where
  "chunk_cache_finished_req strip p r is_insert c =
     bindR (pop_committed_kv_cache strip r) (\<lambda>(committed_len, r).
     bindR (the_attr (req_pool_idx r)) (\<lambda>idx.
     bindR (chunk_free (rp_read p idx committed_len) c) (\<lambda>c. Inr (r, c))))"

definition chunk_cache_unfinished_req ::
  "req_to_token_pool \<Rightarrow> req \<Rightarrow> bool \<Rightarrow> chunk_cache \<Rightarrow> (req_to_token_pool \<times> req \<times> chunk_cache) result" where
  "chunk_cache_unfinished_req p r chunked c =
     bindR (the_attr (req_pool_idx r)) (\<lambda>idx.
       Inr (p, r\<lparr>prefix_indices := rp_read p idx (length (fill_ids r))\<rparr>, c))"

definition chunk_ops :: "gpu \<Rightarrow> bool \<Rightarrow> chunk_cache cache_ops" where
  "chunk_ops g strip =
     (let onal = on_allocator cc_allocator (\<lambda>a c. c\<lparr>cc_allocator := a\<rparr>)
      in \<lparr>co_is_chunk_cache = True, co_disable = (\<lambda>_. True), co_page_size = cc_page_size,
          co_root_node = (\<lambda>_. 0), co_children = (\<lambda>_ _. []),
          co_match_prefix = chunk_match,
          co_evict = (\<lambda>_ _ _ c. Inr c),
          co_inc_lock_ref = (\<lambda>_ c. Inr (plain_lock 0, c)), co_dec_lock_ref = (\<lambda>_ _ c. Inr c),
          co_init_load_back = (\<lambda>_ _ _ _. Inl NotImplementedError),
          co_cache_finished_req = chunk_cache_finished_req strip,
          co_cache_unfinished_req = chunk_cache_unfinished_req,
          co_evictable_size = (\<lambda>_. 0), co_full_evictable_size = (\<lambda>_. 0),
          co_swa_evictable_size = (\<lambda>_. 0), co_supports_mamba = False, co_sliding_window_size = 0,
          co_is_swa = False, co_alloc_page_size = (\<lambda>c. al_page_size (cc_allocator c)),
          co_available_size = (\<lambda>c. int (kv_available_size (cc_allocator c))),
          co_full_available_size = (\<lambda>_. 0), co_swa_available_size = (\<lambda>_. 0),
          co_backup_state = (\<lambda>c. backup_state (cc_allocator c)),
          co_alloc = (\<lambda>n. onal (\<lambda>a. kv_alloc a n)),
          co_alloc_extend = (\<lambda>pl sl ll n. onal (\<lambda>a. kv_alloc_extend g a pl sl ll n)),
          co_alloc_decode = (\<lambda>sl ll. onal (\<lambda>a. kv_alloc_decode g a sl ll)),
          co_free = chunk_free, co_maybe_evict_swa = (\<lambda>rs c. Inr (rs, c)),
          co_mamba_available = None, co_req_alloc = plain_req_alloc,
          co_mamba_free = (\<lambda>_ _. Inl AttributeError), co_free_mamba_cache = (\<lambda>_ _. Inl AttributeError)\<rparr>)"

end
