(* ===== verification/CacheCommon.thy ===== *)
theory CacheCommon
  imports CacheOps ReqLife
begin

text \<open>
  \<^verbatim>\<open>mem_cache/common.py\<close>: the memory of a batch. Slots are evicted from the cache and
  allocated for the tokens of a prefill or a decode step, the slots of every request are
  written into its row of the request pool, and the memory of a finished request is released.
  The Triton kernels are the lists of stores their programs issue on the flat pool tensor; the
  order of the programs and out-of-range loads are left open by the \<open>gpu\<close> argument.
\<close>

section \<open>Pages\<close>

fun every_nth :: "nat \<Rightarrow> 'a list \<Rightarrow> 'a list" where
  "every_nth n [] = []"
| "every_nth n (x # xs) = x # every_nth n (drop (n - 1) xs)"

definition kv_to_page_indices :: "int list \<Rightarrow> nat \<Rightarrow> int list" where
  "kv_to_page_indices kv_indices page_size =
     (if page_size = 1 then kv_indices
      else map (\<lambda>i. i div int page_size) (every_nth page_size kv_indices))"

definition kv_to_page_num :: "nat \<Rightarrow> nat \<Rightarrow> nat" where
  "kv_to_page_num num_kv_indices page_size = (num_kv_indices + page_size - 1) div page_size"

definition page_align_floor :: "nat \<Rightarrow> nat \<Rightarrow> nat" where
  "page_align_floor len page_size = len div page_size * page_size"

definition ceil_align :: "nat \<Rightarrow> nat \<Rightarrow> nat" where
  "ceil_align x y = (x + y - 1) div y * y"

definition maybe_cache_unfinished_req ::
  "'c cache_ops \<Rightarrow> req_to_token_pool \<Rightarrow> req \<Rightarrow> bool \<Rightarrow> 'c \<Rightarrow> (req_to_token_pool \<times> req \<times> 'c) result" where
  "maybe_cache_unfinished_req ops p r chunked c =
     (if skip_radix_cache_insert r then Inr (p, r, c) else co_cache_unfinished_req ops p r chunked c)"

section \<open>Writing the rows of a batch\<close>

text \<open>A store to the flat tensor of rows of \<open>stride\<close> entries.\<close>

definition pool_store :: "nat \<Rightarrow> int \<times> int \<Rightarrow> req_to_token_pool \<Rightarrow> req_to_token_pool" where
  "pool_store stride w p =
     (let i = nat (fst w div int stride); j = nat (fst w mod int stride)
      in p\<lparr>req_to_token := (req_to_token p)(i := (req_to_token p i)[j := snd w])\<rparr>)"

definition pool_load :: "(int \<Rightarrow> int) \<Rightarrow> nat \<Rightarrow> req_to_token_pool \<Rightarrow> int \<Rightarrow> int" where
  "pool_load oob stride p addr =
     (if 0 \<le> addr \<and> addr < int ((rp_size p + 1) * stride)
      then req_to_token p (nat (addr div int stride)) ! nat (addr mod int stride) else oob addr)"

definition BLOCK_WRITE :: int where
  "BLOCK_WRITE = 512"

text \<open>The offsets below \<open>n\<close> that a loop over blocks visits.\<close>

definition loop_offsets :: "int \<Rightarrow> int list" where
  "loop_offsets n =
     concat (map (\<lambda>i. filter (\<lambda>offset. offset < n)
         (map (\<lambda>l. int l + int i * BLOCK_WRITE) [0..<nat BLOCK_WRITE])) [0..<nat (cdiv n BLOCK_WRITE)])"

definition write_req_to_token_pool_triton ::
  "(int \<Rightarrow> int) \<Rightarrow> nat list \<Rightarrow> int list list \<Rightarrow> int list \<Rightarrow> int list \<Rightarrow> int list \<Rightarrow> int list \<Rightarrow> nat \<Rightarrow> nat \<Rightarrow>
   (int \<times> int) list" where
  "write_req_to_token_pool_triton oob req_pool_indices prefix_tensors pre_lens seq_lens extend_lens
     out_cache_loc stride pid =
     (let req_pool_index = int (req_pool_indices ! pid);
          pre_len = pre_lens ! pid;
          seq_len = seq_lens ! pid;
          prefix_tensor = prefix_tensors ! pid;
          prefix_stores = map (\<lambda>offset. (req_pool_index * int stride + offset, tl_load oob prefix_tensor offset))
            (loop_offsets pre_len);
          cumsum_start = fold (\<lambda>i acc. acc + extend_lens ! i) [0..<pid] 0;
          new_stores = map (\<lambda>offset. (req_pool_index * int stride + offset + pre_len,
              tl_load oob out_cache_loc (cumsum_start + offset)))
            (loop_offsets (seq_len - pre_len))
      in prefix_stores @ new_stores)"

text \<open>The loop that is used where Triton is not supported.\<close>

fun write_rows ::
  "int list \<Rightarrow> nat \<Rightarrow> (nat \<times> int list \<times> int \<times> int \<times> int) list \<Rightarrow> req_to_token_pool \<Rightarrow> req_to_token_pool result" where
  "write_rows out_cache_loc pt [] p = Inr p"
| "write_rows out_cache_loc pt ((req_idx, prefix_tensor, prefix_len, seq_len, extend_len) # rows) p =
     bindR (rp_write p req_idx 0 (nat prefix_len) prefix_tensor) (\<lambda>p.
     bindR (rp_write p req_idx (nat prefix_len) (nat seq_len)
              (pyslice out_cache_loc pt (pt + nat extend_len))) (\<lambda>p.
     write_rows out_cache_loc (pt + nat extend_len) rows p))"

definition write_cache_indices ::
  "bool \<Rightarrow> gpu \<Rightarrow> int list \<Rightarrow> nat list \<Rightarrow> int list \<Rightarrow> int list \<Rightarrow> int list \<Rightarrow> int list list \<Rightarrow>
   req_to_token_pool \<Rightarrow> req_to_token_pool result" where
  "write_cache_indices triton g out_cache_loc req_pool_indices prefix_lens seq_lens extend_lens prefix_tensors p =
     (if triton
      then let stride = rp_max_context_len p
           in Inr (fold (pool_store stride)
                (concat (map (write_req_to_token_pool_triton (g_oob g) req_pool_indices prefix_tensors prefix_lens
                   seq_lens extend_lens out_cache_loc stride) (g_order g (length req_pool_indices)))) p)
      else write_rows out_cache_loc 0
             (zip req_pool_indices (zip prefix_tensors (zip prefix_lens (zip seq_lens extend_lens)))) p)"

section \<open>The last slot of every request\<close>

text \<open>\<^verbatim>\<open>req_to_token[i, j]\<close>: a negative column counts from the end of the row.\<close>

definition row_index :: "req_to_token_pool \<Rightarrow> nat \<Rightarrow> int \<Rightarrow> int result" where
  "row_index p i j =
     (let row = req_to_token p i; n = int (length row)
      in if rp_size p < i then Inl IndexError
         else if 0 \<le> j \<and> j < n then Inr (row ! nat j)
         else if - n \<le> j \<and> j < 0 then Inr (row ! nat (n + j))
         else Inl IndexError)"

definition get_last_loc_torch :: "req_to_token_pool \<Rightarrow> nat list \<Rightarrow> int list \<Rightarrow> int list result" where
  "get_last_loc_torch p req_pool_indices prefix_lens =
     bindR (mapR (\<lambda>(i, l). row_index p i (l - 1)) (zip req_pool_indices prefix_lens)) (\<lambda>locs.
       Inr (map2 (\<lambda>l loc. if 0 < l then loc else - 1) prefix_lens locs))"

text \<open>Two's complement wrap-around at a width of \<open>w\<close> bits.\<close>

definition wrap_int :: "nat \<Rightarrow> int \<Rightarrow> int" where
  "wrap_int w x = (x + 2 ^ (w - 1)) mod 2 ^ w - 2 ^ (w - 1)"

definition BLOCK_LAST :: nat where
  "BLOCK_LAST = 256"

text \<open>
  One lane of the kernels. The addresses are computed at the width of the tensors, except that
  the safe kernel widens 32 bit operands first.
\<close>

definition last_loc_lane ::
  "(int \<Rightarrow> int) \<Rightarrow> nat \<Rightarrow> req_to_token_pool \<Rightarrow> nat \<Rightarrow> nat list \<Rightarrow> int list \<Rightarrow> nat \<Rightarrow> int" where
  "last_loc_lane oob w p stride req_pool_indices prefix_lens k =
     (let mask = (k < length prefix_lens);
          prefix_len = (if mask then prefix_lens ! k else 0);
          req_pool_index = (if mask then int (req_pool_indices ! k) else 0);
          token_index = wrap_int w (wrap_int w (req_pool_index * int stride) + wrap_int w (prefix_len - 1))
      in if 0 < prefix_len then pool_load oob stride p token_index else - 1)"

definition last_loc_kernel ::
  "(int \<Rightarrow> int) \<Rightarrow> nat \<Rightarrow> req_to_token_pool \<Rightarrow> nat \<Rightarrow> nat list \<Rightarrow> int list \<Rightarrow> nat \<Rightarrow> (int \<times> int) list" where
  "last_loc_kernel oob w p stride req_pool_indices prefix_lens pid =
     map (\<lambda>k. (int k, last_loc_lane oob w p stride req_pool_indices prefix_lens k))
       (filter (\<lambda>k. k < length prefix_lens) (map (\<lambda>l. l + pid * BLOCK_LAST) [0..<BLOCK_LAST]))"

definition last_loc_launch ::
  "gpu \<Rightarrow> nat \<Rightarrow> req_to_token_pool \<Rightarrow> nat list \<Rightarrow> int list \<Rightarrow> int list" where
  "last_loc_launch g w p req_pool_indices prefix_lens =
     launch (last_loc_kernel (g_oob g) w p (rp_max_context_len p) req_pool_indices prefix_lens)
       (g_order g (nat (cdiv (int (length prefix_lens)) (int BLOCK_LAST))))
       (map (g_uninit g) [0..<length prefix_lens])"

definition get_last_loc_triton_safe :: "gpu \<Rightarrow> req_to_token_pool \<Rightarrow> nat list \<Rightarrow> int list \<Rightarrow> int list" where
  "get_last_loc_triton_safe g p req_pool_indices prefix_lens = last_loc_launch g 64 p req_pool_indices prefix_lens"

definition get_last_loc_triton :: "gpu \<Rightarrow> bool \<Rightarrow> req_to_token_pool \<Rightarrow> nat list \<Rightarrow> int list \<Rightarrow> int list" where
  "get_last_loc_triton g is_i64 p req_pool_indices prefix_lens =
     last_loc_launch g (if is_i64 then 64 else 32) p req_pool_indices prefix_lens"

definition get_last_loc ::
  "gpu \<Rightarrow> bool \<Rightarrow> string \<Rightarrow> bool \<Rightarrow> req_to_token_pool \<Rightarrow> nat list \<Rightarrow> int list \<Rightarrow> int list result" where
  "get_last_loc g is_hip attn_backend is_i64 p req_pool_indices prefix_lens =
     (let uses_triton_dispatch = (attn_backend \<notin> {''ascend'', ''torch_native''})
      in if is_hip \<and> uses_triton_dispatch
         then Inr (get_last_loc_triton_safe g p req_pool_indices prefix_lens)
         else if uses_triton_dispatch
         then Inr (get_last_loc_triton g is_i64 p req_pool_indices prefix_lens)
         else get_last_loc_torch p req_pool_indices prefix_lens)"

section \<open>Allocating for a batch\<close>

definition evict_from_tree_cache :: "'c cache_ops \<Rightarrow> int \<Rightarrow> 'c \<Rightarrow> 'c result" where
  "evict_from_tree_cache ops num_tokens c =
     (if co_is_chunk_cache ops then Inr c
      else if co_is_swa ops
      then let full_available = co_full_available_size ops c; swa_available = co_swa_available_size ops c
           in if full_available < num_tokens \<or> swa_available < num_tokens
              then co_evict ops (max 0 (num_tokens - full_available)) (max 0 (num_tokens - swa_available)) 0 c
              else Inr c
      else if co_available_size ops c < num_tokens then co_evict ops num_tokens 0 0 c
      else Inr c)"

text \<open>The result of an allocator, which is \<^verbatim>\<open>None\<close> when the memory is exhausted.\<close>

definition or_out_of_memory :: "(int list option \<times> 'c) result \<Rightarrow> (int list \<times> 'c) result" where
  "or_out_of_memory m =
     bindR m (\<lambda>(out, c). case out of None \<Rightarrow> Inl RuntimeError | Some xs \<Rightarrow> Inr (xs, c))"

text \<open>The backup that is returned with the slots, when the caller asks for it.\<close>

definition alloc_token_slots ::
  "'c cache_ops \<Rightarrow> nat \<Rightarrow> bool \<Rightarrow> 'c \<Rightarrow> ((int list \<times> (int list \<times> int list) option) \<times> 'c) result" where
  "alloc_token_slots ops num_tokens backup c =
     bindR (evict_from_tree_cache ops (int num_tokens) c) (\<lambda>c.
       let state = (if backup then Some (co_backup_state ops c) else None)
       in bindR (or_out_of_memory (co_alloc ops num_tokens c)) (\<lambda>(out, c). Inr ((out, state), c)))"

definition alloc_paged_token_slots_extend ::
  "'c cache_ops \<Rightarrow> int list \<Rightarrow> int list \<Rightarrow> int list \<Rightarrow> nat \<Rightarrow> bool \<Rightarrow> 'c \<Rightarrow>
   ((int list \<times> (int list \<times> int list) option) \<times> 'c) result" where
  "alloc_paged_token_slots_extend ops prefix_lens seq_lens last_loc extend_num_tokens backup c =
     (let num_tokens = extend_num_tokens + length seq_lens * co_alloc_page_size ops c
      in bindR (evict_from_tree_cache ops (int num_tokens) c) (\<lambda>c.
         let state = (if backup then Some (co_backup_state ops c) else None)
         in bindR (or_out_of_memory (co_alloc_extend ops prefix_lens seq_lens last_loc extend_num_tokens c))
              (\<lambda>(out, c). Inr ((out, state), c))))"

definition alloc_paged_token_slots_decode ::
  "'c cache_ops \<Rightarrow> int list \<Rightarrow> int list \<Rightarrow> 'c \<Rightarrow> (int list \<times> 'c) result" where
  "alloc_paged_token_slots_decode ops seq_lens last_loc c =
     bindR (evict_from_tree_cache ops (int (length seq_lens * co_alloc_page_size ops c)) c)
       (\<lambda>c. or_out_of_memory (co_alloc_decode ops seq_lens last_loc c))"

definition MAMBA_STATE_PER_REQ_PREFIX_CACHE :: int where
  "MAMBA_STATE_PER_REQ_PREFIX_CACHE = 3"

definition MAMBA_STATE_PER_REQ_NO_CACHE :: int where
  "MAMBA_STATE_PER_REQ_NO_CACHE = 1"

definition alloc_req_slots ::
  "'c cache_ops \<Rightarrow> req_to_token_pool \<Rightarrow> req list \<Rightarrow> 'c \<Rightarrow> (nat list \<times> req list \<times> req_to_token_pool \<times> 'c) result" where
  "alloc_req_slots ops p reqs c =
     bindR
      (case co_mamba_available ops of
         None \<Rightarrow> Inr c
       | Some mamba_available_size \<Rightarrow>
           let factor = (if co_supports_mamba ops then MAMBA_STATE_PER_REQ_PREFIX_CACHE
                         else MAMBA_STATE_PER_REQ_NO_CACHE);
               mamba_state_needed = int (length reqs) * factor
           in if mamba_available_size c < mamba_state_needed \<and> co_supports_mamba ops
              then co_evict ops 0 0 (max 0 (mamba_state_needed - mamba_available_size c)) c
              else Inr c)
      (\<lambda>c. bindR (co_req_alloc ops p reqs c) (\<lambda>((idxs, reqs, p), c).
         case idxs of None \<Rightarrow> Inl RuntimeError | Some is \<Rightarrow> Inr (is, reqs, p, c)))"

text \<open>
  The fields of \<^verbatim>\<open>ScheduleBatch\<close> for the requests and their memory. \<open>b_encoder_lens\<close> is \<open>None\<close>
  unless the model is an encoder-decoder.
\<close>

record sched_batch =
  b_reqs :: "req list"
  b_prefix_lens :: "int list"
  b_extend_lens :: "int list"
  b_extend_num_tokens :: nat
  b_seq_lens :: "int list"
  b_req_pool_indices :: "nat list"
  b_encoder_lens :: "int list option"
  b_orig_seq_lens :: "int list"
  b_seq_lens_sum :: int
  b_out_cache_loc :: "int list option"
  b_output_ids :: "int list option"
  b_return_logprob :: bool
  b_has_grammar :: bool
  b_is_prefill_only :: bool
  b_input_ids :: "int list"

definition last_slot :: "int list \<Rightarrow> int" where
  "last_slot t = (if t = [] then - 1 else last t)"

definition alloc_for_extend ::
  "'c cache_ops \<Rightarrow> bool \<Rightarrow> gpu \<Rightarrow> req_to_token_pool \<Rightarrow> sched_batch \<Rightarrow> 'c \<Rightarrow>
   (int list \<times> nat list \<times> req_to_token_pool \<times> sched_batch \<times> 'c) result" where
  "alloc_for_extend ops triton g p b c =
     bindR (co_maybe_evict_swa ops (b_reqs b) c) (\<lambda>(reqs, c).
     let prefix_tensors = map prefix_indices reqs
     in bindR (alloc_req_slots ops p reqs c) (\<lambda>(req_pool_indices, reqs, p, c).
     bindR
      (if co_page_size ops c = 1
       then alloc_token_slots ops (b_extend_num_tokens b) False c
       else alloc_paged_token_slots_extend ops (b_prefix_lens b) (b_seq_lens b)
              (map last_slot prefix_tensors) (b_extend_num_tokens b) False c)
      (\<lambda>((out_cache_loc, _), c).
     bindR (write_cache_indices triton g out_cache_loc req_pool_indices (b_prefix_lens b) (b_seq_lens b)
              (b_extend_lens b) prefix_tensors p)
      (\<lambda>p. Inr (out_cache_loc, req_pool_indices, p, b\<lparr>b_reqs := reqs\<rparr>, c)))))"

text \<open>\<^verbatim>\<open>req_to_token[(rows, cols)] = values\<close>; a single value is written to all positions.\<close>

definition scatter_rows :: "nat list \<Rightarrow> int list \<Rightarrow> int list \<Rightarrow> req_to_token_pool \<Rightarrow> req_to_token_pool result" where
  "scatter_rows rows cols vals p =
     (if length vals \<noteq> length rows \<and> length vals \<noteq> 1 then Inl RuntimeError
      else let vs = (if length vals = length rows then vals else replicate (length rows) (hd vals))
           in foldR (\<lambda>((i, j), v) p.
                if rp_size p < i \<or> j < 0 \<or> int (length (req_to_token p i)) \<le> j then Inl IndexError
                else Inr (p\<lparr>req_to_token := (req_to_token p)(i := (req_to_token p i)[nat j := v])\<rparr>))
              (zip (zip rows cols) vs) p)"

definition alloc_for_decode ::
  "'c cache_ops \<Rightarrow> nat \<Rightarrow> req_to_token_pool \<Rightarrow> sched_batch \<Rightarrow> 'c \<Rightarrow>
   (int list \<times> req_to_token_pool \<times> sched_batch \<times> 'c) result" where
  "alloc_for_decode ops token_per_req p b c =
     bindR (co_maybe_evict_swa ops (b_reqs b) c) (\<lambda>(reqs, c).
     let bs = length (b_seq_lens b)
     in bindR
      (if co_page_size ops c = 1
       then bindR (alloc_token_slots ops (bs * token_per_req) False c) (\<lambda>((out, _), c). Inr (out, c))
       else bindR (mapR (\<lambda>(i, s). row_index p i (s - 1)) (zip (b_req_pool_indices b) (b_seq_lens b)))
              (\<lambda>last_loc. alloc_paged_token_slots_decode ops (map (\<lambda>s. s + int token_per_req) (b_seq_lens b)) last_loc c))
      (\<lambda>(out_cache_loc, c).
     let locs = (case b_encoder_lens b of
                   Some es \<Rightarrow> map2 (+) es (b_seq_lens b) | None \<Rightarrow> b_seq_lens b)
     in bindR (scatter_rows (b_req_pool_indices b) locs out_cache_loc p)
          (\<lambda>p. Inr (out_cache_loc, p, b\<lparr>b_reqs := reqs\<rparr>, c))))"

section \<open>Releasing a request\<close>

text \<open>The server arguments that the release looks at.\<close>

record release_args =
  ra_page_size :: nat
  ra_has_spec :: bool
  ra_strip_thinking_cache :: bool

definition release_kv_cache ::
  "'c cache_ops \<Rightarrow> release_args \<Rightarrow> req_to_token_pool \<Rightarrow> req \<Rightarrow> bool \<Rightarrow> 'c \<Rightarrow>
   (req_to_token_pool \<times> req \<times> 'c) result" where
  "release_kv_cache ops args p r is_insert c =
     (case req_pool_idx r of
        None \<Rightarrow>
          assertR (co_supports_mamba ops)
           (case mamba_pool_idx r of
              None \<Rightarrow> Inr (p, r, c)
            | Some m \<Rightarrow> bindR (co_mamba_free ops m c) (\<lambda>c. Inr (p, r\<lparr>mamba_pool_idx := None\<rparr>, c)))
      | Some _ \<Rightarrow>
          bindR (co_cache_finished_req ops p r (is_insert \<and> \<not> skip_radix_cache_insert r) c) (\<lambda>(r, c).
          case req_pool_idx r of
            None \<Rightarrow> Inr (p, r, c)
          | Some idx \<Rightarrow>
              bindR (pop_overallocated_kv_cache (ra_strip_thinking_cache args) r) (\<lambda>((start_p, end_p), r).
              if \<not> ra_has_spec args \<and> \<not> ra_strip_thinking_cache args \<and> start_p \<noteq> end_p then Inl AssertionError
              else
                let start_p = (if 1 < ra_page_size args then ceil_align start_p (ra_page_size args) else start_p)
                in bindR (if start_p < end_p then co_free ops (pyslice (req_to_token p idx) start_p end_p) c else Inr c) (\<lambda>c.
                   bindR (if \<not> Option.is_none (co_mamba_available ops) \<and> \<not> co_supports_mamba ops
                          then if mamba_pool_idx r = None then Inl AssertionError else co_free_mamba_cache ops r c
                          else Inr (r, c)) (\<lambda>(r, c).
                   bindR (rp_free p r) (\<lambda>(r, p). Inr (p, r, c)))))))"

end
