(* ===== verification/CommonProps.thy ===== *)
theory CommonProps
  imports CacheCommon AllocExtend
begin

text \<open>
  The kernels of \<^verbatim>\<open>mem_cache/common.py\<close> against their reference routines: the rows of a
  batch, and the last slot of every request.
\<close>

section \<open>Stores to the pool\<close>

lemma pool_stores_frame:
  "rp_size (fold (pool_store s) ws p) = rp_size p"
  "rp_max_context_len (fold (pool_store s) ws p) = rp_max_context_len p"
  "rp_free_slots (fold (pool_store s) ws p) = rp_free_slots p"
  "length (req_to_token (fold (pool_store s) ws p) i) = length (req_to_token p i)"
  by (induction ws arbitrary: p) (simp_all add: pool_store_def Let_def)

text \<open>When every store writes the value \<open>T\<close> has at its address, the order does not matter.\<close>

lemma pool_stores_nth:
  assumes "\<forall>w \<in> set ws. snd w = T (nat (fst w div int s)) (nat (fst w mod int s))"
    "j < length (req_to_token p i)"
  shows "req_to_token (fold (pool_store s) ws p) i ! j =
    (if \<exists>w \<in> set ws. nat (fst w div int s) = i \<and> nat (fst w mod int s) = j then T i j
     else req_to_token p i ! j)"
  using assms
proof (induction ws arbitrary: p)
  case (Cons w ws)
  have len: "j < length (req_to_token (pool_store s w p) i)"
    using Cons.prems(2) by (auto simp: pool_store_def Let_def)
  have hit: "req_to_token (pool_store s w p) i ! j =
      (if nat (fst w div int s) = i \<and> nat (fst w mod int s) = j then T i j else req_to_token p i ! j)"
    using Cons.prems by (auto simp: pool_store_def Let_def nth_list_update)
  show ?case
    using Cons.IH[OF _ len] Cons.prems(1) by (auto simp: hit)
qed simp

lemma loop_offsets_upt: "loop_offsets n = map int [0..<nat n]"
  using block_offsets[of BLOCK_WRITE n]
  by (simp add: loop_offsets_def BLOCK_WRITE_def cdiv_def add.commute[of "int _" "int _ * _"])

lemma fold_add_nth:
  assumes "k \<le> length xs"
  shows "fold (\<lambda>i acc. acc + xs ! i) [0..<k] a = a + sum_list (take k (xs :: int list))"
  using assms by (induction k arbitrary: a) (simp_all add: take_Suc_conv_app_nth)

lemma flat_address:
  fixes j :: int
  assumes "0 \<le> j" "j < int s"
  shows "nat ((int i * int s + j) div int s) = i" "nat ((int i * int s + j) mod int s) = nat j"
    "nat ((j + int i * int s) div int s) = i" "nat ((j + int i * int s) mod int s) = nat j"
  using assms by (auto simp: div_add1_eq)

section \<open>The rows of a batch\<close>

text \<open>What the caller of \<^verbatim>\<open>write_cache_indices\<close> provides.\<close>

definition write_args_ok ::
  "req_to_token_pool \<Rightarrow> int list \<Rightarrow> nat list \<Rightarrow> int list \<Rightarrow> int list \<Rightarrow> int list \<Rightarrow> int list list \<Rightarrow> bool" where
  "write_args_ok p out idxs pres seqs exts tensors \<longleftrightarrow>
     distinct idxs \<and> length pres = length idxs \<and> length seqs = length idxs \<and> length exts = length idxs \<and>
     length tensors = length idxs \<and> length out = nat (sum_list exts) \<and>
     (\<forall>k < length idxs. 0 \<le> pres ! k \<and> 0 \<le> exts ! k \<and> seqs ! k = pres ! k + exts ! k \<and>
        length (tensors ! k) = nat (pres ! k) \<and> seqs ! k \<le> int (rp_max_context_len p)) \<and>
     (\<forall>i. length (req_to_token p i) = rp_max_context_len p)"

definition row_ok :: "req_to_token_pool \<Rightarrow> nat \<times> int list \<times> int \<times> int \<times> int \<Rightarrow> bool" where
  "row_ok p = (\<lambda>(i, t, pre, seq, ext). 0 \<le> pre \<and> 0 \<le> ext \<and> seq = pre + ext \<and>
     length t = nat pre \<and> nat seq \<le> length (req_to_token p i))"

definition row_after :: "int list \<Rightarrow> nat \<Rightarrow> nat \<times> int list \<times> int \<times> int \<times> int \<Rightarrow> int list \<Rightarrow> int list" where
  "row_after out pt = (\<lambda>(i, t, pre, seq, ext) old. t @ take (nat ext) (drop pt out) @ drop (nat seq) old)"

definition row_ext :: "nat \<times> int list \<times> int \<times> int \<times> int \<Rightarrow> nat" where
  "row_ext = (\<lambda>(i, t, pre, seq, ext). nat ext)"

lemma write_row:
  assumes "row_ok p (i, t, pre, seq, ext)" "pt + nat ext \<le> length out"
  shows "bindR (rp_write p i 0 (nat pre) t) (\<lambda>p. rp_write p i (nat pre) (nat seq) (pyslice out pt (pt + nat ext)))
    = Inr (p\<lparr>req_to_token := (req_to_token p)(i := row_after out pt (i, t, pre, seq, ext) (req_to_token p i))\<rparr>)"
proof -
  let ?row = "req_to_token p i"
  have a: "0 \<le> pre" "0 \<le> ext" "nat seq = nat pre + nat ext" "length t = nat pre" "nat pre + nat ext \<le> length ?row"
    "nat ext \<le> length ?row - nat pre"
    using assms(1) by (auto simp: row_ok_def)
  have first: "assign_slice ?row 0 (nat pre) t = Inr (t @ drop (nat pre) ?row)"
    using assign_slice_append[where A = "[]" and a = 0 and B = ?row and b = "nat pre" and vs = t] a by simp
  have slice: "pyslice out pt (pt + nat ext) = take (nat ext) (drop pt out)"
    by (simp add: pyslice_def drop_take)
  have "length (take (nat ext) (drop pt out)) = nat ext" using assms(2) by simp
  then have "assign_slice (t @ drop (nat pre) ?row) (nat pre) (nat seq) (take (nat ext) (drop pt out))
      = Inr (t @ take (nat ext) (drop pt out) @ drop (nat ext) (drop (nat pre) ?row))"
    using assign_slice_append[where A = t and a = "nat pre" and B = "drop (nat pre) ?row" and b = "nat seq"
      and vs = "take (nat ext) (drop pt out)"] a by simp
  then show ?thesis
    using a(3) by (simp add: rp_write_def first slice row_after_def add.commute)
qed

lemma write_rows_ok:
  assumes "distinct (map fst xs)" "\<forall>x \<in> set xs. row_ok p x" "pt + sum_list (map row_ext xs) \<le> length out"
  shows "\<exists>p'. write_rows out pt xs p = Inr p' \<and> p' = p\<lparr>req_to_token := req_to_token p'\<rparr> \<and>
    (\<forall>i. i \<notin> fst ` set xs \<longrightarrow> req_to_token p' i = req_to_token p i) \<and>
    (\<forall>k < length xs. req_to_token p' (fst (xs ! k)) =
       row_after out (pt + sum_list (map row_ext (take k xs))) (xs ! k) (req_to_token p (fst (xs ! k))))"
  using assms
proof (induction xs arbitrary: pt p)
  case (Cons x xs)
  obtain i t pre seq ext where x: "x = (i, t, pre, seq, ext)" by (metis prod_cases5)
  define q where "q = p\<lparr>req_to_token := (req_to_token p)(i := row_after out pt x (req_to_token p i))\<rparr>"
  have "row_ok p x" "pt + nat ext \<le> length out"
    using Cons.prems(2,3) by (auto simp: x row_ext_def)
  from write_row[OF this(1)[unfolded x] this(2)]
  have step: "write_rows out pt (x # xs) p = write_rows out (pt + nat ext) xs q"
    by (simp add: x q_def bindR_assoc[symmetric])
  have ok: "\<forall>y \<in> set xs. row_ok q y"
  proof
    fix y assume y: "y \<in> set xs"
    then have "fst y \<noteq> i" "row_ok p y" using Cons.prems(1,2) by (force simp: x)+
    then show "row_ok q y" by (cases y) (simp add: row_ok_def q_def)
  qed
  have "distinct (map fst xs)" "pt + nat ext + sum_list (map row_ext xs) \<le> length out"
    using Cons.prems by (simp_all add: x row_ext_def)
  from Cons.IH[OF this(1) ok this(2)] obtain p' where p': "write_rows out (pt + nat ext) xs q = Inr p'"
    "p' = q\<lparr>req_to_token := req_to_token p'\<rparr>"
    "\<And>i. i \<notin> fst ` set xs \<Longrightarrow> req_to_token p' i = req_to_token q i"
    "\<And>k. k < length xs \<Longrightarrow> req_to_token p' (fst (xs ! k)) =
       row_after out (pt + nat ext + sum_list (map row_ext (take k xs))) (xs ! k) (req_to_token q (fst (xs ! k)))"
    by blast
  have "req_to_token p' (fst ((x # xs) ! k)) =
      row_after out (pt + sum_list (map row_ext (take k (x # xs)))) ((x # xs) ! k) (req_to_token p (fst ((x # xs) ! k)))"
    if "k < length (x # xs)" for k
  proof (cases k)
    case 0
    have "i \<notin> fst ` set xs" using Cons.prems(1) by (auto simp: x)
    then show ?thesis using p'(3)[of i] by (simp add: 0 x q_def)
  next
    case (Suc m)
    have "m < length xs" using that Suc by simp
    moreover from this have "fst (xs ! m) \<noteq> i" using Cons.prems(1) by (auto simp: x)
    ultimately show ?thesis using p'(4)[of m] by (simp add: Suc q_def x row_ext_def add.assoc)
  qed
  moreover have "p' = p\<lparr>req_to_token := req_to_token p'\<rparr>" using p'(2) unfolding q_def by simp
  moreover have "req_to_token p' j = req_to_token p j" if "j \<notin> fst ` set (x # xs)" for j
    using that p'(3)[of j] by (simp add: q_def x)
  ultimately show ?case using p'(1) unfolding step by blast
qed simp

lemma sum_nat_take:
  assumes "\<forall>k < length xs. 0 \<le> xs ! k"
  shows "nat (sum_list (take k xs)) = sum_list (map nat (take k (xs :: int list)))"
proof -
  have "nat (sum_list ys) = sum_list (map nat ys)" if "\<forall>y \<in> set ys. 0 \<le> y" for ys :: "int list"
    using that by (induction ys) (simp_all add: nat_add_distrib sum_list_nonneg)
  then show ?thesis using assms by (simp add: all_set_conv_all_nth)
qed

lemma write_kernel:
  assumes "write_args_ok p out idxs pres seqs exts tensors" "pid < length idxs"
  shows "write_req_to_token_pool_triton oob idxs tensors pres seqs exts out (rp_max_context_len p) pid =
    map (\<lambda>j. (int (idxs ! pid) * int (rp_max_context_len p) + int j,
          row_after out (nat (sum_list (take pid exts))) (idxs ! pid, tensors ! pid, pres ! pid, seqs ! pid, exts ! pid)
            (req_to_token p (idxs ! pid)) ! j)) [0..<nat (seqs ! pid)]"
proof -
  note a = assms(1)[unfolded write_args_ok_def]
  let ?pre = "nat (pres ! pid)" and ?ext = "nat (exts ! pid)" and ?start = "nat (sum_list (take pid exts))"
  let ?row = "row_after out ?start (idxs ! pid, tensors ! pid, pres ! pid, seqs ! pid, exts ! pid) (req_to_token p (idxs ! pid))"
  have l: "length exts = length idxs" "\<forall>k < length exts. 0 \<le> exts ! k" "length (tensors ! pid) = ?pre"
    "0 \<le> pres ! pid" "0 \<le> exts ! pid" "seqs ! pid = pres ! pid + exts ! pid" "length out = nat (sum_list exts)"
    using a assms(2) by auto
  have nn: "0 \<le> sum_list (take pid exts)"
    using l(2) by (intro sum_list_nonneg) (auto simp: in_set_conv_nth)
  have "nat (sum_list (take (Suc pid) exts)) \<le> nat (sum_list exts)"
    using sum_nat_take[OF l(2), of "length exts"] sum_nat_take[OF l(2), of "Suc pid"]
      sum_list_append[of "map nat (take (Suc pid) exts)" "map nat (drop (Suc pid) exts)"]
    unfolding map_append[symmetric] append_take_drop_id by simp
  then have fit: "?start + ?ext \<le> length out"
    using assms(2) l(1,5,7) nn by (simp add: take_Suc_conv_app_nth nat_add_distrib)
  have row1: "?row ! j = tensors ! pid ! j" if "j < ?pre" for j
    using that l(3) by (simp add: row_after_def nth_append)
  have row2: "?row ! (?pre + j) = out ! (?start + j)" if "j < ?ext" for j
    using that l(3) fit by (simp add: row_after_def nth_append)
  have "map (\<lambda>o'. (int (idxs ! pid) * int (rp_max_context_len p) + o', tl_load oob (tensors ! pid) o')) (loop_offsets (pres ! pid))
      = map (\<lambda>j. (int (idxs ! pid) * int (rp_max_context_len p) + int j, ?row ! j)) [0..<?pre]"
    unfolding loop_offsets_upt map_map using l(3,4) by (intro map_cong) (auto simp: tl_load_def row1)
  moreover have "map (\<lambda>o'. (int (idxs ! pid) * int (rp_max_context_len p) + o' + pres ! pid, tl_load oob out (sum_list (take pid exts) + o')))
        (loop_offsets (seqs ! pid - pres ! pid))
      = map (\<lambda>j. (int (idxs ! pid) * int (rp_max_context_len p) + int (?pre + j), ?row ! (?pre + j))) [0..<?ext]"
    unfolding loop_offsets_upt map_map using l(4-6) fit nn
    by (intro map_cong) (auto simp: tl_load_def row2[unfolded l(6)] nat_add_distrib)
  moreover have "[0..<nat (seqs ! pid)] = [0..<?pre] @ map ((+) ?pre) [0..<?ext]"
    using l(4-6) by (intro nth_equalityI) (auto simp: nat_add_distrib nth_append)
  moreover have "fold (\<lambda>i acc. acc + exts ! i) [0..<pid] 0 = sum_list (take pid exts)"
    using fold_add_nth[of pid exts 0] l(1) assms(2) by simp
  ultimately show ?thesis
    by (simp add: write_req_to_token_pool_triton_def Let_def)
qed

lemma row_after_length:
  assumes "length t = nat pre" "pt + nat ext \<le> length out" "nat seq = nat pre + nat ext" "nat seq \<le> length old"
  shows "length (row_after out pt (i, t, pre, seq, ext) old) = length old"
    "nat seq \<le> j \<Longrightarrow> j < length old \<Longrightarrow> row_after out pt (i, t, pre, seq, ext) old ! j = old ! j"
    "take (nat seq) (row_after out pt (i, t, pre, seq, ext) old) = t @ take (nat ext) (drop pt out)"
proof -
  have m: "length (take (nat ext) (drop pt out)) = nat ext" using assms(2) by simp
  show "length (row_after out pt (i, t, pre, seq, ext) old) = length old"
    "take (nat seq) (row_after out pt (i, t, pre, seq, ext) old) = t @ take (nat ext) (drop pt out)"
    using assms m by (simp_all add: row_after_def)
  show "row_after out pt (i, t, pre, seq, ext) old ! j = old ! j" if "nat seq \<le> j" "j < length old"
  proof -
    have "\<not> j - nat pre < nat ext" using that(1) assms(3) by linarith
    then show ?thesis using that assms(1,3,4) m by (simp add: row_after_def nth_append del: length_take length_drop)
  qed
qed

lemma write_cache_indices_ok:
  assumes "write_args_ok p out idxs pres seqs exts tensors" "set (g_order g (length idxs)) = {..<length idxs}"
  shows "\<exists>p'. write_cache_indices True g out idxs pres seqs exts tensors p = Inr p' \<and>
    write_cache_indices False g' out idxs pres seqs exts tensors p = Inr p' \<and>
    (\<forall>k < length idxs. req_to_token p' (idxs ! k) =
       tensors ! k @ take (nat (exts ! k)) (drop (nat (sum_list (take k exts))) out)
         @ drop (nat (seqs ! k)) (req_to_token p (idxs ! k))) \<and>
    (\<forall>i. i \<notin> set idxs \<longrightarrow> req_to_token p' i = req_to_token p i)"
proof -
  note a = assms(1)[unfolded write_args_ok_def]
  let ?xs = "zip idxs (zip tensors (zip pres (zip seqs exts)))" and ?s = "rp_max_context_len p"
  have len: "length ?xs = length idxs" "map fst ?xs = idxs"
    and nth: "\<And>k. k < length idxs \<Longrightarrow> ?xs ! k = (idxs ! k, tensors ! k, pres ! k, seqs ! k, exts ! k)"
    using a by simp_all
  have exts: "\<forall>k < length exts. 0 \<le> exts ! k" using a by auto
  have ok: "\<forall>x \<in> set ?xs. row_ok p x"
    using a nth len by (fastforce simp: in_set_conv_nth row_ok_def)
  have ext: "map row_ext (take k ?xs) = map nat (take k exts)" for k
    by (rule nth_equalityI) (use a nth in \<open>auto simp: row_ext_def\<close>)
  have sums: "sum_list (map row_ext (take k ?xs)) = nat (sum_list (take k exts))" for k
    unfolding ext by (rule sum_nat_take[OF exts, symmetric])
  have "0 + sum_list (map row_ext ?xs) \<le> length out"
    using sums[of "length idxs"] a by simp
  moreover have "distinct (map fst ?xs)" using a len(2) by simp
  ultimately obtain p' where p': "write_rows out 0 ?xs p = Inr p'"
    "p' = p\<lparr>req_to_token := req_to_token p'\<rparr>"
    "\<And>i. i \<notin> set idxs \<Longrightarrow> req_to_token p' i = req_to_token p i"
    "\<And>k. k < length idxs \<Longrightarrow> req_to_token p' (idxs ! k) = row_after out (nat (sum_list (take k exts)))
       (idxs ! k, tensors ! k, pres ! k, seqs ! k, exts ! k) (req_to_token p (idxs ! k))"
    using write_rows_ok[OF _ ok, of 0 out] unfolding sums len(1) set_map[symmetric] len(2) add_0
    by (auto simp: nth)
  have fit: "nat (sum_list (take k exts)) + nat (exts ! k) \<le> length out" if "k < length idxs" for k
  proof -
    have "sum_list (map row_ext (take (Suc k) ?xs)) \<le> sum_list (map row_ext ?xs)"
      using sum_list_append[of "map row_ext (take (Suc k) ?xs)" "map row_ext (drop (Suc k) ?xs)"]
      unfolding map_append[symmetric] append_take_drop_id by simp
    then show ?thesis
      using sums[of "Suc k"] sums[of k] sums[of "length idxs"] that a len(1) nth[OF that]
      by (simp add: take_Suc_conv_app_nth row_ext_def)
  qed
  have row_len: "nat (seqs ! k) = nat (pres ! k) + nat (exts ! k)" "length (tensors ! k) = nat (pres ! k)"
    "nat (seqs ! k) \<le> length (req_to_token p (idxs ! k))" if "k < length idxs" for k
    using a that by auto
  note ra = row_after_length[OF row_len(2) fit row_len(1,3)]
  define ws where "ws = concat (map (write_req_to_token_pool_triton (g_oob g) idxs tensors pres seqs exts out ?s)
      (g_order g (length idxs)))"
  have ws: "w \<in> set ws \<longleftrightarrow> (\<exists>k < length idxs. \<exists>j < nat (seqs ! k).
      w = (int (idxs ! k) * int ?s + int j, req_to_token p' (idxs ! k) ! j))" for w
  proof -
    have "set (write_req_to_token_pool_triton (g_oob g) idxs tensors pres seqs exts out ?s k) =
        (\<lambda>j. (int (idxs ! k) * int ?s + int j, req_to_token p' (idxs ! k) ! j)) ` {..<nat (seqs ! k)}"
      if "k < length idxs" for k
      unfolding write_kernel[OF assms(1) that] p'(4)[OF that] set_map set_upt atLeast0LessThan ..
    then show ?thesis by (auto simp: ws_def assms(2))
  qed
  have addr: "nat ((int i * int ?s + int j) div int ?s) = i" "nat ((int i * int ?s + int j) mod int ?s) = j"
    if "j < nat (seqs ! k)" "k < length idxs" for i j k
    using flat_address[of "int j" ?s i] row_len(3)[OF that(2)] that(1) a by auto
  have vals: "\<forall>w \<in> set ws. snd w = req_to_token p' (nat (fst w div int ?s)) ! nat (fst w mod int ?s)"
    using addr by (auto simp: ws)
  have rows: "req_to_token (fold (pool_store ?s) ws p) i = req_to_token p' i" for i
  proof (rule nth_equalityI)
    show l: "length (req_to_token (fold (pool_store ?s) ws p) i) = length (req_to_token p' i)"
      using p'(3)[of i] p'(4) ra(1) by (cases "i \<in> set idxs") (auto simp: pool_stores_frame in_set_conv_nth)
    fix j assume "j < length (req_to_token (fold (pool_store ?s) ws p) i)"
    then have j: "j < length (req_to_token p i)" by (simp add: pool_stores_frame)
    show "req_to_token (fold (pool_store ?s) ws p) i ! j = req_to_token p' i ! j"
    proof (cases "\<exists>w \<in> set ws. nat (fst w div int ?s) = i \<and> nat (fst w mod int ?s) = j")
      case False
      have "req_to_token p i ! j = req_to_token p' i ! j"
      proof (cases "i \<in> set idxs")
        case True
        then obtain k where k: "k < length idxs" "i = idxs ! k" by (auto simp: in_set_conv_nth)
        have "nat (seqs ! k) \<le> j"
        proof (rule ccontr)
          assume "\<not> nat (seqs ! k) \<le> j"
          then have "(int i * int ?s + int j, req_to_token p' i ! j) \<in> set ws" "j < nat (seqs ! k)"
            using k by (auto simp: ws)
          then show False using False addr[OF _ k(1)] by fastforce
        qed
        then show ?thesis using ra(2)[OF k(1)] j k by (simp add: p'(4))
      qed (simp add: p'(3))
      then show ?thesis using False by (subst pool_stores_nth[OF vals j]) auto
    qed (subst pool_stores_nth[OF vals j], auto)
  qed
  have "fold (pool_store ?s) ws p = p'"
    by (subst p'(2)) (rule req_to_token_pool.equality, simp_all add: pool_stores_frame rows fun_eq_iff)
  then have "write_cache_indices True g out idxs pres seqs exts tensors p = Inr p'"
    by (simp add: write_cache_indices_def ws_def Let_def)
  moreover have "write_cache_indices False g' out idxs pres seqs exts tensors p = Inr p'"
    by (simp add: write_cache_indices_def p'(1))
  ultimately show ?thesis using p'(3,4) by (auto simp: row_after_def)
qed

text \<open>
  C18. The kernel that writes the slots of a batch into the rows of its requests does what the
  loop does that replaces it on backends without Triton, for every order of its programs and
  whatever its masked loads return. Neither fails; the row of request \<open>k\<close> then starts with
  its cached prefix followed by its share of the new slots, and no other entry of the pool has
  changed.
\<close>

theorem write_cache_indices_kernel:
  assumes "write_args_ok p out idxs pres seqs exts tensors" "set (g_order g (length idxs)) = {..<length idxs}"
  shows "\<exists>p'. write_cache_indices True g out idxs pres seqs exts tensors p = Inr p' \<and>
    write_cache_indices False g' out idxs pres seqs exts tensors p = Inr p' \<and>
    (\<forall>k < length idxs. req_to_token p' (idxs ! k) =
       tensors ! k @ take (nat (exts ! k)) (drop (nat (sum_list (take k exts))) out)
         @ drop (nat (seqs ! k)) (req_to_token p (idxs ! k))) \<and>
    (\<forall>i. i \<notin> set idxs \<longrightarrow> req_to_token p' i = req_to_token p i)"
  by (rule write_cache_indices_ok[OF assms])

definition demo_grid :: gpu where
  "demo_grid = \<lparr>g_oth = 7, g_oob = (\<lambda>_. 99), g_uninit = (\<lambda>_. 55), g_order = (\<lambda>n. rev [0..<n])\<rparr>"

lemma demo_grid_order: "set (g_order demo_grid n) = {..<n}"
  by (simp add: demo_grid_def atLeast0LessThan)

theorem write_cache_indices_kernel_witness:
  "\<exists>p'. write_cache_indices True demo_grid [10, 11, 12] [2, 1] [2, 0] [3, 2] [1, 2] [[5, 6], []] (rp_init 4 8) = Inr p' \<and>
     req_to_token p' 2 = [5, 6, 10, 0, 0, 0, 0, 0] \<and> req_to_token p' 1 = [11, 12, 0, 0, 0, 0, 0, 0]"
proof -
  have "write_args_ok (rp_init 4 8) [10, 11, 12] [2, 1] [2, 0] [3, 2] [1, 2] [[5, 6], []]"
    by (auto simp: write_args_ok_def rp_init_def less_Suc_eq numeral_2_eq_2)
  from write_cache_indices_kernel[OF this demo_grid_order, of demo_grid]
  obtain p' where p': "write_cache_indices True demo_grid [10, 11, 12] [2, 1] [2, 0] [3, 2] [1, 2] [[5, 6], []] (rp_init 4 8) = Inr p'"
    and rows: "\<forall>k < 2. req_to_token p' ([2, 1] ! k) =
       [[5, 6], []] ! k @ take (nat ([1, 2] ! k)) (drop (nat (sum_list (take k [1, 2]))) [10, 11, 12])
         @ drop (nat ([3, 2] ! k)) (req_to_token (rp_init 4 8) ([2, 1] ! k))"
    by (auto simp: numeral_2_eq_2)
  show ?thesis
    using p' rows[rule_format, of 0] rows[rule_format, of 1]
    by (simp add: rp_init_def numeral_eq_Suc)
qed

section \<open>The last slot of every request\<close>

lemma wrap_int_id: "0 < w \<Longrightarrow> - (2 ^ (w - 1)) \<le> x \<Longrightarrow> x < 2 ^ (w - 1) \<Longrightarrow> wrap_int w x = x"
  unfolding wrap_int_def by (cases w) (simp_all add: mod_pos_pos_trivial)

definition last_slot_of :: "req_to_token_pool \<Rightarrow> nat \<Rightarrow> int \<Rightarrow> int" where
  "last_slot_of p i l = (if 0 < l then req_to_token p i ! nat (l - 1) else - 1)"

lemma last_loc_lane_ok:
  assumes "k < length pres" "idxs ! k \<le> rp_size p" "0 \<le> pres ! k" "pres ! k \<le> int s" "0 < w"
    "int ((rp_size p + 1) * s) \<le> 2 ^ (w - 1)"
  shows "last_loc_lane oob w p s idxs pres k = last_slot_of p (idxs ! k) (pres ! k)"
proof (cases "0 < pres ! k")
  case True
  let ?i = "int (idxs ! k)" and ?l = "pres ! k" and ?P = "2 ^ (w - 1) :: int"
  have "(idxs ! k + 1) * s \<le> (rp_size p + 1) * s" using assms(2) by simp
  then have top: "?i * int s + int s \<le> int ((rp_size p + 1) * s)"
    unfolding of_nat_mult[symmetric] of_nat_add[symmetric] of_nat_le_iff by (simp add: algebra_simps)
  have nn: "0 \<le> ?i * int s" by simp
  have "wrap_int w (?i * int s) = ?i * int s" "wrap_int w (?l - 1) = ?l - 1"
    "wrap_int w (?i * int s + (?l - 1)) = ?i * int s + (?l - 1)"
    using top nn True assms(4-6) by (intro wrap_int_id; linarith)+
  moreover have "0 \<le> ?i * int s + (?l - 1)" "?i * int s + (?l - 1) < int ((rp_size p + 1) * s)"
    using top nn True assms(4) by linarith+
  moreover have "nat ((?i * int s + (?l - 1)) div int s) = idxs ! k" "nat ((?i * int s + (?l - 1)) mod int s) = nat (?l - 1)"
    using flat_address[of "?l - 1" s "idxs ! k"] True assms(4) by simp_all
  ultimately show ?thesis
    using True assms(1) unfolding last_loc_lane_def Let_def pool_load_def last_slot_of_def by simp
qed (use assms(1) in \<open>simp add: last_loc_lane_def last_slot_of_def Let_def\<close>)

lemma last_loc_launch_ok:
  assumes "length idxs = length pres" "\<forall>i \<in> set idxs. i \<le> rp_size p"
    "\<forall>l \<in> set pres. 0 \<le> l \<and> l \<le> int (rp_max_context_len p)" "0 < w"
    "int ((rp_size p + 1) * rp_max_context_len p) \<le> 2 ^ (w - 1)" "\<And>n. set (g_order g n) = {..<n}"
  shows "last_loc_launch g w p idxs pres = map2 (last_slot_of p) idxs pres"
proof (rule nth_equalityI)
  let ?n = "length pres" and ?out = "map (g_uninit g) [0..<length pres]"
  let ?T = "map2 (last_slot_of p) idxs pres" and ?m = "nat (cdiv (int (length pres)) (int BLOCK_LAST))"
  define ws where "ws = concat (map (last_loc_kernel (g_oob g) w p (rp_max_context_len p) idxs pres) (g_order g ?m))"
  have L: "last_loc_launch g w p idxs pres = run_stores ?out ws"
    by (simp add: last_loc_launch_def launch_def ws_def)
  show "length (last_loc_launch g w p idxs pres) = length ?T"
    using assms(1) by (simp add: L)
  have lane: "last_loc_lane (g_oob g) w p (rp_max_context_len p) idxs pres k = ?T ! k" if "k < ?n" for k
    using last_loc_lane_ok[of k pres idxs p "rp_max_context_len p" w] assms that by simp
  have vals: "\<forall>v \<in> set ws. nat (fst v) < length ?out \<and> snd v = ?T ! nat (fst v)"
    using lane by (auto simp: ws_def last_loc_kernel_def)
  have covered: "\<exists>v \<in> set ws. nat (fst v) = j" if "j < ?n" for j
  proof -
    have "j div BLOCK_LAST < ?m"
    proof -
      have "0 < int BLOCK_LAST" by (simp add: BLOCK_LAST_def)
      from cdiv_pos_bounds(1)[OF this, of "int ?n"] have "int ?n \<le> int ?m * int BLOCK_LAST"
        by (smt (verit) int_nat_eq mult_nonneg_nonneg of_nat_0_le_iff zero_less_mult_iff)
      then have "?n \<le> ?m * BLOCK_LAST" by (metis of_nat_le_iff of_nat_mult)
      with that show ?thesis by (simp add: less_mult_imp_div_less)
    qed
    moreover have "(int j, last_loc_lane (g_oob g) w p (rp_max_context_len p) idxs pres j)
        \<in> set (last_loc_kernel (g_oob g) w p (rp_max_context_len p) idxs pres (j div BLOCK_LAST))"
    proof -
      have "j = j mod BLOCK_LAST + j div BLOCK_LAST * BLOCK_LAST" "j mod BLOCK_LAST < BLOCK_LAST"
        by (simp_all add: BLOCK_LAST_def)
      then have "j \<in> (\<lambda>l. l + j div BLOCK_LAST * BLOCK_LAST) ` {0..<BLOCK_LAST}"
        by (metis (no_types, lifting) atLeastLessThan_iff image_eqI le0)
      with that show ?thesis unfolding last_loc_kernel_def set_map set_filter set_upt by blast
    qed
    ultimately show ?thesis using assms(6) by (fastforce simp: ws_def)
  qed
  fix j assume "j < length (last_loc_launch g w p idxs pres)"
  then have j: "j < length ?out" by (simp add: L)
  show "last_loc_launch g w p idxs pres ! j = ?T ! j"
    unfolding L using run_stores_nth[OF _ vals j] covered[of j] j assms(1) by simp
qed

text \<open>
  C40. The last slot of every request: on every backend \<^verbatim>\<open>get_last_loc\<close> returns what the
  torch expression returns, the slot of the last prefix token or -1 for an empty prefix, for
  every order of the kernel's programs, as long as the pool tensor has no more entries than
  the index type can address; the address arithmetic then does not wrap.
\<close>

theorem get_last_loc_agrees:
  assumes "length idxs = length pres" "\<forall>i \<in> set idxs. i \<le> rp_size p"
    "\<forall>l \<in> set pres. 0 \<le> l \<and> l \<le> int (rp_max_context_len p)" "0 < rp_max_context_len p"
    "\<forall>i. length (req_to_token p i) = rp_max_context_len p"
    "int ((rp_size p + 1) * rp_max_context_len p) \<le> 2 ^ (if is_i64 then 63 else 31)"
    "\<And>n. set (g_order g n) = {..<n}"
  shows "get_last_loc g is_hip attn_backend is_i64 p idxs pres = get_last_loc_torch p idxs pres \<and>
    get_last_loc_torch p idxs pres =
      Inr (map2 (\<lambda>i l. if 0 < l then req_to_token p i ! nat (l - 1) else - 1) idxs pres)"
proof -
  have "mapR (\<lambda>(i, l). row_index p i (l - 1)) (zip idxs pres)
      = Inr (map (\<lambda>(i, l). if 0 < l then req_to_token p i ! nat (l - 1)
               else req_to_token p i ! (rp_max_context_len p - 1)) (zip idxs pres))"
  proof (rule mapR_total)
    fix x assume "x \<in> set (zip idxs pres)"
    then obtain i l where x: "x = (i, l)" "i \<in> set idxs" "l \<in> set pres"
      by (metis set_zip_leftD set_zip_rightD surj_pair)
    then show "(\<lambda>(i, l). row_index p i (l - 1)) x = Inr ((\<lambda>(i, l). if 0 < l then req_to_token p i ! nat (l - 1)
               else req_to_token p i ! (rp_max_context_len p - 1)) x)"
      using assms(2-5) by (cases "0 < l") (auto simp: row_index_def Let_def nat_diff_distrib not_less)
  qed
  then have t: "get_last_loc_torch p idxs pres = Inr (map2 (last_slot_of p) idxs pres)"
    using assms(1) by (auto simp: get_last_loc_torch_def last_slot_of_def intro!: nth_equalityI)
  have ok: "last_loc_launch g w p idxs pres = map2 (last_slot_of p) idxs pres"
    if "w = 64 \<or> w = 32 \<and> \<not> is_i64" for w
  proof -
    have "int ((rp_size p + 1) * rp_max_context_len p) \<le> 2 ^ (w - 1)"
      using assms(6) that by (auto split: if_splits)
    then show ?thesis using last_loc_launch_ok[OF assms(1-3) _ _ assms(7), of w] that by auto
  qed
  have "get_last_loc g is_hip attn_backend is_i64 p idxs pres = Inr (map2 (last_slot_of p) idxs pres)"
    by (simp add: get_last_loc_def get_last_loc_triton_safe_def get_last_loc_triton_def ok t Let_def)
  with t show ?thesis unfolding last_slot_of_def by simp
qed

theorem get_last_loc_agrees_witness:
  "get_last_loc demo_grid True ''triton'' False ((rp_init 2 4)\<lparr>req_to_token := (\<lambda>_. [8, 9, 10, 11])\<rparr>) [2, 1] [3, 0] = Inr [10, - 1]"
  using get_last_loc_agrees[of "[2, 1]" "[3, 0]" "(rp_init 2 4)\<lparr>req_to_token := (\<lambda>_. [8, 9, 10, 11])\<rparr>"
      False demo_grid True "''triton''", OF _ _ _ _ _ _ demo_grid_order]
  by (simp add: rp_init_def)

end
