(* ===== verification/SchedBatch.thy ===== *)
theory SchedBatch
  imports CacheCommon PyFloat "HOL-Library.Product_Lexorder"
begin

text \<open>
  The part of \<^verbatim>\<open>ScheduleBatch\<close> (\<^verbatim>\<open>managers/schedule_batch.py\<close>) that keeps a running batch
  within memory: how many tokens the next decode step needs, whether they are available after
  eviction, which requests are retracted when they are not, and the filtering of a batch.
  Requests that are objects in Python are identified by their position in the batch or by
  their \<^verbatim>\<open>rid\<close>. There is no HiSparse coordinator and no decode-side offloading.
\<close>

section \<open>Memory of the next step\<close>

text \<open>The server arguments and environment values that the functions read.\<close>

record batch_args =
  ba_release :: release_args
  ba_spec_v2 :: bool
  speculative_num_steps :: "nat option"
  speculative_eagle_topk :: "nat option"
  speculative_num_draft_tokens :: nat
  RETRACT_DECODE_STEPS :: nat

definition or_one :: "nat option \<Rightarrow> nat" where
  "or_one x = (case x of Some (Suc n) \<Rightarrow> Suc n | _ \<Rightarrow> 1)"

definition get_alloc_len_per_decode :: "batch_args \<Rightarrow> nat result" where
  "get_alloc_len_per_decode args =
     (if \<not> ra_has_spec (ba_release args) then Inr 1
      else let spec_steps = or_one (speculative_num_steps args); spec_topk = or_one (speculative_eagle_topk args)
           in if ra_page_size (ba_release args) = 1 \<or> spec_topk = 1
              then Inr (max (spec_steps * spec_topk) (speculative_num_draft_tokens args))
              else Inl NotImplementedError)"

definition new_tokens_required_next_decode_spec_v2 :: "batch_args \<Rightarrow> req list \<Rightarrow> nat \<Rightarrow> nat result" where
  "new_tokens_required_next_decode_spec_v2 args requests page_size =
     bindR (get_alloc_len_per_decode args) (\<lambda>alloc_len.
       Inr (sum_list (map (\<lambda>r.
          let x = kv_committed_len r + 2 * alloc_len - kv_allocated_len r;
              cur = kv_allocated_len r;
              nxt = cur + x
          in ceil_align nxt page_size - ceil_align cur page_size) requests)))"

definition new_tokens_required_next_decode ::
  "batch_args \<Rightarrow> nat \<Rightarrow> req list \<Rightarrow> nat list option \<Rightarrow> nat result" where
  "new_tokens_required_next_decode args page_size reqs selected_indices =
     bindR (case selected_indices of None \<Rightarrow> Inr reqs | Some is \<Rightarrow> mapR (nthR reqs) is) (\<lambda>requests.
       if \<not> ra_has_spec (ba_release args)
       then Inr (length (filter (\<lambda>r. kv_committed_len r mod page_size = 0) requests) * page_size)
       else if ba_spec_v2 args then new_tokens_required_next_decode_spec_v2 args requests page_size
       else
         let len_per_topk = or_one (speculative_num_steps args);
             spec_topk = or_one (speculative_eagle_topk args);
             spec_tokens = speculative_num_draft_tokens args;
             (len_per_topk, spec_tokens) =
               (if 1 < page_size \<and> 1 < spec_topk
                then (ceil_align (len_per_topk + page_size) page_size, ceil_align spec_tokens page_size)
                else if 1 < page_size
                then (ceil_align len_per_topk page_size, ceil_align spec_tokens page_size)
                else (len_per_topk, spec_tokens))
         in Inr (max (len_per_topk * spec_topk) spec_tokens * length requests))"

definition check_decode_mem ::
  "'c cache_ops \<Rightarrow> batch_args \<Rightarrow> req list \<Rightarrow> nat list option \<Rightarrow> 'c \<Rightarrow> (bool \<times> 'c) result" where
  "check_decode_mem ops args reqs selected_indices c =
     bindR (new_tokens_required_next_decode args (co_alloc_page_size ops c) reqs selected_indices) (\<lambda>num_tokens.
     bindR (evict_from_tree_cache ops (int num_tokens) c) (\<lambda>c.
       Inr (co_available_size ops c \<ge> int num_tokens, c)))"

section \<open>Prefill\<close>

text \<open>The lengths that \<^verbatim>\<open>prepare_for_extend\<close> stores in the batch before it allocates.\<close>

definition set_extend_lens :: "sched_batch \<Rightarrow> sched_batch" where
  "set_extend_lens b =
     (let reqs = b_reqs b;
          input_ids = map (\<lambda>r. drop (length (prefix_indices r)) (fill_ids r)) reqs
      in b\<lparr>b_prefix_lens := map (\<lambda>r. int (length (prefix_indices r))) reqs,
           b_extend_lens := map extend_input_len reqs,
           b_seq_lens := map (\<lambda>r. int (length (fill_ids r))) reqs,
           b_orig_seq_lens := map (\<lambda>r. int (max (length (fill_ids r)) (length (origin_input_ids r)))) reqs,
           b_extend_num_tokens := sum_list (map length input_ids)\<rparr>)"

section \<open>Filtering\<close>

definition select :: "nat list \<Rightarrow> 'a list \<Rightarrow> 'a list result" where
  "select keep xs = mapR (nthR xs) keep"

text \<open>
  \<open>exclude\<close> are the requests in \<^verbatim>\<open>chunked_req_to_exclude\<close>, used when no indices are given. A
  batch that keeps all or none of its requests keeps its tensors.
\<close>

definition filter_batch :: "req list \<Rightarrow> nat list option \<Rightarrow> sched_batch \<Rightarrow> sched_batch result" where
  "filter_batch exclude keep_indices b =
     (let keep = (case keep_indices of
                    Some is \<Rightarrow> is
                  | None \<Rightarrow> filter (\<lambda>i. \<not> is_finished (b_reqs b ! i) \<and> rid (b_reqs b ! i) \<notin> rid ` set exclude)
                              [0..<length (b_reqs b)])
      in if keep = [] then Inr (b\<lparr>b_reqs := []\<rparr>)
         else if length keep = length (b_reqs b) then Inr b
         else
           bindR (case b_encoder_lens b of
                    None \<Rightarrow> Inr None | Some es \<Rightarrow> bindR (select keep es) (\<lambda>es. Inr (Some es))) (\<lambda>es.
           bindR (select keep (b_reqs b)) (\<lambda>reqs.
           bindR (select keep (b_req_pool_indices b)) (\<lambda>idxs.
           bindR (select keep (b_seq_lens b)) (\<lambda>seqs.
           bindR (select keep (b_orig_seq_lens b)) (\<lambda>origs.
           bindR (case b_output_ids b of
                    None \<Rightarrow> Inr None | Some ids \<Rightarrow> bindR (select keep ids) (\<lambda>ids. Inr (Some ids))) (\<lambda>outs.
           Inr (b\<lparr>b_encoder_lens := es, b_reqs := reqs, b_req_pool_indices := idxs, b_seq_lens := seqs,
                  b_orig_seq_lens := origs, b_out_cache_loc := None, b_seq_lens_sum := sum_list seqs,
                  b_output_ids := outs, b_return_logprob := (\<exists>r \<in> set reqs. return_logprob r),
                  b_has_grammar := (\<exists>r \<in> set reqs. grammar_terminated r \<noteq> None)\<rparr>))))))))"

section \<open>Releasing and retracting requests\<close>

definition release_req ::
  "'c cache_ops \<Rightarrow> batch_args \<Rightarrow> nat \<Rightarrow> nat \<Rightarrow> req_to_token_pool \<Rightarrow> req list \<Rightarrow> 'c \<Rightarrow>
   (req_to_token_pool \<times> req list \<times> 'c) result" where
  "release_req ops args idx remaining p reqs c =
     bindR (nthR reqs idx) (\<lambda>r.
     bindR (release_kv_cache ops (ba_release args) p r False c) (\<lambda>(p, r, c).
     bindR (evict_from_tree_cache ops (int (remaining * RETRACT_DECODE_STEPS args)) c) (\<lambda>c.
       Inr (p, reqs[idx := reset_for_retract r], c))))"

definition retract_all ::
  "'c cache_ops \<Rightarrow> batch_args \<Rightarrow> req_to_token_pool \<Rightarrow> sched_batch \<Rightarrow> 'c \<Rightarrow>
   (req list \<times> req_to_token_pool \<times> sched_batch \<times> 'c) result" where
  "retract_all ops args p b c =
     bindR (foldR (\<lambda>idx (p, reqs, c). release_req ops args idx (length (b_reqs b) - idx) p reqs c)
              [0..<length (b_reqs b)] (p, b_reqs b, c)) (\<lambda>(p, reqs, c).
     bindR (filter_batch reqs None (b\<lparr>b_reqs := reqs\<rparr>)) (\<lambda>b. Inr (reqs, p, b, c)))"

text \<open>
  The order in which requests give up their memory: the last index goes first.
  \<^verbatim>\<open>sort(reverse=True)\<close> is stable.
\<close>

definition retract_order :: "batch_args \<Rightarrow> req list \<Rightarrow> nat list" where
  "retract_order args reqs =
     (let indices = [0..<length reqs]
      in if ra_has_spec (ba_release args) then indices
         else rev (sort_key (\<lambda>i. (length (output_ids (reqs ! i)), - int (length (origin_input_ids (reqs ! i)))))
                (rev indices)))"

text \<open>
  The loop of \<^verbatim>\<open>retract_decode\<close> on the reversed order, so that \<^verbatim>\<open>pop\<close> takes the head. The
  indices of the retracted requests are collected.
\<close>

fun retract_loop ::
  "'c cache_ops \<Rightarrow> batch_args \<Rightarrow> bool \<Rightarrow> nat list \<Rightarrow> nat list \<Rightarrow> req_to_token_pool \<Rightarrow> req list \<Rightarrow> 'c \<Rightarrow>
   (nat list \<times> nat list \<times> req_to_token_pool \<times> req list \<times> 'c) result" where
  "retract_loop ops args first_iter retracted [] p reqs c =
     bindR (if first_iter then Inr (False, c) else check_decode_mem ops args reqs (Some []) c) (\<lambda>(ok, c).
       if ok then Inr ([], retracted, p, reqs, c) else Inl IndexError)"
| "retract_loop ops args first_iter retracted [i] p reqs c =
     bindR (if first_iter then Inr (False, c) else check_decode_mem ops args reqs (Some [i]) c) (\<lambda>(ok, c).
       Inr ([i], retracted, p, reqs, c))"
| "retract_loop ops args first_iter retracted (i # j # rest) p reqs c =
     bindR (if first_iter then Inr (False, c)
            else check_decode_mem ops args reqs (Some (rev (i # j # rest))) c) (\<lambda>(ok, c).
       if ok then Inr (i # j # rest, retracted, p, reqs, c)
       else bindR (release_req ops args i (length (j # rest)) p reqs c) (\<lambda>(p, reqs, c).
            retract_loop ops args False (retracted @ [i]) (j # rest) p reqs c))"

definition OOM_MESSAGE :: string where
  "OOM_MESSAGE = ''Out of memory even after retracting all other requests in the decode batch. Aborting the last request.''"

definition new_estimate_ratio :: "float_env \<Rightarrow> batch_args \<Rightarrow> req list \<Rightarrow> rat result" where
  "new_estimate_ratio F args reqs =
     (let total_decoded_tokens = sum_list (map (\<lambda>r. int (length (output_ids r))) reqs);
          total_max_new_tokens = sum_list (map max_new_tokens reqs)
      in if total_max_new_tokens + 1 = 0 then Inl ZeroDivisionError
         else Inr (min 1 (rnd F (of_int (total_decoded_tokens + int (RETRACT_DECODE_STEPS args) * int (length reqs))
                                  / of_int (total_max_new_tokens + 1)))))"

text \<open>
  The retracted requests, the new estimate, the aborted requests, the request pool, the batch
  and the cache.
\<close>

definition retract_decode ::
  "float_env \<Rightarrow> 'c cache_ops \<Rightarrow> batch_args \<Rightarrow> req_to_token_pool \<Rightarrow> sched_batch \<Rightarrow> 'c \<Rightarrow>
   (req list \<times> rat \<times> req list \<times> req_to_token_pool \<times> sched_batch \<times> 'c) result" where
  "retract_decode F ops args p b c =
     bindR (retract_loop ops args True [] (rev (retract_order args (b_reqs b))) p (b_reqs b) c)
      (\<lambda>(left, retracted, p, reqs, c).
     bindR (if length left \<le> 1 then check_decode_mem ops args reqs (Some (rev left)) c else Inr (True, c))
      (\<lambda>(ok, c).
     bindR (if ok then Inr (left, [], p, reqs, c)
            else case left of
                   [] \<Rightarrow> Inl IndexError
                 | i # left \<Rightarrow>
                     bindR (release_req ops args i 0 p
                              (reqs[i := (reqs ! i)\<lparr>to_finish := Some (FINISH_ABORT OOM_MESSAGE)\<rparr>]) c)
                       (\<lambda>(p, reqs, c). Inr (left, [i], p, reqs, c)))
      (\<lambda>(left, aborted, p, reqs, c).
     bindR (filter_batch [] (Some (rev left)) (b\<lparr>b_reqs := reqs\<rparr>)) (\<lambda>b.
     bindR (new_estimate_ratio F args (b_reqs b)) (\<lambda>ratio.
       Inr (map ((!) reqs) retracted, ratio, map ((!) reqs) aborted, p, b, c))))))"

end
