(* ===== verification/BatchProps.thy ===== *)
theory BatchProps
  imports SchedBatch
begin

text \<open>
  What retraction achieves: the batch that is left has the memory for its next decode step.
  The lemmas hold for every prefix cache.
\<close>

section \<open>Selected requests\<close>

lemma select_eq_Inr: "select keep xs = Inr ys \<longleftrightarrow> ys = map ((!) xs) keep \<and> (\<forall>i \<in> set keep. i < length xs)"
  unfolding select_def mapR_eq_Inr nthR_eq_Inr
  by (auto simp: all_set_conv_all_nth intro!: nth_equalityI)

definition enough_memory :: "'c cache_ops \<Rightarrow> batch_args \<Rightarrow> req list \<Rightarrow> 'c \<Rightarrow> bool" where
  "enough_memory ops args reqs c \<longleftrightarrow>
     (\<exists>n. new_tokens_required_next_decode args (co_alloc_page_size ops c) reqs None = Inr n \<and>
        int n \<le> co_available_size ops c)"

text \<open>Eviction does not change the size of a page.\<close>

definition evict_keeps_pages :: "'c cache_ops \<Rightarrow> bool" where
  "evict_keeps_pages ops \<longleftrightarrow>
     (\<forall>n s m c c'. co_evict ops n s m c = Inr c' \<longrightarrow> co_alloc_page_size ops c' = co_alloc_page_size ops c)"

lemma required_selected:
  assumes "new_tokens_required_next_decode args ps reqs (Some is) = Inr n"
  shows "new_tokens_required_next_decode args ps (map ((!) reqs) is) None = Inr n" "\<forall>i \<in> set is. i < length reqs"
proof -
  obtain rs where rs: "mapR (nthR reqs) is = Inr rs"
    using assms by (auto simp: new_tokens_required_next_decode_def bindR_eq_Inr)
  then have "select is reqs = Inr rs" by (simp add: select_def)
  then have "rs = map ((!) reqs) is" "\<forall>i \<in> set is. i < length reqs" by (simp_all add: select_eq_Inr)
  then show "new_tokens_required_next_decode args ps (map ((!) reqs) is) None = Inr n" "\<forall>i \<in> set is. i < length reqs"
    using assms rs by (simp_all add: new_tokens_required_next_decode_def)
qed

lemma evict_from_tree_cache_pages:
  assumes "evict_keeps_pages ops" "evict_from_tree_cache ops n c = Inr c'"
  shows "co_alloc_page_size ops c' = co_alloc_page_size ops c"
  using assms by (auto simp: evict_keeps_pages_def evict_from_tree_cache_def Let_def split: if_splits)

lemma check_decode_mem_True:
  assumes "evict_keeps_pages ops" "check_decode_mem ops args reqs (Some is) c = Inr (True, c')"
  shows "enough_memory ops args (map ((!) reqs) is) c'" "\<forall>i \<in> set is. i < length reqs"
proof -
  obtain n where n: "new_tokens_required_next_decode args (co_alloc_page_size ops c) reqs (Some is) = Inr n"
    "evict_from_tree_cache ops (int n) c = Inr c'" "int n \<le> co_available_size ops c'"
    using assms(2) by (auto simp: check_decode_mem_def bindR_eq_Inr)
  then show "enough_memory ops args (map ((!) reqs) is) c'" "\<forall>i \<in> set is. i < length reqs"
    using required_selected[OF n(1)] evict_from_tree_cache_pages[OF assms(1) n(2)]
    by (auto simp: enough_memory_def)
qed

section \<open>The loop\<close>

lemma release_req_length:
  assumes "release_req ops args i k p reqs c = Inr (p', reqs', c')"
  shows "length reqs' = length reqs"
  using assms by (auto simp: release_req_def bindR_eq_Inr)

text \<open>The loop ends with a suffix of the order; more than one request is left only if they fit.\<close>

lemma retract_loop_fits:
  assumes "evict_keeps_pages ops" "retract_loop ops args first retracted rs p reqs c = Inr (left, retracted', p', reqs', c')"
  shows "length reqs' = length reqs \<and> length retracted' + length left = length retracted + length rs \<and> suffix left rs \<and> (rs \<noteq> [] \<longrightarrow> left \<noteq> []) \<and>
    (first \<longrightarrow> left = rs \<longrightarrow> length rs = 1) \<and>
    (1 < length left \<longrightarrow> enough_memory ops args (map ((!) reqs') (rev left)) c' \<and> (\<forall>i \<in> set left. i < length reqs'))"
  using assms
proof (induction ops args first retracted rs p reqs c rule: retract_loop.induct)
  case (3 ops args first retracted i j rest p reqs c)
  obtain ok c1 where ok: "(if first then Inr (False, c) else check_decode_mem ops args reqs (Some (rev (i # j # rest))) c) = Inr (ok, c1)"
    and cont: "(if ok then Inr (i # j # rest, retracted, p, reqs, c1)
       else bindR (release_req ops args i (length (j # rest)) p reqs c1) (\<lambda>(p, reqs, c).
            retract_loop ops args False (retracted @ [i]) (j # rest) p reqs c)) = Inr (left, retracted', p', reqs', c')"
    using 3(3) unfolding retract_loop.simps bindR_eq_Inr by (auto split: prod.splits)
  show ?case
  proof (cases ok)
    case True
    then have eq: "left = i # j # rest" "retracted' = retracted" "reqs' = reqs" "c' = c1" and nf: "\<not> first" using cont ok by auto
    then have "check_decode_mem ops args reqs (Some (rev (i # j # rest))) c = Inr (True, c1)" using ok True by simp
    from check_decode_mem_True[OF 3(2) this] show ?thesis using eq nf by simp
  next
    case False
    then obtain p1 reqs1 c2 where r: "release_req ops args i (length (j # rest)) p reqs c1 = Inr (p1, reqs1, c2)"
      "retract_loop ops args False (retracted @ [i]) (j # rest) p1 reqs1 c2 = Inr (left, retracted', p', reqs', c')"
      using cont by (auto simp: bindR_eq_Inr)
    from 3(1)[OF False 3(2) r(2)] show ?thesis using release_req_length[OF r(1)] by (auto simp: suffix_def)
  qed
qed (auto simp: bindR_eq_Inr split: if_splits)

section \<open>Filtering and the result\<close>

lemma filter_batch_reqs:
  assumes "filter_batch ex (Some keep) b = Inr b'"
  shows "b_reqs b' = (if keep = [] then [] else if length keep = length (b_reqs b) then b_reqs b
     else map ((!) (b_reqs b)) keep)"
  using assms by (auto simp: filter_batch_def Let_def bindR_eq_Inr select_eq_Inr split: if_splits)

lemma retract_order_length: "length (retract_order args reqs) = length reqs"
  by (simp add: retract_order_def Let_def)

text \<open>The steps of a retraction that returns.\<close>

lemma retract_decode_steps:
  assumes "retract_decode F ops args p b c = Inr (retracted, ratio, aborted, p', b', c')"
  obtains left rt p1 reqs1 c1 ok c2 where
    "retract_loop ops args True [] (rev (retract_order args (b_reqs b))) p (b_reqs b) c = Inr (left, rt, p1, reqs1, c1)"
    "(if length left \<le> 1 then check_decode_mem ops args reqs1 (Some (rev left)) c1 else Inr (True, c1)) = Inr (ok, c2)"
    "ok \<longrightarrow> filter_batch [] (Some (rev left)) (b\<lparr>b_reqs := reqs1\<rparr>) = Inr b' \<and> retracted = map ((!) reqs1) rt \<and>
       aborted = [] \<and> c' = c2"
    "\<not> ok \<longrightarrow> (\<exists>i reqs3. left = [i] \<and> retracted = map ((!) reqs3) rt \<and> aborted = [reqs3 ! i] \<and>
       filter_batch [] (Some []) (b\<lparr>b_reqs := reqs3\<rparr>) = Inr b')"
proof -
  note run = assms[unfolded retract_decode_def]
  obtain left rt p1 reqs1 c1 where loop:
    "retract_loop ops args True [] (rev (retract_order args (b_reqs b))) p (b_reqs b) c = Inr (left, rt, p1, reqs1, c1)"
    using run unfolding bindR_eq_Inr split_paired_Ex by blast
  note run = run[unfolded loop bindR_simps prod.case]
  obtain ok c2 where ok: "(if length left \<le> 1 then check_decode_mem ops args reqs1 (Some (rev left)) c1 else Inr (True, c1)) = Inr (ok, c2)"
    using run unfolding bindR_eq_Inr split_paired_Ex by blast
  note run = run[unfolded ok bindR_simps prod.case]
  have "length left \<le> 1" if "\<not> ok" using ok that by (auto split: if_splits)
  with run show ?thesis
    by (intro that[OF loop ok]) (auto simp: bindR_eq_Inr simp del: map_eq_conv split: list.splits if_splits)
qed

text \<open>A batch that keeps all of its requests has one.\<close>

lemma kept_requests:
  assumes "filter_batch [] (Some (rev left)) (b\<lparr>b_reqs := reqs\<rparr>) = Inr b'"
    "length left = length reqs \<Longrightarrow> length left = 1" "length left \<le> 1 \<Longrightarrow> \<forall>i \<in> set left. i < length reqs"
  shows "b_reqs b' = map ((!) reqs) (rev left)"
proof (cases "left \<noteq> [] \<and> length left = length reqs")
  case True
  then obtain i where i: "left = [i]" "length reqs = 1" using assms(2) by (auto simp: length_Suc_conv)
  then have "i = 0" using assms(3) by auto
  then have "map ((!) reqs) (rev left) = reqs" using i by (cases reqs) auto
  then show ?thesis using filter_batch_reqs[OF assms(1)] True by auto
next
  case False
  then show ?thesis using filter_batch_reqs[OF assms(1)] by auto
qed


text \<open>Two requests in an exhausted pool of four slots: the one with less output gives way.\<close>

definition demo_batch_args :: batch_args where
  "demo_batch_args = \<lparr>ba_release = \<lparr>ra_page_size = 1, ra_has_spec = False, ra_strip_thinking_cache = False\<rparr>,
     ba_spec_v2 = False, speculative_num_steps = None, speculative_eagle_topk = None,
     speculative_num_draft_tokens = 0, RETRACT_DECODE_STEPS = 20\<rparr>"

definition demo_decoding :: "string \<Rightarrow> nat \<Rightarrow> int list \<Rightarrow> req" where
  "demo_decoding name row out =
     (new_req name [1] (sampling_init exact id sampling_defaults) False None None [] 100 None None False)
     \<lparr>req_pool_idx := Some row, output_ids := out, kv_committed_len := 2, kv_allocated_len := 2, max_new_tokens := 10\<rparr>"

definition demo_launch :: gpu where
  "demo_launch = \<lparr>g_oth = 0, g_oob = (\<lambda>_. 0), g_uninit = (\<lambda>_. 0), g_order = (\<lambda>n. [0..<n])\<rparr>"

definition demo_decode_batch :: sched_batch where
  "demo_decode_batch = \<lparr>b_reqs = [demo_decoding ''a'' 1 [7], demo_decoding ''b'' 2 [8, 9]],
     b_prefix_lens = [], b_extend_lens = [], b_extend_num_tokens = 0, b_seq_lens = [2, 2], b_req_pool_indices = [1, 2],
     b_encoder_lens = None, b_orig_seq_lens = [2, 2], b_seq_lens_sum = 4, b_out_cache_loc = None,
     b_output_ids = None, b_return_logprob = False, b_has_grammar = False,
     b_is_prefill_only = False, b_input_ids = []\<rparr>"

definition demo_batch_rows :: req_to_token_pool where
  "demo_batch_rows = (rp_init 2 4)\<lparr>rp_free_slots := [], req_to_token := (\<lambda>i. if i = 1 then [1, 2, 0, 0] else [3, 4, 0, 0])\<rparr>"

definition demo_chunk_cache :: chunk_cache where
  "demo_chunk_cache = \<lparr>cc_allocator = (tk_init 4 False)\<lparr>free_pages := []\<rparr>, cc_page_size = 1, cc_protected_size = 0\<rparr>"

lemma demo_retracted:
  "case retract_decode exact (chunk_ops demo_launch False) demo_batch_args demo_batch_rows demo_decode_batch demo_chunk_cache of
     Inl _ \<Rightarrow> False | Inr (retracted, _, _, _, b, _) \<Rightarrow> map rid retracted = [''a''] \<and> map rid (b_reqs b) = [''b'']"
  by code_simp

lemma chunk_evict_keeps_pages: "evict_keeps_pages (chunk_ops g strip)"
  by (simp add: evict_keeps_pages_def chunk_ops_def Let_def)


end
