(* ===== verification/PyNum.thy ===== *)
theory PyNum
  imports PyFloat
begin

text \<open>
  Python numbers that are an \<^verbatim>\<open>int\<close> or a finite \<^verbatim>\<open>float\<close>, as the token estimates of the
  scheduler: integer arithmetic is exact, an operation with a float operand is rounded, and
  comparisons are exact.
\<close>

datatype pynum = PyInt int | PyFlt rat

primrec num_val :: "pynum \<Rightarrow> rat" where
  "num_val (PyInt n) = of_int n"
| "num_val (PyFlt x) = x"

primrec num_flt :: "float_env \<Rightarrow> pynum \<Rightarrow> rat" where
  "num_flt F (PyInt n) = fint F n"
| "num_flt F (PyFlt x) = x"

fun num_add :: "float_env \<Rightarrow> pynum \<Rightarrow> pynum \<Rightarrow> pynum" where
  "num_add F (PyInt a) (PyInt b) = PyInt (a + b)"
| "num_add F a b = PyFlt (rnd F (num_flt F a + num_flt F b))"

fun num_sub :: "float_env \<Rightarrow> pynum \<Rightarrow> pynum \<Rightarrow> pynum" where
  "num_sub F (PyInt a) (PyInt b) = PyInt (a - b)"
| "num_sub F a b = PyFlt (rnd F (num_flt F a - num_flt F b))"

fun num_mul :: "float_env \<Rightarrow> pynum \<Rightarrow> pynum \<Rightarrow> pynum" where
  "num_mul F (PyInt a) (PyInt b) = PyInt (a * b)"
| "num_mul F a b = PyFlt (rnd F (num_flt F a * num_flt F b))"

definition num_le :: "pynum \<Rightarrow> pynum \<Rightarrow> bool" where
  "num_le a b \<longleftrightarrow> num_val a \<le> num_val b"

text \<open>\<^verbatim>\<open>min(a, b)\<close> keeps the first of two equal arguments.\<close>

definition num_min :: "pynum \<Rightarrow> pynum \<Rightarrow> pynum" where
  "num_min a b = (if num_val b < num_val a then b else a)"

definition num_int :: "pynum \<Rightarrow> int" where
  "num_int a = (case a of PyInt n \<Rightarrow> n | PyFlt x \<Rightarrow> ftrunc x)"

text \<open>The builtin \<^verbatim>\<open>sum\<close> of floats; the sum of nothing is the integer 0.\<close>

definition num_sum :: "float_env \<Rightarrow> rat list \<Rightarrow> pynum" where
  "num_sum F xs = (if xs = [] then PyInt 0 else PyFlt (fsum F xs))"

section \<open>Integers below a rounded result\<close>

text \<open>Integers up to \<open>2 ^ 53\<close> are exact, so rounding does not carry a result past one of them.\<close>

lemma num_flt_exact:
  assumes "rounding F" "\<bar>n\<bar> \<le> 2 ^ 53"
  shows "num_flt F (PyInt n) = of_int n"
  using assms by (simp add: fint_def rounding_int)

lemma num_add_ge:
  assumes "rounding F" "of_int m \<le> num_val a" "\<bar>m + n\<bar> \<le> 2 ^ 53" "\<bar>n\<bar> \<le> 2 ^ 53"
  shows "of_int (m + n) \<le> num_val (num_add F a (PyInt n))"
proof (cases a)
  case (PyInt k)
  then show ?thesis using assms(2) by simp
next
  case (PyFlt x)
  have "of_int (m + n) \<le> x + of_int n" using assms(2) PyFlt by simp
  from rounding_ge[OF assms(1) this assms(3)] show ?thesis
    using PyFlt num_flt_exact[OF assms(1,4)] by simp
qed

lemma num_sub_gt:
  assumes "rounding F" "of_int t < num_val (num_sub F (PyInt n) a)" "\<bar>t\<bar> \<le> 2 ^ 53" "\<bar>n\<bar> \<le> 2 ^ 53"
  shows "of_int t < of_int n - num_val a"
proof (cases a)
  case (PyInt k)
  then show ?thesis using assms(2) by simp
next
  case (PyFlt x)
  show ?thesis
  proof (rule ccontr)
    assume "\<not> ?thesis"
    then have "of_int n - x \<le> of_int t" using PyFlt by simp
    from rounding_le[OF assms(1) this assms(3)] show False
      using assms(2) PyFlt num_flt_exact[OF assms(1,4)] by simp
  qed
qed

end
