(* ===== verification/PrefillAdder.thy ===== *)
theory PrefillAdder
  imports SchedBatch PyNum PrefillDelayer
begin

text \<open>
  \<^verbatim>\<open>PrefillAdder\<close> of \<^verbatim>\<open>managers/schedule_policy.py\<close>: the requests of the waiting queue that
  join the next prefill batch. The adder keeps estimates of the tokens that are left; a request
  is admitted when its input, a share of its output and one page fit. \<open>adder\<close> are its fields,
  every method returns the request and the adder it has changed.
\<close>

section \<open>State\<close>

datatype add_req_result = CONTINUE | NO_TOKEN | OTHER

text \<open>The values that the module reads from the environment.\<close>

record adder_env =
  CLIP_MAX_NEW_TOKENS :: int
  ae_float :: float_env
  ae_args :: batch_args
  ae_low_priority_values_first :: bool
  ae_pass :: pass_in

definition IGNORE_EOS_RESERVE_TOKENS :: int where
  "IGNORE_EOS_RESERVE_TOKENS = 1"

text \<open>\<open>ad_dllm\<close> is the block size and the remaining tokens of a diffusion model.\<close>

record adder =
  ad_page_size :: int
  ad_running_batch :: "sched_batch option"
  ad_new_token_ratio :: rat
  rem_input_tokens :: int
  rem_chunk_tokens :: "int option"
  ad_dllm :: "(int \<times> int) option"
  rem_total_token_offset :: pynum
  cur_rem_token_offset :: int
  req_states :: "(pynum \<times> int) list option"
  can_run_list :: "req list"
  preempt_list :: "req list"
  new_chunked_req :: "req option"
  log_hit_tokens :: int
  log_input_tokens :: int
  rem_swa_token_offset :: int
  priority_scheduling_preemption_threshold :: int
  ad_context_parallel :: bool
  ad_max_running_requests :: int
  prefill_max_requests :: "nat option"
  ad_max_prefill_bs :: int
  prefill_delayer_single_pass :: "pass_executor option"
  ad_waiting_queue_len :: int

definition running_request_total_token_offset :: "adder_env \<Rightarrow> rat \<Rightarrow> req \<Rightarrow> rat" where
  "running_request_total_token_offset E ratio r =
     (let F = ae_float E
      in rnd F (fint F (min (max_new_tokens r - int (length (output_ids r))) (CLIP_MAX_NEW_TOKENS E)) * ratio))"

text \<open>\<open>dllm\<close> is the block size and the maximal number of running requests of the configuration.\<close>

definition adder_init ::
  "adder_env \<Rightarrow> int \<Rightarrow> sched_batch option \<Rightarrow> rat \<Rightarrow> int \<Rightarrow> int option \<Rightarrow> int \<Rightarrow> int \<Rightarrow> int \<Rightarrow> int \<Rightarrow> nat option \<Rightarrow>
   pass_executor option \<Rightarrow> (int \<times> int) option \<Rightarrow> int \<Rightarrow> bool \<Rightarrow> adder" where
  "adder_init E page running ratio input_tokens chunk_tokens num_mixed_decode_tokens threshold
     prefill_bs max_running max_reqs single_pass dllm_config queue_len context_parallel =
     (let offset = (case running of
             None \<Rightarrow> PyInt num_mixed_decode_tokens
           | Some b \<Rightarrow> num_add (ae_float E) (PyInt num_mixed_decode_tokens)
               (num_sum (ae_float E) (map (running_request_total_token_offset E ratio) (b_reqs b))))
      in \<lparr>ad_page_size = page, ad_running_batch = running, ad_new_token_ratio = ratio,
          rem_input_tokens = input_tokens - num_mixed_decode_tokens,
          rem_chunk_tokens = map_option (\<lambda>n. n - num_mixed_decode_tokens) chunk_tokens,
          ad_dllm = map_option (\<lambda>(block_size, max_running_reqs). (block_size, max_running_reqs * block_size)) dllm_config,
          rem_total_token_offset = offset, cur_rem_token_offset = num_mixed_decode_tokens,
          req_states = None, can_run_list = [], preempt_list = [], new_chunked_req = None,
          log_hit_tokens = 0, log_input_tokens = 0, rem_swa_token_offset = 0,
          priority_scheduling_preemption_threshold = threshold, ad_context_parallel = context_parallel,
          ad_max_running_requests = max_running, prefill_max_requests = max_reqs,
          ad_max_prefill_bs = prefill_bs, prefill_delayer_single_pass = single_pass,
          ad_waiting_queue_len = queue_len\<rparr>)"

section \<open>Budgets\<close>

definition available_and_evictable :: "'c cache_ops \<Rightarrow> 'c \<Rightarrow> int" where
  "available_and_evictable ops c =
     (if co_is_swa ops then co_full_available_size ops c + co_full_evictable_size ops c
      else if co_supports_mamba ops then co_available_size ops c + co_full_evictable_size ops c
      else co_available_size ops c + co_evictable_size ops c)"

definition rem_total_tokens :: "adder_env \<Rightarrow> 'c cache_ops \<Rightarrow> adder \<Rightarrow> 'c \<Rightarrow> pynum" where
  "rem_total_tokens E ops ad c =
     num_sub (ae_float E) (PyInt (available_and_evictable ops c)) (rem_total_token_offset ad)"

definition rem_swa_tokens :: "'c cache_ops \<Rightarrow> adder \<Rightarrow> 'c \<Rightarrow> int" where
  "rem_swa_tokens ops ad c = co_swa_available_size ops c + co_swa_evictable_size ops c - rem_swa_token_offset ad"

definition cur_rem_tokens :: "'c cache_ops \<Rightarrow> adder \<Rightarrow> 'c \<Rightarrow> int" where
  "cur_rem_tokens ops ad c = available_and_evictable ops c - cur_rem_token_offset ad"

definition swa_budget_for_req :: "'c cache_ops \<Rightarrow> adder \<Rightarrow> int \<Rightarrow> int" where
  "swa_budget_for_req ops ad ext =
     max (case rem_chunk_tokens ad of Some n \<Rightarrow> min ext n | None \<Rightarrow> ext) (co_sliding_window_size ops) + ad_page_size ad"

definition ceil_paged_tokens :: "adder \<Rightarrow> int \<Rightarrow> int" where
  "ceil_paged_tokens ad tokens = - ((- tokens) div ad_page_size ad) * ad_page_size ad"

definition budget_state :: "adder_env \<Rightarrow> 'c cache_ops \<Rightarrow> adder \<Rightarrow> 'c \<Rightarrow> add_req_result" where
  "budget_state E ops ad c =
     (if num_le (rem_total_tokens E ops ad c) (PyInt 0) \<or> cur_rem_tokens ops ad c \<le> 0 \<or>
         co_is_swa ops \<and> rem_swa_tokens ops ad c \<le> 0 then NO_TOKEN
      else if rem_input_tokens ad \<le> 0 then OTHER
      else case ad_dllm ad of
        Some (_, rem_dllm_tokens) \<Rightarrow> if rem_dllm_tokens \<le> 0 then OTHER else CONTINUE
      | None \<Rightarrow> (case rem_chunk_tokens ad of
                   Some n \<Rightarrow> if n \<le> 0 then OTHER else CONTINUE | None \<Rightarrow> CONTINUE))"

definition update_prefill_budget ::
  "adder_env \<Rightarrow> 'c cache_ops \<Rightarrow> int \<Rightarrow> int \<Rightarrow> int \<Rightarrow> adder \<Rightarrow> adder" where
  "update_prefill_budget E ops prefix_len ext max_new ad =
     (let ext = ceil_paged_tokens ad ext;
          page_overhead = ad_page_size ad;
          ad1 = ad\<lparr>rem_total_token_offset :=
                     num_add (ae_float E) (rem_total_token_offset ad) (PyInt (ext + max_new + page_overhead)),
                   cur_rem_token_offset := cur_rem_token_offset ad + (ext + page_overhead),
                   rem_input_tokens := rem_input_tokens ad - ext,
                   rem_swa_token_offset := (if co_is_swa ops then rem_swa_token_offset ad + swa_budget_for_req ops ad ext
                                            else rem_swa_token_offset ad)\<rparr>;
          ad2 = (case ad_dllm ad1 of
                   Some (bs, n) \<Rightarrow> ad1\<lparr>ad_dllm := Some (bs, n - ext)\<rparr>
                 | None \<Rightarrow> ad1\<lparr>rem_chunk_tokens := map_option (\<lambda>n. n - ext) (rem_chunk_tokens ad1)\<rparr>)
      in ad2\<lparr>log_hit_tokens := log_hit_tokens ad2 + prefix_len, log_input_tokens := log_input_tokens ad2 + ext\<rparr>)"

definition clip_new :: "adder_env \<Rightarrow> int \<Rightarrow> int" where
  "clip_new E n = min n (CLIP_MAX_NEW_TOKENS E)"

text \<open>\<open>run r ad\<close> appends a request to the batch; its fill ids are cut to \<open>prefix_len + ext\<close>.\<close>

definition run_req :: "req \<Rightarrow> adder \<Rightarrow> adder" where
  "run_req r ad = ad\<lparr>can_run_list := can_run_list ad @ [r]\<rparr>"

section \<open>Chunked requests and diffusion models\<close>

definition get_dllm_remain_tokens :: "adder_env \<Rightarrow> 'c cache_ops \<Rightarrow> adder \<Rightarrow> int \<Rightarrow> int \<Rightarrow> 'c \<Rightarrow> int" where
  "get_dllm_remain_tokens E ops ad block_size rem_dllm_tokens c =
     (let rem_tokens = min (min rem_dllm_tokens block_size) (num_int (rem_total_tokens E ops ad c))
      in if rem_tokens \<le> 0 then rem_dllm_tokens else rem_tokens)"

definition add_dllm_req :: "adder_env \<Rightarrow> 'c cache_ops \<Rightarrow> req \<Rightarrow> int \<Rightarrow> int \<Rightarrow> int \<Rightarrow> adder \<Rightarrow> req \<times> adder" where
  "add_dllm_req E ops r block_size rem_dllm_tokens prefix_len ad =
     (let trunc_len = min rem_dllm_tokens block_size div ad_page_size ad * ad_page_size ad;
          r1 = r\<lparr>extend_input_len := trunc_len, fill_ids := py_upto (fill_ids r) (prefix_len + trunc_len)\<rparr>
      in (r1, update_prefill_budget E ops prefix_len trunc_len 0 (run_req r1 ad)))"

definition add_dllm_staging_req ::
  "adder_env \<Rightarrow> 'c cache_ops \<Rightarrow> req \<Rightarrow> adder \<Rightarrow> 'c \<Rightarrow> (add_req_result \<times> req \<times> adder) result" where
  "add_dllm_staging_req E ops r ad c =
     (case ad_dllm ad of
        None \<Rightarrow> Inl AssertionError
      | Some (block_size, rem_dllm) \<Rightarrow>
          let rem_tokens = get_dllm_remain_tokens E ops ad block_size rem_dllm c
          in if rem_tokens \<le> 0 then Inr (NO_TOKEN, r, ad)
             else
               let truncated = (extend_input_len r > rem_tokens);
                   ext = min (extend_input_len r) rem_tokens;
                   r1 = r\<lparr>extend_input_len := ext,
                          fill_ids := py_upto (fill_ids r) (int (length (prefix_indices r)) + ext)\<rparr>;
                   ad1 = update_prefill_budget E ops 0 ext
                     (if truncated then 0 else clip_new E (max_new_tokens r)) (run_req r1 ad);
                   rem_after = (case ad_dllm ad1 of Some (_, n) \<Rightarrow> n | None \<Rightarrow> 0)
               in Inr (if get_dllm_remain_tokens E ops ad1 block_size rem_after c \<le> 0 then NO_TOKEN else CONTINUE,
                       r1, ad1))"

text \<open>
  The request whose prefill was cut in an earlier pass: it has to be added. The result is the
  request when its prefill is still not finished.
\<close>

definition add_chunked_req ::
  "adder_env \<Rightarrow> 'c cache_ops \<Rightarrow> req \<Rightarrow> adder \<Rightarrow> 'c \<Rightarrow> (req option \<times> req \<times> adder) result" where
  "add_chunked_req E ops r ad c =
     bindR (case ad_dllm ad of
              Some (block_size, rem_dllm) \<Rightarrow> Inr (Some (get_dllm_remain_tokens E ops ad block_size rem_dllm c))
            | None \<Rightarrow>
                (case rem_chunk_tokens ad of
                   None \<Rightarrow> Inl TypeError
                 | Some chunk_tokens \<Rightarrow>
                     let rem0 = min chunk_tokens (num_int (rem_total_tokens E ops ad c));
                         rem1 = (if co_is_swa ops then min rem0 (rem_swa_tokens ops ad c - ad_page_size ad) else rem0)
                     in if rem1 \<le> 0 then Inr (if co_is_swa ops then None else Some chunk_tokens) else Inr (Some rem1)))
      (\<lambda>rem. case rem of
         None \<Rightarrow> Inr (Some r, r, ad)
       | Some rem_tokens \<Rightarrow>
           let truncated = (extend_input_len r > rem_tokens);
               r1 = set_extend_input_len (min (extend_input_len r) rem_tokens) r;
               r2 = r1\<lparr>fill_ids := py_upto (fill_ids r1) (int (length (prefix_indices r1)) + extend_input_len r1)\<rparr>;
               ad1 = update_prefill_budget E ops 0 (extend_input_len r2)
                 (if truncated then 0 else clip_new E (max_new_tokens r2)) (run_req r2 ad)
           in Inr (if truncated then Some r2 else None, r2, ad1))"

section \<open>Requests that ignore the end of sequence\<close>

definition state_of :: "adder_env \<Rightarrow> adder \<Rightarrow> req \<Rightarrow> pynum \<times> int" where
  "state_of E ad r =
     (let F = ae_float E;
          ratio = (if ignore_eos (rq_sampling r) then 1 else ad_new_token_ratio ad)
      in (num_sub F (num_mul F (PyInt (max_new_tokens r)) (PyFlt ratio)) (PyInt (int (length (output_ids r)))),
          int (length (origin_input_ids r)) + int (length (output_ids r))))"

text \<open>The position at which \<^verbatim>\<open>add_req_state\<close> inserts: the value its loop variable ends with.\<close>

fun insert_pos :: "pynum \<Rightarrow> (pynum \<times> int) list \<Rightarrow> nat \<Rightarrow> nat" where
  "insert_pos t [] i = i - 1"
| "insert_pos t (s # ss) i = (if num_le t (fst s) then i else insert_pos t ss (i + 1))"

definition insert_state :: "pynum \<times> int \<Rightarrow> (pynum \<times> int) list \<Rightarrow> (pynum \<times> int) list" where
  "insert_state s ss = (let i = insert_pos (fst s) ss 0 in take i ss @ s # drop i ss)"

definition add_states :: "adder_env \<Rightarrow> adder \<Rightarrow> req \<Rightarrow> (pynum \<times> int) list" where
  "add_states E ad r =
     (let live = filter (\<lambda>s. \<not> num_le (fst s) (PyInt 0))
      in case req_states ad of
        None \<Rightarrow>
          sort_key (\<lambda>s. num_val (fst s)) (live (map (state_of E ad)
            (r # (case ad_running_batch ad of None \<Rightarrow> [] | Some b \<Rightarrow> b_reqs b) @ can_run_list ad)))
      | Some ss \<Rightarrow>
          let s = state_of E ad r
          in if num_le (fst s) (PyInt 0) then ss else insert_state s ss)"

text \<open>Whether the requests fit when they finish one after the other.\<close>

fun states_fit :: "float_env \<Rightarrow> int \<Rightarrow> int \<Rightarrow> (pynum \<times> int) list \<Rightarrow> bool" where
  "states_fit F rem_tokens tokens_freed [] = True"
| "states_fit F rem_tokens tokens_freed ((tokens_left, tokens_occupied) # ss) =
     (let bs = int (length ss) + 1;
          min_free_tokens = num_sub F (PyInt (rem_tokens + tokens_freed)) (num_mul F tokens_left (PyInt bs))
      in \<not> num_le min_free_tokens (PyInt (IGNORE_EOS_RESERVE_TOKENS * bs)) \<and>
         states_fit F rem_tokens (tokens_freed + tokens_occupied) ss)"

definition ask_delayer ::
  "adder_env \<Rightarrow> pass_in \<Rightarrow> adder \<Rightarrow> (bool \<times> adder) result" where
  "ask_delayer E pass ad =
     (case prefill_delayer_single_pass ad of
        None \<Rightarrow> Inr (True, ad)
      | Some ex \<Rightarrow> bindR (negotiate_should_allow_prefill (ae_float E) pass ex)
                    (\<lambda>(allow, ex). Inr (allow, ad\<lparr>prefill_delayer_single_pass := Some ex\<rparr>)))"

text \<open>What is done with a request that has room: as a whole, or its first chunk.\<close>

definition run_ignore_eos ::
  "adder_env \<Rightarrow> 'c cache_ops \<Rightarrow> req \<Rightarrow> adder \<Rightarrow> 'c \<Rightarrow> add_req_result \<times> req \<times> adder" where
  "run_ignore_eos E ops r ad c =
     (let whole = (let ad = update_prefill_budget E ops 0 (extend_input_len r) (clip_new E (max_new_tokens r)) (run_req r ad)
                   in (budget_state E ops ad c, r, ad))
      in case ad_dllm ad of
           Some (block_size, rem_dllm) \<Rightarrow>
             if rem_dllm \<le> 0 then (OTHER, r, ad)
             else let (r, ad) = add_dllm_req E ops r block_size rem_dllm 0 ad
                  in (budget_state E ops ad c, r, ad)
         | None \<Rightarrow>
             (case rem_chunk_tokens ad of
                None \<Rightarrow> whole
              | Some chunk_tokens \<Rightarrow>
                  if extend_input_len r \<le> chunk_tokens then whole
                  else if chunk_tokens \<le> 0 then (OTHER, r, ad)
                  else let r = set_extend_input_len chunk_tokens r;
                           r = r\<lparr>fill_ids := py_upto (fill_ids r) chunk_tokens\<rparr>;
                           ad = update_prefill_budget E ops 0 chunk_tokens 0
                                  ((run_req r ad)\<lparr>new_chunked_req := Some r\<rparr>)
                       in (budget_state E ops ad c, r, ad)))"

definition add_one_req_ignore_eos ::
  "adder_env \<Rightarrow> 'c cache_ops \<Rightarrow> req \<Rightarrow> adder \<Rightarrow> 'c \<Rightarrow> (add_req_result \<times> req \<times> adder) result" where
  "add_one_req_ignore_eos E ops r ad c =
     (let F = ae_float E;
          paged_input = ceil_paged_tokens ad (extend_input_len r)
      in if \<not> num_le (PyInt paged_input) (num_min (PyInt (cur_rem_tokens ops ad c)) (rem_total_tokens E ops ad c))
         then Inr (NO_TOKEN, r, ad)
         else if co_is_swa ops \<and> swa_budget_for_req ops ad (extend_input_len r) > rem_swa_tokens ops ad c
         then Inr (NO_TOKEN, r, ad)
         else
           let ad = ad\<lparr>req_states := Some (add_states E ad r)\<rparr>
           in if \<not> co_is_swa ops \<and>
                 \<not> states_fit F (cur_rem_tokens ops ad c - paged_input) 0 (the (req_states ad))
              then Inr (NO_TOKEN, r, ad)
              else
                bindR (ask_delayer E ((ae_pass E)\<lparr>local_prefillable := True, pi_running_batch := 0,
                         pi_max_prefill_bs := 0, pi_max_running_requests := 0, pi_waiting_queue_len := 0\<rparr>) ad)
                 (\<lambda>(allow, ad). Inr (if allow then run_ignore_eos E ops r ad c else (OTHER, r, ad))))"

section \<open>Adding a request\<close>

text \<open>The temporary lock; it is released whatever the body returns.\<close>

definition lock_node ::
  "'c cache_ops \<Rightarrow> nat option \<Rightarrow> ('c \<Rightarrow> ('r \<times> 'c) result) \<Rightarrow> 'c \<Rightarrow> ('r \<times> 'c) result" where
  "lock_node ops n body c =
     bindR (co_inc_lock_ref ops n c) (\<lambda>(res, c).
     bindR (body c) (\<lambda>(x, c).
     bindR (co_dec_lock_ref ops n (if co_is_tree_cache ops then Some (to_dec_params res) else None) c)
       (\<lambda>c. Inr (x, c))))"

text \<open>\<^verbatim>\<open>_req_inc_lock_ref\<close>: the lock that the admitted request holds.\<close>

definition req_inc_lock_ref :: "'c cache_ops \<Rightarrow> req \<Rightarrow> 'c \<Rightarrow> 'c result" where
  "req_inc_lock_ref ops r c = bindR (co_inc_lock_ref ops (last_node r) c) (\<lambda>(_, c). Inr c)"

text \<open>The length of the chunk of a request that does not fit as a whole; \<open>None\<close> when it is empty.\<close>

definition chunk_len :: "adder \<Rightarrow> int \<Rightarrow> int option \<Rightarrow> int \<Rightarrow> int option" where
  "chunk_len ad chunk_tokens truncation_align_size prefix_len =
     (let ps = ad_page_size ad;
          trunc = chunk_tokens div ps * ps
      in if trunc \<le> 0 then None
         else if (case truncation_align_size of None \<Rightarrow> False | Some a \<Rightarrow> trunc < a) then None
         else
           let trunc = (case truncation_align_size of None \<Rightarrow> trunc | Some a \<Rightarrow> a * (trunc div a));
               trunc = (trunc + prefix_len) div ps * ps - prefix_len
           in if trunc \<le> 0 then None else Some trunc)"

text \<open>The body under the temporary lock, after the budget has been checked again.\<close>

definition admit ::
  "adder_env \<Rightarrow> 'c cache_ops \<Rightarrow> req \<Rightarrow> int option \<Rightarrow> adder \<Rightarrow> 'c \<Rightarrow> ((add_req_result option \<times> req \<times> adder) \<times> 'c) result" where
  "admit E ops r truncation_align_size ad c =
     (let prefix_len = int (length (prefix_indices r));
          input_tokens = ceil_paged_tokens ad (extend_input_len r);
          whole = (\<lambda>_. let ad = run_req r ad
                   in bindR (req_inc_lock_ref ops r c) (\<lambda>c.
                      Inr ((None, r, update_prefill_budget E ops prefix_len input_tokens
                                       (clip_new E (max_new_tokens r)) ad), c)))
      in if input_tokens \<ge> rem_input_tokens ad \<and> can_run_list ad \<noteq> [] then Inr ((Some OTHER, r, ad), c)
         else case ad_dllm ad of
           Some (block_size, rem_dllm) \<Rightarrow>
             if rem_dllm \<le> 0 then Inr ((Some OTHER, r, ad), c)
             else if truncation_align_size \<noteq> None then Inl AssertionError
             else let (r, ad) = add_dllm_req E ops r block_size rem_dllm prefix_len ad
                  in bindR (req_inc_lock_ref ops r c) (\<lambda>c. Inr ((None, r, ad), c))
         | None \<Rightarrow>
             (case rem_chunk_tokens ad of
                None \<Rightarrow> whole ()
              | Some chunk_tokens \<Rightarrow>
                  if input_tokens \<le> chunk_tokens then whole ()
                  else case chunk_len ad chunk_tokens truncation_align_size prefix_len of
                    None \<Rightarrow> Inr ((Some OTHER, r, ad), c)
                  | Some trunc_len \<Rightarrow>
                      let r = set_extend_input_len trunc_len r;
                          r = r\<lparr>fill_ids := py_upto (fill_ids r) (prefix_len + trunc_len)\<rparr>;
                          ad = (run_req r ad)\<lparr>new_chunked_req := Some r\<rparr>
                      in bindR (req_inc_lock_ref ops r c) (\<lambda>c.
                         Inr ((None, r, update_prefill_budget E ops prefix_len trunc_len 0 ad), c))))"

text \<open>Loading the part of the prefix that is in host memory.\<close>

definition load_back :: "'c cache_ops \<Rightarrow> req \<Rightarrow> 'c \<Rightarrow> (req \<times> 'c) result" where
  "load_back ops r c =
     (if 0 < rq_host_hit_length r
      then bindR (co_init_load_back ops (rq_best_match_node r) (rq_host_hit_length r) r c) (\<lambda>((new_indices, n), c).
           let r1 = r\<lparr>last_node := n, prefix_indices := prefix_indices r @ new_indices\<rparr>;
               r2 = set_extend_input_len (int (length (fill_ids r1)) - int (length (prefix_indices r1))) r1
           in Inr (r2\<lparr>cache_protected_len := length (prefix_indices r2)\<rparr>, c))
      else Inr (r, c))"

definition add_one_req ::
  "adder_env \<Rightarrow> 'c cache_ops \<Rightarrow> req \<Rightarrow> int option \<Rightarrow> adder \<Rightarrow> 'c \<Rightarrow>
   ((add_req_result \<times> req \<times> adder) \<times> 'c) result" where
  "add_one_req E ops r truncation_align_size ad c =
     bindR (case prefill_delayer_single_pass ad of
              None \<Rightarrow> Inr (True, ad)
            | Some _ \<Rightarrow>
                bindR (the_attr (ad_running_batch ad)) (\<lambda>b.
                ask_delayer E ((ae_pass E)\<lparr>local_prefillable := True, pi_running_batch := int (length (b_reqs b)),
                    pi_max_prefill_bs := ad_max_prefill_bs ad,
                    pi_max_running_requests := ad_max_running_requests ad,
                    pi_waiting_queue_len := ad_waiting_queue_len ad\<rparr>) ad))
      (\<lambda>(allow, ad).
     if \<not> allow then Inr ((OTHER, r, ad), c)
     else if ad_context_parallel ad \<and> can_run_list ad \<noteq> [] then Inr ((OTHER, r, ad), c)
     else if (case prefill_max_requests ad of None \<Rightarrow> False | Some x \<Rightarrow> x \<le> length (can_run_list ad))
     then Inr ((OTHER, r, ad), c)
     else if ignore_eos (rq_sampling r) \<and> co_disable ops c
     then bindR (add_one_req_ignore_eos E ops r ad c) (\<lambda>x. Inr (x, c))
     else
       let max_new = clip_new E (max (max_new_tokens r - int (length (output_ids r))) 0);
           total_tokens = extend_input_len r + max_new + ad_page_size ad;
           real_input_tokens = ceil_paged_tokens ad (extend_input_len r - int (rq_host_hit_length r));
           no_token = (\<lambda>c. num_le (rem_total_tokens E ops ad c) (PyInt total_tokens) \<or>
                           co_is_swa ops \<and> swa_budget_for_req ops ad (extend_input_len r) \<ge> rem_swa_tokens ops ad c)
       in if no_token c then Inr ((NO_TOKEN, r, ad), c)
          else if real_input_tokens \<ge> rem_input_tokens ad \<and> can_run_list ad \<noteq> [] then Inr ((OTHER, r, ad), c)
          else
            bindR (lock_node ops (last_node r)
                (\<lambda>c. if no_token c then Inr ((Some NO_TOKEN, r, ad), c)
                     else bindR (load_back ops r c) (\<lambda>(r, c). admit E ops r truncation_align_size ad c)) c)
              (\<lambda>((res, r, ad), c).
                 case res of Some x \<Rightarrow> Inr ((x, r, ad), c)
                 | None \<Rightarrow> Inr ((budget_state E ops ad c, r, ad), c)))"

section \<open>Preemption\<close>

text \<open>\<open>priority\<close> of a request that has none raises a TypeError in the arithmetic.\<close>

definition prio_of :: "req \<Rightarrow> int result" where
  "prio_of r = (case rq_priority r of None \<Rightarrow> Inl TypeError | Some p \<Rightarrow> Inr p)"

fun pick_preemptible ::
  "adder_env \<Rightarrow> adder \<Rightarrow> int \<Rightarrow> int \<Rightarrow> req list \<Rightarrow> pynum \<Rightarrow> req list \<Rightarrow> (req list \<times> pynum) result" where
  "pick_preemptible E ad sign prio [] to_remove picked = Inr (picked, to_remove)"
| "pick_preemptible E ad sign prio (r # rs) to_remove picked =
     bindR (prio_of r) (\<lambda>p.
       if (prio - p) * (- sign) > priority_scheduling_preemption_threshold ad
       then let picked = picked @ [r];
                to_remove = num_sub (ae_float E) to_remove
                  (PyFlt (running_request_total_token_offset E (ad_new_token_ratio ad) r))
            in if num_le to_remove (PyInt 0) then Inr (picked, to_remove)
               else pick_preemptible E ad sign prio rs to_remove picked
       else Inr (picked, to_remove))"

text \<open>The loop over the running batch that releases the picked requests.\<close>

fun release_preempted ::
  "adder_env \<Rightarrow> 'c cache_ops \<Rightarrow> string set \<Rightarrow> nat \<Rightarrow> nat list \<Rightarrow> nat list \<Rightarrow> pynum \<Rightarrow> rat \<Rightarrow>
   req_to_token_pool \<Rightarrow> req list \<Rightarrow> 'c \<Rightarrow> (nat list \<times> pynum \<times> req_to_token_pool \<times> req list \<times> 'c) result" where
  "release_preempted E ops ids released [] keep offset ratio p reqs c = Inr (keep, offset, p, reqs, c)"
| "release_preempted E ops ids released (i # is) keep offset ratio p reqs c =
     (if rid (reqs ! i) \<in> ids
      then bindR (release_req ops (ae_args E) i (length reqs - (released + 1)) p reqs c) (\<lambda>(p, reqs', c).
           release_preempted E ops ids (released + 1) is keep
             (num_sub (ae_float E) offset (PyFlt (running_request_total_token_offset E ratio (reqs ! i))))
             ratio p reqs' c)
      else release_preempted E ops ids released is (keep @ [i]) offset ratio p reqs c)"

definition preempt_to_schedule ::
  "adder_env \<Rightarrow> 'c cache_ops \<Rightarrow> req \<Rightarrow> adder \<Rightarrow> req_to_token_pool \<Rightarrow> 'c \<Rightarrow>
   (bool \<times> adder \<times> req_to_token_pool \<times> 'c) result" where
  "preempt_to_schedule E ops r ad p c =
     bindR (the_attr (ad_running_batch ad)) (\<lambda>b.
     let sign = (if ae_low_priority_values_first E then 1 else - 1);
         valid = filter (\<lambda>x. rid x \<notin> rid ` set (preempt_list ad) \<and> \<not> is_finished x) (b_reqs b)
     in bindR (mapR (\<lambda>x. bindR (prio_of x) (\<lambda>q. Inr (q, x))) valid) (\<lambda>keyed.
     let running = map snd (sort_key (\<lambda>(q, x). (q * (- sign), - wait_queue_entry_time x)) keyed);
         to_remove = num_sub (ae_float E) (PyInt (extend_input_len r + clip_new E (max_new_tokens r)))
           (rem_total_tokens E ops ad c)
     in bindR (if running = [] then Inr 0 else prio_of r) (\<lambda>prio.
     bindR (pick_preemptible E ad sign prio running to_remove []) (\<lambda>(picked, to_remove).
     if picked = [] \<or> \<not> num_le to_remove (PyInt 0) then Inr (False, ad, p, c)
     else
       bindR (release_preempted E ops (rid ` set picked) 0 [0..<length (b_reqs b)] [] (rem_total_token_offset ad)
                (ad_new_token_ratio ad) p (b_reqs b) c) (\<lambda>(keep, offset, p, reqs, c).
       bindR (filter_batch [] (Some keep) (b\<lparr>b_reqs := reqs\<rparr>)) (\<lambda>b'.
         Inr (True, ad\<lparr>rem_total_token_offset := offset, ad_running_batch := Some b',
                       preempt_list := preempt_list ad @ filter (\<lambda>x. rid x \<in> rid ` set picked) reqs\<rparr>, p, c)))))))"

end
