(* ===== verification/CacheSpec.thy ===== *)
theory CacheSpec
  imports PrefillAdder AllocExtend
begin

text \<open>
  What the scheduler relies on of a prefix cache, as a locale, and what follows for every
  cache that satisfies it: a prefill batch that \<^verbatim>\<open>PrefillAdder\<close> has admitted can be
  allocated. \<open>inv c L\<close> is the invariant of the cache, with the multiset \<open>L\<close> of the locks that are
  held; \<open>same\<close> relates states that differ in their locks only, \<open>as_large\<close> states with the same sizes.
\<close>

section \<open>Rounding up to pages\<close>

definition ceil_to :: "int \<Rightarrow> int \<Rightarrow> int" where
  "ceil_to ps n = - ((- n) div ps) * ps"

lemma ceil_paged_tokens_ceil: "ceil_paged_tokens ad n = ceil_to (ad_page_size ad) n"
  by (simp add: ceil_paged_tokens_def ceil_to_def)

lemma ceil_to_bounds:
  assumes "0 < ps"
  shows "n \<le> ceil_to ps n" "ceil_to ps n < n + ps"
proof -
  have e: "- n = (- n) div ps * ps + (- n) mod ps" by simp
  then have "ceil_to ps n = n + (- n) mod ps" unfolding ceil_to_def by linarith
  then show "n \<le> ceil_to ps n" "ceil_to ps n < n + ps" using assms by simp_all
qed

lemma ceil_to_mono: "0 < ps \<Longrightarrow> m \<le> n \<Longrightarrow> ceil_to ps m \<le> ceil_to ps n"
  unfolding ceil_to_def by (simp add: zdiv_mono1)

lemma ceil_to_idem: "0 < ps \<Longrightarrow> ceil_to ps (ceil_to ps n) = ceil_to ps n"
  unfolding ceil_to_def by simp

lemma ceil_to_cdiv: "0 < ps \<Longrightarrow> ceil_to ps n = cdiv n ps * ps"
  using cdiv_pos_bounds[of ps n] ceil_to_bounds[of ps n]
proof -
  assume ps: "0 < ps"
  have "ceil_to ps n = - ((- n) div ps) * ps" by (simp add: ceil_to_def)
  moreover have "cdiv n ps = - ((- n) div ps)"
    using ps by (simp add: cdiv_split zdiv_zminus1_eq_if)
  ultimately show ?thesis by simp
qed

section \<open>The interface\<close>

text \<open>A prefill batch whose prefixes are whole pages.\<close>

definition paged_batch :: "int \<Rightarrow> int list \<Rightarrow> int list \<Rightarrow> int list \<Rightarrow> bool" where
  "paged_batch ps prefix_lens seq_lens last_loc \<longleftrightarrow>
     length seq_lens = length prefix_lens \<and> length last_loc = length prefix_lens \<and>
     (\<forall>i < length prefix_lens. 0 \<le> prefix_lens ! i \<and> prefix_lens ! i \<le> seq_lens ! i \<and>
        prefix_lens ! i mod ps = 0 \<and> (last_loc ! i + 1) mod ps = 0)"

definition ext_tokens :: "int list \<Rightarrow> int list \<Rightarrow> nat" where
  "ext_tokens prefix_lens seq_lens = nat (sum_list (map2 (-) seq_lens prefix_lens))"

definition ext_pages :: "int \<Rightarrow> int list \<Rightarrow> int list \<Rightarrow> int" where
  "ext_pages ps prefix_lens seq_lens = sum_list (map2 (\<lambda>s p. ceil_to ps (s - p)) seq_lens prefix_lens)"

locale prefix_cache =
  fixes ops :: "'c cache_ops"
    and inv :: "'c \<Rightarrow> nat option multiset \<Rightarrow> bool"
    and at_node :: "'c \<Rightarrow> nat option \<Rightarrow> bool"
    and same :: "'c \<Rightarrow> 'c \<Rightarrow> bool"
    and as_large :: "'c \<Rightarrow> 'c \<Rightarrow> bool"
    and capacity :: "'c \<Rightarrow> int"
  assumes plain: "\<not> co_is_swa ops" "\<not> co_supports_mamba ops"
    and same_refl: "same c c"
    and same_trans: "same c c' \<Longrightarrow> same c' c'' \<Longrightarrow> same c c''"
    and same_keeps: "same c c' \<Longrightarrow> co_available_size ops c' = co_available_size ops c"
      "same c c' \<Longrightarrow> co_alloc_page_size ops c' = co_alloc_page_size ops c"
      "same c c' \<Longrightarrow> co_disable ops c' = co_disable ops c"
      "same c c' \<Longrightarrow> at_node c' n = at_node c n"
      "same c c' \<Longrightarrow> capacity c' = capacity c"
    and locked_alike: "inv c L \<Longrightarrow> inv c' L' \<Longrightarrow> same c c' \<Longrightarrow> set_mset L = set_mset L' \<Longrightarrow>
      co_evictable_size ops c' = co_evictable_size ops c"
    and within_capacity: "inv c L \<Longrightarrow> co_available_size ops c + co_evictable_size ops c \<le> capacity c"
    and sizes_nonneg: "inv c L \<Longrightarrow> 0 \<le> co_available_size ops c" "inv c L \<Longrightarrow> 0 \<le> co_evictable_size ops c"
    and lock_law: "inv c L \<Longrightarrow> at_node c n \<Longrightarrow>
      \<exists>r c'. co_inc_lock_ref ops n c = Inr (r, c') \<and> inv c' (add_mset n L) \<and> same c c'"
    and unlock_law: "inv c L \<Longrightarrow> n \<in># L \<Longrightarrow>
      \<exists>c'. co_dec_lock_ref ops n params c = Inr c' \<and> inv c' (L - {#n#}) \<and> same c c'"
    and evict_law: "inv c L \<Longrightarrow> \<exists>c'. co_evict ops num 0 0 c = Inr c' \<and> inv c' L \<and>
      co_available_size ops c' + co_evictable_size ops c' = co_available_size ops c + co_evictable_size ops c \<and>
      (num \<le> co_available_size ops c' \<or> co_evictable_size ops c' = 0) \<and>
      co_alloc_page_size ops c' = co_alloc_page_size ops c"
    and extend_law: "inv c L \<Longrightarrow> 1 < co_alloc_page_size ops c \<Longrightarrow>
      paged_batch (int (co_alloc_page_size ops c)) prefix_lens seq_lens last_loc \<Longrightarrow>
      ext_pages (int (co_alloc_page_size ops c)) prefix_lens seq_lens \<le> co_available_size ops c \<Longrightarrow>
      \<exists>out c'. co_alloc_extend ops prefix_lens seq_lens last_loc (ext_tokens prefix_lens seq_lens) c = Inr (Some out, c') \<and>
        length out = ext_tokens prefix_lens seq_lens \<and> distinct out"
    and alloc_law: "inv c L \<Longrightarrow> co_alloc_page_size ops c = 1 \<Longrightarrow> int need \<le> co_available_size ops c \<Longrightarrow>
      \<exists>out c'. co_alloc ops need c = Inr (Some out, c') \<and> length out = need \<and> distinct out"
    and page_pos: "inv c L \<Longrightarrow> 0 < co_alloc_page_size ops c"
    and page_size_eq: "inv c L \<Longrightarrow> co_page_size ops c = co_alloc_page_size ops c"
    and chunk_holds_nothing: "co_is_chunk_cache ops \<Longrightarrow> co_evictable_size ops c = 0"
    and match_law: "inv c L \<Longrightarrow> \<not> is_bigram key \<Longrightarrow>
      \<exists>m c'. co_match_prefix ops key c = Inr (m, c') \<and> inv c' L \<and> cm_host_hit_length m = 0 \<and>
        at_node c' (cm_last_device_node m) \<and> length (cm_device_indices m) \<le> length (token_ids key) \<and>
        int (length (cm_device_indices m)) mod int (co_alloc_page_size ops c) = 0 \<and>
        (last_slot (cm_device_indices m) + 1) mod int (co_alloc_page_size ops c) = 0 \<and>
        (co_disable ops c \<longrightarrow> cm_device_indices m = []) \<and> as_large c c'"
    and as_large_keeps: "as_large c c' \<Longrightarrow> co_available_size ops c' = co_available_size ops c"
      "as_large c c' \<Longrightarrow> co_evictable_size ops c' = co_evictable_size ops c"
      "as_large c c' \<Longrightarrow> co_alloc_page_size ops c' = co_alloc_page_size ops c"
      "as_large c c' \<Longrightarrow> co_disable ops c' = co_disable ops c"
      "as_large c c' \<Longrightarrow> capacity c' = capacity c"
    and root_law: "inv c L \<Longrightarrow> \<not> co_is_chunk_cache ops \<Longrightarrow> at_node c (Some (co_root_node ops c))"
    and plain_reqs: "co_maybe_evict_swa ops rs c = Inr (rs, c)" "co_mamba_available ops = None"
      "co_req_alloc ops = plain_req_alloc"
begin

lemma available_and_evictable_plain:
  "available_and_evictable ops c = co_available_size ops c + co_evictable_size ops c"
  using plain by (simp add: available_and_evictable_def)

lemma evict_from_tree_cache_ok:
  assumes "inv c L"
  shows "\<exists>c'. evict_from_tree_cache ops n c = Inr c' \<and> inv c' L \<and>
    available_and_evictable ops c' = available_and_evictable ops c \<and>
    (n \<le> co_available_size ops c' \<or> co_evictable_size ops c' = 0) \<and>
    co_alloc_page_size ops c' = co_alloc_page_size ops c"
  using assms plain evict_law[OF assms, of n] chunk_holds_nothing
  by (auto simp: evict_from_tree_cache_def available_and_evictable_plain)

text \<open>The slots of a prefill batch, as \<^verbatim>\<open>alloc_for_extend\<close> allocates them.\<close>

lemma prefill_slots:
  assumes "inv c L" "ps = int (co_alloc_page_size ops c)" "paged_batch ps prefix_lens seq_lens last_loc"
    "ext_pages ps prefix_lens seq_lens \<le> available_and_evictable ops c"
  shows "\<exists>out c'. (if co_page_size ops c = 1
       then alloc_token_slots ops (ext_tokens prefix_lens seq_lens) False c
       else alloc_paged_token_slots_extend ops prefix_lens seq_lens last_loc (ext_tokens prefix_lens seq_lens) False c)
      = Inr ((out, None), c') \<and> length out = ext_tokens prefix_lens seq_lens \<and> distinct out"
proof -
  let ?n = "ext_tokens prefix_lens seq_lens"
  have ps: "0 < ps" using page_pos[OF assms(1)] assms(2) by simp
  have diffs: "map2 (-) seq_lens prefix_lens ! i = seq_lens ! i - prefix_lens ! i" "0 \<le> seq_lens ! i - prefix_lens ! i"
    if "i < length prefix_lens" for i
    using assms(3) that by (auto simp: paged_batch_def)
  have len: "length seq_lens = length prefix_lens" using assms(3) by (simp add: paged_batch_def)
  have nn: "0 \<le> sum_list (map2 (-) seq_lens prefix_lens)"
    using diffs len by (intro sum_list_nonneg) (auto simp: in_set_conv_nth)
  have pages: "ext_pages ps prefix_lens seq_lens \<le> int ?n + int (length seq_lens) * ps"
    "int ?n \<le> ext_pages ps prefix_lens seq_lens"
  proof -
    have e: "ext_pages ps prefix_lens seq_lens = (\<Sum>i<length prefix_lens. ceil_to ps (seq_lens ! i - prefix_lens ! i))"
      and d: "sum_list (map2 (-) seq_lens prefix_lens) = (\<Sum>i<length prefix_lens. seq_lens ! i - prefix_lens ! i)"
      unfolding ext_pages_def sum_list_sum_nth using len by (simp_all add: atLeast0LessThan)
    have n: "int ?n = (\<Sum>i<length prefix_lens. seq_lens ! i - prefix_lens ! i)"
      using nn d by (simp add: ext_tokens_def)
    have "ext_pages ps prefix_lens seq_lens \<le> (\<Sum>i<length prefix_lens. (seq_lens ! i - prefix_lens ! i) + ps)"
      unfolding e using ceil_to_bounds(2)[OF ps] by (intro sum_mono) (simp add: less_imp_le)
    then show "ext_pages ps prefix_lens seq_lens \<le> int ?n + int (length seq_lens) * ps"
      unfolding n len by (simp add: sum.distrib)
    show "int ?n \<le> ext_pages ps prefix_lens seq_lens"
      unfolding e n using ceil_to_bounds(1)[OF ps] by (intro sum_mono)
  qed
  show ?thesis
  proof (cases "co_alloc_page_size ops c = 1")
    case True
    obtain c1 where c1: "evict_from_tree_cache ops (int ?n) c = Inr c1" "inv c1 L"
      "available_and_evictable ops c1 = available_and_evictable ops c"
      "int ?n \<le> co_available_size ops c1 \<or> co_evictable_size ops c1 = 0"
      "co_alloc_page_size ops c1 = co_alloc_page_size ops c"
      using evict_from_tree_cache_ok[OF assms(1)] by blast
    then have "int ?n \<le> co_available_size ops c1"
      using pages(2) assms(4) by (auto simp: available_and_evictable_plain)
    from alloc_law[OF c1(2) _ this] obtain out c2 where "co_alloc ops ?n c1 = Inr (Some out, c2)" "length out = ?n" "distinct out"
      using c1(5) True by auto
    then show ?thesis
      using True page_size_eq[OF assms(1)] c1(1) by (simp add: alloc_token_slots_def or_out_of_memory_def)
  next
    case False
    let ?m = "?n + length seq_lens * co_alloc_page_size ops c"
    obtain c1 where c1: "evict_from_tree_cache ops (int ?m) c = Inr c1" "inv c1 L"
      "available_and_evictable ops c1 = available_and_evictable ops c"
      "int ?m \<le> co_available_size ops c1 \<or> co_evictable_size ops c1 = 0"
      "co_alloc_page_size ops c1 = co_alloc_page_size ops c"
      using evict_from_tree_cache_ok[OF assms(1)] by blast
    then have "ext_pages ps prefix_lens seq_lens \<le> co_available_size ops c1"
      using pages(1) assms(2,4) by (auto simp: available_and_evictable_plain)
    moreover have "1 < co_alloc_page_size ops c1" using False c1(5) page_pos[OF assms(1)] by simp
    ultimately obtain out c2 where "co_alloc_extend ops prefix_lens seq_lens last_loc ?n c1 = Inr (Some out, c2)"
      "length out = ?n" "distinct out"
      using extend_law[OF c1(2), of prefix_lens seq_lens last_loc] assms(2,3) c1(5) by auto
    then show ?thesis
      using False page_size_eq[OF assms(1)] c1(1)
      by (simp add: alloc_paged_token_slots_extend_def or_out_of_memory_def Let_def)
  qed
qed

end

end
