(* ===== verification/BatchPrep.thy ===== *)
theory BatchPrep
  imports SchedBatch
begin

text \<open>
  How a batch is created, prepared for a forward pass and merged into the running batch:
  \<^verbatim>\<open>init_new\<close>, \<^verbatim>\<open>prepare_for_extend\<close>, \<^verbatim>\<open>prepare_for_decode\<close>, \<^verbatim>\<open>mix_with_running\<close> and \<^verbatim>\<open>merge_batch\<close>
  of \<^verbatim>\<open>ScheduleBatch\<close>, and \<^verbatim>\<open>init_next_round_input\<close> of \<^verbatim>\<open>Req\<close>, for the fields that the
  scheduler and the caches use. Speculative decoding prepares its decode batches elsewhere.
\<close>

section \<open>The input of the next round\<close>

text \<open>
  Without a cache (the chunked request) the prefix of the last round is kept. \<open>force_miss\<close> is
  \<^verbatim>\<open>SGLANG_RADIX_FORCE_MISS\<close>.
\<close>

definition max_prefix_len :: "req \<Rightarrow> int" where
  "max_prefix_len r =
     (let n = int (length (fill_ids r)) - 1;
          n = (if return_logprob r \<and> 0 \<le> logprob_start_len r then min n (logprob_start_len r) else n)
      in max n 0)"

definition init_next_round_input ::
  "bool \<Rightarrow> 'c cache_ops option \<Rightarrow> req \<Rightarrow> 'c \<Rightarrow> (req \<times> 'c) result" where
  "init_next_round_input force_miss tree_cache r c =
     (let r = r\<lparr>fill_ids := origin_input_ids r @ output_ids r\<rparr>;
          r = (if in_streaming_session r \<and> return_logprob r \<and> 0 \<le> logprob_start_len r
               then r\<lparr>logprob_start_len := - 1\<rparr> else r);
          ids = (if has_embed_overrides r then [] else take (nat (max_prefix_len r)) (fill_ids r))
      in bindR (case tree_cache of
                  None \<Rightarrow> Inr (r, c)
                | Some ops \<Rightarrow>
                    bindR (co_match_prefix ops \<lparr>token_ids = ids, extra_key = rq_extra_key r, is_bigram = False\<rparr> c)
                     (\<lambda>(m, c).
                     let m = (if force_miss then zero_match_result ops c m else m)
                     in Inr (r\<lparr>prefix_indices := cm_device_indices m, last_node := cm_last_device_node m,
                              rq_last_host_node := cm_last_host_node m, rq_best_match_node := cm_best_match_node m,
                              rq_host_hit_length := cm_host_hit_length m,
                              cache_protected_len := (case cm_cache_protected_len m of
                                 Some n \<Rightarrow> n | None \<Rightarrow> length (cm_device_indices m))\<rparr>, c)))
          (\<lambda>(r, c). Inr (set_extend_input_len (int (length (fill_ids r)) - int (length (prefix_indices r))) r, c)))"

section \<open>A new batch\<close>

definition init_new :: "bool \<Rightarrow> req list \<Rightarrow> sched_batch" where
  "init_new has_spec reqs =
     \<lparr>b_reqs = reqs, b_prefix_lens = [], b_extend_lens = [], b_extend_num_tokens = 0, b_seq_lens = [],
      b_req_pool_indices = [], b_encoder_lens = None, b_orig_seq_lens = [], b_seq_lens_sum = 0,
      b_out_cache_loc = None, b_output_ids = None, b_return_logprob = (\<exists>r \<in> set reqs. return_logprob r),
      b_has_grammar = (\<exists>r \<in> set reqs. grammar_terminated r \<noteq> None),
      b_is_prefill_only = (\<forall>r \<in> set reqs. is_prefill_only has_spec r), b_input_ids = []\<rparr>"

text \<open>The token ids of the input log probabilities of a request, shifted by one and padded with 0.\<close>

definition extend_logprob_token_ids :: "req \<Rightarrow> int list" where
  "extend_logprob_token_ids r =
     (let start = (if logprob_start_len r = - 1 then int (length (origin_input_ids r)) else logprob_start_len r);
          global_start_idx = nat (max (int (length (prefix_indices r))) start);
          global_end_idx = length (fill_ids r);
          ids = pyslice (origin_input_ids r) (global_start_idx + 1) (global_end_idx + 1)
      in ids @ replicate (nat (extend_input_len r - extend_logprob_start_len r - int (length ids))) 0)"

definition clamp_ids :: "int \<Rightarrow> int list \<Rightarrow> int list" where
  "clamp_ids vocab = map (\<lambda>t. min (max t 0) (vocab - 1))"

text \<open>What the loop over the requests stores in a request.\<close>

definition extend_req :: "req \<Rightarrow> nat \<Rightarrow> int \<Rightarrow> int \<Rightarrow> req result" where
  "extend_req r idx seq_len pre_len =
     assertR (seq_len - pre_len = extend_input_len r)
       (Inr (r\<lparr>req_pool_idx := Some idx, kv_committed_len := nat seq_len, kv_allocated_len := nat seq_len,
               is_retracted := False\<rparr>))"

text \<open>The second result are the token ids of the input log probabilities.\<close>

definition prepare_for_extend ::
  "'c cache_ops \<Rightarrow> bool \<Rightarrow> gpu \<Rightarrow> int \<Rightarrow> req_to_token_pool \<Rightarrow> sched_batch \<Rightarrow> 'c \<Rightarrow>
   (sched_batch \<times> int list option \<times> req_to_token_pool \<times> 'c) result" where
  "prepare_for_extend ops triton g vocab p b c =
     (let b = set_extend_lens b
      in bindR (alloc_for_extend ops triton g p b c) (\<lambda>(out_cache_loc, idxs, p, b, c).
         bindR (mapR (\<lambda>(r, i, s, l). extend_req r i s l)
                  (zip (b_reqs b) (zip idxs (zip (b_seq_lens b) (b_prefix_lens b))))) (\<lambda>reqs.
           Inr (b\<lparr>b_reqs := reqs, b_input_ids := concat (map (\<lambda>r. drop (length (prefix_indices r)) (fill_ids r)) reqs),
                  b_req_pool_indices := idxs, b_out_cache_loc := Some out_cache_loc,
                  b_seq_lens_sum := sum_list (b_seq_lens b)\<rparr>,
                (if b_return_logprob b then Some (clamp_ids vocab (concat (map extend_logprob_token_ids reqs))) else None),
                p, c))))"

section \<open>The running batch\<close>

text \<open>Without speculative decoding and without penalties; every request gets one more slot.\<close>

definition prepare_for_decode ::
  "'c cache_ops \<Rightarrow> req_to_token_pool \<Rightarrow> sched_batch \<Rightarrow> 'c \<Rightarrow> (sched_batch \<times> req_to_token_pool \<times> 'c) result" where
  "prepare_for_decode ops p b c =
     bindR (the_attr (b_output_ids b)) (\<lambda>ids.
     bindR (alloc_for_decode ops 1 p (b\<lparr>b_input_ids := ids, b_output_ids := None\<rparr>) c) (\<lambda>(out_cache_loc, p, b, c).
       Inr (b\<lparr>b_out_cache_loc := Some out_cache_loc,
              b_reqs := map (\<lambda>r. r\<lparr>kv_committed_len := kv_committed_len r + 1,
                                   kv_allocated_len := kv_allocated_len r + 1\<rparr>) (b_reqs b),
              b_seq_lens := map (\<lambda>s. s + 1) (b_seq_lens b), b_orig_seq_lens := map (\<lambda>s. s + 1) (b_orig_seq_lens b),
              b_seq_lens_sum := b_seq_lens_sum b + int (length (b_reqs b))\<rparr>, p, c)))"

text \<open>Concatenating with a missing tensor raises a TypeError.\<close>

definition merge_batch :: "sched_batch \<Rightarrow> sched_batch \<Rightarrow> sched_batch result" where
  "merge_batch b other =
     bindR (case b_encoder_lens b of
              None \<Rightarrow> Inr None
            | Some es \<Rightarrow> (case b_encoder_lens other of None \<Rightarrow> Inl TypeError | Some fs \<Rightarrow> Inr (Some (es @ fs)))) (\<lambda>enc.
     bindR (case b_output_ids b of
              None \<Rightarrow> Inr None
            | Some os \<Rightarrow> (case b_output_ids other of None \<Rightarrow> Inl TypeError | Some qs \<Rightarrow> Inr (Some (os @ qs)))) (\<lambda>outs.
       Inr (b\<lparr>b_encoder_lens := enc, b_req_pool_indices := b_req_pool_indices b @ b_req_pool_indices other,
              b_seq_lens := b_seq_lens b @ b_seq_lens other,
              b_orig_seq_lens := b_orig_seq_lens b @ b_orig_seq_lens other, b_out_cache_loc := None,
              b_seq_lens_sum := b_seq_lens_sum b + b_seq_lens_sum other, b_output_ids := outs,
              b_reqs := b_reqs b @ b_reqs other, b_return_logprob := (b_return_logprob b \<or> b_return_logprob other),
              b_has_grammar := (b_has_grammar b \<or> b_has_grammar other),
              b_is_prefill_only := (b_is_prefill_only b \<and> b_is_prefill_only other)\<rparr>)))"

text \<open>A running batch joins a prefill batch; its requests are chunks of one token.\<close>

definition mix_with_running :: "bool \<Rightarrow> sched_batch \<Rightarrow> sched_batch \<Rightarrow> sched_batch result" where
  "mix_with_running enable_overlap b running =
     (let reqs = map (\<lambda>r. set_extend_input_len 1 (r\<lparr>fill_ids := origin_input_ids r @ output_ids r\<rparr>)) (b_reqs running);
          running = running\<lparr>b_reqs := reqs\<rparr>;
          delta = (if enable_overlap then 0 else - 1)
      in bindR (the_attr (b_out_cache_loc b)) (\<lambda>out1.
         bindR (the_attr (b_out_cache_loc running)) (\<lambda>out2.
         bindR (merge_batch b running) (\<lambda>b'.
           Inr (b'\<lparr>b_input_ids := b_input_ids b @ b_input_ids running, b_out_cache_loc := Some (out1 @ out2),
                   b_prefix_lens := b_prefix_lens b @ map (\<lambda>r. int (length (origin_input_ids r)) + int (length (output_ids r)) + delta) reqs,
                   b_extend_lens := b_extend_lens b @ replicate (length reqs) 1,
                   b_extend_num_tokens := b_extend_num_tokens b + length reqs, b_is_prefill_only := False\<rparr>)))))"

end
