(* ===== verification/PrefillScan.thy ===== *)
theory PrefillScan
  imports PrefillAdder BatchPrep
begin

text \<open>
  The loop of \<^verbatim>\<open>Scheduler._get_new_batch_prefill_raw\<close> (\<^verbatim>\<open>managers/scheduler.py\<close>) that takes
  requests from the waiting queue into a prefill batch, without LoRA adapters and without the
  storage tier. The running batch is the one the adder refers to; \<open>full\<close> is its flag
  \<^verbatim>\<open>batch_is_full\<close>.
\<close>

section \<open>Configuration\<close>

text \<open>
  \<open>in_session\<close> says which requests belong to a session, \<open>sched_clock\<close> are the readings of
  \<^verbatim>\<open>time.perf_counter\<close>, in the units of \<open>HYBRID_BBF_STARVATION\<close>.
\<close>

record prefill_env =
  pf_adder :: adder_env
  pf_force_miss :: bool
  pp_max_micro_batch_size :: int
  pf_disagg_prefill :: bool
  enable_priority_preemption :: bool
  enable_hierarchical_cache :: bool
  truncation_align_size :: "int option"
  in_session :: "req \<Rightarrow> bool"
  sched_clock :: "nat \<Rightarrow> int"
  HYBRID_BBF_STARVATION :: int

definition get_num_allocatable_reqs :: "prefill_env \<Rightarrow> req_to_token_pool \<Rightarrow> nat \<Rightarrow> int" where
  "get_num_allocatable_reqs E p running_bs =
     min (pp_max_micro_batch_size E - int running_bs) (int (rp_available_size p))"

section \<open>Scanning the queue\<close>

text \<open>Whether the scan has to stop before request \<open>r\<close>; a full batch may be preempted for it.\<close>

definition hard_stop_or_full ::
  "prefill_env \<Rightarrow> 'c cache_ops \<Rightarrow> req \<Rightarrow> bool \<Rightarrow> adder \<Rightarrow> req_to_token_pool \<Rightarrow> 'c \<Rightarrow>
   (bool \<times> bool \<times> adder \<times> req_to_token_pool \<times> 'c) result" where
  "hard_stop_or_full E ops r full ad p c =
     bindR (the_attr (ad_running_batch ad)) (\<lambda>b.
     let n = int (length (can_run_list ad));
         full = (full \<or> n \<ge> get_num_allocatable_reqs E p (length (b_reqs b)) \<or>
                 pf_disagg_prefill E \<and> n \<ge> int (rp_available_size p))
     in if \<not> full then Inr (False, full, ad, p, c)
        else if \<not> enable_priority_preemption E then Inr (True, full, ad, p, c)
        else bindR (preempt_to_schedule (pf_adder E) ops r ad p c) (\<lambda>(ok, ad, p, c). Inr (\<not> ok, full, ad, p, c)))"

definition req_added :: "req \<Rightarrow> adder \<Rightarrow> bool" where
  "req_added r ad \<longleftrightarrow> can_run_list ad \<noteq> [] \<and> rid (last (can_run_list ad)) = rid r"

text \<open>A Mamba state that the match has reserved is released when the request is not added.\<close>

definition free_unadded_mamba_idx ::
  "prefill_env \<Rightarrow> 'c cache_ops \<Rightarrow> req \<Rightarrow> adder \<Rightarrow> 'c \<Rightarrow> (req \<times> 'c) result" where
  "free_unadded_mamba_idx E ops r ad c =
     (case mamba_pool_idx r of
        None \<Rightarrow> Inr (r, c)
      | Some i \<Rightarrow>
          if \<not> req_added r ad \<and> \<not> in_session E r
          then bindR (co_mamba_free ops i c) (\<lambda>c. Inr (r\<lparr>mamba_pool_idx := None\<rparr>, c)) else Inr (r, c))"

definition running_empty :: "adder \<Rightarrow> bool" where
  "running_empty ad \<longleftrightarrow> (case ad_running_batch ad of None \<Rightarrow> True | Some b \<Rightarrow> b_reqs b = [])"

text \<open>The queue with the requests that the loop has changed, and whether the loop was left early.\<close>

fun scan_queue ::
  "prefill_env \<Rightarrow> 'c cache_ops \<Rightarrow> req list \<Rightarrow> bool \<Rightarrow> adder \<Rightarrow> req_to_token_pool \<Rightarrow> 'c \<Rightarrow>
   (req list \<times> bool \<times> bool \<times> adder \<times> req_to_token_pool \<times> 'c) result" where
  "scan_queue E ops [] full ad p c = Inr ([], False, full, ad, p, c)"
| "scan_queue E ops (r # rs) full ad p c =
     bindR (hard_stop_or_full E ops r full ad p c) (\<lambda>(stop, full, ad, p, c).
     if stop then Inr (r # rs, True, full, ad, p, c)
     else
       bindR (init_next_round_input (pf_force_miss E) (Some ops) r c) (\<lambda>(r, c).
       bindR (add_one_req (pf_adder E) ops r (truncation_align_size E) ad c) (\<lambda>((res, r, ad), c).
       if res = CONTINUE
       then bindR (scan_queue E ops rs full ad p c) (\<lambda>(rs, rest). Inr (r # rs, rest))
       else
         let full = (if res = NO_TOKEN
                     then (if enable_hierarchical_cache E then can_run_list ad \<noteq> [] \<or> \<not> running_empty ad else True)
                     else full)
         in bindR (free_unadded_mamba_idx E ops r ad c) (\<lambda>(r, c). Inr (r # rs, True, full, ad, p, c)))))"

end
