(* ===== verification/AdderProps.thy ===== *)
theory AdderProps
  imports CacheSpec PrefillScan
begin

text \<open>
  The budget of \<^verbatim>\<open>PrefillAdder\<close> is sound: whatever requests it admits, their pages are
  available or can be evicted. The proof is done once, for every prefix cache.
\<close>

section \<open>The invariant of the adder\<close>

text \<open>The tokens that the budget charges for the admitted requests: whole pages and one more.\<close>

definition batch_need :: "int \<Rightarrow> req list \<Rightarrow> int" where
  "batch_need ps rs = sum_list (map (\<lambda>r. ceil_to ps (extend_input_len r) + ps) rs)"

text \<open>
  A new request whose prefix is a sequence of whole pages on the device and whose input has at
  most \<open>M\<close> tokens.
\<close>

definition paged_req :: "nat \<Rightarrow> int \<Rightarrow> req \<Rightarrow> bool" where
  "paged_req M ps r \<longleftrightarrow> 0 \<le> extend_input_len r \<and> 0 \<le> max_new_tokens r \<and>
     int (length (prefix_indices r)) mod ps = 0 \<and> (last_slot (prefix_indices r) + 1) mod ps = 0 \<and>
     rq_host_hit_length r = 0 \<and> req_pool_idx r = None \<and>
     int (length (fill_ids r)) = int (length (prefix_indices r)) + extend_input_len r \<and> length (fill_ids r) \<le> M"

definition adder_sound :: "nat \<Rightarrow> 'c cache_ops \<Rightarrow> adder \<Rightarrow> 'c \<Rightarrow> bool" where
  "adder_sound M ops ad c \<longleftrightarrow>
     (let ps = int (co_alloc_page_size ops c); need = batch_need ps (can_run_list ad)
      in ad_page_size ad = ps \<and> prefill_delayer_single_pass ad = None \<and> ad_dllm ad = None \<and>
         of_int need \<le> num_val (rem_total_token_offset ad) \<and>
         (can_run_list ad \<noteq> [] \<longrightarrow> need - ps \<le> available_and_evictable ops c) \<and>
         (\<forall>r \<in> set (can_run_list ad). paged_req M ps r))"

text \<open>Sizes that a double holds exactly; a sum of floats that are not negative is not negative.\<close>

definition sane_env :: "adder_env \<Rightarrow> bool" where
  "sane_env E \<longleftrightarrow> rounding (ae_float E) \<and> 0 \<le> CLIP_MAX_NEW_TOKENS E \<and> CLIP_MAX_NEW_TOKENS E \<le> 2 ^ 50 \<and>
     (\<forall>xs. (\<forall>x \<in> set xs. 0 \<le> x) \<longrightarrow> 0 \<le> fsum (ae_float E) xs)"

lemma batch_need_append: "batch_need ps (xs @ ys) = batch_need ps xs + batch_need ps ys"
  by (simp add: batch_need_def)

lemma batch_need_nonneg: "0 < ps \<Longrightarrow> \<forall>r \<in> set rs. 0 \<le> extend_input_len r \<Longrightarrow> 0 \<le> batch_need ps rs"
  unfolding batch_need_def
proof (rule sum_list_nonneg)
  fix x assume "0 < ps" "\<forall>r \<in> set rs. 0 \<le> extend_input_len r"
    "x \<in> set (map (\<lambda>r. ceil_to ps (extend_input_len r) + ps) rs)"
  then obtain r :: req where "x = ceil_to ps (extend_input_len r) + ps" "0 \<le> extend_input_len r" "0 < ps"
    unfolding set_map by blast
  then show "0 \<le> x" using ceil_to_bounds(1)[of ps "extend_input_len r"] by linarith
qed

lemma int_div_mult_le: "0 < d \<Longrightarrow> n div d * d \<le> (n :: int)"
  by (simp add: minus_mod_eq_div_mult[symmetric])

lemma update_prefill_budget_fields:
  "can_run_list (update_prefill_budget E ops pl e m ad) = can_run_list ad"
  "ad_page_size (update_prefill_budget E ops pl e m ad) = ad_page_size ad"
  "prefill_delayer_single_pass (update_prefill_budget E ops pl e m ad) = prefill_delayer_single_pass ad"
  "ad_dllm ad = None \<Longrightarrow> ad_dllm (update_prefill_budget E ops pl e m ad) = None"
  "rem_total_token_offset (update_prefill_budget E ops pl e m ad) =
     num_add (ae_float E) (rem_total_token_offset ad) (PyInt (ceil_to (ad_page_size ad) e + m + ad_page_size ad))"
  by (simp_all add: update_prefill_budget_def Let_def ceil_paged_tokens_ceil split: option.splits)

text \<open>A comparison with the remaining tokens bounds the tokens themselves, despite rounding.\<close>

lemma budget_gt:
  assumes "rounding F" "0 \<le> n" "n \<le> 2 ^ 50" "0 \<le> S" "of_int S \<le> num_val off" "- 1 \<le> t"
    "of_int t < num_val (num_sub F (PyInt n) off)"
  shows "S + t < n"
proof -
  have "num_val (num_sub F (PyInt n) off) \<le> of_int n"
  proof (cases off)
    case (PyFlt x)
    have "of_int n - x \<le> of_int n" using assms(4,5) PyFlt by (simp add: order_trans[of 0 "of_int S"])
    from rounding_le[OF assms(1) this] show ?thesis
      using assms(2,3) PyFlt num_flt_exact[OF assms(1), of n] by simp
  qed (use assms(4,5) in simp)
  then have "of_int t < (of_int n :: rat)" using assms(7) by simp
  then have "t < n" by simp
  from num_sub_gt[OF assms(1,7)] have "of_int t < of_int n - num_val off"
    using \<open>t < n\<close> assms(2,3,6) by simp
  then have "of_int (S + t) < (of_int n :: rat)" using assms(5) by simp
  then show ?thesis by (simp only: of_int_less_iff)
qed

lemma budget_ge:
  assumes "rounding F" "0 \<le> n" "n \<le> 2 ^ 50" "0 \<le> S" "of_int S \<le> num_val off" "0 \<le> t"
    "of_int t \<le> num_val (num_sub F (PyInt n) off)"
  shows "S + t \<le> n"
  using budget_gt[OF assms(1-5), of "t - 1"] assms(6,7) by simp

text \<open>Charging a request that fits keeps the invariant.\<close>

lemma charge_sound:
  assumes E: "sane_env E" and ad: "adder_sound M ops ad c"
    and fits: "batch_need (ad_page_size ad) (can_run_list ad) + ceil_to (ad_page_size ad) (extend_input_len r)
      \<le> available_and_evictable ops c'"
    and page: "co_alloc_page_size ops c' = co_alloc_page_size ops c" "0 < ad_page_size ad" "ad_page_size ad \<le> 2 ^ 50"
    and small: "available_and_evictable ops c' \<le> 2 ^ 50" "0 \<le> m" "m \<le> 2 ^ 50"
    and r: "paged_req M (ad_page_size ad) r" and e: "ceil_to (ad_page_size ad) e = ceil_to (ad_page_size ad) (extend_input_len r)"
    and ad': "can_run_list ad' = can_run_list ad @ [r]" "ad_page_size ad' = ad_page_size ad"
      "prefill_delayer_single_pass ad' = None" "ad_dllm ad' = None"
      "rem_total_token_offset ad' = rem_total_token_offset ad"
  shows "adder_sound M ops (update_prefill_budget E ops pl e m ad') c'"
proof -
  let ?ps = "ad_page_size ad" and ?S = "batch_need (ad_page_size ad) (can_run_list ad)"
  let ?k = "ceil_to ?ps (extend_input_len r)"
  note a = ad[unfolded adder_sound_def Let_def]
  have ext: "0 \<le> extend_input_len r" "\<forall>r \<in> set (can_run_list ad). 0 \<le> extend_input_len r"
    using r a by (auto simp: paged_req_def)
  have S: "0 \<le> ?S" using batch_need_nonneg[OF page(2) ext(2)] .
  have k: "0 \<le> ?k" using ceil_to_bounds(1)[OF page(2), of "extend_input_len r"] ext(1) by linarith
  have "of_int (?S + (?k + m + ?ps)) \<le> num_val (num_add (ae_float E) (rem_total_token_offset ad) (PyInt (?k + m + ?ps)))"
    by (rule num_add_ge) (use E a S k small page fits in \<open>auto simp: sane_env_def\<close>)
  then have "of_int (?S + ?k + ?ps) \<le> num_val (num_add (ae_float E) (rem_total_token_offset ad) (PyInt (?k + m + ?ps)))"
    using small(2) by simp
  moreover have "batch_need ?ps (can_run_list ad @ [r]) = ?S + ?k + ?ps"
    by (simp add: batch_need_def)
  ultimately show ?thesis
    using a fits page r ad' e unfolding adder_sound_def Let_def update_prefill_budget_fields
    by (auto simp: update_prefill_budget_fields)
qed

text \<open>A chunk is shorter than the input it is cut from.\<close>

lemma chunk_len_bound:
  assumes "chunk_len ad n align pre = Some t" "n < ceil_to (ad_page_size ad) ext" "0 < ad_page_size ad"
    "\<forall>a. align = Some a \<longrightarrow> 0 < a"
  shows "0 < t" "t < ext"
proof -
  let ?ps = "ad_page_size ad" and ?q = "n div ad_page_size ad * ad_page_size ad"
  obtain u where u: "t = (u + pre) div ?ps * ?ps - pre" "0 < t" "u \<le> ?q" "0 < ?q"
  proof (cases align)
    case None
    then show ?thesis using assms(1) that[of ?q] by (auto simp: chunk_len_def Let_def split: if_splits)
  next
    case (Some a)
    have "a * (?q div a) \<le> ?q" using int_div_mult_le[of a ?q] assms(4) Some by (simp add: mult.commute)
    then show ?thesis
      using assms(1) that[of "a * (?q div a)"] Some by (auto simp: chunk_len_def Let_def split: if_splits)
  qed
  have "(u + pre) div ?ps * ?ps \<le> u + pre" using assms(3) by (simp add: int_div_mult_le)
  then have "t \<le> ?q" using u by linarith
  moreover have "?q + ?ps \<le> ceil_to ?ps ext"
  proof -
    have "n div ?ps < - ((- ext) div ?ps)"
    proof -
      have "n div ?ps * ?ps \<le> n" using assms(3) by (simp add: int_div_mult_le)
      then have "n div ?ps * ?ps < - ((- ext) div ?ps) * ?ps" using assms(2) by (simp add: ceil_to_def)
      then show ?thesis using mult_right_less_imp_less[of "n div ?ps" ?ps "- ((- ext) div ?ps)"] assms(3) by simp
    qed
    then have "n div ?ps + 1 \<le> - ((- ext) div ?ps)" by simp
    then have "(n div ?ps + 1) * ?ps \<le> - ((- ext) div ?ps) * ?ps"
      using assms(3) by (intro mult_right_mono) simp_all
    then show ?thesis by (simp add: ceil_to_def distrib_right)
  qed
  ultimately show "0 < t" "t < ext" using u(2) ceil_to_bounds(2)[OF assms(3), of ext] by linarith+
qed

section \<open>What adding a request leaves alone\<close>

text \<open>The adder changes at most its last admitted request, which is then the request itself.\<close>

definition framed :: "req \<Rightarrow> adder \<Rightarrow> req \<Rightarrow> adder \<Rightarrow> bool" where
  "framed r ad r' ad' \<longleftrightarrow> rid r' = rid r \<and> mamba_pool_idx r' = mamba_pool_idx r \<and>
     ad_running_batch ad' = ad_running_batch ad \<and> preempt_list ad' = preempt_list ad \<and>
     (can_run_list ad' = can_run_list ad \<or> can_run_list ad' = can_run_list ad @ [r']) \<and>
     (new_chunked_req ad' = new_chunked_req ad \<or> new_chunked_req ad' = Some r' \<and> can_run_list ad' = can_run_list ad @ [r'])"

lemma framed_refl: "framed r ad r ad"
  by (simp add: framed_def)

lemma budget_framed [simp]:
  "can_run_list (update_prefill_budget E ops pl e m ad) = can_run_list ad"
  "ad_running_batch (update_prefill_budget E ops pl e m ad) = ad_running_batch ad"
  "preempt_list (update_prefill_budget E ops pl e m ad) = preempt_list ad"
  "new_chunked_req (update_prefill_budget E ops pl e m ad) = new_chunked_req ad"
  by (simp_all add: update_prefill_budget_def Let_def split: option.splits)

lemma run_framed [simp]:
  "can_run_list (run_req r ad) = can_run_list ad @ [r]"
  "ad_running_batch (run_req r ad) = ad_running_batch ad" "preempt_list (run_req r ad) = preempt_list ad"
  "new_chunked_req (run_req r ad) = new_chunked_req ad"
  by (simp_all add: run_req_def)

lemma set_extend_framed [simp]:
  "rid (set_extend_input_len n r) = rid r" "mamba_pool_idx (set_extend_input_len n r) = mamba_pool_idx r"
  by (simp_all add: set_extend_input_len_def Let_def)

lemma ask_delayer_framed:
  assumes "ask_delayer E pass ad = Inr (allow, ad')"
  shows "can_run_list ad' = can_run_list ad \<and> ad_running_batch ad' = ad_running_batch ad \<and>
    preempt_list ad' = preempt_list ad \<and> new_chunked_req ad' = new_chunked_req ad"
  using assms by (auto simp: ask_delayer_def bindR_eq_Inr split: option.splits prod.splits)

lemma run_ignore_eos_framed:
  "case run_ignore_eos E ops r ad c of (res, r', ad') \<Rightarrow>
     framed r ad r' ad' \<and> (res = CONTINUE \<longrightarrow> can_run_list ad' = can_run_list ad @ [r'])"
  by (auto simp: run_ignore_eos_def Let_def framed_def add_dllm_req_def split: option.splits)

lemma add_one_req_ignore_eos_framed:
  assumes "add_one_req_ignore_eos E ops r ad c = Inr (res, r', ad')"
  shows "framed r ad r' ad' \<and> (res = CONTINUE \<longrightarrow> can_run_list ad' = can_run_list ad @ [r'])"
proof -
  let ?ad = "ad\<lparr>req_states := Some (add_states E ad r)\<rparr>"
  have "res \<noteq> CONTINUE \<and> r' = r \<and> (ad' = ad \<or> ad' = ?ad) \<or>
      (\<exists>pass allow ad1. ask_delayer E pass ?ad = Inr (allow, ad1) \<and>
        (if allow then run_ignore_eos E ops r ad1 c else (OTHER, r, ad1)) = (res, r', ad'))"
    using assms unfolding add_one_req_ignore_eos_def Let_def
    by (simp only: split: if_split_asm)
      ((auto; fail) | (rule disjI2, simp only: bindR_eq_Inr split_paired_Ex prod.case sum.inject, blast))+
  then show ?thesis
  proof (elim disjE exE conjE)
    fix pass allow ad1
    assume ask: "ask_delayer E pass ?ad = Inr (allow, ad1)"
      and eq: "(if allow then run_ignore_eos E ops r ad1 c else (OTHER, r, ad1)) = (res, r', ad')"
    note f = ask_delayer_framed[OF ask]
    show ?thesis
    proof (cases allow)
      case True
      then have "run_ignore_eos E ops r ad1 c = (res, r', ad')" using eq by simp
      with run_ignore_eos_framed[where E = E and ops = ops and r = r and ad = ad1 and c = c] f show ?thesis by (simp add: framed_def)
    qed (use eq f in \<open>simp add: framed_def\<close>)
  qed (auto simp: framed_def)
qed

lemma load_back_framed:
  assumes "load_back ops r c = Inr (r', c')"
  shows "rid r' = rid r" "mamba_pool_idx r' = mamba_pool_idx r"
  using assms by (auto simp: load_back_def Let_def bindR_eq_Inr split: if_splits)

lemma admit_framed:
  assumes "admit E ops r align ad c = Inr ((res, r', ad'), c')"
  shows "framed r ad r' ad'" "res \<noteq> Some CONTINUE" "res = None \<Longrightarrow> can_run_list ad' = can_run_list ad @ [r']"
  using assms
  by (auto simp: admit_def Let_def framed_def bindR_eq_Inr req_inc_lock_ref_def add_dllm_req_def
      split: if_split_asm option.splits)

lemma lock_node_result:
  assumes "lock_node ops n body c = Inr (x, c')"
  obtains c1 c2 where "body c1 = Inr (x, c2)"
  using assms by (auto simp: lock_node_def bindR_eq_Inr split: prod.splits)

lemma add_one_req_framed:
  assumes "add_one_req E ops r align ad c = Inr ((res, r', ad'), c')"
  shows "framed r ad r' ad'" "res = CONTINUE \<Longrightarrow> can_run_list ad' = can_run_list ad @ [r']"
proof -
  let ?ask = "case prefill_delayer_single_pass ad of
              None \<Rightarrow> Inr (True, ad)
            | Some _ \<Rightarrow>
                bindR (the_attr (ad_running_batch ad)) (\<lambda>b.
                ask_delayer E ((ae_pass E)\<lparr>local_prefillable := True, pi_running_batch := int (length (b_reqs b)),
                    pi_max_prefill_bs := ad_max_prefill_bs ad,
                    pi_max_running_requests := ad_max_running_requests ad,
                    pi_waiting_queue_len := ad_waiting_queue_len ad\<rparr>) ad)"
  obtain x where "?ask = Inr x" using assms unfolding add_one_req_def bindR_eq_Inr by blast
  then obtain allow ad1 where d: "?ask = Inr (allow, ad1)" by (cases x) blast
  have ad1: "can_run_list ad1 = can_run_list ad" "ad_running_batch ad1 = ad_running_batch ad"
      "preempt_list ad1 = preempt_list ad" "new_chunked_req ad1 = new_chunked_req ad"
    using d by (auto simp: bindR_eq_Inr dest!: ask_delayer_framed split: option.splits)
  note run = assms[unfolded add_one_req_def d bindR_simps prod.case]
  let ?no = "\<lambda>c. num_le (rem_total_tokens E ops ad1 c) (PyInt (extend_input_len r + clip_new E (max (max_new_tokens r - int (length (output_ids r))) 0) + ad_page_size ad1)) \<or>
     co_is_swa ops \<and> swa_budget_for_req ops ad1 (extend_input_len r) \<ge> rem_swa_tokens ops ad1 c"
  let ?body = "\<lambda>c. if ?no c then Inr ((Some NO_TOKEN, r, ad1), c) else bindR (load_back ops r c) (\<lambda>(r, c). admit E ops r align ad1 c)"
  consider "r' = r \<and> ad' = ad1 \<and> res \<noteq> CONTINUE"
    | "add_one_req_ignore_eos E ops r ad1 c = Inr (res, r', ad')"
    | x c1 where "lock_node ops (last_node r) ?body c = Inr ((x, r', ad'), c1)" "res = CONTINUE \<longrightarrow> x \<noteq> Some NO_TOKEN \<longrightarrow> x = Some CONTINUE \<or> x = None"
        "x = Some res \<or> x = None"
    using run by (auto simp: Let_def bindR_eq_Inr split: if_splits option.splits)
  then have "framed r ad1 r' ad' \<and> (res = CONTINUE \<longrightarrow> can_run_list ad' = can_run_list ad1 @ [r'])"
  proof cases
    case 1
    then show ?thesis by (simp add: framed_refl)
  next
    case 2
    then show ?thesis by (rule add_one_req_ignore_eos_framed)
  next
    case (3 x c1)
    obtain c2 c3 where b: "?body c2 = Inr ((x, r', ad'), c3)" using lock_node_result[OF 3(1)] by blast
    show ?thesis
    proof (cases "?no c2")
      case True
      then have "x = Some NO_TOKEN" "r' = r" "ad' = ad1" using b by auto
      then show ?thesis using 3(3) by (auto simp: framed_refl)
    next
      case False
      then obtain r1 c4 where "load_back ops r c2 = Inr (r1, c4)" "admit E ops r1 align ad1 c4 = Inr ((x, r', ad'), c3)"
        using b by (auto simp: bindR_eq_Inr)
      then show ?thesis
        using admit_framed[of E ops r1 align ad1 c4 x r' ad' c3] load_back_framed[of ops r c2 r1 c4] 3(3)
        by (auto simp: framed_def)
    qed
  qed
  then show "framed r ad r' ad'" "res = CONTINUE \<Longrightarrow> can_run_list ad' = can_run_list ad @ [r']"
    using ad1 by (auto simp: framed_def)
qed

lemma paged_req_set_extend:
  assumes "paged_req M ps r" "0 \<le> n" "n \<le> extend_input_len r"
  shows "paged_req M ps ((set_extend_input_len n r)\<lparr>fill_ids :=
      py_upto (fill_ids (set_extend_input_len n r)) (int (length (prefix_indices r)) + n)\<rparr>)"
    "extend_input_len (set_extend_input_len n r) = n" "last_node (set_extend_input_len n r) = last_node r"
proof -
  have "nat (int (length (prefix_indices r)) + n) \<le> length (fill_ids r)" "length (fill_ids r) \<le> M"
    using assms by (auto simp: paged_req_def)
  then show "paged_req M ps ((set_extend_input_len n r)\<lparr>fill_ids :=
      py_upto (fill_ids (set_extend_input_len n r)) (int (length (prefix_indices r)) + n)\<rparr>)"
    using assms by (simp add: paged_req_def set_extend_input_len_def Let_def py_upto_def min_absorb2)
qed (simp_all add: set_extend_input_len_def Let_def)

lemma clip_new_bounds:
  assumes "sane_env E" "0 \<le> n"
  shows "0 \<le> clip_new E n" "clip_new E n \<le> 2 ^ 50"
  using assms by (auto simp: clip_new_def sane_env_def)

text \<open>A request of the waiting queue whose input fits a row of \<open>M\<close> slots.\<close>

definition new_req_ok :: "nat \<Rightarrow> req \<Rightarrow> bool" where
  "new_req_ok M r \<longleftrightarrow> length (origin_input_ids r) + length (output_ids r) \<le> M \<and> 0 \<le> max_new_tokens r \<and>
     req_pool_idx r = None \<and> mamba_pool_idx r = None"

context prefix_cache
begin

lemma same_budget:
  assumes "inv c L" "inv c' L'" "same c c'" "set_mset L = set_mset L'"
  shows "available_and_evictable ops c' = available_and_evictable ops c"
  using locked_alike[OF assms] same_keeps(1)[OF assms(3)] by (simp add: available_and_evictable_plain)

lemma sound_alike:
  assumes "adder_sound M ops ad c" "same c c'" "available_and_evictable ops c' = available_and_evictable ops c"
  shows "adder_sound M ops ad c'"
  using assms same_keeps(2)[OF assms(2)] by (simp add: adder_sound_def)

text \<open>The body of the temporary lock leaves the cache as it is.\<close>

lemma lock_node_refused:
  assumes "co_inc_lock_ref ops n c = Inr (l, c1)" "inv c1 (add_mset n L)" "same c c1" "body c1 = Inr (x, c1)"
  shows "\<exists>c'. lock_node ops n body c = Inr (x, c') \<and> inv c' L \<and> same c c'"
proof -
  obtain c2 where "co_dec_lock_ref ops n (if co_is_tree_cache ops then Some (to_dec_params l) else None) c1 = Inr c2"
    "inv c2 L" "same c1 c2"
    using unlock_law[OF assms(2), of n] by fastforce
  then show ?thesis using assms same_trans[OF assms(3)] by (auto simp: lock_node_def)
qed

text \<open>The body takes the lock of the admitted request.\<close>

lemma lock_node_admitted:
  assumes "co_inc_lock_ref ops n c = Inr (l, c1)" "inv c1 (add_mset n L)" "same c c1" "at_node c n"
    "body c1 = bindR (co_inc_lock_ref ops n c1) (\<lambda>(_, c). Inr (x, c))"
  shows "\<exists>c'. lock_node ops n body c = Inr (x, c') \<and> inv c' (add_mset n L) \<and> same c c' \<and> same c1 c' \<and>
    available_and_evictable ops c' = available_and_evictable ops c1"
proof -
  have "at_node c1 n" using assms(4) same_keeps(4)[OF assms(3)] by simp
  then obtain l2 c2 where c2: "co_inc_lock_ref ops n c1 = Inr (l2, c2)" "inv c2 (add_mset n (add_mset n L))" "same c1 c2"
    using lock_law[OF assms(2)] by blast
  obtain c3 where c3: "co_dec_lock_ref ops n (if co_is_tree_cache ops then Some (to_dec_params l) else None) c2 = Inr c3"
    "inv c3 (add_mset n L)" "same c2 c3"
    using unlock_law[OF c2(2), of n] by fastforce
  have s: "same c1 c3" using same_trans[OF c2(3) c3(3)] .
  show ?thesis
    using assms(1,5) c2(1) c3(1,2) s same_trans[OF assms(3) s] same_budget[OF assms(2) c3(2) s refl]
    by (auto simp: lock_node_def)
qed

lemma budget_bounds:
  assumes "inv c L" "capacity c \<le> 2 ^ 50"
  shows "0 \<le> available_and_evictable ops c" "available_and_evictable ops c \<le> 2 ^ 50"
  using assms sizes_nonneg[OF assms(1)] within_capacity[OF assms(1)] by (auto simp: available_and_evictable_plain)

lemma sound_need:
  assumes "inv c L" "adder_sound M ops ad c"
  shows "0 \<le> batch_need (ad_page_size ad) (can_run_list ad)"
    "of_int (batch_need (ad_page_size ad) (can_run_list ad)) \<le> num_val (rem_total_token_offset ad)"
    "0 < ad_page_size ad"
proof -
  show ps: "0 < ad_page_size ad" and "of_int (batch_need (ad_page_size ad) (can_run_list ad)) \<le> num_val (rem_total_token_offset ad)"
    using assms page_pos[OF assms(1)] by (auto simp: adder_sound_def Let_def)
  have "\<forall>r \<in> set (can_run_list ad). 0 \<le> extend_input_len r"
    using assms(2) by (auto simp: adder_sound_def Let_def paged_req_def)
  from batch_need_nonneg[OF ps this] show "0 \<le> batch_need (ad_page_size ad) (can_run_list ad)" .
qed

text \<open>Requests that ignore the end of sequence.\<close>

lemma add_one_req_ignore_eos_sound:
  assumes E: "sane_env E" and c: "inv c L" "capacity c \<le> 2 ^ 50" and ad: "adder_sound M ops ad c" "ad_page_size ad \<le> 2 ^ 50"
    and r: "paged_req M (ad_page_size ad) r" "prefix_indices r = []"
  shows "\<exists>res r' ad'. add_one_req_ignore_eos E ops r ad c = Inr (res, r', ad') \<and> adder_sound M ops ad' c"
proof -
  let ?ps = "ad_page_size ad" and ?paged = "ceil_to (ad_page_size ad) (extend_input_len r)"
  note n = sound_need[OF c(1) ad(1)] and b = budget_bounds[OF c]
  have r0: "0 \<le> extend_input_len r" "0 \<le> max_new_tokens r" using r by (auto simp: paged_req_def)
  show ?thesis
  proof (cases "num_le (PyInt ?paged) (num_min (PyInt (cur_rem_tokens ops ad c)) (rem_total_tokens E ops ad c))")
    case False
    then show ?thesis using ad(1) by (simp add: add_one_req_ignore_eos_def Let_def ceil_paged_tokens_ceil)
  next
    case True
    then have "of_int ?paged \<le> num_val (rem_total_tokens E ops ad c)"
      by (auto simp: num_le_def num_min_def split: if_splits)
    then have fits: "batch_need ?ps (can_run_list ad) + ?paged \<le> available_and_evictable ops c"
      using budget_ge[OF _ b(1,2) n(1,2)] E ceil_to_bounds(1)[OF n(3), of "extend_input_len r"] r0(1)
      by (auto simp: rem_total_tokens_def sane_env_def)
    let ?ad1 = "ad\<lparr>req_states := Some (add_states E ad r)\<rparr>"
    have s1: "adder_sound M ops ?ad1 c" using ad(1) by (simp add: adder_sound_def)
    have charge: "adder_sound M ops (update_prefill_budget E ops 0 (extend_input_len r') m ad') c"
      if "paged_req M ?ps r'" "extend_input_len r' \<le> extend_input_len r" "0 \<le> m" "m \<le> 2 ^ 50"
        "ad' = run_req r' ?ad1 \<or> ad' = (run_req r' ?ad1)\<lparr>new_chunked_req := x\<rparr>" for r' m ad' x
    proof (rule charge_sound[OF E ad(1) _ refl n(3) ad(2) b(2) that(3,4,1) refl])
      show "batch_need ?ps (can_run_list ad) + ceil_to ?ps (extend_input_len r') \<le> available_and_evictable ops c"
        using fits ceil_to_mono[OF n(3) that(2)] by linarith
    qed (use that(5) ad(1) in \<open>auto simp: run_req_def adder_sound_def Let_def\<close>)
    note clip = clip_new_bounds[OF E r0(2)]
    have none: "ad_dllm ?ad1 = None" "prefill_delayer_single_pass ?ad1 = None"
      using ad(1) by (simp_all add: adder_sound_def Let_def)
    have "\<exists>res r' ad'. run_ignore_eos E ops r ?ad1 c = (res, r', ad') \<and> adder_sound M ops ad' c"
    proof (cases "rem_chunk_tokens ?ad1")
      case None
      then show ?thesis using charge[OF r(1) order.refl clip] none by (simp add: run_ignore_eos_def Let_def)
    next
      case (Some k)
      show ?thesis
      proof (cases "extend_input_len r \<le> k \<or> k \<le> 0")
        case True
        then show ?thesis using charge[OF r(1) order.refl clip] Some s1 none by (auto simp: run_ignore_eos_def Let_def)
      next
        case False
        let ?r = "(set_extend_input_len k r)\<lparr>fill_ids := py_upto (fill_ids (set_extend_input_len k r)) k\<rparr>"
        note p = paged_req_set_extend[OF r(1), of k]
        have "adder_sound M ops (update_prefill_budget E ops 0 (extend_input_len ?r) 0 ((run_req ?r ?ad1)\<lparr>new_chunked_req := Some ?r\<rparr>)) c"
          by (rule charge[OF _ _ _ _ disjI2[OF refl]]) (use p False r(2) in simp_all)
        then show ?thesis using Some False p(2) none by (simp add: run_ignore_eos_def Let_def)
      qed
    qed
    then show ?thesis
      using True s1 plain none(2)
      by (simp add: add_one_req_ignore_eos_def ask_delayer_def Let_def ceil_paged_tokens_ceil)
  qed
qed

text \<open>What happens under the temporary lock, once the budget has been checked.\<close>

lemma admit_sound:
  assumes E: "sane_env E" and c: "inv c L" "capacity c \<le> 2 ^ 50" and ad: "adder_sound M ops ad c0" "ad_page_size ad \<le> 2 ^ 50"
    and page: "co_alloc_page_size ops c = co_alloc_page_size ops c0"
    and r: "paged_req M (ad_page_size ad) r" and align: "\<forall>a. align = Some a \<longrightarrow> 0 < a"
    and fits: "batch_need (ad_page_size ad) (can_run_list ad) + extend_input_len r + ad_page_size ad \<le> available_and_evictable ops c"
  shows "admit E ops r align ad c = Inr ((Some OTHER, r, ad), c) \<or>
    (\<exists>r' ad'. admit E ops r align ad c = bindR (co_inc_lock_ref ops (last_node r) c) (\<lambda>(_, c). Inr ((None, r', ad'), c)) \<and>
       (\<forall>c3. same c c3 \<longrightarrow> available_and_evictable ops c3 = available_and_evictable ops c \<longrightarrow> adder_sound M ops ad' c3))"
proof -
  let ?ps = "ad_page_size ad" and ?paged = "ceil_to (ad_page_size ad) (extend_input_len r)"
  have ps: "0 < ?ps" and none: "ad_dllm ad = None" "prefill_delayer_single_pass ad = None"
    using ad(1) page_pos[OF c(1)] page by (auto simp: adder_sound_def Let_def)
  have r0: "0 \<le> extend_input_len r" "0 \<le> max_new_tokens r" using r by (auto simp: paged_req_def)
  note b = budget_bounds[OF c] and clip = clip_new_bounds[OF E r0(2)]
  have charge: "adder_sound M ops (update_prefill_budget E ops pl e m ad') c3"
    if "paged_req M ?ps r'" "extend_input_len r' \<le> extend_input_len r" "0 \<le> m" "m \<le> 2 ^ 50"
      "ceil_to ?ps e = ceil_to ?ps (extend_input_len r')"
      "ad' = run_req r' ad \<or> ad' = (run_req r' ad)\<lparr>new_chunked_req := x\<rparr>"
      "same c c3" "available_and_evictable ops c3 = available_and_evictable ops c" for r' pl e m ad' x c3
  proof (rule charge_sound[OF E ad(1) _ _ ps ad(2) _ that(3,4,1,5)])
    show "batch_need ?ps (can_run_list ad) + ceil_to ?ps (extend_input_len r') \<le> available_and_evictable ops c3"
      using fits ceil_to_mono[OF ps that(2)] ceil_to_bounds(2)[OF ps, of "extend_input_len r"] that(8) by linarith
    show "co_alloc_page_size ops c3 = co_alloc_page_size ops c0" using same_keeps(2)[OF that(7)] page by simp
    show "available_and_evictable ops c3 \<le> 2 ^ 50" using b(2) that(8) by simp
  qed (use that(6) none in \<open>auto simp: run_req_def\<close>)
  let ?whole = "update_prefill_budget E ops (int (length (prefix_indices r))) ?paged (clip_new E (max_new_tokens r)) (run_req r ad)"
  have whole: "\<forall>c3. same c c3 \<longrightarrow> available_and_evictable ops c3 = available_and_evictable ops c \<longrightarrow> adder_sound M ops ?whole c3"
    using charge[OF r order.refl clip ceil_to_idem[OF ps] disjI1[OF refl]] by blast
  show ?thesis
  proof (cases "?paged \<ge> rem_input_tokens ad \<and> can_run_list ad \<noteq> []")
    case True
    then show ?thesis by (simp add: admit_def Let_def ceil_paged_tokens_ceil)
  next
    case go: False
    show ?thesis
    proof (cases "\<forall>k. rem_chunk_tokens ad = Some k \<longrightarrow> ?paged \<le> k")
      case True
      then have "admit E ops r align ad c = bindR (co_inc_lock_ref ops (last_node r) c) (\<lambda>(_, c). Inr ((None, r, ?whole), c))"
        using go none by (cases "rem_chunk_tokens ad")
          (auto simp: admit_def Let_def ceil_paged_tokens_ceil req_inc_lock_ref_def bindR_def split: sum.splits)
      then show ?thesis using whole by blast
    next
      case False
      then obtain k where k: "rem_chunk_tokens ad = Some k" "k < ?paged" by force
      let ?pre = "int (length (prefix_indices r))"
      show ?thesis
      proof (cases "chunk_len ad k align ?pre")
        case None
        then show ?thesis using go none k by (auto simp: admit_def Let_def ceil_paged_tokens_ceil)
      next
        case (Some t)
        note t = chunk_len_bound[OF Some k(2) ps align]
        let ?r = "(set_extend_input_len t r)\<lparr>fill_ids := py_upto (fill_ids (set_extend_input_len t r)) (?pre + t)\<rparr>"
        let ?ad = "update_prefill_budget E ops ?pre t 0 ((run_req ?r ad)\<lparr>new_chunked_req := Some ?r\<rparr>)"
        have "admit E ops r align ad c = bindR (co_inc_lock_ref ops (last_node r) c) (\<lambda>(_, c). Inr ((None, ?r, ?ad), c))"
          using go none k Some paged_req_set_extend(3)[OF r, of t] t
          by (auto simp: admit_def Let_def ceil_paged_tokens_ceil req_inc_lock_ref_def bindR_def split: sum.splits)
        moreover have "adder_sound M ops ?ad c3"
          if "same c c3" "available_and_evictable ops c3 = available_and_evictable ops c" for c3
          by (rule charge[OF _ _ _ _ _ disjI2[OF refl] that])
            (use paged_req_set_extend[OF r, of t] t in simp_all)
        ultimately show ?thesis by blast
      qed
    qed
  qed
qed

lemma add_one_req_sound:
  assumes E: "sane_env E" and c: "inv c L" "capacity c \<le> 2 ^ 50" and ad: "adder_sound M ops ad c" "ad_page_size ad \<le> 2 ^ 50"
    and r: "paged_req M (ad_page_size ad) r" "at_node c (last_node r)" "co_disable ops c \<longrightarrow> prefix_indices r = []"
    and align: "\<forall>a. align = Some a \<longrightarrow> 0 < a"
  shows "\<exists>res r' ad' c' L'. add_one_req E ops r align ad c = Inr ((res, r', ad'), c') \<and>
    inv c' L' \<and> same c c' \<and> adder_sound M ops ad' c' \<and> ad_page_size ad' = ad_page_size ad"
proof -
  let ?ps = "ad_page_size ad" and ?S = "batch_need (ad_page_size ad) (can_run_list ad)"
  let ?total = "extend_input_len r + clip_new E (max (max_new_tokens r - int (length (output_ids r))) 0) + ?ps"
  let ?no = "\<lambda>c. num_le (rem_total_tokens E ops ad c) (PyInt ?total)"
  let ?body = "\<lambda>c. if ?no c then Inr ((Some NO_TOKEN, r, ad), c) else admit E ops r align ad c"
  let ?run = "bindR (lock_node ops (last_node r) ?body c) (\<lambda>((res, r, ad), c).
       case res of Some x \<Rightarrow> Inr ((x, r, ad), c) | None \<Rightarrow> Inr ((budget_state E ops ad c, r, ad), c))"
  have none: "prefill_delayer_single_pass ad = None" and page: "?ps = int (co_alloc_page_size ops c)"
    using ad(1) by (simp_all add: adder_sound_def Let_def)
  have r0: "0 \<le> extend_input_len r" "rq_host_hit_length r = 0" using r(1) by (auto simp: paged_req_def)
  have stay: ?thesis if "add_one_req E ops r align ad c = Inr ((res, r', ad), c)" for res r'
    using that c(1) same_refl ad(1) by blast
  have pages: "ad_page_size ad' = ?ps" if "adder_sound M ops ad' c'" "same c c'" for ad' c'
    using that page same_keeps(2)[OF that(2)] by (simp add: adder_sound_def Let_def)
  consider (refused) "ad_context_parallel ad \<and> can_run_list ad \<noteq> [] \<or>
      (case prefill_max_requests ad of None \<Rightarrow> False | Some x \<Rightarrow> x \<le> length (can_run_list ad))"
    | (ignore) "\<not> (ad_context_parallel ad \<and> can_run_list ad \<noteq> [])"
      "\<not> (case prefill_max_requests ad of None \<Rightarrow> False | Some x \<Rightarrow> x \<le> length (can_run_list ad))"
      "ignore_eos (rq_sampling r) \<and> co_disable ops c"
    | (check) "\<not> (ad_context_parallel ad \<and> can_run_list ad \<noteq> [])"
      "\<not> (case prefill_max_requests ad of None \<Rightarrow> False | Some x \<Rightarrow> x \<le> length (can_run_list ad))"
      "\<not> (ignore_eos (rq_sampling r) \<and> co_disable ops c)"
    by blast
  then show ?thesis
  proof cases
    case refused
    then have "add_one_req E ops r align ad c = Inr ((OTHER, r, ad), c)"
      using none by (auto simp: add_one_req_def)
    then show ?thesis by (rule stay)
  next
    case ignore
    then have "add_one_req E ops r align ad c = bindR (add_one_req_ignore_eos E ops r ad c) (\<lambda>x. Inr (x, c))"
      unfolding add_one_req_def none option.case bindR_simps prod.case by auto
    then show ?thesis
      using add_one_req_ignore_eos_sound[OF E c ad r(1)] r(3) ignore(3) c(1) same_refl pages by fastforce
  next
    case check
    have lb: "load_back ops r c' = Inr (r, c')" for c'
      using r0(2) by (simp add: load_back_def)
    have eq: "add_one_req E ops r align ad c =
      (if ?no c then Inr ((NO_TOKEN, r, ad), c)
       else if ceil_paged_tokens ad (extend_input_len r - int (rq_host_hit_length r)) \<ge> rem_input_tokens ad \<and> can_run_list ad \<noteq> []
       then Inr ((OTHER, r, ad), c) else ?run)"
      unfolding add_one_req_def none option.case bindR_simps prod.case not_True_eq_False if_False
        if_not_P[OF check(1)] if_not_P[OF check(2)] if_not_P[OF check(3)] Let_def lb
      by (simp add: plain)
    show ?thesis
    proof (cases "?no c \<or> ceil_paged_tokens ad (extend_input_len r - int (rq_host_hit_length r)) \<ge> rem_input_tokens ad \<and> can_run_list ad \<noteq> []")
      case True
      then show ?thesis using eq stay by (auto split: if_splits)
    next
      case False
      then have run: "add_one_req E ops r align ad c = ?run" using eq by (auto split: if_splits)
      obtain l c1 where c1: "co_inc_lock_ref ops (last_node r) c = Inr (l, c1)" "inv c1 (add_mset (last_node r) L)" "same c c1"
        using lock_law[OF c(1) r(2)] by blast
      have cap1: "capacity c1 \<le> 2 ^ 50" using same_keeps(5)[OF c1(3)] c(2) by simp
      have refuse: ?thesis if body: "?body c1 = Inr ((Some x, r, ad), c1)" for x
      proof -
        obtain c' where c': "lock_node ops (last_node r) ?body c = Inr ((Some x, r, ad), c')" "inv c' L" "same c c'"
          using lock_node_refused[where body = ?body, OF c1 body] by blast
        have "adder_sound M ops ad c'" using sound_alike[OF ad(1) c'(3)] same_budget[OF c(1) c'(2,3) refl] by simp
        with c' show ?thesis unfolding run by auto
      qed
      show ?thesis
      proof (cases "?no c1")
        case True
        then show ?thesis by (intro refuse[of NO_TOKEN]) simp
      next
        case no: False
        note n = sound_need[OF c(1) ad(1)]
        have "?S + ?total < available_and_evictable ops c1"
          by (rule budget_gt[OF _ budget_bounds[OF c1(2) cap1] n(1,2)])
            (use no E r0(1) n(3) clip_new_bounds(1)[OF E, of "max (max_new_tokens r - int (length (output_ids r))) 0"]
              in \<open>auto simp: num_le_def rem_total_tokens_def sane_env_def\<close>)
        then have fits: "?S + extend_input_len r + ?ps \<le> available_and_evictable ops c1"
          using clip_new_bounds(1)[OF E, of "max (max_new_tokens r - int (length (output_ids r))) 0"] by simp
        from admit_sound[OF E c1(2) cap1 ad same_keeps(2)[OF c1(3)] r(1) align fits] show ?thesis
        proof (elim disjE exE conjE)
          assume "admit E ops r align ad c1 = Inr ((Some OTHER, r, ad), c1)"
          then show ?thesis using no by (intro refuse[of OTHER]) simp
        next
          fix r' ad'
          assume adm: "admit E ops r align ad c1 = bindR (co_inc_lock_ref ops (last_node r) c1) (\<lambda>(_, c). Inr ((None, r', ad'), c))"
            and snd: "\<forall>c3. same c1 c3 \<longrightarrow> available_and_evictable ops c3 = available_and_evictable ops c1 \<longrightarrow> adder_sound M ops ad' c3"
          have "?body c1 = bindR (co_inc_lock_ref ops (last_node r) c1) (\<lambda>(_, c). Inr ((None, r', ad'), c))"
            using no adm by simp
          from lock_node_admitted[where body = ?body, OF c1 r(2) this] obtain c' where
            c': "lock_node ops (last_node r) ?body c = Inr ((None, r', ad'), c')" "inv c' (add_mset (last_node r) L)"
              "same c c'" "adder_sound M ops ad' c'"
            using snd by blast
          then show ?thesis unfolding run using pages by auto
        qed
      qed
    qed
  qed
qed

lemma as_large_budget: "as_large c c' \<Longrightarrow> available_and_evictable ops c' = available_and_evictable ops c"
  by (simp add: available_and_evictable_plain as_large_keeps)

lemma as_large_sound: "adder_sound M ops ad c \<Longrightarrow> as_large c c' \<Longrightarrow> adder_sound M ops ad c'"
  by (simp add: adder_sound_def as_large_budget as_large_keeps)

lemma init_next_round_sound:
  assumes c: "inv c L" and r: "new_req_ok M r"
  shows "\<exists>r' c'. init_next_round_input force_miss (Some ops) r c = Inr (r', c') \<and> inv c' L \<and> as_large c c' \<and>
    paged_req M (int (co_alloc_page_size ops c)) r' \<and> at_node c' (last_node r') \<and>
    (co_disable ops c' \<longrightarrow> prefix_indices r' = []) \<and> rid r' = rid r \<and> mamba_pool_idx r' = None"
proof -
  let ?ps = "int (co_alloc_page_size ops c)"
  define r1 where "r1 = (let r = r\<lparr>fill_ids := origin_input_ids r @ output_ids r\<rparr>
     in if in_streaming_session r \<and> return_logprob r \<and> 0 \<le> logprob_start_len r then r\<lparr>logprob_start_len := - 1\<rparr> else r)"
  define key where "key = \<lparr>token_ids = (if has_embed_overrides r1 then [] else take (nat (max_prefix_len r1)) (fill_ids r1)),
     extra_key = rq_extra_key r1, is_bigram = False\<rparr>"
  have r1: "fill_ids r1 = origin_input_ids r @ output_ids r" "max_new_tokens r1 = max_new_tokens r"
    "req_pool_idx r1 = None" "mamba_pool_idx r1 = None" "rid r1 = rid r"
    using r by (simp_all add: r1_def new_req_ok_def Let_def)
  obtain m c' where m: "co_match_prefix ops key c = Inr (m, c')" "inv c' L" "cm_host_hit_length m = 0"
    "at_node c' (cm_last_device_node m)" "length (cm_device_indices m) \<le> length (token_ids key)"
    "int (length (cm_device_indices m)) mod ?ps = 0" "(last_slot (cm_device_indices m) + 1) mod ?ps = 0"
    "co_disable ops c \<longrightarrow> cm_device_indices m = []" "as_large c c'"
    using match_law[OF c, of key] by (auto simp: key_def)
  define m' where "m' = (if force_miss then zero_match_result ops c' m else m)"
  have klen: "length (token_ids key) \<le> length (fill_ids r1)" by (simp add: key_def)
  have m': "cm_host_hit_length m' = 0" "at_node c' (cm_last_device_node m')"
    "length (cm_device_indices m') \<le> length (fill_ids r1)" "int (length (cm_device_indices m')) mod ?ps = 0"
    "(last_slot (cm_device_indices m') + 1) mod ?ps = 0" "co_disable ops c \<longrightarrow> cm_device_indices m' = []"
    using m root_law[OF m(2)] klen by (auto simp: m'_def zero_match_result_def Let_def last_slot_def)
  define r2 where "r2 = r1\<lparr>prefix_indices := cm_device_indices m', last_node := cm_last_device_node m',
     rq_last_host_node := cm_last_host_node m', rq_best_match_node := cm_best_match_node m',
     rq_host_hit_length := cm_host_hit_length m',
     cache_protected_len := (case cm_cache_protected_len m' of Some n \<Rightarrow> n | None \<Rightarrow> length (cm_device_indices m'))\<rparr>"
  define r3 where "r3 = set_extend_input_len (int (length (fill_ids r2)) - int (length (prefix_indices r2))) r2"
  have "init_next_round_input force_miss (Some ops) r c = Inr (r3, c')"
    using m(1) unfolding init_next_round_input_def Let_def r1_def[unfolded Let_def, symmetric]
      key_def[symmetric] option.case bindR_simps by (simp add: m'_def r2_def r3_def cong: option.case_cong)
  moreover have "paged_req M ?ps r3"
    using r r1 m' by (auto simp: paged_req_def r3_def r2_def set_extend_input_len_def Let_def new_req_ok_def)
  moreover have "last_node r3 = cm_last_device_node m'" "prefix_indices r3 = cm_device_indices m'" "rid r3 = rid r" "mamba_pool_idx r3 = None"
    using r1 by (simp_all add: r3_def r2_def set_extend_input_len_def Let_def)
  ultimately show ?thesis using m m' as_large_keeps(4)[OF m(9)] by auto
qed

lemma hard_stop_no_preemption:
  assumes "\<not> enable_priority_preemption E" "ad_running_batch ad = Some b"
  shows "\<exists>full'. hard_stop_or_full E ops r full ad p c = Inr (full', full', ad, p, c) \<and>
    (\<not> full' \<longrightarrow> length (can_run_list ad) < rp_available_size p)"
  using assms by (auto simp: hard_stop_or_full_def the_attr_def Let_def get_num_allocatable_reqs_def)

lemma scan_sound:
  assumes "sane_env (pf_adder E)" "\<not> enable_priority_preemption E" "\<forall>a. truncation_align_size E = Some a \<longrightarrow> 0 < a"
    "inv c L" "capacity c \<le> 2 ^ 50" "adder_sound M ops ad c" "ad_page_size ad \<le> 2 ^ 50"
    "ad_running_batch ad = Some b" "length (can_run_list ad) \<le> rp_available_size p" "\<forall>r \<in> set rs. new_req_ok M r"
  shows "\<exists>q stop full' ad' c' L' k. scan_queue E ops rs full ad p c = Inr (q, stop, full', ad', p, c') \<and> inv c' L' \<and>
    adder_sound M ops ad' c' \<and> ad_running_batch ad' = Some b \<and> length (can_run_list ad') \<le> rp_available_size p \<and>
    map rid (can_run_list ad') = map rid (can_run_list ad) @ take k (map rid rs) \<and> (\<not> stop \<longrightarrow> length rs \<le> k) \<and>
    map rid q = map rid rs \<and> preempt_list ad' = preempt_list ad \<and>
    (new_chunked_req ad' = new_chunked_req ad \<or> (\<exists>x \<in> set (can_run_list ad'). new_chunked_req ad' = Some x)) \<and>
    set (can_run_list ad) \<subseteq> set (can_run_list ad')"
  using assms
proof (induction rs arbitrary: full ad c L)
  case Nil
  then show ?case by auto
next
  case (Cons r rs)
  obtain full1 where stop: "hard_stop_or_full E ops r full ad p c = Inr (full1, full1, ad, p, c)"
    "\<not> full1 \<longrightarrow> length (can_run_list ad) < rp_available_size p"
    using hard_stop_no_preemption[OF Cons.prems(2,8)] by blast
  show ?case
  proof (cases full1)
    case True
    then show ?thesis using stop(1) Cons.prems by (auto intro: exI[of _ 0])
  next
    case False
    have ps: "int (co_alloc_page_size ops c) = ad_page_size ad" using Cons.prems(6) by (simp add: adder_sound_def Let_def)
    obtain r1 c1 where r1: "init_next_round_input (pf_force_miss E) (Some ops) r c = Inr (r1, c1)" "inv c1 L" "as_large c c1"
      "paged_req M (ad_page_size ad) r1" "at_node c1 (last_node r1)" "co_disable ops c1 \<longrightarrow> prefix_indices r1 = []"
      "rid r1 = rid r" "mamba_pool_idx r1 = None"
      using init_next_round_sound[OF Cons.prems(4), of M r "pf_force_miss E"] Cons.prems(10) unfolding ps by auto
    have cap1: "capacity c1 \<le> 2 ^ 50" using as_large_keeps(5)[OF r1(3)] Cons.prems(5) by simp
    obtain res r2 ad2 c2 L2 where s: "add_one_req (pf_adder E) ops r1 (truncation_align_size E) ad c1 = Inr ((res, r2, ad2), c2)"
      "inv c2 L2" "same c1 c2" "adder_sound M ops ad2 c2" "ad_page_size ad2 = ad_page_size ad"
      using add_one_req_sound[OF Cons.prems(1) r1(2) cap1 as_large_sound[OF Cons.prems(6) r1(3)] Cons.prems(7) r1(4-6) Cons.prems(3)]
      by blast
    note f = add_one_req_framed[OF s(1)]
    have f': "ad_running_batch ad2 = Some b" "rid r2 = rid r" "mamba_pool_idx r2 = None"
      "length (can_run_list ad2) \<le> rp_available_size p"
      "map rid (can_run_list ad2) = map rid (can_run_list ad) @ take 0 (map rid (r # rs)) \<or>
       map rid (can_run_list ad2) = map rid (can_run_list ad) @ take 1 (map rid (r # rs))"
      using f(1) Cons.prems(8) r1(7,8) stop(2) False by (auto simp: framed_def)
    show ?thesis
    proof (cases "res = CONTINUE")
      case True
      have cap2: "capacity c2 \<le> 2 ^ 50" using same_keeps(5)[OF s(3)] cap1 by simp
      have "\<exists>q stop full' ad' c' L' k. scan_queue E ops rs full1 ad2 p c2 = Inr (q, stop, full', ad', p, c') \<and> inv c' L' \<and>
        adder_sound M ops ad' c' \<and> ad_running_batch ad' = Some b \<and> length (can_run_list ad') \<le> rp_available_size p \<and>
        map rid (can_run_list ad') = map rid (can_run_list ad2) @ take k (map rid rs) \<and> (\<not> stop \<longrightarrow> length rs \<le> k) \<and>
        map rid q = map rid rs \<and> preempt_list ad' = preempt_list ad2 \<and>
        (new_chunked_req ad' = new_chunked_req ad2 \<or> (\<exists>x \<in> set (can_run_list ad'). new_chunked_req ad' = Some x)) \<and>
        set (can_run_list ad2) \<subseteq> set (can_run_list ad')"
        by (rule Cons.IH[OF Cons.prems(1-3) s(2) cap2 s(4) _ f'(1,4)]) (use Cons.prems(7,10) s(5) in simp_all)
      then obtain q stop' full' ad' c' L' k where q: "scan_queue E ops rs full1 ad2 p c2 = Inr (q, stop', full', ad', p, c')" "inv c' L'"
        "adder_sound M ops ad' c'" "ad_running_batch ad' = Some b" "length (can_run_list ad') \<le> rp_available_size p"
        "map rid (can_run_list ad') = map rid (can_run_list ad2) @ take k (map rid rs)" "\<not> stop' \<longrightarrow> length rs \<le> k"
        "map rid q = map rid rs" "preempt_list ad' = preempt_list ad2"
        "new_chunked_req ad' = new_chunked_req ad2 \<or> (\<exists>x \<in> set (can_run_list ad'). new_chunked_req ad' = Some x)"
        "set (can_run_list ad2) \<subseteq> set (can_run_list ad')"
        by blast
      have "map rid (can_run_list ad') = map rid (can_run_list ad) @ take (Suc k) (map rid (r # rs))"
        using q(6) f(2)[OF True] f'(2) by simp
      moreover have "scan_queue E ops (r # rs) full ad p c = Inr (r2 # q, stop', full', ad', p, c')"
        using stop(1) False r1(1) s(1) True q(1) by simp
      moreover have "\<not> stop' \<longrightarrow> length (r # rs) \<le> Suc k" using q(7) by simp
      moreover have "map rid (r2 # q) = map rid (r # rs)" "preempt_list ad' = preempt_list ad"
        "set (can_run_list ad) \<subseteq> set (can_run_list ad')"
        "new_chunked_req ad' = new_chunked_req ad \<or> (\<exists>x \<in> set (can_run_list ad'). new_chunked_req ad' = Some x)"
        using q(8-11) f(1) f'(2) by (auto simp: framed_def)
      ultimately show ?thesis using q(2-5) by blast
    next
      case no: False
      have "\<exists>full'. scan_queue E ops (r # rs) full ad p c = Inr (r2 # rs, True, full', ad2, p, c2)"
        using stop(1) False r1(1) s(1) no f'(3) by (simp add: free_unadded_mamba_idx_def Let_def)
      moreover have "map rid (r2 # rs) = map rid (r # rs)" "preempt_list ad2 = preempt_list ad"
        "set (can_run_list ad) \<subseteq> set (can_run_list ad2)"
        "new_chunked_req ad2 = new_chunked_req ad \<or> (\<exists>x \<in> set (can_run_list ad2). new_chunked_req ad2 = Some x)"
        using f(1) f'(2) by (auto simp: framed_def)
      ultimately show ?thesis using s(2,4) f' by blast
    qed
  qed
qed

text \<open>
  When nothing is admitted yet and the tokens suffice, also once the prefix is locked, the
  request or its first chunk is admitted.
\<close>

lemma chunk_len_some:
  assumes "0 < ad_page_size ad" "ad_page_size ad \<le> k" "pre mod ad_page_size ad = 0"
  shows "\<exists>t. chunk_len ad k None pre = Some t"
proof -
  let ?ps = "ad_page_size ad" and ?t = "k div ad_page_size ad * ad_page_size ad"
  have "0 < k div ?ps" using assms(1,2) by (simp add: pos_imp_zdiv_pos_iff)
  then have t: "0 < ?t" using assms(1) by simp
  have "(?t + pre) mod ?ps = 0" using assms(3) by (metis add.commute mod_mult_self2 mult.commute)
  then have "(?t + pre) div ?ps * ?ps = ?t + pre" by (metis add.right_neutral div_mult_mod_eq)
  then show ?thesis using t by (simp add: chunk_len_def Let_def)
qed

lemma add_one_req_accepts:
  fixes E c ad r
  defines "tot \<equiv> extend_input_len r + clip_new E (max (max_new_tokens r - int (length (output_ids r))) 0) + ad_page_size ad"
  assumes c: "inv c L" "at_node c (last_node r)"
    and ad: "prefill_delayer_single_pass ad = None" "ad_dllm ad = None" "can_run_list ad = []" "prefill_max_requests ad \<noteq> Some 0"
    and r: "\<not> (ignore_eos (rq_sampling r) \<and> co_disable ops c)" "rq_host_hit_length r = 0"
      "int (length (prefix_indices r)) mod ad_page_size ad = 0"
    and chunk: "0 < ad_page_size ad" "\<forall>k. rem_chunk_tokens ad = Some k \<longrightarrow> ad_page_size ad \<le> k"
    and fits: "\<not> num_le (rem_total_tokens E ops ad c) (PyInt tot)"
      "\<And>l c1. co_inc_lock_ref ops (last_node r) c = Inr (l, c1) \<Longrightarrow> \<not> num_le (rem_total_tokens E ops ad c1) (PyInt tot)"
  shows "\<exists>res r' ad' c' L'. add_one_req E ops r None ad c = Inr ((res, r', ad'), c') \<and> can_run_list ad' = [r'] \<and> rid r' = rid r \<and> inv c' L'"
proof -
  let ?no = "\<lambda>c. num_le (rem_total_tokens E ops ad c) (PyInt tot)"
  let ?body = "\<lambda>c. if ?no c then Inr ((Some NO_TOKEN, r, ad), c) else admit E ops r None ad c"
  obtain l c1 where c1: "co_inc_lock_ref ops (last_node r) c = Inr (l, c1)" "inv c1 (add_mset (last_node r) L)" "same c c1"
    using lock_law[OF c] by blast
  have "at_node c1 (last_node r)" using c(2) same_keeps(4)[OF c1(3)] by simp
  then obtain l2 c2 where c2: "co_inc_lock_ref ops (last_node r) c1 = Inr (l2, c2)" using lock_law[OF c1(2)] by blast
  have "\<exists>r' ad'. admit E ops r None ad c1 = bindR (co_inc_lock_ref ops (last_node r) c1) (\<lambda>(_, c). Inr ((None, r', ad'), c)) \<and>
      can_run_list ad' = [r'] \<and> rid r' = rid r"
  proof (cases "\<forall>k. rem_chunk_tokens ad = Some k \<longrightarrow> ceil_paged_tokens ad (extend_input_len r) \<le> k")
    case True
    then show ?thesis
      using ad c2 by (cases "rem_chunk_tokens ad") (auto simp: admit_def Let_def req_inc_lock_ref_def)
  next
    case False
    then obtain k t where k: "rem_chunk_tokens ad = Some k" "\<not> ceil_paged_tokens ad (extend_input_len r) \<le> k"
      "chunk_len ad k None (int (length (prefix_indices r))) = Some t"
      using chunk_len_some[OF chunk(1) _ r(3)] chunk(2) by blast
    have ln: "last_node (set_extend_input_len t r) = last_node r" by (simp add: set_extend_input_len_def Let_def)
    show ?thesis
      using ad k ln c2 by (auto simp: admit_def Let_def req_inc_lock_ref_def)
  qed
  then obtain r' ad' where adm: "admit E ops r None ad c1 = bindR (co_inc_lock_ref ops (last_node r) c1) (\<lambda>(_, c). Inr ((None, r', ad'), c))"
    "can_run_list ad' = [r']" "rid r' = rid r" by blast
  then have "?body c1 = bindR (co_inc_lock_ref ops (last_node r) c1) (\<lambda>(_, c). Inr ((None, r', ad'), c))"
    using fits(2)[OF c1(1)] by simp
  from lock_node_admitted[where body = ?body, OF c1 c(2) this] obtain c' where
    c': "lock_node ops (last_node r) ?body c = Inr ((None, r', ad'), c')" "inv c' (add_mset (last_node r) L)" by blast
  have lb: "load_back ops r c' = Inr (r, c')" for c' using r(2) by (simp add: load_back_def)
  have max: "\<not> (case prefill_max_requests ad of None \<Rightarrow> False | Some x \<Rightarrow> x \<le> length (can_run_list ad))"
    using ad(3,4) by (auto split: option.splits)
  have "add_one_req E ops r None ad c = Inr ((budget_state E ops ad' c', r', ad'), c')"
    unfolding add_one_req_def ad(1) option.case bindR_simps prod.case Let_def lb if_not_P[OF r(1)] if_not_P[OF max]
    using ad(3) fits(1) c'(1) by (simp add: plain tot_def)
  then show ?thesis using adm(2,3) c'(2) by blast
qed

text \<open>The slots of an admitted batch can be allocated.\<close>

lemma admitted_slots:
  assumes "inv c L" "adder_sound M ops ad c" "b_reqs b = can_run_list ad"
  defines "b1 \<equiv> set_extend_lens b"
  shows "\<exists>out c'. (if co_page_size ops c = 1
       then alloc_token_slots ops (b_extend_num_tokens b1) False c
       else alloc_paged_token_slots_extend ops (b_prefix_lens b1) (b_seq_lens b1)
              (map last_slot (map prefix_indices (b_reqs b1))) (b_extend_num_tokens b1) False c)
      = Inr ((out, None), c') \<and> length out = b_extend_num_tokens b1 \<and> distinct out"
proof -
  let ?rs = "can_run_list ad" and ?ps = "int (co_alloc_page_size ops c)"
  have req: "paged_req M ?ps r" if "r \<in> set ?rs" for r
    using assms(2) that by (simp add: adder_sound_def Let_def)
  have len: "int (length (fill_ids r)) - int (length (prefix_indices r)) = extend_input_len r"
    "length (drop (length (prefix_indices r)) (fill_ids r)) = nat (extend_input_len r)" "0 \<le> extend_input_len r"
    if "r \<in> set ?rs" for r
    using req[OF that] by (auto simp: paged_req_def)
  have b1: "b_reqs b1 = ?rs" "b_prefix_lens b1 = map (\<lambda>r. int (length (prefix_indices r))) ?rs"
    "b_seq_lens b1 = map (\<lambda>r. int (length (fill_ids r))) ?rs"
    "b_extend_num_tokens b1 = sum_list (map (\<lambda>r. length (drop (length (prefix_indices r)) (fill_ids r))) ?rs)"
    using assms(3) by (simp_all add: b1_def set_extend_lens_def Let_def o_def)
  have diffs: "map2 (-) (b_seq_lens b1) (b_prefix_lens b1) = map extend_input_len ?rs"
    by (rule nth_equalityI) (auto simp: b1 len(1))
  have n: "b_extend_num_tokens b1 = ext_tokens (b_prefix_lens b1) (b_seq_lens b1)"
  proof -
    have "sum_list (map (\<lambda>r. length (drop (length (prefix_indices r)) (fill_ids r))) xs) = nat (sum_list (map extend_input_len xs))
        \<and> 0 \<le> sum_list (map extend_input_len xs)" if "set xs \<subseteq> set ?rs" for xs
      using that by (induction xs) (simp_all add: len nat_add_distrib del: length_drop)
    then show ?thesis unfolding b1(4) ext_tokens_def diffs by simp
  qed
  have batch: "paged_batch ?ps (b_prefix_lens b1) (b_seq_lens b1) (map last_slot (map prefix_indices (b_reqs b1)))"
    unfolding paged_batch_def b1
  proof (intro conjI allI impI)
    fix i assume "i < length (map (\<lambda>r. int (length (prefix_indices r))) ?rs)"
    then have i: "i < length ?rs" "?rs ! i \<in> set ?rs" by simp_all
    show "map (\<lambda>r. int (length (prefix_indices r))) ?rs ! i \<le> map (\<lambda>r. int (length (fill_ids r))) ?rs ! i"
      using i len(1,3)[OF i(2)] by simp
  qed (use req in \<open>auto simp: paged_req_def\<close>)
  have "ext_pages ?ps (b_prefix_lens b1) (b_seq_lens b1) \<le> available_and_evictable ops c"
  proof -
    have "ext_pages ?ps (b_prefix_lens b1) (b_seq_lens b1) = sum_list (map (\<lambda>r. ceil_to ?ps (extend_input_len r)) ?rs)"
      unfolding ext_pages_def
      by (rule arg_cong[of _ _ sum_list], rule nth_equalityI) (auto simp: b1 len(1))
    also have "\<dots> = batch_need ?ps ?rs - int (length ?rs) * ?ps"
      unfolding batch_need_def by (simp add: sum_list_addf sum_list_triv)
    also have "\<dots> \<le> available_and_evictable ops c"
    proof (cases ?rs)
      case Nil
      then show ?thesis
        using sizes_nonneg[OF assms(1)] by (simp add: batch_need_def available_and_evictable_plain)
    next
      case (Cons r rs)
      have "?ps \<le> int (length ?rs) * ?ps" using Cons by (simp add: algebra_simps)
      moreover have "batch_need ?ps ?rs - ?ps \<le> available_and_evictable ops c"
        using assms(2) Cons by (auto simp: adder_sound_def Let_def)
      ultimately show ?thesis by linarith
    qed
    finally show ?thesis .
  qed
  from prefill_slots[OF assms(1) refl batch this] show ?thesis unfolding n .
qed

end

text \<open>
  The list of requests that ignore the end of sequence is sorted by the tokens they have left,
  but a request with more tokens left than all of them is inserted before the last one.
\<close>

lemma insert_state_unsorted:
  "insert_state (PyInt 9, 4) [(PyInt 3, 1), (PyInt 5, 2)] = [(PyInt 3, 1), (PyInt 9, 4), (PyInt 5, 2)]"
  by code_simp

end
