(* ===== verification/PrefillProps.thy ===== *)
theory PrefillProps
  imports AdderProps CommonProps
begin

text \<open>
  A prefill batch that the scheduler has formed can be prepared: its rows and slots are
  allocated and written to the request pool. The proof is done for every prefix cache.
\<close>

section \<open>Rows for new requests\<close>

lemma rp_assign_new:
  "\<forall>r \<in> set rs. req_pool_idx r = None \<Longrightarrow> length sel = length rs \<Longrightarrow>
   rp_assign rs sel = map2 (\<lambda>r i. r\<lparr>req_pool_idx := Some i\<rparr>) rs sel"
proof (induction rs arbitrary: sel)
  case (Cons r rs)
  then show ?case by (cases sel) auto
qed simp

lemma rp_alloc_new:
  assumes "\<forall>r \<in> set rs. req_pool_idx r = None" "length rs \<le> rp_available_size p"
  shows "rp_alloc p rs = Inr (Some (take (length rs) (rp_free_slots p)),
     map2 (\<lambda>r i. r\<lparr>req_pool_idx := Some i\<rparr>) rs (take (length rs) (rp_free_slots p)),
     p\<lparr>rp_free_slots := drop (length rs) (rp_free_slots p)\<rparr>)"
proof -
  have n: "new_reqs rs = length rs" using assms(1) by (simp add: new_reqs_def)
  have "map (\<lambda>r. the (req_pool_idx r)) (map2 (\<lambda>r i. r\<lparr>req_pool_idx := Some i\<rparr>) rs (take (length rs) (rp_free_slots p)))
      = take (length rs) (rp_free_slots p)"
    using assms(2) by (intro nth_equalityI) (simp_all add: rp_available_size_def)
  then show ?thesis
    using assms by (simp add: rp_alloc_eq n assertR_def rp_assign_new rp_available_size_def)
qed

lemma req_rows_none: "\<forall>r \<in> set rs. req_pool_idx r = None \<Longrightarrow> req_rows rs = []"
  by (induction rs) auto

lemma take_two: "length (xs @ ys) = n \<Longrightarrow> take n (xs @ ys @ zs) = xs @ ys"
  by auto

text \<open>The requests of a prepared batch.\<close>

definition extended :: "req \<Rightarrow> nat \<Rightarrow> req" where
  "extended r i = r\<lparr>req_pool_idx := Some i, kv_committed_len := length (fill_ids r), kv_allocated_len := length (fill_ids r),
     is_retracted := False\<rparr>"

text \<open>
  What a prepared batch promises for the requests \<open>rs\<close>: new rows, distinct new slots, and rows
  that hold the prefix of the request followed by its share of the slots.
\<close>

definition batch_ready :: "req list \<Rightarrow> sched_batch \<Rightarrow> req_to_token_pool \<Rightarrow> req_to_token_pool \<Rightarrow> bool" where
  "batch_ready rs b p p' \<longleftrightarrow>
     (\<exists>out idxs. b_out_cache_loc b = Some out \<and> b_req_pool_indices b = idxs \<and> b_reqs b = map2 extended rs idxs \<and>
        idxs = take (length rs) (rp_free_slots p) \<and> length idxs = length rs \<and> distinct idxs \<and> distinct out \<and>
        length out = nat (sum_list (map extend_input_len rs)) \<and>
        (\<forall>k < length rs. take (length (fill_ids (rs ! k))) (req_to_token p' (idxs ! k)) =
           prefix_indices (rs ! k) @
           take (nat (extend_input_len (rs ! k))) (drop (nat (sum_list (map extend_input_len (take k rs)))) out)) \<and>
        (\<forall>i. i \<notin> set idxs \<longrightarrow> req_to_token p' i = req_to_token p i))"

context prefix_cache
begin

lemma alloc_for_extend_ready:
  assumes c: "inv c L" and ad: "adder_sound M ops ad c" and rows: "length (can_run_list ad) \<le> rp_available_size p"
    and p: "rp_inv p others" "M \<le> rp_max_context_len p" "\<forall>i. length (req_to_token p i) = rp_max_context_len p"
    and g: "\<And>n. set (g_order g n) = {..<n}" and b: "b_reqs b = can_run_list ad"
  defines "rs \<equiv> can_run_list ad"
  defines "idxs \<equiv> take (length rs) (rp_free_slots p)"
  shows "\<exists>out p' c'. alloc_for_extend ops triton g p (set_extend_lens b) c =
      Inr (out, idxs, p', (set_extend_lens b)\<lparr>b_reqs := map2 (\<lambda>r i. r\<lparr>req_pool_idx := Some i\<rparr>) rs idxs\<rparr>, c') \<and>
    distinct idxs \<and> length idxs = length rs \<and> distinct out \<and> length out = nat (sum_list (map extend_input_len rs)) \<and>
    (\<forall>k < length rs. req_to_token p' (idxs ! k) = prefix_indices (rs ! k) @
       take (nat (extend_input_len (rs ! k))) (drop (nat (sum_list (map extend_input_len (take k rs)))) out) @
       drop (length (fill_ids (rs ! k))) (req_to_token p (idxs ! k))) \<and>
    (\<forall>i. i \<notin> set idxs \<longrightarrow> req_to_token p' i = req_to_token p i)"
proof -
  let ?b = "set_extend_lens b"
  have req: "req_pool_idx r = None" "0 \<le> extend_input_len r" "length (fill_ids r) \<le> M"
    "int (length (fill_ids r)) = int (length (prefix_indices r)) + extend_input_len r" if "r \<in> set rs" for r
    using ad that by (auto simp: adder_sound_def Let_def paged_req_def rs_def)
  have len: "length idxs = length rs" using rows by (simp add: idxs_def rs_def rp_available_size_def)
  have dist: "distinct idxs" using p(1) by (simp add: rp_inv_def idxs_def)
  have fb: "b_prefix_lens ?b = map (\<lambda>r. int (length (prefix_indices r))) rs" "b_seq_lens ?b = map (\<lambda>r. int (length (fill_ids r))) rs"
    "b_extend_lens ?b = map extend_input_len rs" "b_reqs ?b = rs"
    using b by (simp_all add: set_extend_lens_def Let_def rs_def)
  have total: "b_extend_num_tokens ?b = nat (sum_list (map extend_input_len rs))"
  proof -
    have "sum_list (map (\<lambda>r. length (fill_ids r) - length (prefix_indices r)) xs) = nat (sum_list (map extend_input_len xs))
        \<and> 0 \<le> sum_list (map extend_input_len xs)" if "set xs \<subseteq> set rs" for xs
      using that
    proof (induction xs)
      case (Cons x xs)
      then have x: "x \<in> set rs" by simp
      have "length (fill_ids x) - length (prefix_indices x) = nat (extend_input_len x)" using req(2,4)[OF x] by linarith
      then show ?case using Cons req(2)[OF x] by (simp add: nat_add_distrib)
    qed simp
    then show ?thesis using b by (simp add: set_extend_lens_def Let_def o_def rs_def)
  qed
  obtain out c' where out: "(if co_page_size ops c = 1
       then alloc_token_slots ops (b_extend_num_tokens ?b) False c
       else alloc_paged_token_slots_extend ops (b_prefix_lens ?b) (b_seq_lens ?b)
              (map last_slot (map prefix_indices (b_reqs ?b))) (b_extend_num_tokens ?b) False c) = Inr ((out, None), c')"
    "length out = b_extend_num_tokens ?b" "distinct out"
    using admitted_slots[OF c ad b] by blast
  let ?p1 = "p\<lparr>rp_free_slots := drop (length rs) (rp_free_slots p)\<rparr>"
  have "write_args_ok ?p1 out idxs (b_prefix_lens ?b) (b_seq_lens ?b) (b_extend_lens ?b) (map prefix_indices rs)"
    unfolding write_args_ok_def fb
  proof (intro conjI allI impI)
    show "length out = nat (sum_list (map extend_input_len rs))" using out(2) total by simp
    fix k assume k: "k < length idxs"
    then have r: "rs ! k \<in> set rs" "k < length rs" using len by simp_all
    show "map (\<lambda>r. int (length (fill_ids r))) rs ! k = map (\<lambda>r. int (length (prefix_indices r))) rs ! k + map extend_input_len rs ! k"
      "0 \<le> map extend_input_len rs ! k"
      "map (\<lambda>r. int (length (fill_ids r))) rs ! k \<le> int (rp_max_context_len ?p1)"
      using r(2) req[OF r(1)] p(2) by simp_all
  qed (use dist len p(3) in simp_all)
  from write_cache_indices_ok[OF this g] obtain p' where
    w: "write_cache_indices True g out idxs (b_prefix_lens ?b) (b_seq_lens ?b) (b_extend_lens ?b) (map prefix_indices rs) ?p1 = Inr p'"
      "write_cache_indices False g out idxs (b_prefix_lens ?b) (b_seq_lens ?b) (b_extend_lens ?b) (map prefix_indices rs) ?p1 = Inr p'"
    and rows': "\<forall>k < length idxs. req_to_token p' (idxs ! k) = map prefix_indices rs ! k
        @ take (nat (b_extend_lens ?b ! k)) (drop (nat (sum_list (take k (b_extend_lens ?b)))) out)
        @ drop (nat (b_seq_lens ?b ! k)) (req_to_token ?p1 (idxs ! k))"
      "\<forall>i. i \<notin> set idxs \<longrightarrow> req_to_token p' i = req_to_token ?p1 i"
    by blast
  have w': "write_cache_indices triton g out idxs (b_prefix_lens ?b) (b_seq_lens ?b) (b_extend_lens ?b) (map prefix_indices rs) ?p1 = Inr p'"
    using w by (cases triton) simp_all
  have "alloc_req_slots ops p rs c = Inr (idxs, map2 (\<lambda>r i. r\<lparr>req_pool_idx := Some i\<rparr>) rs idxs, ?p1, c)"
    using rp_alloc_new[of rs p] req(1) rows
    by (simp add: alloc_req_slots_def plain_reqs plain_req_alloc_def idxs_def rs_def)
  then have "alloc_for_extend ops triton g p ?b c =
      Inr (out, idxs, p', ?b\<lparr>b_reqs := map2 (\<lambda>r i. r\<lparr>req_pool_idx := Some i\<rparr>) rs idxs\<rparr>, c')"
    using out(1) w' unfolding alloc_for_extend_def plain_reqs Let_def fb(4) bindR_simps prod.case by simp
  moreover have "req_to_token p' (idxs ! k) = prefix_indices (rs ! k) @
       take (nat (extend_input_len (rs ! k))) (drop (nat (sum_list (map extend_input_len (take k rs)))) out) @
       drop (length (fill_ids (rs ! k))) (req_to_token p (idxs ! k))" if "k < length rs" for k
    using rows'(1) that len by (simp add: fb take_map)
  ultimately show ?thesis using dist len out(2,3) total rows'(2) by auto
qed

lemma prepare_for_extend_ready:
  assumes c: "inv c L" and ad: "adder_sound M ops ad c" and rows: "length (can_run_list ad) \<le> rp_available_size p"
    and p: "rp_inv p others" "M \<le> rp_max_context_len p" "\<forall>i. length (req_to_token p i) = rp_max_context_len p"
    and g: "\<And>n. set (g_order g n) = {..<n}"
  shows "\<exists>b ids p' c'. prepare_for_extend ops triton g vocab p (init_new has_spec (can_run_list ad)) c = Inr (b, ids, p', c') \<and>
    batch_ready (can_run_list ad) b p p'"
proof -
  let ?rs = "can_run_list ad" and ?b0 = "init_new has_spec (can_run_list ad)"
  let ?idxs = "take (length ?rs) (rp_free_slots p)"
  have req: "int (length (fill_ids r)) - int (length (prefix_indices r)) = extend_input_len r" if "r \<in> set ?rs" for r
    using ad that by (auto simp: adder_sound_def Let_def paged_req_def)
  have b0: "b_reqs ?b0 = ?rs" by (simp add: init_new_def)
  obtain out p' c' where a: "alloc_for_extend ops triton g p (set_extend_lens ?b0) c =
      Inr (out, ?idxs, p', (set_extend_lens ?b0)\<lparr>b_reqs := map2 (\<lambda>r i. r\<lparr>req_pool_idx := Some i\<rparr>) ?rs ?idxs\<rparr>, c')"
    and f: "distinct ?idxs" "length ?idxs = length ?rs" "distinct out" "length out = nat (sum_list (map extend_input_len ?rs))"
    and r: "\<forall>k < length ?rs. req_to_token p' (?idxs ! k) = prefix_indices (?rs ! k) @
       take (nat (extend_input_len (?rs ! k))) (drop (nat (sum_list (map extend_input_len (take k ?rs)))) out) @
       drop (length (fill_ids (?rs ! k))) (req_to_token p (?idxs ! k))"
      "\<forall>i. i \<notin> set ?idxs \<longrightarrow> req_to_token p' i = req_to_token p i"
    using alloc_for_extend_ready[OF c ad rows p g b0] by blast
  let ?b = "(set_extend_lens ?b0)\<lparr>b_reqs := map2 (\<lambda>r i. r\<lparr>req_pool_idx := Some i\<rparr>) ?rs ?idxs\<rparr>"
  have fb: "b_prefix_lens ?b = map (\<lambda>r. int (length (prefix_indices r))) ?rs" "b_seq_lens ?b = map (\<lambda>r. int (length (fill_ids r))) ?rs"
    using b0 by (simp_all add: set_extend_lens_def Let_def)
  have reqs: "mapR (\<lambda>(r, i, s, l). extend_req r i s l) (zip (b_reqs ?b) (zip ?idxs (zip (b_seq_lens ?b) (b_prefix_lens ?b))))
      = Inr (map2 extended ?rs ?idxs)"
    unfolding mapR_eq_Inr fb using f(2) req by (auto simp: extend_req_def extended_def assertR_def)
  have lens: "length (fill_ids (?rs ! k)) \<le> length (req_to_token p (?idxs ! k))"
    "length (prefix_indices (?rs ! k) @ take (nat (extend_input_len (?rs ! k))) (drop (nat (sum_list (map extend_input_len (take k ?rs)))) out))
     = length (fill_ids (?rs ! k))" if k: "k < length ?rs" for k
  proof -
    have rk: "?rs ! k \<in> set ?rs" using k by simp
    have q: "0 \<le> extend_input_len x" if "x \<in> set ?rs" for x
      using ad that by (auto simp: adder_sound_def Let_def paged_req_def)
    have "length (fill_ids (?rs ! k)) \<le> M" using ad rk by (auto simp: adder_sound_def Let_def paged_req_def)
    then show "length (fill_ids (?rs ! k)) \<le> length (req_to_token p (?idxs ! k))" using p(2,3) by simp
    have "sum_list (map extend_input_len (take (Suc k) ?rs)) + sum_list (map extend_input_len (drop (Suc k) ?rs))
        = sum_list (map extend_input_len ?rs)"
      unfolding sum_list_append[symmetric] map_append[symmetric] append_take_drop_id ..
    moreover have "0 \<le> sum_list (map extend_input_len (drop (Suc k) ?rs))" "0 \<le> sum_list (map extend_input_len (take k ?rs))"
      by (auto intro!: sum_list_nonneg) (metis in_set_dropD in_set_takeD q)+
    ultimately have "nat (sum_list (map extend_input_len (take k ?rs))) + nat (extend_input_len (?rs ! k)) \<le> length out"
      using k q[OF rk] f(4) by (simp add: take_Suc_conv_app_nth)
    then show "length (prefix_indices (?rs ! k) @ take (nat (extend_input_len (?rs ! k))) (drop (nat (sum_list (map extend_input_len (take k ?rs)))) out))
       = length (fill_ids (?rs ! k))"
      using req[OF rk] q[OF rk] by simp
  qed
  have r': "take (length (fill_ids (?rs ! k))) (req_to_token p' (?idxs ! k)) = prefix_indices (?rs ! k) @
       take (nat (extend_input_len (?rs ! k))) (drop (nat (sum_list (map extend_input_len (take k ?rs)))) out)"
    if "k < length ?rs" for k
    unfolding r(1)[rule_format, OF that] by (rule take_two[OF lens(2)[OF that]])
  show ?thesis
    unfolding prepare_for_extend_def Let_def a bindR_simps prod.case reqs batch_ready_def
    using f r' r(2) by simp
qed

end

end
