(* ===== verification/Balanced.thy ===== *)
theory Balanced
  imports PrefillScan
begin

text \<open>
  Balanced batch formation (\<^verbatim>\<open>Scheduler._form_hybrid_balanced_prefill_batch\<close> and the
  \<^verbatim>\<open>_hybrid_bbf_\<close> helpers of \<^verbatim>\<open>managers/scheduler.py\<close>): with hybrid loading of the host
  cache, a prefill batch is formed so that the tokens it loads stay in proportion to the tokens
  it computes. Requests are the positions in the waiting queue; a request is compared with the
  last one of the batch by its \<^verbatim>\<open>rid\<close>.
\<close>

section \<open>Estimates\<close>

datatype seg_id = NodeSeg nat | ReqSeg string

text \<open>
  What the helpers read of a tree node: the length of its host value, whether it has a device
  value, and its parent. \<open>ht_size\<close> bounds the length of a chain of parents.
\<close>

record 'c host_tree =
  ht_host :: "'c \<Rightarrow> nat \<Rightarrow> nat option"
  ht_device :: "'c \<Rightarrow> nat \<Rightarrow> bool"
  ht_parent :: "'c \<Rightarrow> nat \<Rightarrow> nat option"
  ht_root :: "'c \<Rightarrow> nat"
  ht_size :: "'c \<Rightarrow> nat"

record bbf_estimate =
  load_segments :: "(seg_id \<times> int) list"
  extra_load_tokens :: int
  compute_tokens :: int

record bbf_state =
  bs_load_tokens :: int
  bs_compute_tokens :: int
  loaded_segment_ids :: "seg_id list"

fun segment_loop ::
  "'c host_tree \<Rightarrow> 'c \<Rightarrow> nat option \<Rightarrow> nat \<Rightarrow> nat option \<Rightarrow> int \<Rightarrow> (seg_id \<times> int) list \<Rightarrow> (seg_id \<times> int) list result" where
  "segment_loop ht c stop fuel None remaining segs = Inr segs"
| "segment_loop ht c stop 0 (Some n) remaining segs =
     (if n = ht_root ht c \<or> Some n = stop \<or> remaining \<le> 0 then Inr segs else Inl OutOfFuel)"
| "segment_loop ht c stop (Suc fuel) (Some n) remaining segs =
     (if n = ht_root ht c \<or> Some n = stop \<or> remaining \<le> 0 then Inr segs
      else case ht_host ht c n of
        Some seg_len \<Rightarrow>
          if \<not> ht_device ht c n \<and> 0 < seg_len
          then segment_loop ht c stop fuel (ht_parent ht c n) (remaining - int seg_len) (segs @ [(NodeSeg n, int seg_len)])
          else segment_loop ht c stop fuel (ht_parent ht c n) remaining segs
      | None \<Rightarrow> segment_loop ht c stop fuel (ht_parent ht c n) remaining segs)"

definition hybrid_bbf_load_segments :: "'c host_tree \<Rightarrow> req \<Rightarrow> 'c \<Rightarrow> (seg_id \<times> int) list result" where
  "hybrid_bbf_load_segments ht r c =
     (let hits = int (rq_host_hit_length r)
      in if hits = 0 then Inr []
         else bindR (segment_loop ht c (last_node r) (ht_size ht c) (rq_best_match_node r) hits []) (\<lambda>segs.
              Inr (if segs \<noteq> [] then rev segs else [(ReqSeg (rid r), hits)])))"

definition hybrid_bbf_estimate_req :: "'c host_tree \<Rightarrow> req \<Rightarrow> adder \<Rightarrow> bbf_state \<Rightarrow> 'c \<Rightarrow> bbf_estimate result" where
  "hybrid_bbf_estimate_req ht r ad st c =
     bindR (hybrid_bbf_load_segments ht r c) (\<lambda>segs.
     let compute = max (extend_input_len r - int (rq_host_hit_length r)) 0;
         compute = (case rem_chunk_tokens ad of None \<Rightarrow> compute | Some k \<Rightarrow> min compute (max k 0))
     in Inr \<lparr>load_segments = segs,
             extra_load_tokens = sum_list (map snd (filter (\<lambda>s. fst s \<notin> set (loaded_segment_ids st)) segs)),
             compute_tokens = compute\<rparr>)"

definition hybrid_bbf_req_starved :: "prefill_env \<Rightarrow> int \<Rightarrow> req \<Rightarrow> bool" where
  "hybrid_bbf_req_starved E now r \<longleftrightarrow>
     0 < wait_queue_entry_time r \<and> HYBRID_BBF_STARVATION E \<le> now - wait_queue_entry_time r"

definition LOADING_BOUND_RATIO :: rat where
  "LOADING_BOUND_RATIO = 4"

definition hybrid_bbf_should_admit ::
  "prefill_env \<Rightarrow> int \<Rightarrow> req \<Rightarrow> adder \<Rightarrow> bbf_state \<Rightarrow> bbf_estimate \<Rightarrow> bool" where
  "hybrid_bbf_should_admit E now r ad st e \<longleftrightarrow>
     can_run_list ad = [] \<or> hybrid_bbf_req_starved E now r \<or>
     (let next_load = bs_load_tokens st + extra_load_tokens e;
          next_compute = bs_compute_tokens st + compute_tokens e
      in rnd (ae_float (pf_adder E)) (of_int next_load / of_int (max next_compute 1)) \<le> LOADING_BOUND_RATIO)"

fun charge_segments :: "(seg_id \<times> int) list \<Rightarrow> int \<Rightarrow> bbf_state \<Rightarrow> bbf_state" where
  "charge_segments [] remaining st = st"
| "charge_segments ((s, len) # segs) remaining st =
     (if remaining \<le> 0 then st
      else charge_segments segs (remaining - len)
        (if s \<in> set (loaded_segment_ids st) then st
         else st\<lparr>loaded_segment_ids := s # loaded_segment_ids st,
                 bs_load_tokens := bs_load_tokens st + min len remaining\<rparr>))"

definition hybrid_bbf_commit_req :: "bbf_state \<Rightarrow> bbf_estimate \<Rightarrow> int \<Rightarrow> int \<Rightarrow> bbf_state" where
  "hybrid_bbf_commit_req st e loaded_tokens compute =
     (let st = charge_segments (load_segments e) (max loaded_tokens 0) st
      in st\<lparr>bs_compute_tokens := bs_compute_tokens st + max compute 0\<rparr>)"

definition hybrid_bbf_is_bundle_hit :: "bbf_estimate \<Rightarrow> bbf_estimate \<Rightarrow> bool" where
  "hybrid_bbf_is_bundle_hit anchor candidate \<longleftrightarrow>
     (let ids = fst ` set (load_segments anchor)
      in ids \<noteq> {} \<and> (\<exists>s \<in> set (load_segments candidate). fst s \<in> ids))"

section \<open>Forming the batch\<close>

datatype admit_status = Continue | Stop | Deprioritized | Admitted

text \<open>\<open>fs_admitted\<close> and \<open>fs_deprioritized\<close> are positions in the queue.\<close>

record 'c form_state =
  fs_queue :: "req list"
  fs_full :: bool
  fs_adder :: adder
  fs_pool :: req_to_token_pool
  fs_cache :: 'c
  fs_bbf :: bbf_state
  fs_admitted :: "nat list"
  fs_deprioritized :: "nat list"
  fs_ticks :: nat

definition remember_deprioritized :: "nat \<Rightarrow> 'c form_state \<Rightarrow> 'c form_state" where
  "remember_deprioritized i fs =
     (if i \<notin> set (fs_deprioritized fs) \<and> i \<notin> set (fs_admitted fs)
      then fs\<lparr>fs_deprioritized := fs_deprioritized fs @ [i]\<rparr> else fs)"

definition init_candidate :: "prefill_env \<Rightarrow> 'c cache_ops \<Rightarrow> nat \<Rightarrow> 'c form_state \<Rightarrow> 'c form_state result" where
  "init_candidate E ops i fs =
     bindR (init_next_round_input (pf_force_miss E) (Some ops) (fs_queue fs ! i) (fs_cache fs)) (\<lambda>(r, c).
       Inr (fs\<lparr>fs_queue := (fs_queue fs)[i := r], fs_cache := c\<rparr>))"

definition release_unadded :: "prefill_env \<Rightarrow> 'c cache_ops \<Rightarrow> nat \<Rightarrow> 'c form_state \<Rightarrow> 'c form_state result" where
  "release_unadded E ops i fs =
     bindR (free_unadded_mamba_idx E ops (fs_queue fs ! i) (fs_adder fs) (fs_cache fs)) (\<lambda>(r, c).
       Inr (fs\<lparr>fs_queue := (fs_queue fs)[i := r], fs_cache := c\<rparr>))"

text \<open>Adding a request \<open>r0\<close> that has passed the ratio, which becomes \<open>r\<close>, and what is recorded of it.\<close>

definition record_admitted :: "nat \<Rightarrow> bbf_estimate \<Rightarrow> req \<Rightarrow> req \<Rightarrow> 'c form_state \<Rightarrow> 'c form_state" where
  "record_admitted i e r0 r fs =
     (if req_added r (fs_adder fs)
      then fs\<lparr>fs_admitted := fs_admitted fs @ [i],
              fs_bbf := hybrid_bbf_commit_req (fs_bbf fs) e
                (max (int (length (prefix_indices r)) - int (length (prefix_indices r0))) 0)
                (max (extend_input_len r) 0)\<rparr>
      else fs)"

definition admit_status_of ::
  "prefill_env \<Rightarrow> 'c cache_ops \<Rightarrow> nat \<Rightarrow> add_req_result \<Rightarrow> req \<Rightarrow> 'c form_state \<Rightarrow> (admit_status \<times> 'c form_state) result" where
  "admit_status_of E ops i res r fs =
     (if res \<noteq> CONTINUE
      then bindR (release_unadded E ops i
               (if res = NO_TOKEN
                then fs\<lparr>fs_full := (can_run_list (fs_adder fs) \<noteq> [] \<or> \<not> running_empty (fs_adder fs))\<rparr> else fs))
             (\<lambda>fs. Inr (Stop, fs))
      else Inr (if req_added r (fs_adder fs) then Admitted else Continue, fs))"

definition admit_one ::
  "prefill_env \<Rightarrow> 'c cache_ops \<Rightarrow> nat \<Rightarrow> bbf_estimate \<Rightarrow> 'c form_state \<Rightarrow> (admit_status \<times> 'c form_state) result" where
  "admit_one E ops i e fs =
     bindR (add_one_req (pf_adder E) ops (fs_queue fs ! i) (truncation_align_size E) (fs_adder fs) (fs_cache fs))
       (\<lambda>((res, r, ad), c).
       admit_status_of E ops i res r (record_admitted i e (fs_queue fs ! i) r
         (fs\<lparr>fs_queue := (fs_queue fs)[i := r], fs_adder := ad, fs_cache := c\<rparr>)))"

text \<open>\<open>pre\<close> is the estimate of a request that is already initialised.\<close>

definition admit_balanced ::
  "prefill_env \<Rightarrow> 'c cache_ops \<Rightarrow> nat \<Rightarrow> bool \<Rightarrow> bool \<Rightarrow> bbf_estimate \<Rightarrow> 'c form_state \<Rightarrow>
   (admit_status \<times> bbf_estimate option \<times> 'c form_state) result" where
  "admit_balanced E ops i enforce_ratio collect e fs =
     (let now = sched_clock E (fs_ticks fs);
          fs = fs\<lparr>fs_ticks := fs_ticks fs + 1\<rparr>
      in if enforce_ratio \<and> \<not> hybrid_bbf_should_admit E now (fs_queue fs ! i) (fs_adder fs) (fs_bbf fs) e
         then bindR (release_unadded E ops i fs) (\<lambda>fs.
              Inr (Deprioritized, Some e, if collect then remember_deprioritized i fs else fs))
         else bindR (admit_one E ops i e fs) (\<lambda>(status, fs). Inr (status, Some e, fs)))"

definition try_admit ::
  "prefill_env \<Rightarrow> 'c cache_ops \<Rightarrow> 'c host_tree \<Rightarrow> nat \<Rightarrow> bool \<Rightarrow> bool \<Rightarrow> bbf_estimate option \<Rightarrow> 'c form_state \<Rightarrow>
   (admit_status \<times> bbf_estimate option \<times> 'c form_state) result" where
  "try_admit E ops ht i enforce_ratio collect pre fs =
     (if i \<in> set (fs_admitted fs) then Inr (Continue, None, fs)
      else
        bindR (hard_stop_or_full E ops (fs_queue fs ! i) (fs_full fs) (fs_adder fs) (fs_pool fs) (fs_cache fs))
         (\<lambda>(stop, full, ad, p, c).
        let fs = fs\<lparr>fs_full := full, fs_adder := ad, fs_pool := p, fs_cache := c\<rparr>
        in if stop then Inr (Stop, None, fs)
           else case pre of
             Some e \<Rightarrow> admit_balanced E ops i enforce_ratio collect e fs
           | None \<Rightarrow>
               bindR (init_candidate E ops i fs) (\<lambda>fs.
               bindR (hybrid_bbf_estimate_req ht (fs_queue fs ! i) (fs_adder fs) (fs_bbf fs) (fs_cache fs)) (\<lambda>e.
                 admit_balanced E ops i enforce_ratio collect e fs))))"

text \<open>
  Candidates from position \<open>length (fs_queue fs) - k\<close> on that share a segment with the anchor;
  the result is whether the formation stops.
\<close>

fun prioritize_bundle_hits ::
  "prefill_env \<Rightarrow> 'c cache_ops \<Rightarrow> 'c host_tree \<Rightarrow> bbf_estimate \<Rightarrow> nat \<Rightarrow> 'c form_state \<Rightarrow> (bool \<times> 'c form_state) result" where
  "prioritize_bundle_hits E ops ht anchor 0 fs = Inr (False, fs)"
| "prioritize_bundle_hits E ops ht anchor (Suc k) fs =
     (let i = length (fs_queue fs) - Suc k
      in if load_segments anchor = [] then Inr (False, fs)
         else if i \<in> set (fs_admitted fs) \<or> i \<in> set (fs_deprioritized fs)
         then prioritize_bundle_hits E ops ht anchor k fs
         else
           bindR (init_candidate E ops i fs) (\<lambda>fs.
           bindR (hybrid_bbf_estimate_req ht (fs_queue fs ! i) (fs_adder fs) (fs_bbf fs) (fs_cache fs)) (\<lambda>e.
           if \<not> hybrid_bbf_is_bundle_hit anchor e
           then bindR (release_unadded E ops i fs) (\<lambda>fs. prioritize_bundle_hits E ops ht anchor k fs)
           else
             bindR (try_admit E ops ht i True True (Some e) fs) (\<lambda>(status, e', fs).
             if status = Stop then Inr (True, fs)
             else
               bindR (case e' of
                        Some e' \<Rightarrow> if status = Admitted then prioritize_bundle_hits E ops ht e' k fs else Inr (False, fs)
                      | None \<Rightarrow> Inr (False, fs)) (\<lambda>(stop, fs).
               if stop then Inr (True, fs) else prioritize_bundle_hits E ops ht anchor k fs)))))"

text \<open>The scan of the queue; the rest of the queue has \<open>k\<close> requests.\<close>

fun form_scan ::
  "prefill_env \<Rightarrow> 'c cache_ops \<Rightarrow> 'c host_tree \<Rightarrow> nat \<Rightarrow> 'c form_state \<Rightarrow> (bool \<times> 'c form_state) result" where
  "form_scan E ops ht 0 fs = Inr (False, fs)"
| "form_scan E ops ht (Suc k) fs =
     (let i = length (fs_queue fs) - Suc k
      in if i \<in> set (fs_admitted fs) \<or> i \<in> set (fs_deprioritized fs) then form_scan E ops ht k fs
         else
           bindR (try_admit E ops ht i True True None fs) (\<lambda>(status, e, fs).
           if status = Stop then Inr (True, fs)
           else
             bindR (case e of
                      Some e \<Rightarrow> if status = Admitted then prioritize_bundle_hits E ops ht e k fs else Inr (False, fs)
                    | None \<Rightarrow> Inr (False, fs)) (\<lambda>(stop, fs).
             if stop then Inr (True, fs) else form_scan E ops ht k fs)))"

text \<open>The backfill from the requests that were held back.\<close>

fun backfill ::
  "prefill_env \<Rightarrow> 'c cache_ops \<Rightarrow> 'c host_tree \<Rightarrow> nat list \<Rightarrow> 'c form_state \<Rightarrow> (bool \<times> 'c form_state) result" where
  "backfill E ops ht [] fs = Inr (False, fs)"
| "backfill E ops ht (i # is) fs =
     bindR (try_admit E ops ht i False False None fs) (\<lambda>(status, _, fs).
       if status = Stop then Inr (True, fs) else backfill E ops ht is fs)"

definition form_hybrid_balanced_prefill_batch ::
  "prefill_env \<Rightarrow> 'c cache_ops \<Rightarrow> 'c host_tree \<Rightarrow> req list \<Rightarrow> bool \<Rightarrow> adder \<Rightarrow> req_to_token_pool \<Rightarrow> nat \<Rightarrow> 'c \<Rightarrow>
   (bool \<times> 'c form_state) result" where
  "form_hybrid_balanced_prefill_batch E ops ht queue full ad p n c =
     (let fs = \<lparr>fs_queue = queue, fs_full = full, fs_adder = ad, fs_pool = p, fs_cache = c,
                fs_bbf = \<lparr>bs_load_tokens = 0,
                          bs_compute_tokens = sum_list (map (\<lambda>r. max (extend_input_len r) 0) (can_run_list ad)),
                          loaded_segment_ids = []\<rparr>,
                fs_admitted = [], fs_deprioritized = [], fs_ticks = n\<rparr>
      in bindR (form_scan E ops ht (length queue) fs) (\<lambda>(stop, fs).
         if stop then Inr (True, fs) else backfill E ops ht (fs_deprioritized fs) fs))"

section \<open>Hybrid loading of a batch\<close>

definition online_hybrid_batch_tokens :: "req list \<Rightarrow> int \<times> int" where
  "online_hybrid_batch_tokens reqs =
     (sum_list (map (\<lambda>r. max (extend_input_len r) 0) reqs), sum_list (map (\<lambda>r. int (length (prefix_indices r))) reqs))"

definition PRELOAD_MIN_BATCH_COMPUTE_TOKENS :: int where
  "PRELOAD_MIN_BATCH_COMPUTE_TOKENS = 100"

definition hybrid_prefill_batch_compute_tokens :: "req list \<Rightarrow> int" where
  "hybrid_prefill_batch_compute_tokens reqs = sum_list (map (\<lambda>r. max (extend_input_len r) 0) reqs)"

definition should_hybrid_prefill_preload_batch :: "req list \<Rightarrow> bool" where
  "should_hybrid_prefill_preload_batch reqs \<longleftrightarrow>
     PRELOAD_MIN_BATCH_COMPUTE_TOKENS < hybrid_prefill_batch_compute_tokens reqs"

end
