(* ===== verification/SchedPolicy.thy ===== *)
theory SchedPolicy
  imports CacheOps "HOL-Library.List_Lexorder"
begin

text \<open>
  \<^verbatim>\<open>SchedulePolicy\<close> of \<^verbatim>\<open>managers/schedule_policy.py\<close>: the order in which waiting requests
  are considered. A cache-aware policy first matches every request against the prefix cache,
  and against a second radix tree of the waiting requests themselves, to hold back requests
  that would share a prefix computed in the same pass.
\<close>

section \<open>Configuration\<close>

datatype sched_mode = LPM | DFS_WEIGHT | FCFS | LOF | RANDOM | ROUTING_KEY

text \<open>
  The values from the environment. \<open>shuffle\<close> is \<^verbatim>\<open>random.shuffle\<close>; \<open>walk_fuel\<close> bounds the depth
  of the recursion over the tree.
\<close>

record policy_env =
  IN_BATCH_CHECK_THRESHOLD :: int
  IN_BATCH_DEPRIORITIZE_THRESHOLD :: nat
  RADIX_FORCE_MISS :: bool
  pe_clock :: pyenv
  shuffle :: "req list \<Rightarrow> req list"
  walk_fuel :: nat

record sched_policy =
  sp_policy :: sched_mode
  sp_enable_priority_scheduling :: bool
  sp_priority_sign :: int
  waiting_queue_radix_tree :: radix_cache

definition mode_of_string :: "string \<Rightarrow> sched_mode option" where
  "mode_of_string s =
     (if s = ''lpm'' then Some LPM else if s = ''dfs-weight'' then Some DFS_WEIGHT
      else if s = ''fcfs'' then Some FCFS else if s = ''lof'' then Some LOF
      else if s = ''random'' then Some RANDOM else if s = ''routing-key'' then Some ROUTING_KEY else None)"

definition cache_aware :: "sched_mode \<Rightarrow> bool" where
  "cache_aware m \<longleftrightarrow> m = LPM \<or> m = DFS_WEIGHT"

definition validate_and_adjust_policy :: "'c cache_ops \<Rightarrow> 'c \<Rightarrow> string \<Rightarrow> sched_mode result" where
  "validate_and_adjust_policy ops c policy =
     (case mode_of_string policy of
        None \<Rightarrow> Inl ValueError
      | Some m \<Rightarrow> Inr (if cache_aware m \<and> co_disable ops c then FCFS else m))"

text \<open>\<open>wt\<close> is the empty tree that \<^verbatim>\<open>RadixCache.create_simulated\<close> returns.\<close>

definition policy_init ::
  "'c cache_ops \<Rightarrow> 'c \<Rightarrow> string \<Rightarrow> bool \<Rightarrow> bool \<Rightarrow> radix_cache \<Rightarrow> sched_policy result" where
  "policy_init ops c policy priority_scheduling low_values_first wt =
     bindR (validate_and_adjust_policy ops c policy) (\<lambda>m.
       Inr \<lparr>sp_policy = m, sp_enable_priority_scheduling = priority_scheduling,
            sp_priority_sign = (if low_values_first then 1 else - 1), waiting_queue_radix_tree = wt\<rparr>)"

definition determine_active_policy :: "sched_policy \<Rightarrow> req list \<Rightarrow> sched_mode" where
  "determine_active_policy pol queue =
     (if sp_policy pol = LPM \<and> 128 < length queue then FCFS else sp_policy pol)"

section \<open>Prefix matches\<close>

definition match_prefix_for_req ::
  "policy_env \<Rightarrow> 'c cache_ops \<Rightarrow> req \<Rightarrow> int list option \<Rightarrow> 'c \<Rightarrow> (cache_match \<times> req \<times> 'c) result" where
  "match_prefix_for_req E ops r ids_opt c =
     (let ids = (case ids_opt of Some ids \<Rightarrow> ids | None \<Rightarrow> origin_input_ids r @ output_ids r)
      in bindR (co_match_prefix ops \<lparr>token_ids = ids, extra_key = rq_extra_key r, is_bigram = False\<rparr> c) (\<lambda>(m, c).
         let m = (if RADIX_FORCE_MISS E then zero_match_result ops c m else m);
             r = r\<lparr>prefix_indices := cm_device_indices m, last_node := cm_last_device_node m,
                   rq_last_host_node := cm_last_host_node m, rq_best_match_node := cm_best_match_node m,
                   rq_host_hit_length := cm_host_hit_length m\<rparr>;
             r = (case cm_cache_protected_len m of None \<Rightarrow> r | Some n \<Rightarrow> r\<lparr>cache_protected_len := n\<rparr>)
         in Inr (m, r, c)))"

text \<open>The match in the tree of waiting requests; the values stored there are not read.\<close>

definition in_batch_match ::
  "policy_env \<Rightarrow> int list \<Rightarrow> req \<Rightarrow> radix_cache \<Rightarrow> (bool \<times> radix_cache) result" where
  "in_batch_match E ids r wt =
     (let key = \<lparr>token_ids = ids, extra_key = rq_extra_key r, is_bigram = False\<rparr>
      in bindR (match_prefix (pe_clock E) key wt) (\<lambda>(m, wt).
         let matching = (if RADIX_FORCE_MISS E then [] else device_indices m)
         in if IN_BATCH_DEPRIORITIZE_THRESHOLD E \<le> length matching then Inr (True, wt)
            else bindR (rc_insert (pe_clock E) key (Some (replicate (length ids) 0)) (Some 0) False wt)
                   (\<lambda>(_, wt). Inr (False, wt))))"

definition prefix_match_step ::
  "policy_env \<Rightarrow> 'c cache_ops \<Rightarrow> req \<Rightarrow> req list \<times> string list \<times> 'c \<times> radix_cache \<Rightarrow>
   (req list \<times> string list \<times> 'c \<times> radix_cache) result" where
  "prefix_match_step E ops r st =
     (case st of (seen, deprioritized, c, wt) \<Rightarrow>
        let prefix_ids = origin_input_ids r @ output_ids r
        in bindR (match_prefix_for_req E ops r (Some prefix_ids) c) (\<lambda>(_, r, c).
           if int (length (prefix_indices r)) \<le> IN_BATCH_CHECK_THRESHOLD E
           then bindR (in_batch_match E prefix_ids r wt) (\<lambda>(shared, wt).
                Inr (seen @ [r], (if shared then deprioritized @ [rid r] else deprioritized), c, wt))
           else Inr (seen @ [r], deprioritized, c, wt)))"

definition compute_prefix_matches ::
  "policy_env \<Rightarrow> 'c cache_ops \<Rightarrow> req list \<Rightarrow> 'c \<Rightarrow> radix_cache \<Rightarrow>
   (req list \<times> string list \<times> 'c \<times> radix_cache) result" where
  "compute_prefix_matches E ops queue c wt =
     foldR (prefix_match_step E ops) queue ([], [], c, reset (pe_clock E) wt)"

section \<open>Sorting\<close>

text \<open>\<open>(1, 0)\<close> is \<^verbatim>\<open>float("inf")\<close>, which comes after every integer \<open>(0, n)\<close>.\<close>

definition lpm_key :: "string list \<Rightarrow> req \<Rightarrow> nat \<times> int" where
  "lpm_key deprioritized r =
     (if rid r \<in> set deprioritized then (1, 0) else (0, - int (length (prefix_indices r))))"

definition sort_by_longest_prefix :: "string list \<Rightarrow> req list \<Rightarrow> req list" where
  "sort_by_longest_prefix deprioritized queue = sort_key (lpm_key deprioritized) queue"

text \<open>A comparison key that is a product with a missing priority raises.\<close>

definition prio_key :: "int \<Rightarrow> req \<Rightarrow> int result" where
  "prio_key sign r = (case rq_priority r of None \<Rightarrow> Inl TypeError | Some p \<Rightarrow> Inr (p * sign))"

definition sort_by_keyR :: "(req \<Rightarrow> ('k::linorder) result) \<Rightarrow> req list \<Rightarrow> req list result" where
  "sort_by_keyR key queue =
     bindR (mapR (\<lambda>r. bindR (key r) (\<lambda>k. Inr (k, r))) queue) (\<lambda>keyed. Inr (map snd (sort_key fst keyed)))"

definition sort_by_longest_output :: "bool \<Rightarrow> int \<Rightarrow> req list \<Rightarrow> req list result" where
  "sort_by_longest_output priority_scheduling sign queue =
     (if priority_scheduling
      then sort_by_keyR (\<lambda>r. bindR (prio_key sign r) (\<lambda>p. Inr (p, - max_new_tokens r))) queue
      else Inr (sort_key (\<lambda>r. - max_new_tokens r) queue))"

definition sort_by_priority_and_fcfs :: "int \<Rightarrow> req list \<Rightarrow> req list result" where
  "sort_by_priority_and_fcfs sign queue =
     sort_by_keyR (\<lambda>r. bindR (prio_key sign r) (\<lambda>p. Inr (p, wait_queue_entry_time r))) queue"

definition code_points :: "string \<Rightarrow> nat list" where
  "code_points s = map of_char s"

definition key_or_empty :: "string option \<Rightarrow> string" where
  "key_or_empty k = (case k of None \<Rightarrow> [] | Some s \<Rightarrow> s)"

definition routing_counts :: "req list \<Rightarrow> string \<Rightarrow> nat" where
  "routing_counts running k = (if k = [] then 0 else length (filter (\<lambda>r. routing_key r = Some k) running))"

definition routing_sort_key :: "req list \<Rightarrow> req \<Rightarrow> nat \<times> int \<times> nat list" where
  "routing_sort_key running r =
     (let k = key_or_empty (routing_key r); n = routing_counts running k
      in if 0 < n then (0, - int n, code_points k) else (1, 0, code_points k))"

definition sort_by_routing_key :: "req list \<Rightarrow> req list \<Rightarrow> req list" where
  "sort_by_routing_key running queue =
     (if \<forall>r \<in> set running. key_or_empty (routing_key r) = [] then queue
      else sort_key (routing_sort_key running) queue)"

section \<open>Depth-first weights\<close>

fun calc_weight :: "nat \<Rightarrow> (nat \<Rightarrow> nat list) \<Rightarrow> nat \<Rightarrow> (nat \<Rightarrow> nat) \<Rightarrow> (nat \<Rightarrow> nat) result" where
  "calc_weight 0 ch n w = Inl OutOfFuel"
| "calc_weight (Suc fuel) ch n w =
     foldR (\<lambda>child w. bindR (calc_weight fuel ch child w) (\<lambda>w. Inr (w(n := w n + w child)))) (ch n) w"

fun get_dfs_priority ::
  "nat \<Rightarrow> (nat \<Rightarrow> nat list) \<Rightarrow> (nat \<Rightarrow> nat) \<Rightarrow> (nat \<Rightarrow> req list) \<Rightarrow> nat \<Rightarrow> req list \<Rightarrow> req list result" where
  "get_dfs_priority 0 ch w reqs_at n q = Inl OutOfFuel"
| "get_dfs_priority (Suc fuel) ch w reqs_at n q =
     bindR (foldR (get_dfs_priority fuel ch w reqs_at) (sort_key (\<lambda>x. - int (w x)) (ch n)) q)
       (\<lambda>q. Inr (q @ reqs_at n))"

definition sort_by_dfs_weight :: "policy_env \<Rightarrow> 'c cache_ops \<Rightarrow> req list \<Rightarrow> 'c \<Rightarrow> req list result" where
  "sort_by_dfs_weight E ops queue c =
     (let reqs_at = (\<lambda>n. filter (\<lambda>r. last_node r = Some n) queue);
          ch = co_children ops c; root = co_root_node ops c
      in bindR (calc_weight (walk_fuel E) ch root (\<lambda>n. length (reqs_at n))) (\<lambda>w.
         get_dfs_priority (walk_fuel E) ch w reqs_at root []))"

section \<open>The order of the queue\<close>

text \<open>
  The reordered queue, whether prefixes have been matched, and the new states. Without a
  running batch (\<open>None\<close>) the routing key policy leaves the queue as it is.
\<close>

definition calc_priority ::
  "policy_env \<Rightarrow> 'c cache_ops \<Rightarrow> req list option \<Rightarrow> req list \<Rightarrow> sched_policy \<Rightarrow> 'c \<Rightarrow>
   (bool \<times> req list \<times> sched_policy \<times> 'c) result" where
  "calc_priority E ops running queue pol c =
     (if sp_policy pol = FCFS
      then if sp_enable_priority_scheduling pol
           then bindR (sort_by_priority_and_fcfs (sp_priority_sign pol) queue) (\<lambda>q. Inr (False, q, pol, c))
           else Inr (False, queue, pol, c)
      else
        let policy = determine_active_policy pol queue
        in if cache_aware policy
           then bindR (compute_prefix_matches E ops queue c (waiting_queue_radix_tree pol)) (\<lambda>(q, dep, c, wt).
                let pol = pol\<lparr>waiting_queue_radix_tree := wt\<rparr>
                in if policy = LPM then Inr (True, sort_by_longest_prefix dep q, pol, c)
                   else bindR (sort_by_dfs_weight E ops q c) (\<lambda>q. Inr (True, q, pol, c)))
           else case policy of
             LOF \<Rightarrow> bindR (sort_by_longest_output (sp_enable_priority_scheduling pol) (sp_priority_sign pol) queue)
                     (\<lambda>q. Inr (False, q, pol, c))
           | RANDOM \<Rightarrow> Inr (False, shuffle E queue, pol, c)
           | ROUTING_KEY \<Rightarrow>
               Inr (False, (case running of None \<Rightarrow> queue | Some rs \<Rightarrow> sort_by_routing_key rs queue), pol, c)
           | _ \<Rightarrow> Inr (False, queue, pol, c))"

end
