(* ===== verification/SchedQueue.thy ===== *)
theory SchedQueue
  imports ReqLife PyFloat "HOL-Library.Product_Lexorder"
begin

text \<open>
  The waiting queue of \<^verbatim>\<open>Scheduler\<close> (\<^verbatim>\<open>managers/scheduler.py\<close>): how a request enters it, the
  default priority, the limit on its length and the timeouts, without disaggregation and
  without prefetching from storage. A message to the tokenizer is recorded as the id of the
  request and the text of its abort.
\<close>

section \<open>Configuration\<close>

record queue_env =
  enable_priority_scheduling :: bool
  schedule_low_priority_values_first :: bool
  abort_on_priority_when_disabled :: bool
  max_queued_requests :: "nat option"

type_synonym abort_msg = "string \<times> string"

definition PRIORITY_DISABLED :: string where
  "PRIORITY_DISABLED = ''Using priority is disabled for this server. Please send a new request without a priority.''"

definition QUEUE_FULL :: string where
  "QUEUE_FULL = ''The request queue is full.''"

definition ABORTED_BY_PRIORITY :: string where
  "ABORTED_BY_PRIORITY = ''The request is aborted by a higher priority request.''"

definition WAITING_TIMEOUT :: string where
  "WAITING_TIMEOUT = ''Request waiting timeout reached.''"

section \<open>Entering the queue\<close>

text \<open>\<open>None\<close> when the request is aborted.\<close>

definition set_or_validate_priority :: "queue_env \<Rightarrow> req \<Rightarrow> req option \<times> abort_msg list" where
  "set_or_validate_priority E r =
     (if enable_priority_scheduling E \<and> rq_priority r = None
      then (Some (r\<lparr>rq_priority := Some (if schedule_low_priority_values_first E then maxsize else - maxsize - 1)\<rparr>), [])
      else if \<not> enable_priority_scheduling E \<and> rq_priority r \<noteq> None \<and> abort_on_priority_when_disabled E
      then (None, [(rid r, PRIORITY_DISABLED)])
      else (Some r, []))"

text \<open>\<^verbatim>\<open>max\<close> of Python returns the first of the greatest elements.\<close>

fun max_index :: "('k::linorder) list \<Rightarrow> nat result" where
  "max_index [] = Inl ValueError"
| "max_index [k] = Inr 0"
| "max_index (k # k' # ks) = bindR (max_index (k' # ks)) (\<lambda>j. Inr (if k < (k' # ks) ! j then Suc j else 0))"

definition direction :: "queue_env \<Rightarrow> int" where
  "direction E = (if schedule_low_priority_values_first E then 1 else - 1)"

definition the_priority :: "req \<Rightarrow> int result" where
  "the_priority r = (case rq_priority r of None \<Rightarrow> Inl TypeError | Some p \<Rightarrow> Inr p)"

text \<open>Whether the incoming request is aborted, the queue and the messages.\<close>

definition abort_on_queued_limit ::
  "queue_env \<Rightarrow> req list \<Rightarrow> req \<Rightarrow> (bool \<times> req list \<times> abort_msg list) result" where
  "abort_on_queued_limit E queue r =
     (if (case max_queued_requests E of None \<Rightarrow> True | Some m \<Rightarrow> length queue + 1 \<le> m) then Inr (False, queue, [])
      else if \<not> enable_priority_scheduling E then Inr (True, queue, [(rid r, QUEUE_FULL)])
      else
        bindR (mapR (\<lambda>x. bindR (the_priority x) (\<lambda>p. Inr (direction E * p, wait_queue_entry_time x))) queue) (\<lambda>keys.
        bindR (max_index keys) (\<lambda>idx.
        let candidate = queue ! idx
        in bindR (the_priority r) (\<lambda>p.
           bindR (the_priority candidate) (\<lambda>q.
           if direction E * p < direction E * q
           then Inr (rid candidate = rid r, take idx queue @ drop (idx + 1) queue, [(rid candidate, ABORTED_BY_PRIORITY)])
           else Inr (True, queue, [(rid r, QUEUE_FULL)]))))))"

definition add_request_to_queue ::
  "queue_env \<Rightarrow> int \<Rightarrow> req \<Rightarrow> req list \<Rightarrow> (req list \<times> abort_msg list) result" where
  "add_request_to_queue E now r queue =
     (case set_or_validate_priority E r of
        (None, msgs) \<Rightarrow> Inr (queue, msgs)
      | (Some r, msgs) \<Rightarrow>
          bindR (abort_on_queued_limit E queue r) (\<lambda>(aborted, queue, msgs').
            if aborted then Inr (queue, msgs @ msgs')
            else Inr (queue @ [r\<lparr>wait_queue_entry_time := now\<rparr>],
                      msgs @ msgs')))"

section \<open>Timeouts\<close>

text \<open>Times and timeouts are in the units of the clock; a timeout that is not positive is off.\<close>

definition timed_out :: "int \<Rightarrow> int \<Rightarrow> req \<Rightarrow> bool" where
  "timed_out now timeout r \<longleftrightarrow> 0 < wait_queue_entry_time r \<and> wait_queue_entry_time r < now - timeout"

definition abort_on_waiting_timeout :: "int \<Rightarrow> int \<Rightarrow> req list \<Rightarrow> req list \<times> abort_msg list" where
  "abort_on_waiting_timeout now timeout queue =
     (if timeout \<le> 0 then (queue, [])
      else (filter (\<lambda>r. rid r \<notin> rid ` set (filter (timed_out now timeout) queue)) queue,
            map (\<lambda>r. (rid r, WAITING_TIMEOUT)) (filter (timed_out now timeout) queue)))"

definition RUNNING_TIMEOUT :: string where
  "RUNNING_TIMEOUT = ''Request running timeout reached.''"

text \<open>\<open>entry\<close> is the time at which a request entered its forward pass.\<close>

definition abort_on_running_timeout :: "int \<Rightarrow> int \<Rightarrow> (req \<Rightarrow> int) \<Rightarrow> req list \<Rightarrow> req list" where
  "abort_on_running_timeout now timeout entry reqs =
     (if timeout \<le> 0 then reqs
      else map (\<lambda>r. if \<not> is_finished r \<and> 0 < entry r \<and> entry r < now - timeout
                    then r\<lparr>to_finish := Some (FINISH_ABORT RUNNING_TIMEOUT)\<rparr> else r) reqs)"

end
