(* ===== verification/Scheduler.thy ===== *)
theory Scheduler
  imports Balanced SchedPolicy SchedQueue
begin

text \<open>
  One iteration of \<^verbatim>\<open>Scheduler\<close> (\<^verbatim>\<open>managers/scheduler.py\<close>): the next prefill batch, the update
  of the running batch, and the choice between the two in \<^verbatim>\<open>get_next_batch_to_run\<close>. There is
  no LoRA adapter, no disaggregated decoding, no diffusion model, no HiSparse coordinator and
  no synchronisation with other ranks, and \<^verbatim>\<open>SGLANG_TEST_RETRACT\<close> is off. Requests that are
  shared between queues and batches are identified by their \<^verbatim>\<open>rid\<close>.
\<close>

section \<open>Configuration and state\<close>

text \<open>The operations of the host tier that the scheduler calls when it is enabled.\<close>

record 'c hicache_hooks =
  hc_check_events :: "'c \<Rightarrow> 'c result"
  hc_flush_acks :: "'c \<Rightarrow> 'c result"
  hc_ready_to_load :: "req list \<Rightarrow> 'c \<Rightarrow> (bool \<times> 'c) result"
  hc_loading_finished :: "'c \<Rightarrow> bool"

record 'c sched_env =
  se_prefill :: prefill_env
  se_queue :: queue_env
  se_policy :: policy_env
  se_ops :: "'c cache_ops"
  se_host_tree :: "'c host_tree"
  se_hooks :: "'c hicache_hooks"
  se_gpu :: gpu
  se_triton :: bool
  se_vocab_size :: int
  se_page_size :: int
  max_prefill_tokens :: int
  chunked_prefill_size :: "int option"
  predict_next_chunk_size :: "nat \<Rightarrow> int option"
  se_max_running_requests :: int
  se_prefill_max_requests :: "nat option"
  se_preemption_threshold :: int
  se_context_parallel :: bool
  is_mixed_chunk :: bool
  enable_overlap :: bool
  io_backend_hybrid :: bool
  enable_hybrid_balanced_batch :: bool
  enable_hybrid_bubble_filling :: bool
  new_token_ratio_decay :: rat
  min_new_token_ratio :: rat
  waiting_timeout :: int
  running_timeout :: int
  forward_entry_time :: "req \<Rightarrow> int"
  max_pool_usage :: "'c \<Rightarrow> rat"
  delayer_debug_log :: bool
  delayer_has_collector :: bool
  delayer_now :: rat

text \<open>
  \<open>s_last_batch\<close> is the batch of the last iteration with its chunked request, if it was a
  prefill batch; \<open>s_pending_prefill\<close> is \<^verbatim>\<open>hybrid_bubble_pending_prefill_batch\<close>; \<open>s_pass\<close> is the
  delayer's object for the current pass.
\<close>

record 'c sched_state =
  s_waiting_queue :: "req list"
  s_running_batch :: sched_batch
  s_batch_is_full :: bool
  s_chunked_req :: "req option"
  s_chunked_scheduled :: bool
  s_last_batch :: "(sched_batch \<times> req option) option"
  s_pending_prefill :: "sched_batch option"
  s_needs_preload :: bool
  s_new_token_ratio :: rat
  s_policy :: sched_policy
  s_max_prefill_bs :: nat
  s_pool :: req_to_token_pool
  s_cache :: 'c
  s_sent :: "abort_msg list"
  s_ticks :: nat
  s_delayer :: "delayer option"
  s_pass :: "pass_executor option"

definition is_hybrid_balanced_prefill_enabled :: "'c sched_env \<Rightarrow> bool" where
  "is_hybrid_balanced_prefill_enabled E \<longleftrightarrow>
     enable_hierarchical_cache (se_prefill E) \<and> enable_hybrid_balanced_batch E \<and> io_backend_hybrid E"

definition is_hybrid_bubble_filling_enabled :: "'c sched_env \<Rightarrow> bool" where
  "is_hybrid_bubble_filling_enabled E \<longleftrightarrow>
     enable_hierarchical_cache (se_prefill E) \<and> enable_hybrid_bubble_filling E \<and> io_backend_hybrid E"

text \<open>
  The estimate of the share of its output that a running request still needs, its least value
  and its decay per step; the factors come from the environment and the server arguments.
\<close>

definition init_new_token_ratio :: "float_env \<Rightarrow> rat \<Rightarrow> rat \<Rightarrow> rat" where
  "init_new_token_ratio F init conservativeness = min (rnd F (init * conservativeness)) 1"

definition least_new_token_ratio :: "float_env \<Rightarrow> rat \<Rightarrow> rat \<Rightarrow> rat" where
  "least_new_token_ratio F init_ratio factor = min (rnd F (init_ratio * factor)) 1"

definition ratio_decay :: "float_env \<Rightarrow> rat \<Rightarrow> rat \<Rightarrow> nat \<Rightarrow> rat" where
  "ratio_decay F init_ratio least steps = rnd F (rnd F (init_ratio - least) / of_nat steps)"

definition now_of :: "'c sched_env \<Rightarrow> 'c sched_state \<Rightarrow> int" where
  "now_of E s = sched_clock (se_prefill E) (s_ticks s)"

definition enqueue_all :: "'c sched_env \<Rightarrow> req list \<Rightarrow> 'c sched_state \<Rightarrow> 'c sched_state result" where
  "enqueue_all E reqs s =
     foldR (\<lambda>r s. bindR (add_request_to_queue (se_queue E) (now_of E s) r (s_waiting_queue s)) (\<lambda>(q, msgs).
              Inr (s\<lparr>s_waiting_queue := q, s_sent := s_sent s @ msgs, s_ticks := s_ticks s + 1\<rparr>))) reqs s"

section \<open>The prefill batch\<close>

text \<open>The request of the list that is the same object, with its changes.\<close>

definition same_req :: "req list \<Rightarrow> req \<Rightarrow> req" where
  "same_req rs r = (case find (\<lambda>x. rid x = rid r) rs of Some x \<Rightarrow> x | None \<Rightarrow> r)"

text \<open>The chunked request of the last iteration is considered before the queue.\<close>

definition add_chunked ::
  "'c sched_env \<Rightarrow> req option \<Rightarrow> adder \<Rightarrow> 'c \<Rightarrow> (req option \<times> bool \<times> adder) result" where
  "add_chunked E chunked ad c =
     (case chunked of
        None \<Rightarrow> Inr (None, False, ad)
      | Some r \<Rightarrow>
          bindR (init_next_round_input (pf_force_miss (se_prefill E)) None r c) (\<lambda>(r, _).
          bindR (add_chunked_req (pf_adder (se_prefill E)) (se_ops E) r ad c) (\<lambda>(r', _, ad).
            Inr (r', (case r' of None \<Rightarrow> False | Some x \<Rightarrow> rid x \<in> rid ` set (can_run_list ad)), ad))))"

text \<open>The waiting queue is taken in order, or for a balanced batch.\<close>

definition take_requests ::
  "'c sched_env \<Rightarrow> adder \<Rightarrow> 'c sched_state \<Rightarrow> (adder \<times> 'c sched_state) result" where
  "take_requests E ad s =
     (if is_hybrid_balanced_prefill_enabled E
      then bindR (form_hybrid_balanced_prefill_batch (se_prefill E) (se_ops E) (se_host_tree E)
                    (s_waiting_queue s) (s_batch_is_full s) ad (s_pool s) (s_ticks s) (s_cache s)) (\<lambda>(_, fs).
           Inr (fs_adder fs, s\<lparr>s_waiting_queue := fs_queue fs, s_batch_is_full := fs_full fs, s_pool := fs_pool fs,
                               s_cache := fs_cache fs, s_ticks := fs_ticks fs\<rparr>))
      else bindR (scan_queue (se_prefill E) (se_ops E) (s_waiting_queue s) (s_batch_is_full s) ad (s_pool s) (s_cache s))
             (\<lambda>(q, _, full, ad, p, c).
           Inr (ad, s\<lparr>s_waiting_queue := q, s_batch_is_full := full, s_pool := p, s_cache := c\<rparr>)))"

text \<open>A running batch joins the prefill batch when chunks are mixed with decoding.\<close>

definition mix_running :: "'c sched_env \<Rightarrow> sched_batch \<Rightarrow> 'c sched_state \<Rightarrow> (sched_batch \<times> 'c sched_state) result" where
  "mix_running E b s =
     (let running = s_running_batch s
      in if is_mixed_chunk E \<and> b_reqs running \<noteq> [] \<and> \<not> (b_return_logprob b \<or> b_return_logprob running) \<and>
            \<not> (\<exists>r \<in> set (b_reqs b). has_input_embeds r \<and> 0 < extend_input_len r)
         then bindR (filter_batch [] None running) (\<lambda>running.
              bindR (if b_reqs running = [] then Inr (b, s_pool s, s_cache s)
                     else bindR (prepare_for_decode (se_ops E) (s_pool s) running (s_cache s)) (\<lambda>(running, p, c).
                          bindR (mix_with_running (enable_overlap E) b running) (\<lambda>b. Inr (b, p, c)))) (\<lambda>(b, p, c).
                Inr (b, s\<lparr>s_running_batch := init_new False [], s_pool := p, s_cache := c\<rparr>)))
         else Inr (b, s))"

text \<open>What is done with a non-empty list of admitted requests.\<close>

definition launch_prefill ::
  "'c sched_env \<Rightarrow> req option \<Rightarrow> bool \<Rightarrow> adder \<Rightarrow> 'c sched_state \<Rightarrow> (sched_batch \<times> 'c sched_state) result" where
  "launch_prefill E chunked scheduled ad s =
     (let reqs = can_run_list ad;
          s = s\<lparr>s_waiting_queue := filter (\<lambda>x. rid x \<notin> rid ` set reqs) (s_waiting_queue s)\<rparr>
      in bindR (enqueue_all E (preempt_list ad) s) (\<lambda>s.
         bindR (case new_chunked_req ad of
                  None \<Rightarrow> Inr (chunked, scheduled)
                | Some r \<Rightarrow> assertR (Option.is_none chunked) (Inr (Some r, True))) (\<lambda>(chunked, scheduled).
         let chunked = map_option (\<lambda>r. r\<lparr>rq_is_chunked := rq_is_chunked r + 1\<rparr>) chunked;
             reqs = (case chunked of None \<Rightarrow> reqs | Some r \<Rightarrow> map (\<lambda>x. if rid x = rid r then r else x) reqs);
             b = init_new (ra_has_spec (ba_release (ae_args (pf_adder (se_prefill E))))) reqs
         in bindR (if enable_hierarchical_cache (se_prefill E) then hc_ready_to_load (se_hooks E) reqs (s_cache s)
                   else Inr (False, s_cache s)) (\<lambda>(preload, c).
            bindR (prepare_for_extend (se_ops E) (se_triton E) (se_gpu E) (se_vocab_size E) (s_pool s) b c)
             (\<lambda>(b, _, p, c).
            mix_running E b (s\<lparr>s_chunked_req := map_option (same_req (b_reqs b)) chunked, s_chunked_scheduled := scheduled,
                s_needs_preload := preload, s_max_prefill_bs := max (s_max_prefill_bs s) (length reqs),
                s_pool := p, s_cache := c\<rparr>))))))"

text \<open>\<open>ready\<close> are the requests whose grammar has become available.\<close>

definition get_new_batch_prefill_raw ::
  "'c sched_env \<Rightarrow> req list \<Rightarrow> 'c sched_state \<Rightarrow> (sched_batch option \<times> 'c sched_state) result" where
  "get_new_batch_prefill_raw E ready s =
     bindR (enqueue_all E ready s) (\<lambda>s.
     bindR (if enable_hierarchical_cache (se_prefill E) then hc_check_events (se_hooks E) (s_cache s)
            else Inr (s_cache s)) (\<lambda>c.
     let s = s\<lparr>s_cache := c,
               s_batch_is_full := (s_batch_is_full s \<and> \<not> enable_priority_preemption (se_prefill E) \<and> \<not> co_is_swa (se_ops E))\<rparr>;
         running_bs = length (b_reqs (s_running_batch s))
     in if (s_batch_is_full s \<or> s_waiting_queue s = []) \<and> Option.is_none (s_chunked_req s) then Inr (None, s)
        else if get_num_allocatable_reqs (se_prefill E) (s_pool s) running_bs \<le> 0 \<and> Option.is_none (s_chunked_req s) \<and>
                \<not> enable_priority_preemption (se_prefill E)
        then Inr (None, s\<lparr>s_batch_is_full := True\<rparr>)
        else
          bindR (calc_priority (se_policy E) (se_ops E) (Some (b_reqs (s_running_batch s))) (s_waiting_queue s) (s_policy s) (s_cache s))
           (\<lambda>(_, q, pol, c).
          let s = s\<lparr>s_waiting_queue := q, s_policy := pol, s_cache := c\<rparr>;
              chunk_size = (case s_chunked_req s of
                              None \<Rightarrow> chunked_prefill_size E
                            | Some r \<Rightarrow> (case predict_next_chunk_size E (length (prefix_indices r)) of
                                           None \<Rightarrow> chunked_prefill_size E | Some n \<Rightarrow> Some n));
              ad = adder_init (pf_adder (se_prefill E)) (se_page_size E) (Some (s_running_batch s)) (s_new_token_ratio s)
                     (max_prefill_tokens E) chunk_size (if is_mixed_chunk E then int running_bs else 0)
                     (se_preemption_threshold E) (int (s_max_prefill_bs s)) (se_max_running_requests E)
                     (se_prefill_max_requests E) (s_pass s) None (int (length q)) (se_context_parallel E)
          in bindR (add_chunked E (s_chunked_req s) ad (s_cache s)) (\<lambda>(chunked, scheduled, ad).
             bindR (take_requests E ad s) (\<lambda>(ad, s).
             let s = s\<lparr>s_running_batch := or_default (ad_running_batch ad) (s_running_batch s),
                       s_chunked_req := chunked, s_chunked_scheduled := scheduled,
                       s_pass := prefill_delayer_single_pass ad\<rparr>
             in if can_run_list ad = [] then Inr (None, s)
                else bindR (launch_prefill E chunked scheduled ad s) (\<lambda>(b, s). Inr (Some b, s)))))))"

definition get_new_batch_prefill ::
  "'c sched_env \<Rightarrow> req list \<Rightarrow> 'c sched_state \<Rightarrow> (sched_batch option \<times> 'c sched_state) result" where
  "get_new_batch_prefill E ready s =
     bindR (get_new_batch_prefill_raw E ready
              (s\<lparr>s_pass := map_option (\<lambda>dl. executor_init dl (max_pool_usage E (s_cache s))) (s_delayer s)\<rparr>)) (\<lambda>(b, s).
       case s_pass s of
         None \<Rightarrow> Inr (b, s)
       | Some ex \<Rightarrow>
           bindR (finalize (ae_float (pf_adder (se_prefill E))) (delayer_debug_log E) (delayer_has_collector E) (delayer_now E)
                    (\<not> Option.is_none b) (ae_pass (pf_adder (se_prefill E))) ex) (\<lambda>ex.
             Inr (b, s\<lparr>s_delayer := Some (ex_delayer ex), s_pass := None\<rparr>)))"

section \<open>The running batch\<close>

text \<open>\<open>message_of\<close> is the text of an abort.\<close>

definition message_of :: "req \<Rightarrow> string" where
  "message_of r = (case to_finish r of Some (FINISH_ABORT msg) \<Rightarrow> msg | _ \<Rightarrow> [])"

definition update_running_batch :: "'c sched_env \<Rightarrow> 'c sched_state \<Rightarrow> 'c sched_state result" where
  "update_running_batch E s =
     (let initial_bs = length (b_reqs (s_running_batch s)); F = ae_float (pf_adder (se_prefill E));
          args = ae_args (pf_adder (se_prefill E)); ops = se_ops E
      in bindR (filter_batch [] None (s_running_batch s)) (\<lambda>b.
         if b_reqs b = [] then Inr (s\<lparr>s_running_batch := b, s_batch_is_full := False\<rparr>)
         else
           bindR (if enable_hierarchical_cache (se_prefill E) then hc_flush_acks (se_hooks E) (s_cache s) else Inr (s_cache s)) (\<lambda>c.
           bindR (check_decode_mem ops args (b_reqs b) None c) (\<lambda>(fits, c).
           bindR (if fits
                  then Inr (s\<lparr>s_running_batch := b, s_cache := c,
                              s_new_token_ratio := max (rnd F (s_new_token_ratio s - new_token_ratio_decay E)) (min_new_token_ratio E)\<rparr>)
                  else bindR (retract_decode F ops args (s_pool s) b c) (\<lambda>(retracted, ratio, aborted, p, b, c).
                       enqueue_all E retracted
                         (s\<lparr>s_running_batch := b, s_pool := p, s_cache := c, s_new_token_ratio := ratio,
                            s_sent := s_sent s @ map (\<lambda>r. (rid r, message_of r)) aborted\<rparr>))) (\<lambda>s.
           let b = s_running_batch s;
               s = (if length (b_reqs b) < initial_bs then s\<lparr>s_batch_is_full := False\<rparr> else s)
           in if b_reqs b = [] then Inr s
              else bindR (prepare_for_decode ops (s_pool s) b (s_cache s)) (\<lambda>(b, p, c).
                   Inr (s\<lparr>s_running_batch := b, s_pool := p, s_cache := c\<rparr>)))))))"

section \<open>The next batch\<close>

text \<open>The prefill batch of the last iteration joins the running batch.\<close>

definition merge_last_batch :: "req list \<Rightarrow> 'c sched_state \<Rightarrow> 'c sched_state result" where
  "merge_last_batch exclude s =
     (case s_last_batch s of
        None \<Rightarrow> Inr s
      | Some (b, chunked) \<Rightarrow>
          bindR (filter_batch (exclude @ (case chunked of None \<Rightarrow> [] | Some r \<Rightarrow> [r])) None b) (\<lambda>b'.
          let s = s\<lparr>s_last_batch := Some (b', chunked),
                    s_batch_is_full := (s_batch_is_full s \<and> length (b_reqs b) \<le> length (b_reqs b'))\<rparr>
          in if b_reqs b' = [] then Inr s
             else if b_reqs (s_running_batch s) = [] then Inr (s\<lparr>s_running_batch := b', s_batch_is_full := False\<rparr>)
             else bindR (merge_batch (s_running_batch s) b') (\<lambda>b. Inr (s\<lparr>s_running_batch := b\<rparr>))))"

definition decode_step :: "'c sched_env \<Rightarrow> 'c sched_state \<Rightarrow> (sched_batch option \<times> 'c sched_state) result" where
  "decode_step E s =
     (if b_reqs (s_running_batch s) = [] \<or> b_is_prefill_only (s_running_batch s) then Inr (None, s)
      else bindR (update_running_batch E s) (\<lambda>s.
           Inr (if b_reqs (s_running_batch s) = [] then None else Some (s_running_batch s), s)))"

text \<open>Whether decoding fills the time in which the prefill batch still loads its prefix.\<close>

definition should_hybrid_bubble_fill_prefill :: "'c sched_env \<Rightarrow> 'c sched_state \<Rightarrow> bool" where
  "should_hybrid_bubble_fill_prefill E s \<longleftrightarrow>
     is_hybrid_bubble_filling_enabled E \<and> s_needs_preload s \<and>
     \<not> hc_loading_finished (se_hooks E) (s_cache s)"

definition get_next_batch_to_run ::
  "'c sched_env \<Rightarrow> req list \<Rightarrow> 'c sched_state \<Rightarrow> (sched_batch option \<times> 'c sched_state) result" where
  "get_next_batch_to_run E ready s =
     (let (q, msgs) = abort_on_waiting_timeout (now_of E s) (waiting_timeout E) (s_waiting_queue s);
          s = s\<lparr>s_waiting_queue := q, s_sent := s_sent s @ msgs, s_ticks := s_ticks s + 1\<rparr>;
          s = s\<lparr>s_running_batch := (s_running_batch s)\<lparr>b_reqs :=
                  abort_on_running_timeout (now_of E s) (running_timeout E) (forward_entry_time E) (b_reqs (s_running_batch s))\<rparr>,
                s_ticks := s_ticks s + 1\<rparr>
      in bindR (case s_chunked_req s of
                  None \<Rightarrow> Inr s
                | Some r \<Rightarrow>
                    if s_chunked_scheduled s
                    then bindR (maybe_cache_unfinished_req (se_ops E) (s_pool s) r True (s_cache s)) (\<lambda>(p, r, c).
                         Inr (s\<lparr>s_chunked_req := Some r, s_pool := p, s_cache := c\<rparr>))
                    else Inr s) (\<lambda>s.
         bindR (merge_last_batch (case s_chunked_req s of None \<Rightarrow> [] | Some r \<Rightarrow> [r]) s) (\<lambda>s.
         bindR (if b_is_prefill_only (s_running_batch s)
                then bindR (filter_batch [] None (s_running_batch s)) (\<lambda>b.
                     Inr (s\<lparr>s_running_batch := b, s_batch_is_full := (s_batch_is_full s \<and> b_reqs b \<noteq> [])\<rparr>))
                else Inr s) (\<lambda>s.
         bindR (case s_pending_prefill s of
                  Some b \<Rightarrow> Inr (Some b, s) | None \<Rightarrow> get_new_batch_prefill E ready s) (\<lambda>(new_batch, s).
         case new_batch of
           None \<Rightarrow> decode_step E s
         | Some b \<Rightarrow>
             if should_hybrid_bubble_fill_prefill E s
             then bindR (decode_step E s) (\<lambda>(d, s).
                  case d of
                    Some db \<Rightarrow> Inr (Some db, s\<lparr>s_pending_prefill := Some b\<rparr>)
                  | None \<Rightarrow> Inr (Some b, s\<lparr>s_pending_prefill := None\<rparr>))
             else Inr (Some b, s\<lparr>s_pending_prefill := None\<rparr>))))))"

end
