(* ===== verification/SchedProps.thy ===== *)
theory SchedProps
  imports PrefillProps Scheduler
begin

text \<open>
  A prefill round of the scheduler on any prefix cache: the budget of the adder, the rows of
  the request pool and the slots of the cache fit together, so that the batch that the round
  has chosen can be prepared, and no request of the waiting queue is lost or overtaken.
\<close>

section \<open>A plain configuration\<close>

text \<open>
  First come, first served; no preemption, no host tier and no mixing with decode steps. The
  page size is that of the cache.
\<close>

definition plain_sched :: "'c sched_env \<Rightarrow> bool" where
  "plain_sched E \<longleftrightarrow> \<not> enable_hierarchical_cache (se_prefill E) \<and> \<not> enable_priority_preemption (se_prefill E) \<and>
     \<not> is_mixed_chunk E \<and> (\<forall>a. truncation_align_size (se_prefill E) = Some a \<longrightarrow> 0 < a) \<and>
     sane_env (pf_adder (se_prefill E)) \<and> se_page_size E \<le> 2 ^ 50 \<and> (\<forall>n. set (g_order (se_gpu E) n) = {..<n})"

text \<open>
  A state between two rounds: no chunked request, the rows of the pool belong to the running
  requests, and every waiting request fits a row.
\<close>

definition fcfs_state :: "'c sched_state \<Rightarrow> bool" where
  "fcfs_state s \<longleftrightarrow> sp_policy (s_policy s) = FCFS \<and> \<not> sp_enable_priority_scheduling (s_policy s) \<and>
     s_chunked_req s = None \<and> s_pass s = None \<and> 0 \<le> s_new_token_ratio s \<and>
     (\<forall>r \<in> set (b_reqs (s_running_batch s)). int (length (output_ids r)) \<le> max_new_tokens r) \<and>
     rp_inv (s_pool s) (b_reqs (s_running_batch s)) \<and>
     (\<forall>i. length (req_to_token (s_pool s) i) = rp_max_context_len (s_pool s)) \<and>
     (\<forall>r \<in> set (s_waiting_queue s). new_req_ok (rp_max_context_len (s_pool s)) r) \<and> distinct (map rid (s_waiting_queue s))"

section \<open>The input of a request\<close>

lemma init_next_round_result:
  assumes "init_next_round_input fm (Some ops) r c = Inr (r', c')"
  obtains key m where "co_match_prefix ops key c = Inr (m, c')" "\<not> is_bigram key"
    "last_node r' = cm_last_device_node (if fm then zero_match_result ops c' m else m)"
    "prefix_indices r' = cm_device_indices (if fm then zero_match_result ops c' m else m)"
    "fill_ids r' = origin_input_ids r @ output_ids r" "output_ids r' = output_ids r"
    "max_new_tokens r' = max_new_tokens r" "rq_sampling r' = rq_sampling r" "rid r' = rid r"
proof -
  define r1 where "r1 = (let r = r\<lparr>fill_ids := origin_input_ids r @ output_ids r\<rparr>
     in if in_streaming_session r \<and> return_logprob r \<and> 0 \<le> logprob_start_len r then r\<lparr>logprob_start_len := - 1\<rparr> else r)"
  define key where "key = \<lparr>token_ids = (if has_embed_overrides r1 then [] else take (nat (max_prefix_len r1)) (fill_ids r1)),
     extra_key = rq_extra_key r1, is_bigram = False\<rparr>"
  have r1: "fill_ids r1 = origin_input_ids r @ output_ids r" "output_ids r1 = output_ids r"
    "max_new_tokens r1 = max_new_tokens r" "rq_sampling r1 = rq_sampling r" "rid r1 = rid r"
    by (simp_all add: r1_def Let_def)
  obtain m where m: "co_match_prefix ops key c = Inr (m, c')"
    and r': "\<exists>x n. r' = set_extend_input_len n (x\<lparr>prefix_indices := cm_device_indices (if fm then zero_match_result ops c' m else m),
        last_node := cm_last_device_node (if fm then zero_match_result ops c' m else m),
        rq_last_host_node := cm_last_host_node (if fm then zero_match_result ops c' m else m),
        rq_best_match_node := cm_best_match_node (if fm then zero_match_result ops c' m else m),
        rq_host_hit_length := cm_host_hit_length (if fm then zero_match_result ops c' m else m),
        cache_protected_len := (case cm_cache_protected_len (if fm then zero_match_result ops c' m else m) of Some n \<Rightarrow> n
          | None \<Rightarrow> length (cm_device_indices (if fm then zero_match_result ops c' m else m)))\<rparr>) \<and> x = r1"
    using assms unfolding init_next_round_input_def Let_def r1_def[unfolded Let_def, symmetric] key_def[symmetric] option.case
    by (clarsimp simp: bindR_eq_Inr) blast
  show thesis
    by (rule that[OF m]) (use r' r1 in \<open>auto simp: key_def set_extend_input_len_def Let_def\<close>)
qed

section \<open>The start of the budget\<close>

lemma running_offset_nonneg:
  assumes "sane_env E" "0 \<le> ratio" "int (length (output_ids r)) \<le> max_new_tokens r"
  shows "0 \<le> running_request_total_token_offset E ratio r"
proof -
  have F: "rounding (ae_float E)" using assms(1) by (simp add: sane_env_def)
  let ?n = "min (max_new_tokens r - int (length (output_ids r))) (CLIP_MAX_NEW_TOKENS E)"
  have "0 \<le> ?n" using assms(1,3) by (simp add: sane_env_def)
  then have "0 \<le> fint (ae_float E) ?n" using rounding_ge[OF F, of 0 "of_int ?n"] by (simp add: fint_def)
  then have "of_int 0 \<le> fint (ae_float E) ?n * ratio" using assms(2) by simp
  from rounding_ge[OF F this] show ?thesis by (simp add: running_request_total_token_offset_def Let_def)
qed

lemma init_offset_nonneg:
  assumes "sane_env E" "0 \<le> ratio" "\<forall>r \<in> set (b_reqs b). int (length (output_ids r)) \<le> max_new_tokens r"
  shows "0 \<le> num_val (rem_total_token_offset (adder_init E ps (Some b) ratio it ch 0 th pbs mr mx sp dl ql cp))"
proof -
  have F: "rounding (ae_float E)" using assms(1) by (simp add: sane_env_def)
  let ?xs = "map (running_request_total_token_offset E ratio) (b_reqs b)"
  have "0 \<le> fsum (ae_float E) ?xs"
    using assms running_offset_nonneg[OF assms(1,2)] by (auto simp: sane_env_def)
  then have "of_int 0 \<le> num_flt (ae_float E) (PyInt 0) + fsum (ae_float E) ?xs"
    using num_flt_exact[OF F, of 0] by simp
  from rounding_ge[OF F this] show ?thesis by (simp add: adder_init_def Let_def num_sum_def)
qed

section \<open>Lists of requests\<close>

lemma filter_taken:
  assumes "distinct (map f xs)" "f ` set rs = set (take k (map f xs))"
  shows "map f (filter (\<lambda>x. f x \<notin> f ` set rs) xs) = drop k (map f xs)"
proof -
  have "map f (filter (\<lambda>x. f x \<notin> f ` set rs) xs) = filter (\<lambda>y. y \<notin> set (take k (map f xs))) (map f xs)"
    by (simp add: filter_map o_def assms(2))
  also have "\<dots> = filter (\<lambda>y. y \<notin> set (take k (map f xs))) (take k (map f xs)) @
      filter (\<lambda>y. y \<notin> set (take k (map f xs))) (drop k (map f xs))"
    by (metis append_take_drop_id filter_append)
  also have "\<dots> = drop k (map f xs)"
  proof -
    have "set (take k (map f xs)) \<inter> set (drop k (map f xs)) = {}"
      using assms(1) set_take_disj_set_drop_if_distinct by blast
    then have "filter (\<lambda>y. y \<notin> set (take k (map f xs))) (drop k (map f xs)) = drop k (map f xs)"
      by (intro filter_True) blast
    moreover have "filter (\<lambda>y. y \<notin> set (take k (map f xs))) (take k (map f xs)) = []" by (simp add: filter_empty_conv)
    ultimately show ?thesis by simp
  qed
  finally show ?thesis .
qed

text \<open>The chunked request is counted in the list of the admitted requests.\<close>

definition count_chunk :: "req option \<Rightarrow> req list \<Rightarrow> req list" where
  "count_chunk ch rs = (case ch of None \<Rightarrow> rs
     | Some x \<Rightarrow> map (\<lambda>y. if rid y = rid x then y\<lparr>rq_is_chunked := rq_is_chunked y + 1\<rparr> else y) rs)"

lemma count_chunk_replaces:
  assumes "distinct (map rid rs)" "x \<in> set rs"
  shows "map (\<lambda>y. if rid y = rid x then x\<lparr>rq_is_chunked := rq_is_chunked x + 1\<rparr> else y) rs = count_chunk (Some x) rs"
  using assms by (auto simp: count_chunk_def distinct_map inj_on_def)

lemma count_chunk_sound:
  assumes "adder_sound M ops ad c"
  shows "adder_sound M ops (ad\<lparr>can_run_list := count_chunk ch (can_run_list ad)\<rparr>) c"
proof (cases ch)
  case (Some x)
  have need: "batch_need ps (map (\<lambda>y. if rid y = rid x then y\<lparr>rq_is_chunked := rq_is_chunked y + 1\<rparr> else y) rs) = batch_need ps rs" for ps rs
    by (auto simp: batch_need_def o_def intro!: arg_cong[of _ _ sum_list])
  have paged: "paged_req M ps (y\<lparr>rq_is_chunked := n\<rparr>) = paged_req M ps y" for ps y n
    by (simp add: paged_req_def)
  show ?thesis
    using assms Some by (auto simp: adder_sound_def count_chunk_def Let_def need paged)
qed (use assms in \<open>simp add: count_chunk_def\<close>)

lemma count_chunk_rids [simp]: "map rid (count_chunk ch rs) = map rid rs" "length (count_chunk ch rs) = length rs"
  by (auto simp: count_chunk_def split: option.splits)

section \<open>A prefill round\<close>

text \<open>
  What a round promises: the batch is a front part of the queue, in its order, the rest stays
  in the queue, and the batch is prepared.
\<close>

definition round_done :: "req list \<Rightarrow> req_to_token_pool \<Rightarrow> sched_batch option \<Rightarrow> 'c sched_state \<Rightarrow> bool" where
  "round_done queue p res s \<longleftrightarrow>
     (case res of
        None \<Rightarrow> map rid (s_waiting_queue s) = map rid queue
      | Some b \<Rightarrow> b_reqs b \<noteq> [] \<and> map rid (b_reqs b) @ map rid (s_waiting_queue s) = map rid queue \<and>
          (\<exists>rs. batch_ready rs b p (s_pool s)))"

lemma batch_ready_rids: "batch_ready rs b p p' \<Longrightarrow> map rid (b_reqs b) = map rid rs"
  by (auto simp: batch_ready_def extended_def intro!: nth_equalityI)

context prefix_cache
begin

lemma launch_prefill_ready:
  assumes E: "plain_sched E" "se_ops E = ops"
    and s: "inv (s_cache s) L" "adder_sound M ops ad (s_cache s)" "length (can_run_list ad) \<le> rp_available_size (s_pool s)"
      "rp_inv (s_pool s) others" "M \<le> rp_max_context_len (s_pool s)"
      "\<forall>i. length (req_to_token (s_pool s) i) = rp_max_context_len (s_pool s)"
    and ad: "preempt_list ad = []" "new_chunked_req ad = None \<or> (\<exists>x \<in> set (can_run_list ad). new_chunked_req ad = Some x)"
      "can_run_list ad \<noteq> []"
    and q: "distinct (map rid (s_waiting_queue s))" "map rid (can_run_list ad) = take k (map rid (s_waiting_queue s))"
  shows "\<exists>b s'. launch_prefill E None False ad s = Inr (b, s') \<and> round_done (s_waiting_queue s) (s_pool s) (Some b) s'"
proof -
  let ?reqs = "can_run_list ad" and ?rs = "count_chunk (new_chunked_req ad) (can_run_list ad)"
  let ?rest = "filter (\<lambda>x. rid x \<notin> rid ` set ?reqs) (s_waiting_queue s)"
  let ?ad = "ad\<lparr>can_run_list := ?rs\<rparr>"
  have "distinct (map rid ?reqs)" using q by (metis distinct_take)
  note replaced = count_chunk_replaces[OF this]
  have rest: "map rid ?rest = drop k (map rid (s_waiting_queue s))"
    using filter_taken[OF q(1), of ?reqs k] q(2) by (metis set_map)
  have g: "set (g_order (se_gpu E) n) = {..<n}" for n using E(1) by (simp add: plain_sched_def)
  obtain b ids p' c' where b: "prepare_for_extend ops (se_triton E) (se_gpu E) (se_vocab_size E) (s_pool s)
      (init_new (ra_has_spec (ba_release (ae_args (pf_adder (se_prefill E))))) ?rs) (s_cache s) = Inr (b, ids, p', c')"
    "batch_ready ?rs b (s_pool s) p'"
    using prepare_for_extend_ready[OF s(1) count_chunk_sound[OF s(2)] _ s(4-6) g] s(3) by fastforce
  have rids: "map rid (b_reqs b) = map rid ?reqs" using batch_ready_rids[OF b(2)] by simp
  then have ne: "b_reqs b \<noteq> []" using ad(3) by auto
  have "\<exists>s'. launch_prefill E None False ad s = Inr (b, s') \<and> s_waiting_queue s' = ?rest \<and> s_pool s' = p'"
  proof (cases "new_chunked_req ad")
    case None
    then have "?rs = ?reqs" by (simp add: count_chunk_def)
    then show ?thesis
      using E b(1) None ad(1) by (simp add: launch_prefill_def Let_def enqueue_all_def plain_sched_def mix_running_def)
  next
    case (Some x)
    then have r: "map (\<lambda>y. if rid y = rid x then x\<lparr>rq_is_chunked := Suc (rq_is_chunked x)\<rparr> else y) ?reqs = ?rs"
      using ad(2) replaced unfolding Suc_eq_plus1 by auto
    show ?thesis
      using E b(1) Some ad(1) r
      by (simp add: launch_prefill_def Let_def enqueue_all_def plain_sched_def mix_running_def assertR_def)
  qed
  then show ?thesis
    using b(2) rest rids ne q(2) by (force simp: round_done_def)
qed

lemma prefill_round_ok:
  assumes E: "plain_sched E" "se_ops E = ops" "se_page_size E = int (co_alloc_page_size ops (s_cache s))"
    and s: "fcfs_state s" "inv (s_cache s) L" "capacity (s_cache s) \<le> 2 ^ 50"
  shows "\<exists>res s'. get_new_batch_prefill_raw E [] s = Inr (res, s') \<and> round_done (s_waiting_queue s) (s_pool s) res s'"
proof -
  let ?M = "rp_max_context_len (s_pool s)" and ?b = "s_running_batch s" and ?q = "s_waiting_queue s"
  let ?ad = "adder_init (pf_adder (se_prefill E)) (se_page_size E) (Some ?b) (s_new_token_ratio s) (max_prefill_tokens E)
     (chunked_prefill_size E) 0 (se_preemption_threshold E) (int (s_max_prefill_bs s)) (se_max_running_requests E)
     (se_prefill_max_requests E) None None (int (length ?q)) (se_context_parallel E)"
  let ?full = "s_batch_is_full s"
  have swa: "\<not> co_is_swa ops" by (rule plain(1))
  have sane: "sane_env (pf_adder (se_prefill E))" and conf: "\<not> enable_hierarchical_cache (se_prefill E)"
    "\<not> enable_priority_preemption (se_prefill E)" "\<not> is_mixed_chunk E" "\<forall>a. truncation_align_size (se_prefill E) = Some a \<longrightarrow> 0 < a"
    "se_page_size E \<le> 2 ^ 50"
    using E(1) by (simp_all add: plain_sched_def)
  have pol: "sp_policy (s_policy s) = FCFS" "\<not> sp_enable_priority_scheduling (s_policy s)" "s_chunked_req s = None" "s_pass s = None"
    "distinct (map rid ?q)" "\<forall>r \<in> set ?q. new_req_ok ?M r" "rp_inv (s_pool s) (b_reqs ?b)"
    "\<forall>i. length (req_to_token (s_pool s) i) = ?M"
    using s(1) by (simp_all add: fcfs_state_def)
  define ad0 where "ad0 = ?ad"
  have init: "ad_page_size ad0 \<le> 2 ^ 50" "ad_running_batch ad0 = Some ?b" "can_run_list ad0 = []" "preempt_list ad0 = []"
    "new_chunked_req ad0 = None"
    using conf(5) by (simp_all add: ad0_def adder_init_def Let_def)
  have sound: "adder_sound ?M ops ad0 (s_cache s)"
    using init_offset_nonneg[OF sane, of "s_new_token_ratio s" ?b] s(1) E(3)
    by (simp add: adder_sound_def batch_need_def fcfs_state_def ad0_def adder_init_def Let_def)
  obtain q stop full ad c' L' k where scan: "scan_queue (se_prefill E) ops ?q ?full ad0 (s_pool s) (s_cache s) = Inr (q, stop, full, ad, s_pool s, c')"
    "inv c' L'" "adder_sound ?M ops ad c'" "ad_running_batch ad = Some ?b" "length (can_run_list ad) \<le> rp_available_size (s_pool s)"
    "map rid (can_run_list ad) = take k (map rid ?q)" "map rid q = map rid ?q" "preempt_list ad = []"
    "new_chunked_req ad = None \<or> (\<exists>x \<in> set (can_run_list ad). new_chunked_req ad = Some x)"
    using scan_sound[OF sane conf(2,4) s(2,3) sound init(1,2) _ pol(6), of "s_pool s" ?full, unfolded init(3-5) list.map append_Nil]
    by (simp only: list.size zero_le) blast
  let ?s = "s\<lparr>s_waiting_queue := q, s_batch_is_full := full, s_pool := s_pool s, s_cache := c', s_running_batch := ?b,
      s_chunked_req := None, s_chunked_scheduled := False, s_pass := prefill_delayer_single_pass ad\<rparr>"
  consider "?full \<or> ?q = []" | "\<not> (?full \<or> ?q = [])" "get_num_allocatable_reqs (se_prefill E) (s_pool s) (length (b_reqs ?b)) \<le> 0"
    | "\<not> (?full \<or> ?q = [])" "\<not> get_num_allocatable_reqs (se_prefill E) (s_pool s) (length (b_reqs ?b)) \<le> 0"
    by blast
  then show ?thesis
  proof cases
    case 1
    then show ?thesis
      using E(2) swa conf(1,2) pol(3) by (auto simp: get_new_batch_prefill_raw_def enqueue_all_def Let_def round_done_def)
  next
    case 2
    then show ?thesis
      using E(2) swa conf(1,2) pol(3) by (auto simp: get_new_batch_prefill_raw_def enqueue_all_def Let_def round_done_def)
  next
    case 3
    have run: "get_new_batch_prefill_raw E [] s = (if can_run_list ad = [] then Inr (None, ?s)
        else bindR (launch_prefill E None False ad ?s) (\<lambda>(b, s). Inr (Some b, s)))"
      using E(2) swa conf(1-3) pol(1-4) 3 scan(1,4) ad0_def
      by (simp add: get_new_batch_prefill_raw_def enqueue_all_def Let_def calc_priority_def add_chunked_def take_requests_def
          is_hybrid_balanced_prefill_enabled_def or_default_def)
    show ?thesis
    proof (cases "can_run_list ad = []")
      case True
      then show ?thesis using run scan(7) by (simp add: round_done_def)
    next
      case False
      have "\<exists>b s'. launch_prefill E None False ad ?s = Inr (b, s') \<and> round_done q (s_pool s) (Some b) s'"
        using launch_prefill_ready[OF E(1,2), of ?s L' ?M ad "b_reqs ?b" k] scan pol(5,7,8) False by simp
      then show ?thesis using run False scan(7) by (auto simp: round_done_def)
    qed
  qed
qed

end

end
