(* ===== verification/CacheInst.thy ===== *)
theory CacheInst
  imports SchedProps RadixSpec
begin

text \<open>
  The radix cache and the chunk cache satisfy the interface of \<open>CacheSpec\<close>. The laws come from
  the invariants of the allocator and of the radix tree; what is assumed of the Python runtime
  (iterating over a set yields its elements) and of the GPU (a launch runs every program) is
  part of the invariant.
\<close>

section \<open>Allocating from a pool that is large enough\<close>

lemma kv_available:
  assumes "kv_inv a"
  shows "kv_available_size a = card (al_avail a) * al_page_size a"
proof -
  have "card (al_avail a) = length (free_pages a) + length (release_pages a)"
    using assms distinct_card[of "al_pages a"] by (simp add: kv_inv_def alloc_inv_def al_avail_def) (simp add: al_pages_def)
  then show ?thesis by (simp add: kv_available_size_def tk_available_size_def available_size_def)
qed

lemma tk_alloc_enough:
  assumes "kv_inv a" "al_page_size a = 1" "n \<le> kv_available_size a"
  shows "\<exists>out a'. kv_alloc a n = Inr (Some out, a') \<and> length out = n \<and> distinct out"
proof -
  let ?b = "if al_need_sort a \<and> length (free_pages a) < n then merge_and_sort_free a else a"
  have "n \<le> length (free_pages ?b)"
  proof (cases "al_need_sort a \<and> length (free_pages a) < n")
    case True
    have "size (mset (al_pages (merge_and_sort_free a))) = size (mset (al_pages a))" by (simp only: merge_pages(1))
    then show ?thesis
      using True merge_pages(4)[of a] assms(2,3) by (simp add: al_pages_def kv_available_size_def tk_available_size_def)
  next
    case False
    then show ?thesis
      using assms by (auto simp: kv_inv_def alloc_inv_def kv_available_size_def tk_available_size_def)
  qed
  moreover have "distinct (free_pages ?b)"
    using refill_inv(1)[of a "length (free_pages a) < n"] assms(1) by (simp add: kv_inv_def alloc_inv_def al_pages_def)
  ultimately show ?thesis
    using assms(2) by (auto simp: kv_alloc_def tk_alloc_def Let_def min_absorb2)
qed

lemma cdiv_aligned:
  assumes "0 < ps" "p mod ps = 0"
  shows "(cdiv s ps - cdiv p ps) * ps = ceil_to ps (s - p)"
proof -
  obtain q where q: "p = q * ps" using assms(2) by (metis mod_0_imp_dvd dvdE mult.commute)
  have "cdiv p ps * ps = p" using ceil_to_cdiv[OF assms(1), of p] assms(1) by (simp add: q ceil_to_def)
  moreover have "ceil_to ps (s - p) = ceil_to ps s - p"
  proof -
    have "(- (s - p)) div ps = (- s) div ps + q"
      using div_mult_self1[of ps "- s" q] assms(1) by (simp add: q)
    then show ?thesis by (simp add: ceil_to_def q algebra_simps)
  qed
  ultimately show ?thesis using ceil_to_cdiv[OF assms(1), of s] by (simp add: left_diff_distrib)
qed

lemma paged_batch_pages:
  assumes "0 < ps" "paged_batch ps pre_lens seq_lens locs"
  shows "page_start ps pre_lens seq_lens (length pre_lens) * ps = ext_pages ps pre_lens seq_lens"
proof -
  have len: "length seq_lens = length pre_lens" using assms(2) by (simp add: paged_batch_def)
  have e: "map2 (\<lambda>s p. (cdiv s ps - cdiv p ps) * ps) seq_lens pre_lens = map2 (\<lambda>s p. ceil_to ps (s - p)) seq_lens pre_lens"
    using assms cdiv_aligned[OF assms(1)] len by (intro nth_equalityI) (simp_all add: paged_batch_def)
  have "page_start ps pre_lens seq_lens (length pre_lens) * ps
      = sum_list (map2 (\<lambda>s p. (cdiv s ps - cdiv p ps) * ps) seq_lens pre_lens)"
    unfolding page_start_def using len by (simp add: sum_list_mult_const[symmetric] o_def case_prod_unfold)
  then show ?thesis unfolding e ext_pages_def .
qed

lemma kv_extend_enough:
  assumes a: "kv_inv a" "1 < al_page_size a" and g: "\<And>n. set (g_order g n) = {..<n}"
    and b: "paged_batch (int (al_page_size a)) pre_lens seq_lens locs"
    and fits: "ext_pages (int (al_page_size a)) pre_lens seq_lens \<le> int (kv_available_size a)"
  shows "\<exists>out a'. kv_alloc_extend g a pre_lens seq_lens locs (ext_tokens pre_lens seq_lens) = Inr (Some out, a') \<and>
    length out = ext_tokens pre_lens seq_lens \<and> distinct out"
proof -
  let ?ps = "int (al_page_size a)"
  have i: "alloc_inv a" "pg_inv a" using a(1) by (simp_all add: kv_inv_def pg_inv_def)
  have ps: "0 < ?ps" using a(2) by simp
  note bd = b[unfolded paged_batch_def]
  have old: "old_pages ?ps pre_lens locs = []" using bd by (simp add: old_pages_def partial_reqs_def)
  have "page_start ?ps pre_lens seq_lens (length pre_lens) * ?ps \<le> int (length (al_pages a)) * ?ps"
    using fits unfolding paged_batch_pages[OF ps b]
    using a(2) by (simp add: kv_available_size_def available_size_def al_pages_def)
  then have pages: "page_start ?ps pre_lens seq_lens (length pre_lens) \<le> int (length (al_pages a))"
    using mult_right_le_imp_le[OF _ ps] by blast
  have args: "extend_args_ok a pre_lens seq_lens locs"
    unfolding extend_args_ok_def Let_def
    using bd pages old by (simp add: list_all2_conv_all_nth locs_aligned_def)
  have total: "extend_total pre_lens seq_lens = ext_tokens pre_lens seq_lens"
    by (simp add: extend_total_def ext_tokens_def)
  let ?c = "length (free_pages a) < extend_total pre_lens seq_lens div al_page_size a + length pre_lens + 1"
  note spec = pg_alloc_extend_spec[OF i(2) args g refl disjI1[OF refl]]
  note pre = refill_enough[OF args i(1)]
  have "distinct (free_pages (refill ?c a))"
    using refill_inv(1)[OF i(1), of ?c] by (simp add: alloc_inv_def al_pages_def)
  then have "distinct (extend_spec ?ps pre_lens seq_lens locs (free_pages (refill ?c a)))"
    using extend_spec_distinct[OF pre] args old by (simp add: extend_args_ok_def Let_def)
  then show ?thesis
    using spec length_extend_spec[OF pre] a(2) unfolding total by (auto simp: kv_alloc_extend_def)
qed

section \<open>The radix cache\<close>

lemma relocked_sym: "relocked c c' \<Longrightarrow> relocked c' c"
proof -
  assume "relocked c c'"
  then obtain ls lv e p where c': "c' = c\<lparr>nodes := (\<lambda>n. (nodes c n)\<lparr>lock_ref := ls n\<rparr>),
     evictable_leaves := lv, r_evictable_size := e, r_protected_size := p\<rparr>" by (auto simp: relocked_def)
  show ?thesis
    unfolding relocked_def c'
    by (intro exI[of _ "\<lambda>n. lock_ref (nodes c n)"] exI[of _ "evictable_leaves c"]
        exI[of _ "r_evictable_size c"] exI[of _ "r_protected_size c"]) simp
qed

lemma relocked_path: "relocked c c' \<Longrightarrow> tree_path c n us vs \<Longrightarrow> tree_path c' n us vs"
proof -
  assume r: "relocked c c'"
  note f = relocked_fields[OF r]
  show "tree_path c n us vs \<Longrightarrow> tree_path c' n us vs"
  proof (induction rule: tree_path.induct)
    case path_root
    show ?case using tree_path.path_root[of c'] f(1) by (simp add: same_config_def)
  next
    case (path_child n us vs k ch v)
    have "kids c' n = kids c n" "units_of c' ch = units_of c ch"
      using f(5)[of n] f(5)[of ch] f(1) by (auto simp: kids_def same_shape_def same_config_def)
    then show ?case using tree_path.path_child[OF path_child.IH, of k ch v] path_child.hyps f(6)[of ch] by simp
  qed
qed

lemma last_slot_append: "last_slot (xs @ ys) = (if ys = [] then last_slot xs else last ys)"
  by (simp add: last_slot_def)

lemma last_page_slot:
  assumes "0 < ps" "paged_list ps v" "v \<noteq> []"
  shows "(last v + 1) mod ps = 0"
proof -
  obtain pages where pg: "v = concat (map (page_slots ps) pages)" using assms(2) by (auto simp: paged_list_def)
  then have ne: "pages \<noteq> []" using assms(3) by auto
  have "v = concat (map (page_slots ps) (butlast pages)) @ page_slots ps (last pages)"
    unfolding pg by (subst append_butlast_last_id[OF ne, symmetric]) (simp del: append_butlast_last_id)
  moreover have "page_slots ps (last pages) \<noteq> [] \<and> last (page_slots ps (last pages)) = last pages * ps + (ps - 1)"
    using assms(1) by (simp add: page_slots_def last_map)
  ultimately have "last v + 1 = (last pages + 1) * ps" by (simp add: algebra_simps)
  then show ?thesis by simp
qed

lemma path_last_slot:
  assumes inv: "rinv c A pk pv L" and "tree_path c n us vs"
  shows "(last_slot vs + 1) mod int (r_page_size c) = 0"
  using assms(2)
proof (induction rule: tree_path.induct)
  case (path_child n us vs k ch v)
  note i = rinvD[OF inv]
  have n: "n \<in> A" using path_child.hyps(1) tree_path_iff[OF inv] by blast
  note d = tree_okD[OF i(1)]
  have ch: "ch \<in> A" "ch \<noteq> root_node c" using d(8,9)[OF n path_child.hyps(2)] by auto
  have "paged_list (int (r_page_size c)) v"
    using i(6) ch path_child.hyps(3) by (auto simp: own_ok_def paged_value_def)
  then show ?case using last_page_slot[of "int (r_page_size c)" v] d(1) path_child.IH by (simp add: last_slot_append)
qed (simp add: last_slot_def)

definition radix_locked :: "pyenv \<Rightarrow> gpu \<Rightarrow> 'a radix_cache_scheme \<Rightarrow> nat option multiset \<Rightarrow> bool" where
  "radix_locked env g c L \<longleftrightarrow> (\<forall>xs. mset (set_iter env xs) = mset xs) \<and> (\<forall>n. set (g_order g n) = {..<n}) \<and>
     \<not> r_disable c \<and> \<not> enable_kv_cache_events c \<and> (\<exists>L'. L = image_mset Some L' \<and> radix_inv c L')"

definition radix_node :: "'a radix_cache_scheme \<Rightarrow> nat option \<Rightarrow> bool" where
  "radix_node c n \<longleftrightarrow> (\<exists>m us vs. n = Some m \<and> tree_path c m us vs)"

definition radix_capacity :: "'a radix_cache_scheme \<Rightarrow> int" where
  "radix_capacity c = int (kv_available_size (kv_allocator c)) + r_evictable_size c + r_protected_size c"

definition radix_same :: "'a radix_cache_scheme \<Rightarrow> 'a radix_cache_scheme \<Rightarrow> bool" where
  "radix_same c c' \<longleftrightarrow> relocked c c' \<and> radix_capacity c' = radix_capacity c"

definition radix_as_large :: "'a radix_cache_scheme \<Rightarrow> 'a radix_cache_scheme \<Rightarrow> bool" where
  "radix_as_large c c' \<longleftrightarrow> same_config c c' \<and> r_evictable_size c' = r_evictable_size c \<and>
     r_protected_size c' = r_protected_size c \<and> kv_allocator c' = kv_allocator c"

lemmas radix_ops_simps = radix_ops_def Let_def cache_ops.simps

lemma weight_nonneg: "0 \<le> weight P x"
  by (simp add: weight_def)

lemma radix_sizes_nonneg:
  assumes "radix_inv c L"
  shows "0 \<le> r_evictable_size c" "0 \<le> r_protected_size c"
  using assms by (auto simp: radix_inv_def rinv_def size_ok_def weight_nonneg intro!: sum_nonneg)

lemma radix_evictable_alike:
  assumes "radix_inv c L" "radix_inv c' L'" "relocked c c'" "set_mset L = set_mset L'"
  shows "r_evictable_size c' = r_evictable_size c"
proof -
  obtain A pk pv where i: "rinv c A pk pv L" using assms(1) by (auto simp: radix_inv_def)
  obtain A' pk' pv' where i': "rinv c' A' pk' pv' L'" using assms(2) by (auto simp: radix_inv_def)
  have path: "tree_path c n us vs \<longleftrightarrow> tree_path c' n us vs" for n us vs
    using relocked_path[OF assms(3)] relocked_path[OF relocked_sym[OF assms(3)]] by blast
  have A: "A' = A" and pk: "\<And>n. n \<in> A \<Longrightarrow> pk' n = pk n"
    using path unfolding tree_path_iff[OF i] tree_path_iff[OF i'] by blast+
  have cnt: "lock_cnt pk' L' n = 0 \<longleftrightarrow> lock_cnt pk L n = 0" if "n \<in> A" for n
  proof -
    have L: "set_mset L \<subseteq> A" using rinvD(3)[OF i] by (simp add: lock_ok_def)
    then have "(\<forall>l \<in># L. prefix (pk n) (pk l) \<longleftrightarrow> prefix (pk' n) (pk' l))" using pk that by auto
    moreover have "lock_cnt k M n = 0 \<longleftrightarrow> (\<forall>l \<in># M. \<not> prefix (k n) (k l))" for k M
      unfolding lock_cnt_def size_eq_0_iff_empty set_mset_eq_empty_iff[symmetric] by auto
    ultimately show ?thesis using assms(4) by auto
  qed
  note f = relocked_fields[OF assms(3)]
  have root: "root_node c' = root_node c" using f(1) by (simp add: same_config_def)
  have "weight (\<lambda>l. l = 0) (nodes c' n) = weight (\<lambda>l. l = 0) (nodes c n)" if "n \<in> A - {root_node c}" for n
  proof -
    have "lock_ref (nodes c' n) = 0 \<longleftrightarrow> lock_ref (nodes c n) = 0"
      using rinvD(3)[OF i] rinvD(3)[OF i'] that cnt[of n] A root by (simp add: lock_ok_def)
    moreover have "tn_key (nodes c' n) = tn_key (nodes c n)" using f(5)[of n] by (simp add: same_shape_def)
    ultimately show ?thesis using f(6)[of n] by (simp add: weight_def)
  qed
  then show ?thesis using rinvD(4)[OF i] rinvD(4)[OF i'] A root by (simp add: size_ok_def)
qed

lemma radix_lock_law:
  assumes "radix_locked env g c L" "radix_node c n"
  shows "\<exists>r c'. radix_inc_lock n c = Inr (r, c') \<and> radix_locked env g c' (add_mset n L) \<and> radix_same c c'"
proof -
  obtain L' where L: "L = image_mset Some L'" "radix_inv c L'" and dis: "\<not> r_disable c"
    using assms(1) by (auto simp: radix_locked_def)
  obtain A pk pv where i: "rinv c A pk pv L'" using L(2) by (auto simp: radix_inv_def)
  obtain m where m: "n = Some m" "m \<in> A" using assms(2) tree_path_iff[OF i] by (auto simp: radix_node_def)
  obtain d c' where c': "inc_lock_ref m c = Inr (d, c')" "rinv c' A pk pv (add_mset m L')" "relocked c c'"
    "r_evictable_size c' + r_protected_size c' = r_evictable_size c + r_protected_size c"
    using inc_lock_ref_ok[OF i m(2) dis] by blast
  have "radix_inv c' (add_mset m L')" using c'(2) by (auto simp: radix_inv_def)
  moreover have "add_mset n L = image_mset Some (add_mset m L')" by (simp add: L(1) m(1))
  ultimately have "radix_locked env g c' (add_mset n L)"
    using assms(1) relocked_fields(1)[OF c'(3)] unfolding radix_locked_def same_config_def by metis
  then show ?thesis
    using c' dis m(1) relocked_fields(3)[OF c'(3)] by (simp add: radix_inc_lock_def radix_same_def radix_capacity_def)
qed

lemma radix_unlock_law:
  assumes "radix_locked env g c L" "n \<in># L"
  shows "\<exists>c'. radix_dec_lock n params c = Inr c' \<and> radix_locked env g c' (L - {#n#}) \<and> radix_same c c'"
proof -
  obtain L' where L: "L = image_mset Some L'" "radix_inv c L'" and dis: "\<not> r_disable c"
    using assms(1) by (auto simp: radix_locked_def)
  obtain A pk pv where i: "rinv c A pk pv L'" using L(2) by (auto simp: radix_inv_def)
  obtain m where m: "n = Some m" "m \<in># L'" using assms(2) L(1) by auto
  obtain d c' where c': "dec_lock_ref m c = Inr (d, c')" "rinv c' A pk pv (L' - {#m#})" "relocked c c'"
    "r_evictable_size c' + r_protected_size c' = r_evictable_size c + r_protected_size c"
    using dec_lock_ref_ok[OF i m(2) dis] by blast
  have "radix_inv c' (L' - {#m#})" using c'(2) by (auto simp: radix_inv_def)
  moreover have "L - {#n#} = image_mset Some (L' - {#m#})" using m by (simp add: L(1) image_mset_Diff)
  ultimately have "radix_locked env g c' (L - {#n#})"
    using assms(1) relocked_fields(1)[OF c'(3)] unfolding radix_locked_def same_config_def by metis
  then show ?thesis
    using c' dis m(1) relocked_fields(3)[OF c'(3)] by (simp add: radix_dec_lock_def radix_same_def radix_capacity_def)
qed

lemma radix_evict_law:
  assumes "radix_locked env g c L"
  shows "\<exists>j c'. evict env num c = Inr (j, c') \<and> radix_locked env g c' L \<and>
    int (kv_available_size (kv_allocator c')) + r_evictable_size c'
      = int (kv_available_size (kv_allocator c)) + r_evictable_size c \<and>
    (num \<le> int (kv_available_size (kv_allocator c')) \<or> r_evictable_size c' = 0) \<and>
    al_page_size (kv_allocator c') = al_page_size (kv_allocator c)"
proof -
  obtain L' where L: "L = image_mset Some L'" "radix_inv c L'" and dis: "\<not> r_disable c" "\<not> enable_kv_cache_events c"
    and env: "\<And>xs. mset (set_iter env xs) = mset xs"
    using assms(1) by (auto simp: radix_locked_def)
  obtain A pk pv where i: "rinv c A pk pv L'" using L(2) by (auto simp: radix_inv_def)
  obtain j c' A' where c': "evict env num c = Inr (j, c')" "rinv c' A' pk pv L'" "shed c A c' A' j"
    "num \<le> int j \<or> r_evictable_size c' = 0" using evict_ok[OF i dis(2,1) env] by blast
  have s: "same_config c c'" "int j = r_evictable_size c - r_evictable_size c'"
    "card (al_avail (kv_allocator c')) * r_page_size c = card (al_avail (kv_allocator c)) * r_page_size c + j"
    using c'(3) unfolding shed_def by blast+
  have ps: "al_page_size (kv_allocator c) = r_page_size c" "al_page_size (kv_allocator c') = r_page_size c"
    using rinvD(6)[OF i] rinvD(6)[OF c'(2)] s by (auto simp: own_ok_def same_config_def)
  have kv: "kv_inv (kv_allocator c)" "kv_inv (kv_allocator c')"
    using rinvD(6)[OF i] rinvD(6)[OF c'(2)] by (auto simp: own_ok_def)
  have av: "kv_available_size (kv_allocator c') = kv_available_size (kv_allocator c) + j"
    unfolding kv_available[OF kv(1)] kv_available[OF kv(2)] ps using s by simp
  have "radix_locked env g c' L"
    using assms(1) c'(2) L(1) s unfolding radix_locked_def same_config_def radix_inv_def by metis
  then show ?thesis using c'(1,4) av s ps by auto
qed

lemma lookup_key_len: "0 < r_page_size c \<Longrightarrow> length (rk_units (lookup_key c key)) \<le> length (token_ids key)"
proof -
  assume ps: "0 < r_page_size c"
  let ?k = "if r_is_eagle c then key\<lparr>is_bigram := True\<rparr> else key"
  have "rk_len (page_aligned ?k (r_page_size c)) \<le> rk_len ?k" by (simp add: page_aligned_def Let_def)
  also have "\<dots> \<le> length (token_ids key)" by (simp add: rk_len_def)
  finally show ?thesis by (simp add: lookup_key_def)
qed

lemma match_no_host: "match_prefix env key c = Inr (r, c') \<Longrightarrow> host_hit_length r = 0"
  by (auto simp: match_prefix_def Let_def empty_match_result_def bindR_eq_Inr split: if_splits prod.splits)

lemma radix_match_law:
  assumes "radix_locked env g c L" "\<not> is_bigram key"
  shows "\<exists>m c'. radix_match env key c = Inr (m, c') \<and> radix_locked env g c' L \<and> cm_host_hit_length m = 0 \<and>
    radix_node c' (cm_last_device_node m) \<and> length (cm_device_indices m) \<le> length (token_ids key) \<and>
    int (length (cm_device_indices m)) mod int (r_page_size c) = 0 \<and>
    (last_slot (cm_device_indices m) + 1) mod int (r_page_size c) = 0 \<and> radix_as_large c c'"
proof -
  obtain L' where L: "L = image_mset Some L'" "radix_inv c L'" and dis: "\<not> r_disable c"
    using assms(1) by (auto simp: radix_locked_def)
  obtain A pk pv where i: "rinv c A pk pv L'" using L(2) by (auto simp: radix_inv_def)
  obtain r c' A' pk' pv' where r: "match_prefix env key c = Inr (r, c')" "rinv c' A' pk' pv' L'" "same_meta c c'"
    "matched c (rk_units (lookup_key c key)) r c'"
    using match_prefix_ok[OF i dis] assms(2) by blast
  have cfg: "same_config c c'" "same_counters c c'" using r(3) by (simp_all add: same_meta_def)
  have ps: "r_page_size c' = r_page_size c" using cfg(1) by (simp add: same_config_def)
  let ?n = "length (device_indices r)"
  have path: "tree_path c' (last_device_node r) (take ?n (rk_units (lookup_key c key))) (device_indices r)"
    and hit: "?n \<le> length (rk_units (lookup_key c key))"
    using r(4) by (simp_all add: matched_def hit_len_def)
  have "r_page_size c' dvd length (take ?n (rk_units (lookup_key c key)))"
    using path tree_path_iff[OF r(2)] pk_aligned[OF rinvD(1)[OF r(2)]] by metis
  then have al: "int ?n mod int (r_page_size c) = 0" using hit ps by (simp add: min_absorb2 zmod_int[symmetric] mod_eq_0_iff_dvd)
  have len: "?n \<le> length (token_ids key)"
    using hit lookup_key_len[of c key] tree_okD(1)[OF rinvD(1)[OF i]] by simp
  have "radix_locked env g c' L"
    using assms(1) r(2) L(1) cfg(1) unfolding radix_locked_def same_config_def radix_inv_def by metis
  moreover have "host_hit_length r = 0" using match_no_host[OF r(1)] .
  ultimately show ?thesis
    using r(1) al len path path_last_slot[OF r(2) path] ps cfg
    by (auto simp: radix_match_def radix_node_def radix_as_large_def same_counters_def)
qed

lemma radix_kv:
  assumes "radix_locked env g c L"
  shows "kv_inv (kv_allocator c)" "al_page_size (kv_allocator c) = r_page_size c" "0 < r_page_size c"
    "0 \<le> r_evictable_size c" "0 \<le> r_protected_size c" "\<And>n. set (g_order g n) = {..<n}" "\<not> r_disable c"
    "radix_node c (Some (root_node c))"
proof -
  obtain L' where L: "radix_inv c L'" using assms by (auto simp: radix_locked_def)
  then obtain A pk pv where i: "rinv c A pk pv L'" by (auto simp: radix_inv_def)
  show "kv_inv (kv_allocator c)" "al_page_size (kv_allocator c) = r_page_size c"
    using rinvD(6)[OF i] by (auto simp: own_ok_def)
  show "0 < r_page_size c" using tree_okD(1)[OF rinvD(1)[OF i]] .
  show "0 \<le> r_evictable_size c" "0 \<le> r_protected_size c" using radix_sizes_nonneg[OF L] .
  show "\<And>n. set (g_order g n) = {..<n}" "\<not> r_disable c" using assms by (simp_all add: radix_locked_def)
  show "radix_node c (Some (root_node c))" using path_root[of c] by (auto simp: radix_node_def)
qed

lemma radix_node_same: "radix_same c c' \<Longrightarrow> radix_node c' n = radix_node c n"
  using relocked_path relocked_sym unfolding radix_same_def radix_node_def by blast

lemma radix_same_refl: "radix_same c c"
  by (simp add: radix_same_def relocked_refl)

lemma radix_same_trans: "radix_same c c' \<Longrightarrow> radix_same c' c'' \<Longrightarrow> radix_same c c''"
  using relocked_trans by (auto simp: radix_same_def)

lemma radix_same_fields:
  assumes "radix_same c c'"
  shows "kv_allocator c' = kv_allocator c" "r_disable c' = r_disable c" "radix_capacity c' = radix_capacity c"
  using assms relocked_fields(1,3)[of c c'] by (simp_all add: radix_same_def same_config_def)

lemma radix_locked_alike:
  assumes "radix_locked env g c L" "radix_locked env g c' L'" "radix_same c c'" "set_mset L = set_mset L'"
  shows "r_evictable_size c' = r_evictable_size c"
proof -
  obtain K where K: "L = image_mset Some K" "radix_inv c K" using assms(1) by (auto simp: radix_locked_def)
  obtain K' where K': "L' = image_mset Some K'" "radix_inv c' K'" using assms(2) by (auto simp: radix_locked_def)
  have "Some ` set_mset K = Some ` set_mset K'" using assms(4) K(1) K'(1) by simp
  then have "set_mset K = set_mset K'" by (simp add: inj_image_eq_iff)
  then show ?thesis using radix_evictable_alike[OF K(2) K'(2)] assms(3) by (simp add: radix_same_def)
qed

lemma radix_ops_fields [simp]:
  "co_is_chunk_cache (radix_ops env g strip) = False" "co_disable (radix_ops env g strip) = r_disable"
  "co_page_size (radix_ops env g strip) = r_page_size" "co_root_node (radix_ops env g strip) = root_node"
  "co_match_prefix (radix_ops env g strip) = radix_match env"
  "co_evict (radix_ops env g strip) num k l c = bindR (evict env num c) (\<lambda>(_, c). Inr c)"
  "co_inc_lock_ref (radix_ops env g strip) = radix_inc_lock" "co_dec_lock_ref (radix_ops env g strip) = radix_dec_lock"
  "co_evictable_size (radix_ops env g strip) = r_evictable_size" "co_supports_mamba (radix_ops env g strip) = False"
  "co_is_swa (radix_ops env g strip) = False" "co_alloc_page_size (radix_ops env g strip) c = al_page_size (kv_allocator c)"
  "co_available_size (radix_ops env g strip) c = int (kv_available_size (kv_allocator c))"
  "co_alloc (radix_ops env g strip) n c = bindR (kv_alloc (kv_allocator c) n) (\<lambda>(r, a). Inr (r, c\<lparr>kv_allocator := a\<rparr>))"
  "co_alloc_extend (radix_ops env g strip) pl sl ll m c =
     bindR (kv_alloc_extend g (kv_allocator c) pl sl ll m) (\<lambda>(r, a). Inr (r, c\<lparr>kv_allocator := a\<rparr>))"
  "co_maybe_evict_swa (radix_ops env g strip) rs c = Inr (rs, c)" "co_mamba_available (radix_ops env g strip) = None"
  "co_req_alloc (radix_ops env g strip) = plain_req_alloc"
  by (simp_all add: radix_ops_def Let_def on_allocator_def evictable_size_def[abs_def])

interpretation rc: prefix_cache "radix_ops env g strip" "radix_locked env g" radix_node radix_same radix_as_large radix_capacity
  for env g strip
proof (unfold_locales, goal_cases)
  case (9 c c')
  then show ?case by (rule radix_same_fields(3))
next
  case (10 c L c' L')
  then show ?case using radix_locked_alike[of env g c L c' L'] by simp
next
  case (11 c L)
  then show ?case using radix_kv[OF 11] by (simp add: radix_capacity_def)
next
  case (13 c L)
  then show ?case using radix_kv[OF 13] by simp
next
  case (14 c L n)
  then show ?case using radix_lock_law[of env g c L n] by simp
next
  case (15 c L n params)
  then show ?case using radix_unlock_law[of env g c L n params] by simp
next
  case (16 c L num)
  then show ?case using radix_evict_law[of env g c L num] by auto
next
  case (17 c L pl sl ll)
  note k = radix_kv[OF 17(1)]
  show ?case using kv_extend_enough[OF k(1) _ k(6), of pl sl ll] 17 by auto
next
  case (18 c L need)
  then show ?case using tk_alloc_enough[OF radix_kv(1)[OF 18(1)], of need] by auto
next
  case (19 c L)
  then show ?case using radix_kv[OF 19] by simp
next
  case (20 c L)
  then show ?case using radix_kv[OF 20] by simp
next
  case (22 c L key)
  then show ?case using radix_match_law[of env g c L key] radix_kv[OF 22(1)] by auto
qed (auto simp: radix_same_refl radix_node_same radix_same_fields radix_kv(8) radix_as_large_def radix_capacity_def same_config_def
    intro: radix_same_trans)

section \<open>The chunk cache\<close>

definition chunk_held :: "gpu \<Rightarrow> chunk_cache \<Rightarrow> nat option multiset \<Rightarrow> bool" where
  "chunk_held g c L \<longleftrightarrow> (\<forall>n. set (g_order g n) = {..<n}) \<and> kv_inv (cc_allocator c) \<and>
     cc_page_size c = al_page_size (cc_allocator c)"

lemma chunk_kv:
  assumes "chunk_held g c L"
  shows "kv_inv (cc_allocator c)" "cc_page_size c = al_page_size (cc_allocator c)" "0 < al_page_size (cc_allocator c)"
    "\<And>n. set (g_order g n) = {..<n}"
  using assms by (auto simp: chunk_held_def kv_inv_def alloc_inv_def)

lemma chunk_ops_fields [simp]:
  "co_is_chunk_cache (chunk_ops g strip)" "co_disable (chunk_ops g strip) c" "co_page_size (chunk_ops g strip) = cc_page_size"
  "co_match_prefix (chunk_ops g strip) = chunk_match" "co_evict (chunk_ops g strip) num k l c = Inr c"
  "co_inc_lock_ref (chunk_ops g strip) x c = Inr (plain_lock 0, c)" "co_dec_lock_ref (chunk_ops g strip) x ps c = Inr c"
  "co_evictable_size (chunk_ops g strip) c = 0" "co_supports_mamba (chunk_ops g strip) = False" "co_is_swa (chunk_ops g strip) = False"
  "co_alloc_page_size (chunk_ops g strip) c = al_page_size (cc_allocator c)"
  "co_available_size (chunk_ops g strip) c = int (kv_available_size (cc_allocator c))"
  "co_alloc (chunk_ops g strip) n c = bindR (kv_alloc (cc_allocator c) n) (\<lambda>(r, a). Inr (r, c\<lparr>cc_allocator := a\<rparr>))"
  "co_alloc_extend (chunk_ops g strip) pl sl ll m c =
     bindR (kv_alloc_extend g (cc_allocator c) pl sl ll m) (\<lambda>(r, a). Inr (r, c\<lparr>cc_allocator := a\<rparr>))"
  "co_maybe_evict_swa (chunk_ops g strip) rs c = Inr (rs, c)" "co_mamba_available (chunk_ops g strip) = None"
  "co_req_alloc (chunk_ops g strip) = plain_req_alloc"
  by (simp_all add: chunk_ops_def Let_def on_allocator_def)

interpretation cc: prefix_cache "chunk_ops g strip" "chunk_held g" "\<lambda>_ _. True" "(=)" "(=)"
  "\<lambda>c. int (kv_available_size (cc_allocator c))" for g strip
proof (unfold_locales, goal_cases)
  case (17 c L pl sl ll)
  note k = chunk_kv[OF 17(1)]
  show ?case using kv_extend_enough[OF k(1) _ k(4), of pl sl ll] 17 by auto
next
  case (18 c L need)
  then show ?case using tk_alloc_enough[OF chunk_kv(1)[OF 18(1)], of need] by auto
next
  case (19 c L)
  then show ?case using chunk_kv[OF 19] by simp
next
  case (20 c L)
  then show ?case using chunk_kv[OF 20] by simp
qed (auto simp: chunk_held_def chunk_match_def last_slot_def)

end
