(* ===== verification/IdleProps.thy ===== *)
theory IdleProps
  imports CacheInst
begin

text \<open>
  Progress: a prefix cache in which locking a matched prefix costs at most the length of the
  prefix. An idle scheduler then admits the first waiting request, as long as its paged input
  and one page are smaller than the cache.
\<close>

section \<open>The cost of a lock\<close>

text \<open>\<open>deep c n k\<close> says that node \<open>n\<close> is the end of a prefix of \<open>k\<close> tokens.\<close>

locale bounded_locks = prefix_cache +
  fixes deep :: "'a \<Rightarrow> nat option \<Rightarrow> nat \<Rightarrow> bool"
  assumes match_deep: "inv c L \<Longrightarrow> \<not> is_bigram key \<Longrightarrow> co_match_prefix ops key c = Inr (m, c') \<Longrightarrow>
      deep c' (cm_last_device_node m) (length (cm_device_indices m))"
    and root_deep: "inv c L \<Longrightarrow> \<not> co_is_chunk_cache ops \<Longrightarrow> deep c (Some (co_root_node ops c)) 0"
    and lock_cost: "inv c L \<Longrightarrow> deep c n k \<Longrightarrow> co_inc_lock_ref ops n c = Inr (l, c') \<Longrightarrow>
      co_evictable_size ops c - int k \<le> co_evictable_size ops c'"

section \<open>The queue\<close>

text \<open>Without preemption the list of the admitted requests only grows.\<close>

lemma hard_stop_keeps:
  assumes "hard_stop_or_full E ops r full ad p c = Inr (st, f1, ad1, p1, c1)" "\<not> enable_priority_preemption E"
  shows "ad1 = ad" "p1 = p" "c1 = c"
  using assms by (auto simp: bindR_eq_Inr hard_stop_or_full_def Let_def split: if_splits)

lemma scan_grows:
  assumes "scan_queue E ops rs full ad p c = Inr (q, stop, full', ad', p', c')" "\<not> enable_priority_preemption E"
  shows "set (can_run_list ad) \<subseteq> set (can_run_list ad')"
  using assms(1)
proof (induction rs arbitrary: full ad p c q)
  case (Cons r rs)
  obtain st f1 ad1 p1 c1 where h: "hard_stop_or_full E ops r full ad p c = Inr (st, f1, ad1, p1, c1)"
    using Cons.prems unfolding scan_queue.simps bindR_eq_Inr split_paired_Ex by blast
  note same = hard_stop_keeps[OF h assms(2)]
  note run = Cons.prems[unfolded scan_queue.simps h bindR_simps prod.case same]
  show ?case
  proof (cases st)
    case True
    then show ?thesis using run by simp
  next
    case False
    note run = run[unfolded if_not_P[OF False]]
    obtain r1 c2 where i: "init_next_round_input (pf_force_miss E) (Some ops) r c = Inr (r1, c2)"
      using run unfolding bindR_eq_Inr split_paired_Ex by blast
    note run = run[unfolded i bindR_simps prod.case]
    obtain res r2 ad2 c3 where a: "add_one_req (pf_adder E) ops r1 (truncation_align_size E) ad c2 = Inr ((res, r2, ad2), c3)"
      using run unfolding bindR_eq_Inr split_paired_Ex by blast
    note run = run[unfolded a bindR_simps prod.case]
    have sub: "set (can_run_list ad) \<subseteq> set (can_run_list ad2)" using add_one_req_framed(1)[OF a] by (auto simp: framed_def)
    show ?thesis
    proof (cases "res = CONTINUE")
      case True
      then obtain q' where "scan_queue E ops rs f1 ad2 p c3 = Inr (q', stop, full', ad', p', c')"
        using run by (auto simp: bindR_eq_Inr)
      then show ?thesis using sub Cons.IH by blast
    next
      case no: False
      then have "ad' = ad2" using run by (auto simp: bindR_eq_Inr Let_def)
      then show ?thesis using sub by simp
    qed
  qed
qed simp

lemma round_scans:
  assumes "plain_sched E" "fcfs_state s" "\<not> s_batch_is_full s" "s_waiting_queue s \<noteq> []"
    "0 < get_num_allocatable_reqs (se_prefill E) (s_pool s) (length (b_reqs (s_running_batch s)))"
    "get_new_batch_prefill_raw E [] s = Inr (None, s')"
  shows "\<exists>q stop full ad p c. scan_queue (se_prefill E) (se_ops E) (s_waiting_queue s) False
      (adder_init (pf_adder (se_prefill E)) (se_page_size E) (Some (s_running_batch s)) (s_new_token_ratio s)
         (max_prefill_tokens E) (chunked_prefill_size E) 0 (se_preemption_threshold E) (int (s_max_prefill_bs s))
         (se_max_running_requests E) (se_prefill_max_requests E) None None (int (length (s_waiting_queue s)))
         (se_context_parallel E)) (s_pool s) (s_cache s) = Inr (q, stop, full, ad, p, c) \<and> can_run_list ad = []"
  using assms
  by (auto simp: get_new_batch_prefill_raw_def enqueue_all_def Let_def plain_sched_def fcfs_state_def calc_priority_def
      add_chunked_def take_requests_def is_hybrid_balanced_prefill_enabled_def bindR_eq_Inr split: if_splits)

section \<open>An idle scheduler\<close>

context bounded_locks
begin

lemma init_next_round_deep:
  assumes "inv c L" "init_next_round_input fm (Some ops) r c = Inr (r', c')"
  shows "deep c' (last_node r') (length (prefix_indices r'))"
proof -
  obtain key m where m: "co_match_prefix ops key c = Inr (m, c')" "\<not> is_bigram key"
    "last_node r' = cm_last_device_node (if fm then zero_match_result ops c' m else m)"
    "prefix_indices r' = cm_device_indices (if fm then zero_match_result ops c' m else m)"
    by (rule init_next_round_result[OF assms(2)])
  obtain m2 c2 where "co_match_prefix ops key c = Inr (m2, c2)" "inv c2 L"
    using match_law[OF assms(1) m(2)] by blast
  then have "inv c' L" using m(1) by simp
  then show ?thesis
    using m(3,4) match_deep[OF assms(1) m(2,1)] root_deep[of c' L] by (auto simp: zero_match_result_def Let_def)
qed

lemma first_admitted:
  assumes c: "inv c L" and r: "new_req_ok M r" "output_ids r = []" "\<not> (ignore_eos (rq_sampling r) \<and> co_disable ops c)"
    and ad: "prefill_delayer_single_pass ad = None" "ad_dllm ad = None" "can_run_list ad = []" "prefill_max_requests ad \<noteq> Some 0"
      "rem_total_token_offset ad = PyInt 0" "ad_page_size ad = int (co_alloc_page_size ops c)"
      "\<forall>k. rem_chunk_tokens ad = Some k \<longrightarrow> ad_page_size ad \<le> k"
    and fits: "int (length (origin_input_ids r)) + max_new_tokens r + ad_page_size ad < available_and_evictable ops c"
    and i: "init_next_round_input fm (Some ops) r c = Inr (r1, c1)"
  shows "\<exists>res r' ad' c'. add_one_req E ops r1 None ad c1 = Inr ((res, r', ad'), c') \<and> can_run_list ad' \<noteq> []"
proof -
  let ?ps = "ad_page_size ad" and ?P = "length (prefix_indices r1)"
  obtain r1' c1' where i': "init_next_round_input fm (Some ops) r c = Inr (r1', c1')" "inv c1' L" "as_large c c1'"
    "paged_req M (int (co_alloc_page_size ops c)) r1'" "at_node c1' (last_node r1')"
    using init_next_round_sound[OF c r(1)] by blast
  have same: "r1' = r1" "c1' = c1" using i i'(1) by simp_all
  have k: "fill_ids r1 = origin_input_ids r @ output_ids r" "output_ids r1 = output_ids r"
    "max_new_tokens r1 = max_new_tokens r" "rq_sampling r1 = rq_sampling r"
    by (rule init_next_round_result[OF i], assumption)+
  note paged = i'(4)[unfolded same ad(6)[symmetric]]
  have ps: "0 < ?ps" using page_pos[OF c] ad(6) by simp
  have ext: "extend_input_len r1 = int (length (origin_input_ids r)) - int ?P" and new: "0 \<le> max_new_tokens r"
    using paged k r(2) by (simp_all add: paged_req_def)
  let ?tot = "extend_input_len r1 + clip_new E (max (max_new_tokens r1 - int (length (output_ids r1))) 0) + ?ps"
  have tot: "?tot < available_and_evictable ops c - int ?P"
    using fits ext new r(2) by (simp add: k clip_new_def)
  have deep: "deep c1 (last_node r1) ?P" by (rule init_next_round_deep[OF c i])
  have ev: "available_and_evictable ops c1 = available_and_evictable ops c" using as_large_budget[OF i'(3)] by (simp add: same)
  have inv1: "inv c1 L" and at1: "at_node c1 (last_node r1)" using i'(2,5) by (simp_all add: same)
  have locked: "available_and_evictable ops c - int ?P \<le> available_and_evictable ops c2"
    if "co_inc_lock_ref ops (last_node r1) c1 = Inr (l, c2)" for l c2
  proof -
    have "same c1 c2" using lock_law[OF inv1 at1] that by auto
    then show ?thesis
      using lock_cost[OF inv1 deep that] same_keeps(1) ev by (simp add: available_and_evictable_plain)
  qed
  have "\<not> num_le (rem_total_tokens E ops ad c2) (PyInt ?tot)" if "available_and_evictable ops c - int ?P \<le> available_and_evictable ops c2" for c2
    using that tot ad(5) by (simp add: num_le_def rem_total_tokens_def)
  note budget = this
  have dis: "\<not> (ignore_eos (rq_sampling r1) \<and> co_disable ops c1)"
    using r(3) as_large_keeps(4)[OF i'(3)] by (simp add: k same)
  have "\<exists>res r' ad' c' L'. add_one_req E ops r1 None ad c1 = Inr ((res, r', ad'), c') \<and> can_run_list ad' = [r'] \<and> rid r' = rid r1 \<and> inv c' L'"
    by (rule add_one_req_accepts[OF inv1 at1 ad(1-4) dis _ _ ps ad(7)])
      (use paged budget locked ev in \<open>auto simp: paged_req_def\<close>)
  then show ?thesis by fastforce
qed

lemma idle_round:
  assumes E: "plain_sched E" "se_ops E = ops" "se_page_size E = int (co_alloc_page_size ops (s_cache s))"
      "truncation_align_size (se_prefill E) = None" "se_prefill_max_requests E \<noteq> Some 0"
      "\<forall>k. chunked_prefill_size E = Some k \<longrightarrow> se_page_size E \<le> k" "0 < pp_max_micro_batch_size (se_prefill E)"
    and s: "fcfs_state s" "inv (s_cache s) L" "capacity (s_cache s) \<le> 2 ^ 50" "\<not> s_batch_is_full s"
      "b_reqs (s_running_batch s) = []" "0 < rp_available_size (s_pool s)"
    and r: "s_waiting_queue s = r # rs" "output_ids r = []" "\<not> (ignore_eos (rq_sampling r) \<and> co_disable ops (s_cache s))"
      "int (length (origin_input_ids r)) + max_new_tokens r + se_page_size E < available_and_evictable ops (s_cache s)"
  shows "\<exists>b s'. get_new_batch_prefill_raw E [] s = Inr (Some b, s') \<and> round_done (r # rs) (s_pool s) (Some b) s' \<and>
    rid (hd (b_reqs b)) = rid r"
proof -
  obtain res s' where run: "get_new_batch_prefill_raw E [] s = Inr (res, s')" "round_done (r # rs) (s_pool s) res s'"
    using prefill_round_ok[OF E(1-3) s(1-3)] r(1) by auto
  define ad0 where "ad0 = adder_init (pf_adder (se_prefill E)) (se_page_size E) (Some (s_running_batch s)) (s_new_token_ratio s)
         (max_prefill_tokens E) (chunked_prefill_size E) 0 (se_preemption_threshold E) (int (s_max_prefill_bs s))
         (se_max_running_requests E) (se_prefill_max_requests E) None None (int (length (s_waiting_queue s)))
         (se_context_parallel E)"
  have ad0: "prefill_delayer_single_pass ad0 = None" "ad_dllm ad0 = None" "can_run_list ad0 = []" "prefill_max_requests ad0 \<noteq> Some 0"
    "rem_total_token_offset ad0 = PyInt 0" "ad_page_size ad0 = int (co_alloc_page_size ops (s_cache s))"
    "\<forall>k. rem_chunk_tokens ad0 = Some k \<longrightarrow> ad_page_size ad0 \<le> k" "ad_running_batch ad0 = Some (s_running_batch s)"
    using E(3,5,6) s(5) by (auto simp: ad0_def adder_init_def Let_def num_sum_def)
  have ok: "new_req_ok (rp_max_context_len (s_pool s)) r" and np: "\<not> enable_priority_preemption (se_prefill E)"
    using s(1) r(1) E(1) by (simp_all add: fcfs_state_def plain_sched_def)
  have "res \<noteq> None"
  proof
    assume "res = None"
    then obtain q stop full ad p c where scan: "scan_queue (se_prefill E) ops (r # rs) False ad0 (s_pool s) (s_cache s) = Inr (q, stop, full, ad, p, c)"
      "can_run_list ad = []"
      using round_scans[OF E(1) s(1,4), of s'] run(1) r(1) s(5,6) E(2,7) by (auto simp: ad0_def get_num_allocatable_reqs_def)
    have hs: "hard_stop_or_full (se_prefill E) ops r False ad0 (s_pool s) (s_cache s) = Inr (False, False, ad0, s_pool s, s_cache s)"
      using ad0(3,8) s(5,6) E(7) by (simp add: hard_stop_or_full_def get_num_allocatable_reqs_def Let_def min_def)
    obtain r1 c1 where i: "init_next_round_input (pf_force_miss (se_prefill E)) (Some ops) r (s_cache s) = Inr (r1, c1)"
      using init_next_round_sound[OF s(2) ok] by blast
    obtain rs2 r2 ad2 c2 where a: "add_one_req (pf_adder (se_prefill E)) ops r1 None ad0 c1 = Inr ((rs2, r2, ad2), c2)" "can_run_list ad2 \<noteq> []"
      using first_admitted[OF s(2) ok r(2,3) ad0(1-7) _ i, of "pf_adder (se_prefill E)"] r(4) E(3) ad0(6) by auto
    note run = scan(1)[unfolded scan_queue.simps hs bindR_simps prod.case if_False i E(4) a(1)]
    show False
    proof (cases "rs2 = CONTINUE")
      case True
      then obtain q' where "scan_queue (se_prefill E) ops rs False ad2 (s_pool s) c2 = Inr (q', stop, full, ad, p, c)"
        using run by (auto simp: bindR_eq_Inr)
      from scan_grows[OF this np] show False using a(2) scan(2) by auto
    next
      case False
      then have "ad = ad2" using run by (auto simp: bindR_eq_Inr Let_def)
      then show False using a(2) scan(2) by simp
    qed
  qed
  then obtain b where b: "res = Some b" by auto
  then have "b_reqs b \<noteq> []" "map rid (b_reqs b) @ map rid (s_waiting_queue s') = rid r # map rid rs"
    using run(2) by (simp_all add: round_done_def)
  then have "rid (hd (b_reqs b)) = rid r" by (cases "b_reqs b") auto
  then show ?thesis using run b by blast
qed

end

section \<open>The caches of the program\<close>

lemma inc_lock_loop_cost:
  assumes "tree_ok c A pk" "cur \<in> A" "inc_lock_loop fuel cur delta c = Inr (d, c')"
  shows "r_evictable_size c - int (length (pk cur)) \<le> r_evictable_size c'"
  using assms
proof (induction fuel arbitrary: cur delta c)
  case (Suc fuel)
  show ?case
  proof (cases "cur = root_node c")
    case True
    then show ?thesis using Suc.prems by simp
  next
    case False
    obtain p where p: "p \<in> A" "parent (nodes c cur) = Some p" "pk cur = pk p @ units_of c cur"
      using tree_parent[OF Suc.prems(1,2) False] by metis
    let ?k = "int (rk_len (tn_key (nodes c cur)))"
    let ?e = "if lock_ref (nodes c cur) = 0 then ?k else 0"
    define c1 where "c1 = update_leaf_status cur (upd cur (\<lambda>x. x\<lparr>lock_ref := lock_ref (nodes c cur) + 1\<rparr>)
      (c\<lparr>r_evictable_size := r_evictable_size c - ?e, r_protected_size := r_protected_size c + ?e\<rparr>))"
    have re: "relocked c c1" unfolding c1_def by (rule relocked_step)
    have t1: "tree_ok c1 A pk"
      by (rule tree_ok_cong[OF Suc.prems(1) relocked_fields(1)[OF re]]) (use relocked_fields(2,5)[OF re] in simp_all)
    have p1: "parent (nodes c1 cur) = Some p" using p(2) relocked_fields(5)[OF re, of cur] by (simp add: same_shape_def)
    have e1: "r_evictable_size c1 = r_evictable_size c - ?e" by (simp add: c1_def)
    have "\<exists>delta'. inc_lock_loop fuel p delta' c1 = Inr (d, c')"
      using Suc.prems(3) False p1 by (auto simp: c1_def upd_def Let_def)
    then have "r_evictable_size c1 - int (length (pk p)) \<le> r_evictable_size c'" using Suc.IH[OF t1 p(1)] by blast
    then show ?thesis using e1 p(3) by (simp split: if_splits)
  qed
qed (simp split: if_splits)

definition radix_deep :: "'a radix_cache_scheme \<Rightarrow> nat option \<Rightarrow> nat \<Rightarrow> bool" where
  "radix_deep c n k \<longleftrightarrow> (\<exists>m us vs. n = Some m \<and> tree_path c m us vs \<and> length us = k)"

lemma radix_match_deep:
  assumes "radix_locked env g c L" "\<not> is_bigram key" "radix_match env key c = Inr (m, c')"
  shows "radix_deep c' (cm_last_device_node m) (length (cm_device_indices m))"
proof -
  obtain L' A pk pv where i: "rinv c A pk pv L'" and dis: "\<not> r_disable c"
    using assms(1) by (auto simp: radix_locked_def radix_inv_def)
  obtain r c2 where r: "match_prefix env key c = Inr (r, c2)" "matched c (rk_units (lookup_key c key)) r c2"
    using match_prefix_ok[OF i dis] assms(2) by blast
  let ?n = "length (device_indices r)"
  have "tree_path c2 (last_device_node r) (take ?n (rk_units (lookup_key c key))) (device_indices r)"
    "?n \<le> length (rk_units (lookup_key c key))"
    using r(2) by (simp_all add: matched_def hit_len_def)
  then have "radix_deep c2 (Some (last_device_node r)) ?n"
    unfolding radix_deep_def by (intro exI conjI) (rule refl, assumption, simp)
  then show ?thesis using r(1) assms(3) by (auto simp: radix_match_def)
qed

lemma radix_lock_cost:
  assumes "radix_locked env g c L" "radix_deep c n k" "radix_inc_lock n c = Inr (l, c')"
  shows "r_evictable_size c - int k \<le> r_evictable_size c'"
proof -
  obtain L' A pk pv where i: "rinv c A pk pv L'" and dis: "\<not> r_disable c"
    using assms(1) by (auto simp: radix_locked_def radix_inv_def)
  obtain x where x: "n = Some x" "x \<in> A" "length (pk x) = k"
    using assms(2) tree_path_iff[OF i] by (auto simp: radix_deep_def)
  have "\<exists>d. inc_lock_loop (next_ref c) x 0 c = Inr (d, c')"
    using assms(3) x(1) dis by (auto simp: radix_inc_lock_def inc_lock_ref_def bindR_eq_Inr)
  then show ?thesis using inc_lock_loop_cost[OF rinvD(1)[OF i] x(2)] x(3) by blast
qed

interpretation rd: bounded_locks "radix_ops env g strip" "radix_locked env g" radix_node radix_same radix_as_large radix_capacity
  radix_deep for env g strip
proof (unfold_locales, goal_cases)
  case (1 c L key m c')
  then show ?case using radix_match_deep by simp
next
  case (2 c L)
  then show ?case using tree_path.path_root by (fastforce simp: radix_deep_def)
next
  case (3 c L n k l c')
  then show ?case using radix_lock_cost by simp
qed

interpretation cd: bounded_locks "chunk_ops g strip" "chunk_held g" "\<lambda>_ _. True" "(=)" "(=)"
  "\<lambda>c. int (kv_available_size (cc_allocator c))" "\<lambda>_ _ _. True" for g strip
  by unfold_locales simp_all

end
