(* ===== verification/RoundProps.thy ===== *)
theory RoundProps
  imports IdleProps RadixProps BatchProps DelayerProps
begin

text \<open>
  The rounds of the scheduler on the radix cache, and a request that no round admits.
\<close>

section \<open>A concrete scheduler\<close>

definition demo_adder_env :: adder_env where
  "demo_adder_env = \<lparr>CLIP_MAX_NEW_TOKENS = 4096, ae_float = exact, ae_args = demo_batch_args,
     ae_low_priority_values_first = False, ae_pass = demo_pass\<rparr>"

definition demo_prefill_env :: prefill_env where
  "demo_prefill_env = \<lparr>pf_adder = demo_adder_env, pf_force_miss = False, pp_max_micro_batch_size = 4, pf_disagg_prefill = False,
     enable_priority_preemption = False, enable_hierarchical_cache = False, truncation_align_size = None,
     in_session = (\<lambda>_. False), sched_clock = int, HYBRID_BBF_STARVATION = 1\<rparr>"

definition demo_queue_env :: queue_env where
  "demo_queue_env = \<lparr>enable_priority_scheduling = False, schedule_low_priority_values_first = False,
     abort_on_priority_when_disabled = False, max_queued_requests = None\<rparr>"

definition demo_policy_env :: policy_env where
  "demo_policy_env = \<lparr>IN_BATCH_CHECK_THRESHOLD = 32, IN_BATCH_DEPRIORITIZE_THRESHOLD = 32, RADIX_FORCE_MISS = False,
     pe_clock = demo_env, shuffle = id, walk_fuel = 100\<rparr>"

text \<open>A scheduler with chunks of 8 tokens on a cache with pages of \<open>ps\<close> slots.\<close>

definition demo_sched :: "'c cache_ops \<Rightarrow> int \<Rightarrow> 'c sched_env" where
  "demo_sched ops ps = \<lparr>se_prefill = demo_prefill_env, se_queue = demo_queue_env, se_policy = demo_policy_env, se_ops = ops,
     se_host_tree = \<lparr>ht_host = (\<lambda>_ _. None), ht_device = (\<lambda>_ _. True), ht_parent = (\<lambda>_ _. None), ht_root = (\<lambda>_. 0), ht_size = (\<lambda>_. 0)\<rparr>,
     se_hooks = \<lparr>hc_check_events = Inr, hc_flush_acks = Inr, hc_ready_to_load = (\<lambda>_ c. Inr (False, c)), hc_loading_finished = (\<lambda>_. True)\<rparr>,
     se_gpu = demo_launch, se_triton = True, se_vocab_size = 100, se_page_size = ps, max_prefill_tokens = 100,
     chunked_prefill_size = Some 8, predict_next_chunk_size = (\<lambda>_. None), se_max_running_requests = 4,
     se_prefill_max_requests = None, se_preemption_threshold = 10, se_context_parallel = False, is_mixed_chunk = False,
     enable_overlap = False, io_backend_hybrid = False, enable_hybrid_balanced_batch = False,
     enable_hybrid_bubble_filling = False, new_token_ratio_decay = 1 / 100, min_new_token_ratio = 1 / 10,
     waiting_timeout = 0, running_timeout = 0, forward_entry_time = (\<lambda>_. 0), max_pool_usage = (\<lambda>_. 0),
     delayer_debug_log = False, delayer_has_collector = False, delayer_now = 0\<rparr>"

definition demo_sched_state :: "req list \<Rightarrow> 'c \<Rightarrow> 'c sched_state" where
  "demo_sched_state queue c = \<lparr>s_waiting_queue = queue, s_running_batch = init_new False [], s_batch_is_full = False,
     s_chunked_req = None, s_chunked_scheduled = False, s_last_batch = None, s_pending_prefill = None,
     s_needs_preload = False, s_new_token_ratio = 1 / 2,
     s_policy = \<lparr>sp_policy = FCFS, sp_enable_priority_scheduling = False, sp_priority_sign = 1, waiting_queue_radix_tree = demo_empty\<rparr>,
     s_max_prefill_bs = 0, s_pool = rp_init 4 16, s_cache = c, s_sent = [], s_ticks = 0, s_delayer = None, s_pass = None\<rparr>"

definition demo_waiting :: "string \<Rightarrow> int list \<Rightarrow> req" where
  "demo_waiting name ids =
     new_req name ids ((sampling_init exact id sampling_defaults)\<lparr>sp_max_new_tokens := Some 100\<rparr>) False None None [] 100 None None False"

lemma demo_sane: "sane_env demo_adder_env"
  by (simp add: sane_env_def demo_adder_env_def rounding_exact) (simp add: exact_def sum_list_nonneg)

lemma demo_plain: "plain_sched (demo_sched ops 2)"
  using demo_sane by (simp add: plain_sched_def demo_sched_def demo_prefill_env_def demo_launch_def atLeast0LessThan)

lemma unlocked_sizes:
  assumes "radix_inv c {#}"
  shows "r_protected_size c = 0"
proof -
  obtain A pk pv where i: "rinv c A pk pv {#}" using assms by (auto simp: radix_inv_def)
  have "lock_ok c A pk {#}" using i by (simp add: rinv_rcore)
  then have "lock_ref (nodes c n) = 0" if "n \<in> A" "n \<noteq> root_node c" for n
    using that by (simp add: lock_ok_def lock_cnt_def)
  then show ?thesis using rinvD(4)[OF i] by (auto simp: size_ok_def weight_def intro!: sum.neutral)
qed

lemma demo_cache_locked:
  "radix_locked demo_env demo_launch demo_cache {#}" "radix_capacity demo_cache = 8"
  "radix_locked demo_env demo_launch demo_cache {#} \<and> int (kv_available_size (kv_allocator demo_cache)) + r_evictable_size demo_cache = 8"
proof -
  show l: "radix_locked demo_env demo_launch demo_cache {#}"
    using demo_cache_facts(1-3) by (simp add: radix_locked_def demo_env_def demo_launch_def atLeast0LessThan)
  have "int (kv_available_size (kv_allocator demo_cache)) = 4"
    using demo_base_facts by (simp add: kv_available demo_cache_facts(6))
  then show "radix_capacity demo_cache = 8"
    "radix_locked demo_env demo_launch demo_cache {#} \<and> int (kv_available_size (kv_allocator demo_cache)) + r_evictable_size demo_cache = 8"
    using l unlocked_sizes[OF demo_cache_facts(1)] demo_cache_facts(8) by (simp_all add: radix_capacity_def)
qed

definition demo_queue :: "req list" where
  "demo_queue = [init_req_max_new_tokens 2 20 8 (demo_waiting ''a'' [7, 8, 9]), demo_waiting ''b'' [5, 6]]"

lemma demo_fcfs: "fcfs_state (demo_sched_state demo_queue c)"
  using rp_init_inv[of 4 16]
  by (simp add: fcfs_state_def demo_sched_state_def init_new_def demo_queue_def demo_waiting_def new_req_def new_req_ok_def
      init_req_max_new_tokens_def rp_init_def or_default_def Let_def)

lemma demo_sched_fields:
  "se_ops (demo_sched ops ps) = ops" "se_page_size (demo_sched ops ps) = ps"
  "truncation_align_size (se_prefill (demo_sched ops ps)) = None" "se_prefill_max_requests (demo_sched ops ps) = None"
  "chunked_prefill_size (demo_sched ops ps) = Some 8" "pp_max_micro_batch_size (se_prefill (demo_sched ops ps)) = 4"
  by (simp_all add: demo_sched_def demo_prefill_env_def)

lemma demo_state_fields:
  "s_cache (demo_sched_state q c) = c" "s_batch_is_full (demo_sched_state q c) = False"
  "b_reqs (s_running_batch (demo_sched_state q c)) = []" "s_pool (demo_sched_state q c) = rp_init 4 16"
  "s_waiting_queue (demo_sched_state q c) = q"
  by (simp_all add: demo_sched_state_def init_new_def)

section \<open>A round\<close>



text \<open>
  C5. Progress: when nothing runs, the first waiting request, with the limit that
  \<^verbatim>\<open>init_req_max_new_tokens\<close> gave it, is in the next batch, provided that its paged input and
  one more page are smaller than the pool.
\<close>

theorem idle_request_admitted:
  assumes "plain_sched E" "se_ops E = radix_ops env g strip" "se_page_size E = int (r_page_size (s_cache s))"
    "truncation_align_size (se_prefill E) = None" "se_prefill_max_requests E \<noteq> Some 0"
    "\<forall>k. chunked_prefill_size E = Some k \<longrightarrow> se_page_size E \<le> k" "0 < pp_max_micro_batch_size (se_prefill E)"
    "fcfs_state s" "radix_locked env g (s_cache s) {#}" "radix_capacity (s_cache s) \<le> 2 ^ 50" "\<not> s_batch_is_full s"
    "b_reqs (s_running_batch s) = []" "0 < rp_available_size (s_pool s)"
    "s_waiting_queue s = init_req_max_new_tokens (se_page_size E) max_req_len (radix_capacity (s_cache s)) r # rs"
    "output_ids r = []"
    "ceil_to (se_page_size E) (int (length (origin_input_ids r))) + se_page_size E < radix_capacity (s_cache s)"
  shows "\<exists>b s'. get_new_batch_prefill_raw E [] s = Inr (Some b, s') \<and> rid (hd (b_reqs b)) = rid r"
proof -
  let ?ps = "se_page_size E" and ?c = "s_cache s" and ?n = "int (length (origin_input_ids r))"
  let ?r = "init_req_max_new_tokens ?ps max_req_len (radix_capacity ?c) r"
  have inv: "radix_inv ?c {#}" using assms(9) by (auto simp: radix_locked_def)
  have ps: "0 < ?ps" using radix_kv(3)[OF assms(9)] assms(3) by simp
  have keeps: "origin_input_ids ?r = origin_input_ids r" "output_ids ?r = output_ids r" "rid ?r = rid r"
    by (simp_all add: init_req_max_new_tokens_def Let_def)
  have "max_new_tokens ?r \<le> max 0 (radix_capacity ?c - ceil_to ?ps ?n - ?ps - 1)"
    by (simp add: init_req_max_new_tokens_def Let_def ceil_to_def)
  then have "?n + max_new_tokens ?r + ?ps < radix_capacity ?c"
    using assms(16) ceil_to_bounds(1)[OF ps, of ?n] by linarith
  then have fits: "int (length (origin_input_ids ?r)) + max_new_tokens ?r + ?ps < available_and_evictable (radix_ops env g strip) ?c"
    using unlocked_sizes[OF inv] keeps(1) by (simp add: rc.available_and_evictable_plain radix_capacity_def)
  have "\<exists>b s'. get_new_batch_prefill_raw E [] s = Inr (Some b, s') \<and> round_done (?r # rs) (s_pool s) (Some b) s' \<and>
      rid (hd (b_reqs b)) = rid ?r"
    by (rule rd.idle_round[OF assms(1,2) _ assms(4-14)])
      (use assms(3,15) radix_kv(2,7)[OF assms(9)] keeps fits in simp_all)
  then show ?thesis using keeps(3) by auto
qed

theorem idle_request_admitted_witness:
  "\<exists>b s'. get_new_batch_prefill_raw (demo_sched (radix_ops demo_env demo_launch False) 2) [] (demo_sched_state demo_queue demo_cache)
       = Inr (Some b, s') \<and> rid (hd (b_reqs b)) = ''a''"
proof -
  let ?r = "demo_waiting ''a'' [7, 8, 9]" and ?s = "demo_sched_state demo_queue demo_cache"
  have r: "output_ids ?r = []" "origin_input_ids ?r = [7, 8, 9]" "rid ?r = ''a''" "ceil_to 2 3 = 4"
    "0 < rp_available_size (rp_init 4 16)"
    by (simp_all add: demo_waiting_def new_req_def ceil_to_def rp_available_size_def rp_init_def)
  have q: "s_waiting_queue ?s = init_req_max_new_tokens 2 20 8 ?r # [demo_waiting ''b'' [5, 6]]"
    by (simp add: demo_state_fields demo_queue_def)
  show ?thesis
    using idle_request_admitted[OF demo_plain demo_sched_fields(1), where s = ?s and env = demo_env and g = demo_launch and strip = False
        and max_req_len = 20 and r = ?r and rs = "[demo_waiting ''b'' [5, 6]]"]
      r q demo_fcfs[of demo_cache] demo_cache_locked(1,2) demo_cache_facts(4)
    by (simp add: demo_sched_fields demo_state_fields)
qed

section \<open>A request that is never admitted\<close>

text \<open>
  The condition on the input is needed: a pool of two pages of 8 slots accepts an input of 9
  tokens (\<^verbatim>\<open>max_req_input_len\<close> is 10), its limit becomes 0, and the budget asks for 9 + 0 + 8
  tokens, so that an idle scheduler does not admit it and holds the queue behind it.
\<close>

definition demo_two_pages :: chunk_cache where
  "demo_two_pages = \<lparr>cc_allocator = pg_init 16 8 False False, cc_page_size = 8, cc_protected_size = 0\<rparr>"

lemma accepted_never_scheduled:
  "case validate_input_length 10 False (demo_waiting ''long'' [1, 2, 3, 4, 5, 6, 7, 8, 9]) of (err, r) \<Rightarrow>
     err = None \<and>
     (case get_new_batch_prefill_raw (demo_sched (chunk_ops demo_launch False) 8) []
             (demo_sched_state [init_req_max_new_tokens 8 15 16 r, demo_waiting ''b'' [5, 6]] demo_two_pages) of
        Inl _ \<Rightarrow> False
      | Inr (b, s') \<Rightarrow> b = None \<and> map rid (s_waiting_queue s') = [''long'', ''b''])"
  by code_simp

end
