(* ===== verification/DecodeProps.thy ===== *)
theory DecodeProps
  imports RoundProps
begin

text \<open>
  A decode step of the running batch: \<^verbatim>\<open>check_decode_mem\<close> answers whether the step has the
  memory it needs, and when it says so \<^verbatim>\<open>prepare_for_decode\<close> allocates a slot of its own for
  every request and writes it into the request's row. The pages that the requests have filled
  in part belong to them: they are neither free nor cached.
\<close>

section \<open>A batch that decodes\<close>

text \<open>The slot of the last token of every request.\<close>

definition last_slots :: "req_to_token_pool \<Rightarrow> sched_batch \<Rightarrow> int list" where
  "last_slots p b = map2 (\<lambda>i s. req_to_token p i ! nat (s - 1)) (b_req_pool_indices b) (b_seq_lens b)"

definition partial_pages :: "int \<Rightarrow> req_to_token_pool \<Rightarrow> sched_batch \<Rightarrow> int list" where
  "partial_pages ps p b = old_pages ps (b_seq_lens b) (last_slots p b)"

definition decoding :: "int \<Rightarrow> req_to_token_pool \<Rightarrow> sched_batch \<Rightarrow> bool" where
  "decoding ps p b \<longleftrightarrow> b_output_ids b \<noteq> None \<and> b_encoder_lens b = None \<and>
     b_seq_lens b = map (\<lambda>r. int (kv_committed_len r)) (b_reqs b) \<and>
     length (b_req_pool_indices b) = length (b_reqs b) \<and> distinct (b_req_pool_indices b) \<and>
     (\<forall>k < length (b_reqs b). 0 < kv_committed_len (b_reqs b ! k) \<and> b_req_pool_indices b ! k \<le> rp_size p \<and>
        kv_committed_len (b_reqs b ! k) < length (req_to_token p (b_req_pool_indices b ! k))) \<and>
     locs_aligned ps (b_seq_lens b) (last_slots p b) \<and> distinct (partial_pages ps p b)"

definition decoded :: "req_to_token_pool \<Rightarrow> sched_batch \<Rightarrow> req_to_token_pool \<Rightarrow> sched_batch \<Rightarrow> bool" where
  "decoded p b p' b' \<longleftrightarrow> (\<exists>out. b_out_cache_loc b' = Some out \<and> length out = length (b_reqs b) \<and> distinct out \<and>
     (\<forall>k < length (b_reqs b). req_to_token p' (b_req_pool_indices b ! k)
        = (req_to_token p (b_req_pool_indices b ! k))[kv_committed_len (b_reqs b ! k) := out ! k]) \<and>
     (\<forall>i. i \<notin> set (b_req_pool_indices b) \<longrightarrow> req_to_token p' i = req_to_token p i) \<and>
     b_input_ids b' = the (b_output_ids b) \<and>
     map rid (b_reqs b') = map rid (b_reqs b) \<and>
     map kv_committed_len (b_reqs b') = map (\<lambda>r. kv_committed_len r + 1) (b_reqs b) \<and>
     b_seq_lens b' = map (\<lambda>r. int (kv_committed_len r)) (b_reqs b'))"

section \<open>Writing the rows\<close>

lemma scatter_rows_writes:
  assumes "length cols = length rows" "length vals = length rows" "distinct rows"
    "\<And>k. k < length rows \<Longrightarrow> rows ! k \<le> rp_size p \<and> cols ! k < length (req_to_token p (rows ! k))"
  shows "\<exists>p'. scatter_rows rows (map int cols) vals p = Inr p' \<and>
    (\<forall>k < length rows. req_to_token p' (rows ! k) = (req_to_token p (rows ! k))[cols ! k := vals ! k]) \<and>
    (\<forall>i. i \<notin> set rows \<longrightarrow> req_to_token p' i = req_to_token p i)"
proof -
  let ?f = "\<lambda>((i, j), v) p. if rp_size p < i \<or> j < 0 \<or> int (length (req_to_token p i)) \<le> j then Inl IndexError
     else Inr (p\<lparr>req_to_token := (req_to_token p)(i := (req_to_token p i)[nat j := v])\<rparr>)"
  let ?xs = "zip (zip rows (map int cols)) vals"
  let ?I = "\<lambda>n q. rp_size q = rp_size p \<and>
    (\<forall>k < length rows. req_to_token q (rows ! k) =
       (if k < n then (req_to_token p (rows ! k))[cols ! k := vals ! k] else req_to_token p (rows ! k))) \<and>
    (\<forall>i. i \<notin> set rows \<longrightarrow> req_to_token q i = req_to_token p i)"
  have "\<exists>p'. foldR ?f ?xs p = Inr p' \<and> ?I (length ?xs) p'"
  proof (rule foldR_invariant[where I = ?I])
    fix n q
    assume n: "n < length ?xs" and I: "?I n q"
    have l: "n < length rows" using n assms(1,2) by simp
    have x: "?xs ! n = ((rows ! n, int (cols ! n)), vals ! n)" using l assms(1,2) by simp
    have row: "req_to_token q (rows ! n) = req_to_token p (rows ! n)" using I l by simp
    have ne: "rows ! k \<noteq> rows ! n" if "k < length rows" "k \<noteq> n" for k
      using that l assms(3) by (simp add: nth_eq_iff_index_eq)
    have "?f (?xs ! n) q = Inr (q\<lparr>req_to_token := (req_to_token q)(rows ! n := (req_to_token p (rows ! n))[cols ! n := vals ! n])\<rparr>)"
      using I assms(4)[OF l] row unfolding x by simp
    moreover have "?I (Suc n) (q\<lparr>req_to_token := (req_to_token q)(rows ! n := (req_to_token p (rows ! n))[cols ! n := vals ! n])\<rparr>)"
      using I l ne by (auto simp: less_Suc_eq)
    ultimately show "\<exists>s'. ?f (?xs ! n) q = Inr s' \<and> ?I (Suc n) s'" by blast
  qed simp
  then show ?thesis using assms(1,2) unfolding scatter_rows_def by (auto simp: Let_def)
qed

lemma last_slots_read:
  assumes "decoding ps p b"
  shows "mapR (\<lambda>(i, s). row_index p i (s - 1)) (zip (b_req_pool_indices b) (b_seq_lens b)) = Inr (last_slots p b)"
proof -
  have l: "length (b_req_pool_indices b) = length (b_seq_lens b)" using assms by (simp add: decoding_def)
  have "row_index p (b_req_pool_indices b ! k) (b_seq_lens b ! k - 1)
      = Inr (req_to_token p (b_req_pool_indices b ! k) ! nat (b_seq_lens b ! k - 1))" if "k < length (b_seq_lens b)" for k
    using assms that by (auto simp: decoding_def row_index_def Let_def)
  then show ?thesis using l by (simp add: mapR_eq_Inr last_slots_def)
qed

section \<open>The caches\<close>

text \<open>
  \<open>apart c P\<close> says that the pages \<open>P\<close> are neither free nor cached. Eviction frees cached pages
  only, and the allocator that continues such pages does not hand out a slot twice.
\<close>

locale decode_cache = prefix_cache +
  fixes apart :: "'a \<Rightarrow> int set \<Rightarrow> bool"
  assumes evict_private: "inv c L \<Longrightarrow> apart c P \<Longrightarrow> co_evict ops num 0 0 c = Inr c' \<Longrightarrow> apart c' P"
    and decode_law: "inv c L \<Longrightarrow> 1 < co_alloc_page_size ops c \<Longrightarrow> \<forall>s \<in> set lens. 0 < s \<Longrightarrow>
      locs_aligned (int (co_alloc_page_size ops c)) lens last_loc \<Longrightarrow>
      distinct (old_pages (int (co_alloc_page_size ops c)) lens last_loc) \<Longrightarrow>
      apart c (set (old_pages (int (co_alloc_page_size ops c)) lens last_loc)) \<Longrightarrow>
      int (length (filter (\<lambda>s. s mod int (co_alloc_page_size ops c) = 0) lens) * co_alloc_page_size ops c)
        \<le> co_available_size ops c \<Longrightarrow>
      \<exists>out c'. co_alloc_decode ops (map (\<lambda>s. s + 1) lens) last_loc c = Inr (Some out, c') \<and>
        length out = length lens \<and> distinct out"
begin

lemma evict_from_keeps_private:
  assumes "inv c L" "apart c P" "evict_from_tree_cache ops n c = Inr c'"
  shows "apart c' P"
  using assms evict_private plain by (auto simp: evict_from_tree_cache_def split: if_splits)

lemma check_decode_mem_total:
  assumes "inv c L" "\<not> ra_has_spec (ba_release args)" "apart c P"
  shows "\<exists>ok c'. check_decode_mem ops args reqs None c = Inr (ok, c') \<and> inv c' L \<and> apart c' P \<and>
    co_alloc_page_size ops c' = co_alloc_page_size ops c \<and>
    (ok \<longrightarrow> int (length (filter (\<lambda>r. kv_committed_len r mod co_alloc_page_size ops c = 0) reqs) * co_alloc_page_size ops c)
      \<le> co_available_size ops c')"
proof -
  let ?n = "int (length (filter (\<lambda>r. kv_committed_len r mod co_alloc_page_size ops c = 0) reqs) * co_alloc_page_size ops c)"
  obtain c' where "evict_from_tree_cache ops ?n c = Inr c'" "inv c' L" "co_alloc_page_size ops c' = co_alloc_page_size ops c"
    using evict_from_tree_cache_ok[OF assms(1)] by blast
  then show ?thesis
    using evict_from_keeps_private[OF assms(1,3), of ?n] assms(2)
    by (simp add: check_decode_mem_def new_tokens_required_next_decode_def)
qed

text \<open>The slots of a decode step.\<close>

lemma decode_slots:
  assumes "inv c L" "decoding (int (co_alloc_page_size ops c)) p b"
    "apart c (set (partial_pages (int (co_alloc_page_size ops c)) p b))"
    "int (length (filter (\<lambda>r. kv_committed_len r mod co_alloc_page_size ops c = 0) (b_reqs b)) * co_alloc_page_size ops c)
      \<le> co_available_size ops c"
  shows "\<exists>out c'. (if co_page_size ops c = 1
      then bindR (alloc_token_slots ops (length (b_seq_lens b) * 1) False c) (\<lambda>((out, _), c). Inr (out, c))
      else bindR (mapR (\<lambda>(i, s). row_index p i (s - 1)) (zip (b_req_pool_indices b) (b_seq_lens b)))
             (\<lambda>last_loc. alloc_paged_token_slots_decode ops (map (\<lambda>s. s + int 1) (b_seq_lens b)) last_loc c))
    = Inr (out, c') \<and> length out = length (b_reqs b) \<and> distinct out"
proof -
  let ?ps = "co_alloc_page_size ops c" and ?n = "length (b_seq_lens b)"
  have lens: "b_seq_lens b = map (\<lambda>r. int (kv_committed_len r)) (b_reqs b)" "\<forall>s \<in> set (b_seq_lens b). 0 < s"
    using assms(2) by (auto simp: decoding_def in_set_conv_nth)
  define need where "need = length (filter (\<lambda>s. s mod int ?ps = 0) (b_seq_lens b)) * ?ps"
  have "filter (\<lambda>s. s mod int ?ps = 0) (b_seq_lens b)
      = map (\<lambda>r. int (kv_committed_len r)) (filter (\<lambda>r. kv_committed_len r mod ?ps = 0) (b_reqs b))"
    unfolding lens(1) by (simp add: filter_map o_def flip: zmod_int)
  then have fits: "int need \<le> co_available_size ops c" using assms(4) by (simp add: need_def)
  have le: "need \<le> ?n * ?ps" unfolding need_def by (simp add: mult_le_mono)
  show ?thesis
  proof (cases "?ps = 1")
    case True
    have "need = ?n" using True by (simp add: need_def)
    then obtain out c1 where "evict_from_tree_cache ops (int ?n) c = Inr c" "co_alloc ops ?n c = Inr (Some out, c1)"
      "length out = ?n" "distinct out"
      using alloc_law[OF assms(1) True, of ?n] fits plain by (auto simp: evict_from_tree_cache_def)
    then show ?thesis
      using True page_size_eq[OF assms(1)] lens(1) by (auto simp: alloc_token_slots_def or_out_of_memory_def Let_def)
  next
    case False
    then have ps: "1 < ?ps" using page_pos[OF assms(1)] by simp
    obtain c1 where c1: "evict_from_tree_cache ops (int (?n * ?ps)) c = Inr c1" "inv c1 L"
      "available_and_evictable ops c1 = available_and_evictable ops c"
      "int (?n * ?ps) \<le> co_available_size ops c1 \<or> co_evictable_size ops c1 = 0" "co_alloc_page_size ops c1 = ?ps"
      using evict_from_tree_cache_ok[OF assms(1)] by blast
    have "int need \<le> co_available_size ops c1"
      using c1(3,4) fits of_nat_mono[OF le, where 'a = int] sizes_nonneg(2)[OF assms(1)]
      unfolding available_and_evictable_plain by linarith
    then obtain out c2 where "co_alloc_decode ops (map (\<lambda>s. s + 1) (b_seq_lens b)) (last_slots p b) c1 = Inr (Some out, c2)"
      "length out = ?n" "distinct out"
      using decode_law[OF c1(2), of "b_seq_lens b" "last_slots p b"] ps lens(2) assms(2) c1(5)
        evict_from_keeps_private[OF assms(1,3) c1(1)]
      by (auto simp: need_def decoding_def partial_pages_def)
    then show ?thesis
      using False page_size_eq[OF assms(1)] arg_cong[OF lens(1), of length] c1(1)
      by (auto simp: last_slots_read[OF assms(2)] alloc_paged_token_slots_decode_def or_out_of_memory_def)
  qed
qed

lemma prepare_for_decode_ready:
  assumes "inv c L" "decoding (int (co_alloc_page_size ops c)) p b"
    "apart c (set (partial_pages (int (co_alloc_page_size ops c)) p b))"
    "int (length (filter (\<lambda>r. kv_committed_len r mod co_alloc_page_size ops c = 0) (b_reqs b)) * co_alloc_page_size ops c)
      \<le> co_available_size ops c"
  shows "\<exists>b' p' c'. prepare_for_decode ops p b c = Inr (b', p', c') \<and> decoded p b p' b'"
proof -
  obtain ids where ids: "b_output_ids b = Some ids" using assms(2) by (auto simp: decoding_def)
  let ?b = "b\<lparr>b_input_ids := ids, b_output_ids := None\<rparr>"
  obtain out c' where out: "(if co_page_size ops c = 1
      then bindR (alloc_token_slots ops (length (b_seq_lens b) * 1) False c) (\<lambda>((out, _), c). Inr (out, c))
      else bindR (mapR (\<lambda>(i, s). row_index p i (s - 1)) (zip (b_req_pool_indices b) (b_seq_lens b)))
             (\<lambda>last_loc. alloc_paged_token_slots_decode ops (map (\<lambda>s. s + int 1) (b_seq_lens b)) last_loc c))
    = Inr (out, c')" "length out = length (b_reqs b)" "distinct out"
    using decode_slots[OF assms] by blast
  have d: "b_seq_lens b = map int (map kv_committed_len (b_reqs b))" "b_encoder_lens b = None"
    "length (b_req_pool_indices b) = length (b_reqs b)" "distinct (b_req_pool_indices b)"
    "\<And>k. k < length (b_req_pool_indices b) \<Longrightarrow> b_req_pool_indices b ! k \<le> rp_size p \<and>
        map kv_committed_len (b_reqs b) ! k < length (req_to_token p (b_req_pool_indices b ! k))"
    using assms(2) by (auto simp: decoding_def)
  obtain p' where p': "scatter_rows (b_req_pool_indices b) (b_seq_lens b) out p = Inr p'"
    "\<forall>k < length (b_req_pool_indices b). req_to_token p' (b_req_pool_indices b ! k)
        = (req_to_token p (b_req_pool_indices b ! k))[map kv_committed_len (b_reqs b) ! k := out ! k]"
    "\<forall>i. i \<notin> set (b_req_pool_indices b) \<longrightarrow> req_to_token p' i = req_to_token p i"
    using scatter_rows_writes[of "map kv_committed_len (b_reqs b)" "b_req_pool_indices b" out p] d out(2) by auto
  have "alloc_for_decode ops 1 p ?b c = Inr (out, p', ?b, c')"
    unfolding alloc_for_decode_def plain_reqs bindR_simps prod.case Let_def
    by (cases "co_page_size ops c = 1") (use out(1) p'(1) d(2) in simp_all)
  then show ?thesis
    using ids out(2,3) p'(2,3) d(1,3) by (auto simp: prepare_for_decode_def decoded_def o_def)
qed

theorem decode_step:
  assumes "inv c L" "\<not> ra_has_spec (ba_release args)" "decoding (int (co_alloc_page_size ops c)) p b"
    "apart c (set (partial_pages (int (co_alloc_page_size ops c)) p b))"
  shows "\<exists>ok c1. check_decode_mem ops args (b_reqs b) None c = Inr (ok, c1) \<and>
    (ok \<longrightarrow> (\<exists>b' p' c2. prepare_for_decode ops p b c1 = Inr (b', p', c2) \<and> decoded p b p' b'))"
  using check_decode_mem_total[OF assms(1,2,4), of "b_reqs b"] prepare_for_decode_ready[of _ L p b] assms(3) by metis

end

lemma kv_decode_enough:
  assumes a: "kv_inv a" "1 < al_page_size a" and g: "\<And>n. set (g_order g n) = {..<n}" and pos: "\<forall>s \<in> set lens. 0 < s"
    and al: "locs_aligned (int (al_page_size a)) lens locs" "distinct (old_pages (int (al_page_size a)) lens locs)"
      "set (old_pages (int (al_page_size a)) lens locs) \<inter> al_avail a = {}"
    and fits: "length (filter (\<lambda>s. s mod int (al_page_size a) = 0) lens) * al_page_size a \<le> kv_available_size a"
  shows "\<exists>out a'. kv_alloc_decode g a (map (\<lambda>s. s + 1) lens) locs = Inr (Some out, a') \<and>
    length out = length lens \<and> distinct out"
proof -
  let ?ps = "int (al_page_size a)" and ?sl = "map (\<lambda>s. s + 1) lens"
  have i: "alloc_inv a" "pg_inv a" using a(1) by (simp_all add: kv_inv_def pg_inv_def)
  have ps: "1 < ?ps" using a(2) by simp
  have pl: "map (\<lambda>s. s - 1) ?sl = lens" by (simp add: o_def)
  have l: "length locs = length lens" using al(1) by (simp add: locs_aligned_def list_all2_lengthD)
  have "filter (\<lambda>s. s mod ?ps = 1) ?sl = map (\<lambda>s. s + 1) (filter (\<lambda>s. s mod ?ps = 0) lens)"
    using mod_pred_eq_0[OF ps] by (simp add: filter_map o_def flip: mod_pred_eq_0[OF ps])
  then have n: "page_start ?ps lens ?sl (length lens) = int (length (filter (\<lambda>s. s mod ?ps = 0) lens))"
    using decode_new_pages[OF ps, of ?sl, unfolded pl] by simp
  have "length (filter (\<lambda>s. s mod ?ps = 0) lens) \<le> length (al_pages a)"
    using fits a(2) by (simp add: kv_available_size_def available_size_def al_pages_def)
  then have args: "decode_args_ok a ?sl locs"
    using a(2) l pos al n unfolding decode_args_ok_def extend_args_ok_def Let_def pl
    by (auto simp: list_all2_conv_all_nth less_imp_le)
  define b where "b = refill (length (free_pages a) < length ?sl) a"
  note pre = decode_refill_enough[OF args i(1), folded b_def, unfolded pl]
  have "distinct (old_pages ?ps lens locs @ free_pages b)"
    using refill_inv(1,2)[OF i(1), of "length (free_pages a) < length ?sl", folded b_def] al(2,3)
    by (auto simp: alloc_inv_def al_pages_def al_avail_def)
  then have "distinct (extend_spec ?ps lens ?sl locs (free_pages b))" by (rule extend_spec_distinct[OF pre al(1)])
  moreover have "sum_list (map2 (-) ?sl lens) = int (length lens)" by (induction lens) simp_all
  then have "extend_total lens ?sl = length lens" by (simp add: extend_total_def)
  ultimately show ?thesis
    using pg_alloc_decode_spec[OF i(2) args g, folded b_def, unfolded pl] length_extend_spec[OF pre] a(2)
    by (auto simp: kv_alloc_decode_def)
qed

definition radix_private :: "'a radix_cache_scheme \<Rightarrow> int set \<Rightarrow> bool" where
  "radix_private c P \<longleftrightarrow> P \<inter> (al_avail (kv_allocator c) \<union> tree_pages c) = {}"

lemma radix_evict_private:
  assumes "radix_locked env g c L" "radix_private c P" "evict env num c = Inr (j, c')"
  shows "radix_private c' P"
proof -
  obtain L' where L: "radix_inv c L'" and dis: "\<not> r_disable c" "\<not> enable_kv_cache_events c"
    and env: "\<And>xs. mset (set_iter env xs) = mset xs"
    using assms(1) by (auto simp: radix_locked_def)
  obtain A pk pv where i: "rinv c A pk pv L'" using L by (auto simp: radix_inv_def)
  obtain A' where c': "rinv c' A' pk pv L'" "shed c A c' A' j"
    using evict_ok[OF i dis(2,1) env, of num] assms(3) by auto
  have s: "A' \<subseteq> A" "same_config c c'" "al_avail (kv_allocator c') = al_avail (kv_allocator c) \<union> (\<Union>n \<in> A - A'. node_pages c n)"
    "\<And>n. tn_value (nodes c' n) = tn_value (nodes c n)"
    using c'(2) unfolding shed_def by blast+
  have "node_pages c' n = node_pages c n" for n using s(2,4) by (simp add: node_pages_def same_config_def split: option.split)
  then have "al_avail (kv_allocator c') \<union> tree_pages c' \<subseteq> al_avail (kv_allocator c) \<union> tree_pages c"
    using s(1,3) unfolding tree_pages_nodes[OF i] tree_pages_nodes[OF c'(1)] by auto
  then show ?thesis using assms(2) by (auto simp: radix_private_def)
qed

lemma alloc_decode_ops:
  "co_alloc_decode (radix_ops env g strip) sl ll c =
     bindR (kv_alloc_decode g (kv_allocator c) sl ll) (\<lambda>(r, a). Inr (r, c\<lparr>kv_allocator := a\<rparr>))"
  "co_alloc_decode (chunk_ops g strip) sl ll c' =
     bindR (kv_alloc_decode g (cc_allocator c') sl ll) (\<lambda>(r, a). Inr (r, c'\<lparr>cc_allocator := a\<rparr>))"
  by (simp_all add: radix_ops_def chunk_ops_def Let_def on_allocator_def)

interpretation re: decode_cache "radix_ops env g strip" "radix_locked env g" radix_node radix_same radix_as_large radix_capacity
  radix_private for env g strip
proof (unfold_locales, goal_cases)
  case (1 c L P num c')
  then show ?case using radix_evict_private[of env g c L P num] by (auto simp: bindR_eq_Inr)
next
  case (2 c L lens locs)
  note k = radix_kv[OF 2(1)]
  have "length (filter (\<lambda>s. s mod int (al_page_size (kv_allocator c)) = 0) lens) * al_page_size (kv_allocator c)
      \<le> kv_available_size (kv_allocator c)"
    using 2(7) by (simp flip: of_nat_mult)
  moreover have "set (old_pages (int (al_page_size (kv_allocator c))) lens locs) \<inter> al_avail (kv_allocator c) = {}"
    using 2(6) by (auto simp: radix_private_def)
  ultimately show ?case using kv_decode_enough[OF k(1) _ k(6), of lens locs] 2(2-5) by (auto simp: alloc_decode_ops)
qed

interpretation ce: decode_cache "chunk_ops g strip" "chunk_held g" "\<lambda>_ _. True" "(=)" "(=)"
  "\<lambda>c. int (kv_available_size (cc_allocator c))" "\<lambda>c P. P \<inter> al_avail (cc_allocator c) = {}" for g strip
proof (unfold_locales, goal_cases)
  case (2 c L lens locs)
  note k = chunk_kv[OF 2(1)]
  have "length (filter (\<lambda>s. s mod int (al_page_size (cc_allocator c)) = 0) lens) * al_page_size (cc_allocator c)
      \<le> kv_available_size (cc_allocator c)"
    using 2(7) by (simp flip: of_nat_mult)
  then show ?case using kv_decode_enough[OF k(1) _ k(4), of lens locs] 2 by (auto simp: alloc_decode_ops)
qed simp

section \<open>The decode step on the radix cache\<close>

text \<open>
  C6. A decode step on the radix cache: \<^verbatim>\<open>check_decode_mem\<close> always returns, evicting what it
  needs, and when it answers that there is enough memory, \<^verbatim>\<open>prepare_for_decode\<close> does not run out
  of memory: every request gets a slot of its own, which is written into its row behind its
  tokens, no other row changes, and the lengths of the requests and of the batch advance together.
\<close>

theorem decode_step_fits:
  assumes "radix_locked env g c L" "\<not> ra_has_spec (ba_release args)" "decoding (int (r_page_size c)) p b"
    "radix_private c (set (partial_pages (int (r_page_size c)) p b))"
  shows "\<exists>ok c1. check_decode_mem (radix_ops env g strip) args (b_reqs b) None c = Inr (ok, c1) \<and>
    (ok \<longrightarrow> (\<exists>b' p' c2. prepare_for_decode (radix_ops env g strip) p b c1 = Inr (b', p', c2) \<and> decoded p b p' b'))"
proof -
  have "co_alloc_page_size (radix_ops env g strip) c = r_page_size c" using radix_kv(2)[OF assms(1)] by simp
  then show ?thesis using re.decode_step[where env = env and g = g and c = c and L = L and strip = strip and args = args and p = p and b = b] assms by simp
qed

text \<open>
  Two requests beside the cached pages 1 and 2: the first continues the cached tokens with one
  token in its own page 3, the second has filled its page 4.
\<close>

definition demo_step_pool :: req_to_token_pool where
  "demo_step_pool = (rp_init 4 16)\<lparr>req_to_token := (\<lambda>i.
     if i = 1 then [2, 3, 4, 5, 6] @ replicate 11 0 else if i = 2 then [8, 9] @ replicate 14 0 else replicate 16 0)\<rparr>"

definition demo_step_batch :: sched_batch where
  "demo_step_batch = (init_new False
      [(demo_waiting ''a'' [7, 8, 9, 10, 11])\<lparr>kv_committed_len := 5\<rparr>, (demo_waiting ''b'' [1, 2])\<lparr>kv_committed_len := 2\<rparr>])
     \<lparr>b_output_ids := Some [12, 3], b_req_pool_indices := [1, 2], b_seq_lens := [5, 2]\<rparr>"

lemma demo_step_facts:
  "decoding 2 demo_step_pool demo_step_batch" "partial_pages 2 demo_step_pool demo_step_batch = [3]"
  "length (b_reqs demo_step_batch) = 2" "radix_private demo_cache {3}"
proof -
  show pp: "partial_pages 2 demo_step_pool demo_step_batch = [3]"
    by (simp add: partial_pages_def old_pages_def partial_reqs_def last_slots_def demo_step_pool_def demo_step_batch_def)
  show "length (b_reqs demo_step_batch) = 2" by (simp add: demo_step_batch_def init_new_def)
  show "decoding 2 demo_step_pool demo_step_batch"
    unfolding decoding_def pp
    by (auto simp: demo_step_batch_def demo_step_pool_def init_new_def rp_init_def last_slots_def locs_aligned_def less_Suc_eq)
  have "tree_pages demo_cache \<subseteq> {1, 2}"
    by (auto simp: tree_pages_def hp_pages_def demo_cache_facts dest!: in_set_takeD)
  then show "radix_private demo_cache {3}" by (auto simp: radix_private_def demo_cache_facts demo_base_facts)
qed

theorem decode_step_fits_witness:
  "\<exists>c1 b' p' c2. check_decode_mem (radix_ops demo_env demo_launch False) demo_batch_args (b_reqs demo_step_batch) None demo_cache
       = Inr (True, c1) \<and>
     prepare_for_decode (radix_ops demo_env demo_launch False) demo_step_pool demo_step_batch c1 = Inr (b', p', c2) \<and>
     decoded demo_step_pool demo_step_batch p' b'"
proof -
  let ?ops = "radix_ops demo_env demo_launch False"
  have av: "int (kv_available_size (kv_allocator demo_cache)) = 4"
    using demo_base_facts by (simp add: kv_available demo_cache_facts(6))
  have args: "\<not> ra_has_spec (ba_release demo_batch_args)" by (simp add: demo_batch_args_def)
  have "check_decode_mem ?ops demo_batch_args (b_reqs demo_step_batch) None demo_cache = Inr (True, demo_cache)"
    using args av radix_kv(2)[OF demo_cache_locked(1)] demo_cache_facts(4)
    by (simp add: check_decode_mem_def new_tokens_required_next_decode_def evict_from_tree_cache_def demo_step_batch_def init_new_def)
  then show ?thesis
    using decode_step_fits[OF demo_cache_locked(1) args, of demo_step_pool demo_step_batch False] demo_step_facts demo_cache_facts(4)
    by auto
qed

end
