(* ===== verification/PolicyProps.thy ===== *)
theory PolicyProps
  imports RoundProps "HOL-Library.Multiset"
begin

text \<open>
  The order of the waiting queue: whatever policy is active, \<^verbatim>\<open>calc_priority\<close> loses and
  duplicates no request. For the depth-first policy this rests on the shape of the tree, which
  the recursion visits node by node; the other policies sort.
\<close>

section \<open>Walking a tree\<close>

text \<open>A forest on the nodes \<open>A\<close>, given by the lists of children; the rank grows from a node to its children.\<close>

definition forest :: "(nat \<Rightarrow> nat list) \<Rightarrow> nat set \<Rightarrow> (nat \<Rightarrow> nat) \<Rightarrow> bool" where
  "forest ch A rank \<longleftrightarrow> finite A \<and>
     (\<forall>n \<in> A. distinct (ch n) \<and> set (ch n) \<subseteq> A \<and> (\<forall>m \<in> set (ch n). rank n < rank m)) \<and>
     (\<forall>n \<in> A. \<forall>n' \<in> A. n \<noteq> n' \<longrightarrow> set (ch n) \<inter> set (ch n') = {})"

definition edges :: "(nat \<Rightarrow> nat list) \<Rightarrow> nat set \<Rightarrow> (nat \<times> nat) set" where
  "edges ch A = {(n, m). n \<in> A \<and> m \<in> set (ch n)}"

definition descendants :: "(nat \<Rightarrow> nat list) \<Rightarrow> nat set \<Rightarrow> nat \<Rightarrow> nat set" where
  "descendants ch A n = {m. (n, m) \<in> (edges ch A)\<^sup>*}"

lemma below_self [simp]: "n \<in> descendants ch A n"
  by (simp add: descendants_def)

lemma below_unfold:
  assumes "n \<in> A"
  shows "descendants ch A n = insert n (\<Union>m \<in> set (ch n). descendants ch A m)"
proof -
  have "(n, x) \<in> (edges ch A)\<^sup>* \<longleftrightarrow> x = n \<or> (\<exists>m \<in> set (ch n). (m, x) \<in> (edges ch A)\<^sup>*)" for x
    using assms by (auto simp: edges_def elim: converse_rtranclE intro: converse_rtrancl_into_rtrancl)
  then show ?thesis by (auto simp: descendants_def)
qed

lemma below_in:
  assumes "forest ch A rank" "n \<in> A" "m \<in> descendants ch A n"
  shows "m \<in> A \<and> rank n \<le> rank m"
proof -
  have "(n, m) \<in> (edges ch A)\<^sup>*" using assms(3) by (simp add: descendants_def)
  then show ?thesis
  proof (induction rule: rtrancl_induct)
    case (step y z)
    then have "z \<in> A" "rank y < rank z" using assms(1) by (auto simp: forest_def edges_def)
    then show ?case using step.IH by simp
  qed (simp add: assms(2))
qed

lemma below_finite:
  assumes "forest ch A rank" "n \<in> A"
  shows "finite (descendants ch A n)"
proof (rule finite_subset)
  show "descendants ch A n \<subseteq> A" using below_in[OF assms] by blast
  show "finite A" using assms(1) by (simp add: forest_def)
qed

lemma below_disjoint:
  assumes f: "forest ch A rank" and n: "n \<in> A" and x: "x \<in> set (ch n)" and y: "y \<in> set (ch n)" and ne: "x \<noteq> y"
  shows "descendants ch A x \<inter> descendants ch A y = {}"
proof (rule ccontr)
  have parent: "a = b" if "(a, m) \<in> edges ch A" "(b, m) \<in> edges ch A" for a b m
    using that f unfolding edges_def forest_def by blast
  have sv: "single_valued ((edges ch A)\<inverse>)" by (auto simp: single_valued_def dest: parent)
  have no: "(a, b) \<notin> (edges ch A)\<^sup>*" if ab: "a \<in> set (ch n)" "b \<in> set (ch n)" "a \<noteq> b" for a b
  proof
    assume "(a, b) \<in> (edges ch A)\<^sup>*"
    then obtain z where z: "(a, z) \<in> (edges ch A)\<^sup>*" "(z, b) \<in> edges ch A" using ab(3) by (auto elim: rtranclE)
    have "z = n" using parent[OF z(2)] ab(2) n by (auto simp: edges_def)
    moreover have "a \<in> A" "rank n < rank a" using f n ab(1) by (auto simp: forest_def)
    ultimately show False using below_in[OF f, of a n] z(1) by (auto simp: descendants_def)
  qed
  assume "descendants ch A x \<inter> descendants ch A y \<noteq> {}"
  then obtain z where "(x, z) \<in> (edges ch A)\<^sup>*" "(y, z) \<in> (edges ch A)\<^sup>*" by (auto simp: descendants_def)
  then have "(z, x) \<in> ((edges ch A)\<inverse>)\<^sup>*" "(z, y) \<in> ((edges ch A)\<inverse>)\<^sup>*" by (simp_all add: rtrancl_converse)
  from single_valued_confluent[OF sv this] no[OF x y ne] no[OF y x] ne show False
    by (auto simp: rtrancl_converse)
qed

lemma below_smaller:
  assumes f: "forest ch A rank" and n: "n \<in> A" and m: "m \<in> set (ch n)"
  shows "m \<in> A" "card (descendants ch A m) < card (descendants ch A n)" "n \<notin> descendants ch A m"
proof -
  have m': "m \<in> A" "rank n < rank m" using f n m by (auto simp: forest_def)
  then show "m \<in> A" and no: "n \<notin> descendants ch A m" using below_in[OF f, of m n] by auto
  have "descendants ch A m \<subset> descendants ch A n" using no below_unfold[OF n, of ch] m by auto
  then show "card (descendants ch A m) < card (descendants ch A n)" by (rule psubset_card_mono[OF below_finite[OF f n]])
qed

lemma calc_weight_total:
  assumes "forest ch A rank" "n \<in> A" "card (descendants ch A n) \<le> fuel"
  shows "\<exists>w'. calc_weight fuel ch n w = Inr w'"
  using assms(2,3)
proof (induction fuel arbitrary: n w)
  case 0
  then show ?case using below_finite[OF assms(1) 0(1)] below_self[of n ch A] by auto
next
  case (Suc fuel)
  have "\<exists>w'. calc_weight fuel ch (ch n ! k) w = Inr w'" if "k < length (ch n)" for k w
    by (rule Suc.IH) (use below_smaller[OF assms(1) Suc.prems(1) nth_mem[OF that]] Suc.prems(2) in linarith)+
  then have "\<exists>s'. bindR (calc_weight fuel ch (ch n ! k) s) (\<lambda>w. Inr (w(n := w n + w (ch n ! k)))) = Inr s'"
    if "k < length (ch n)" for k s using that by (simp add: bindR_eq_Inr)
  then show ?case
    using foldR_invariant[where I = "\<lambda>_ _. True" and xs = "ch n" and s = w
        and f = "\<lambda>child w. bindR (calc_weight fuel ch child w) (\<lambda>w. Inr (w(n := w n + w child)))"] by simp
qed

lemma get_dfs_priority_visits:
  assumes f: "forest ch A rank" and "n \<in> A" "card (descendants ch A n) \<le> fuel"
  shows "\<exists>xs. get_dfs_priority fuel ch w reqs_at n q = Inr (q @ xs) \<and>
    mset xs = (\<Sum>m \<in> descendants ch A n. mset (reqs_at m))"
  using assms(2,3)
proof (induction fuel arbitrary: n q)
  case 0
  then show ?case using below_finite[OF f 0(1)] below_self[of n ch A] by auto
next
  case (Suc fuel)
  note n = Suc.prems(1)
  let ?ys = "sort_key (\<lambda>x. - int (w x)) (ch n)"
  have ys: "set ?ys = set (ch n)" "distinct ?ys" using f n by (auto simp: forest_def)
  let ?B = "\<lambda>k. \<Union>m \<in> set (take k ?ys). descendants ch A m"
  let ?I = "\<lambda>k s. \<exists>xs. s = q @ xs \<and> mset xs = (\<Sum>m \<in> ?B k. mset (reqs_at m))"
  have "\<exists>s. foldR (get_dfs_priority fuel ch w reqs_at) ?ys q = Inr s \<and> ?I (length ?ys) s"
  proof (rule foldR_invariant[where I = ?I])
    fix k s
    assume k: "k < length ?ys" and I: "?I k s"
    let ?y = "?ys ! k"
    have y: "?y \<in> set (ch n)" using nth_mem[OF k] ys(1) by simp
    note sm = below_smaller[OF f n y]
    obtain xs where xs: "s = q @ xs" "mset xs = (\<Sum>m \<in> ?B k. mset (reqs_at m))" using I by blast
    obtain zs where zs: "get_dfs_priority fuel ch w reqs_at ?y s = Inr (s @ zs)"
      "mset zs = (\<Sum>m \<in> descendants ch A ?y. mset (reqs_at m))"
      using Suc.IH[OF sm(1), of s] sm(2) Suc.prems(2) by auto
    have fin: "finite (?B k)" "finite (descendants ch A ?y)"
      using below_finite[OF f] below_smaller(1)[OF f n] ys(1) sm(1) by (auto dest: in_set_takeD)
    have "descendants ch A x \<inter> descendants ch A ?y = {}" if "x \<in> set (take k ?ys)" for x
    proof (rule below_disjoint[OF f n _ y])
      show "x \<in> set (ch n)" using in_set_takeD[OF that] ys(1) by simp
      show "x \<noteq> ?y" using that k ys(2) by (auto simp: in_set_conv_nth nth_eq_iff_index_eq)
    qed
    then have "?B k \<inter> descendants ch A ?y = {}" by blast
    then have "mset (xs @ zs) = (\<Sum>m \<in> ?B k \<union> descendants ch A ?y. mset (reqs_at m))"
      using xs(2) zs(2) fin by (simp add: sum.union_disjoint)
    also have "?B k \<union> descendants ch A ?y = ?B (Suc k)" using k by (auto simp: take_Suc_conv_app_nth)
    finally show "\<exists>s'. get_dfs_priority fuel ch w reqs_at ?y s = Inr s' \<and> ?I (Suc k) s'"
      using zs(1) xs(1) by auto
  qed simp
  then obtain xs where xs: "foldR (get_dfs_priority fuel ch w reqs_at) ?ys q = Inr (q @ xs)"
    "mset xs = (\<Sum>m \<in> (\<Union>m \<in> set (ch n). descendants ch A m). mset (reqs_at m))" using ys(1) by auto
  have "n \<notin> (\<Union>m \<in> set (ch n). descendants ch A m)" "finite (\<Union>m \<in> set (ch n). descendants ch A m)"
    using below_smaller[OF f n] below_finite[OF f] by auto
  then have "mset (xs @ reqs_at n) = (\<Sum>m \<in> descendants ch A n. mset (reqs_at m))"
    using xs(2) unfolding below_unfold[OF n, of ch] by (simp add: add.commute)
  then show ?case using xs(1) by auto
qed

lemma requests_at_nodes:
  assumes "finite A" "\<forall>r \<in> set queue. \<exists>n \<in> A. last_node r = Some n"
  shows "(\<Sum>n \<in> A. mset (filter (\<lambda>r. last_node r = Some n) queue)) = mset queue"
  using assms(2)
proof (induction queue)
  case (Cons r queue)
  then obtain n where n: "n \<in> A" "last_node r = Some n" by auto
  have "mset (filter (\<lambda>r. last_node r = Some m) (r # queue))
      = (if m = n then {#r#} else {#}) + mset (filter (\<lambda>r. last_node r = Some m) queue)" for m
    using n(2) by simp
  then show ?case using Cons n(1) assms(1) by (simp add: sum.distrib sum.delta)
qed simp

section \<open>The radix tree\<close>

lemma radix_forest:
  assumes inv: "rinv c A pk pv L"
  defines "ch \<equiv> \<lambda>n. map snd (children (nodes c n))"
  shows "forest ch A (\<lambda>n. length (pk n))" "descendants ch A (root_node c) = A" "card A \<le> next_ref c"
proof -
  note t = rinvD(1)[OF inv]
  note d = tree_okD[OF t]
  have kid: "m \<in> A \<and> m \<noteq> root_node c \<and> parent (nodes c m) = Some n \<and> length (pk n) < length (pk m)"
    if n: "n \<in> A" and m: "m \<in> set (ch n)" for n m
  proof -
    obtain k where k: "(k, m) \<in> kids c n" using m by (auto simp: ch_def kids_def)
    note m = d(8-10)[OF n k]
    obtain p where "parent (nodes c m) = Some p" "pk m = pk p @ units_of c m" "key_ok c (tn_key (nodes c m))"
      using t m(1,2) unfolding tree_ok_def by blast
    then show ?thesis using m by (simp add: key_ok_def)
  qed
  have "distinct (ch n)" if "n \<in> A" for n
  proof -
    have "inj_on snd (set (children (nodes c n)))"
      using d(11)[OF that] unfolding inj_on_def kids_def by (metis prod.collapse sum.inject(2))
    then show ?thesis using d(7)[OF that] by (simp add: ch_def distinct_map)
  qed
  moreover have "set (ch n) \<inter> set (ch n') = {}" if "n \<in> A" "n' \<in> A" "n \<noteq> n'" for n n'
    using kid[OF that(1)] kid[OF that(2)] that(3) by fastforce
  ultimately show f: "forest ch A (\<lambda>n. length (pk n))" using kid d(6) by (auto simp: forest_def)
  have "n \<in> descendants ch A (root_node c)" if "n \<in> A" for n
    using that
  proof (induction "length (pk n)" arbitrary: n rule: less_induct)
    case less
    show ?case
    proof (cases "n = root_node c")
      case False
      then obtain p where p: "p \<in> A" "n \<in> snd ` kids c p" using t less.prems unfolding tree_ok_def by blast
      then have p: "p \<in> A" "n \<in> set (ch p)" by (simp_all add: ch_def kids_def)
      then have "p \<in> descendants ch A (root_node c)" using less.hyps[of p] kid by blast
      then show ?thesis using p by (auto simp: descendants_def edges_def intro: rtrancl_into_rtrancl)
    qed simp
  qed
  then show "descendants ch A (root_node c) = A" using below_in[OF f d(3)] by blast
  show "card A \<le> next_ref c" using card_mono[OF _ d(2)] by simp
qed

lemma radix_match_keeps_nodes:
  assumes "radix_locked env g c L" "\<not> is_bigram key" "radix_match env key c = Inr (m, c')"
  shows "radix_locked env g c' L" "radix_node c' (cm_last_device_node m)" "radix_node c n \<Longrightarrow> radix_node c' n"
proof -
  show "radix_locked env g c' L" "radix_node c' (cm_last_device_node m)"
    using radix_match_law[OF assms(1,2)] assms(3) by auto
  obtain L' where L: "radix_inv c L'" and dis: "\<not> r_disable c" using assms(1) by (auto simp: radix_locked_def)
  obtain A pk pv where i: "rinv c A pk pv L'" using L by (auto simp: radix_inv_def)
  obtain r A' pk' pv' where r: "match_prefix env key c = Inr (r, c')" "rinv c' A' pk' pv' L'" "same_content A pk pv A' pk' pv'"
    using match_prefix_ok[OF i dis, of key env] assms(2,3) by (auto simp: radix_match_def bindR_eq_Inr)
  then show "radix_node c n \<Longrightarrow> radix_node c' n"
    using tree_path_iff[OF i] tree_path_iff[OF r(2)] by (auto simp: radix_node_def same_content_def)
qed

text \<open>The requests after the matches, and the nodes at which they are.\<close>

definition at_nodes :: "'a radix_cache_scheme \<Rightarrow> req list \<Rightarrow> bool" where
  "at_nodes c rs \<longleftrightarrow> (\<forall>r \<in> set rs. radix_node c (last_node r))"

lemma match_prefix_for_req_ok:
  assumes l: "radix_locked env g c L" and run: "match_prefix_for_req E (radix_ops env g strip) r ids c = Inr (m', r', c')"
  shows "radix_locked env g c' L" "rid r' = rid r" "radix_node c' (last_node r')" "radix_node c n \<Longrightarrow> radix_node c' n"
proof -
  let ?key = "\<lparr>token_ids = (case ids of Some ids \<Rightarrow> ids | None \<Rightarrow> origin_input_ids r @ output_ids r),
    extra_key = rq_extra_key r, is_bigram = False\<rparr>"
  note run = run[unfolded match_prefix_for_req_def Let_def radix_ops_fields]
  obtain m c1 where m: "radix_match env ?key c = Inr (m, c1)"
    using run unfolding bindR_eq_Inr split_paired_Ex by blast
  note run = run[unfolded m bindR_simps prod.case]
  have r': "c1 = c'" "rid r' = rid r" "last_node r' = cm_last_device_node m \<or> last_node r' = Some (root_node c')"
    using run by (auto simp: zero_match_result_def Let_def split: option.splits)
  note k = radix_match_keeps_nodes[OF l _ m, unfolded r'(1), simplified]
  show "radix_locked env g c' L" "rid r' = rid r" "radix_node c' (last_node r')" "radix_node c n \<Longrightarrow> radix_node c' n"
    using k r' radix_kv(8)[OF k(1)] by auto
qed

lemma prefix_match_step_ok:
  assumes l: "radix_locked env g c L" and s: "at_nodes c seen"
    and run: "prefix_match_step E (radix_ops env g strip) r (seen, dep, c, wt) = Inr (seen', dep', c', wt')"
  shows "radix_locked env g c' L \<and> at_nodes c' seen' \<and> map rid seen' = map rid seen @ [rid r]"
proof -
  note run = run[unfolded prefix_match_step_def prod.case Let_def]
  obtain m r1 c1 where a: "match_prefix_for_req E (radix_ops env g strip) r (Some (origin_input_ids r @ output_ids r)) c = Inr (m, r1, c1)"
    using run unfolding bindR_eq_Inr split_paired_Ex by blast
  note run = run[unfolded a bindR_simps prod.case]
  show ?thesis
    using run match_prefix_for_req_ok[OF l a] s by (auto simp: bindR_eq_Inr at_nodes_def split: if_splits)
qed

lemma prefix_matches_ok:
  assumes "radix_locked env g c L" "at_nodes c seen"
    "foldR (prefix_match_step E (radix_ops env g strip)) queue (seen, dep, c, wt) = Inr (q, dep', c', wt')"
  shows "radix_locked env g c' L \<and> at_nodes c' q \<and> map rid q = map rid seen @ map rid queue"
  using assms
proof (induction queue arbitrary: seen dep c wt)
  case (Cons r queue)
  obtain seen1 dep1 c1 wt1 where step: "prefix_match_step E (radix_ops env g strip) r (seen, dep, c, wt) = Inr (seen1, dep1, c1, wt1)"
    using Cons.prems(3) unfolding foldR.simps bindR_eq_Inr split_paired_Ex by blast
  have "foldR (prefix_match_step E (radix_ops env g strip)) queue (seen1, dep1, c1, wt1) = Inr (q, dep', c', wt')"
    using Cons.prems(3) step by simp
  from Cons.IH[OF _ _ this] prefix_match_step_ok[OF Cons.prems(1,2) step] show ?case by auto
qed simp

lemma co_children_radix: "co_children (radix_ops env g strip) c = (\<lambda>n. map snd (children (nodes c n)))"
  by (simp add: radix_ops_def Let_def)

lemma dfs_weight_permutes:
  assumes l: "radix_locked env g c L" and q: "at_nodes c queue" and fuel: "next_ref c \<le> walk_fuel E"
  shows "\<exists>q. sort_by_dfs_weight E (radix_ops env g strip) queue c = Inr q \<and> mset q = mset queue"
proof -
  obtain L' where "radix_inv c L'" using l by (auto simp: radix_locked_def)
  then obtain A pk pv where i: "rinv c A pk pv L'" by (auto simp: radix_inv_def)
  let ?ch = "\<lambda>n. map snd (children (nodes c n))" and ?at = "\<lambda>n. filter (\<lambda>r. last_node r = Some n) queue"
  note f = radix_forest[OF i]
  have root: "root_node c \<in> A" "finite A" using tree_okD(3,6)[OF rinvD(1)[OF i]] by simp_all
  have card: "card (descendants ?ch A (root_node c)) \<le> walk_fuel E" using f(2,3) fuel by simp
  obtain w where w: "calc_weight (walk_fuel E) ?ch (root_node c) (\<lambda>n. length (?at n)) = Inr w"
    using calc_weight_total[OF f(1) root(1) card] by blast
  obtain xs where xs: "get_dfs_priority (walk_fuel E) ?ch w ?at (root_node c) [] = Inr xs" "mset xs = (\<Sum>m \<in> A. mset (?at m))"
    using get_dfs_priority_visits[OF f(1) root(1) card, of w ?at "[]"] f(2) by auto
  have "\<forall>r \<in> set queue. \<exists>n \<in> A. last_node r = Some n"
    using q tree_path_iff[OF i] by (fastforce simp: at_nodes_def radix_node_def)
  from requests_at_nodes[OF root(2) this] xs w show ?thesis
    by (simp add: sort_by_dfs_weight_def Let_def co_children_radix)
qed

section \<open>Sorting\<close>

lemma sort_by_keyR_sorts:
  assumes "\<And>r. r \<in> set queue \<Longrightarrow> key r = Inr (f r)"
  shows "sort_by_keyR key queue = Inr (map snd (sort_key fst (map (\<lambda>r. (f r, r)) queue)))"
    "mset (map snd (sort_key fst (map (\<lambda>r. (f r, r)) queue))) = mset queue"
    "sorted (map f (map snd (sort_key fst (map (\<lambda>r. (f r, r)) queue))))"
proof -
  let ?xs = "sort_key fst (map (\<lambda>r. (f r, r)) queue)"
  show "sort_by_keyR key queue = Inr (map snd ?xs)"
    using mapR_total[of queue "\<lambda>r. bindR (key r) (\<lambda>k. Inr (k, r))" "\<lambda>r. (f r, r)"] assms by (simp add: sort_by_keyR_def)
  show "mset (map snd ?xs) = mset queue" by (simp add: multiset.map_comp o_def)
  have "map f (map snd ?xs) = map fst ?xs" by auto
  then show "sorted (map f (map snd ?xs))" by (simp only: sorted_sort_key)
qed

section \<open>The order of the queue\<close>

text \<open>The order each policy promises; \<open>dep\<close> are the requests that the prefix matches hold back.\<close>

definition ordered_by :: "sched_policy \<Rightarrow> sched_mode \<Rightarrow> req list option \<Rightarrow> string list \<Rightarrow> req list \<Rightarrow> req list \<Rightarrow> bool" where
  "ordered_by pol mode running dep queue q \<longleftrightarrow>
     (let prio = (\<lambda>r. the (rq_priority r) * sp_priority_sign pol)
      in case mode of
        LPM \<Rightarrow> sorted (map (lpm_key dep) q)
      | FCFS \<Rightarrow> if sp_policy pol = FCFS \<and> sp_enable_priority_scheduling pol
                then sorted (map (\<lambda>r. (prio r, wait_queue_entry_time r)) q) else q = queue
      | LOF \<Rightarrow> if sp_enable_priority_scheduling pol then sorted (map (\<lambda>r. (prio r, - max_new_tokens r)) q)
               else sorted (map (\<lambda>r. - max_new_tokens r) q)
      | ROUTING_KEY \<Rightarrow> (case running of None \<Rightarrow> q = queue | Some rs \<Rightarrow>
               if \<forall>r \<in> set rs. key_or_empty (routing_key r) = [] then q = queue else sorted (map (routing_sort_key rs) q))
      | _ \<Rightarrow> True)"

lemma plain_policies_order:
  assumes "\<not> cache_aware (determine_active_policy pol queue)" "\<And>q. mset (shuffle E q) = mset q"
    "sp_enable_priority_scheduling pol \<longrightarrow> (\<forall>r \<in> set queue. rq_priority r \<noteq> None)"
  shows "\<exists>q. calc_priority E ops running queue pol c = Inr (False, q, pol, c) \<and> mset q = mset queue \<and>
    ordered_by pol (determine_active_policy pol queue) running dep queue q"
proof -
  let ?sign = "sp_priority_sign pol"
  let ?prio = "\<lambda>r. the (rq_priority r) * ?sign"
  note fcfs = sort_by_keyR_sorts[of queue "\<lambda>r. bindR (prio_key ?sign r) (\<lambda>p. Inr (p, wait_queue_entry_time r))"
      "\<lambda>r. (?prio r, wait_queue_entry_time r)"]
  note lof = sort_by_keyR_sorts[of queue "\<lambda>r. bindR (prio_key ?sign r) (\<lambda>p. Inr (p, - max_new_tokens r))"
      "\<lambda>r. (?prio r, - max_new_tokens r)"]
  have key: "prio_key ?sign r = Inr (?prio r)" if "sp_enable_priority_scheduling pol" "r \<in> set queue" for r
    using assms(3) that by (auto simp: prio_key_def)
  show ?thesis
  proof (cases "sp_policy pol")
    case FCFS
    then show ?thesis using fcfs key
      by (cases "sp_enable_priority_scheduling pol")
        (auto simp: calc_priority_def determine_active_policy_def sort_by_priority_and_fcfs_def ordered_by_def)
  next
    case LOF
    then show ?thesis using lof key
      by (cases "sp_enable_priority_scheduling pol")
        (auto simp: calc_priority_def determine_active_policy_def cache_aware_def sort_by_longest_output_def ordered_by_def)
  next
    case ROUTING_KEY
    then show ?thesis
      by (auto simp: calc_priority_def determine_active_policy_def cache_aware_def sort_by_routing_key_def ordered_by_def
          split: option.splits)
  qed (use assms(1,2) in \<open>auto simp: calc_priority_def determine_active_policy_def cache_aware_def ordered_by_def\<close>)
qed


text \<open>With a negative threshold the requests are matched against the cache only.\<close>

lemma prefix_matches_total:
  assumes "radix_locked env g c L" "IN_BATCH_CHECK_THRESHOLD E < 0"
  shows "\<exists>st. foldR (prefix_match_step E (radix_ops env g strip)) queue (seen, dep, c, wt) = Inr st"
  using assms(1)
proof (induction queue arbitrary: seen dep c)
  case (Cons r queue)
  let ?key = "\<lparr>token_ids = origin_input_ids r @ output_ids r, extra_key = rq_extra_key r, is_bigram = False\<rparr>"
  obtain m c1 where m: "radix_match env ?key c = Inr (m, c1)" "radix_locked env g c1 L"
    using radix_match_law[OF Cons.prems, of ?key] by auto
  have "\<exists>seen1. prefix_match_step E (radix_ops env g strip) r (seen, dep, c, wt) = Inr (seen1, dep, c1, wt)"
    using m(1) assms(2) by (simp add: prefix_match_step_def match_prefix_for_req_def Let_def)
  then show ?case using Cons.IH[OF m(2)] by auto
qed simp

definition demo_lpm :: sched_policy where
  "demo_lpm = \<lparr>sp_policy = LPM, sp_enable_priority_scheduling = False, sp_priority_sign = 1, waiting_queue_radix_tree = demo_empty\<rparr>"


end
