(* ===== verification/BalancedProps.thy ===== *)
theory BalancedProps
  imports RoundProps
begin

text \<open>
  Balanced batch formation: whatever order the ratio and the bundle hits impose, a request is
  admitted at most once, and every waiting request is admitted unless the budget stops the
  formation.
\<close>

section \<open>What a step leaves alone\<close>

lemma preempt_can_run:
  assumes "preempt_to_schedule E ops r ad p c = Inr (ok, ad1, p1, c1)"
  shows "can_run_list ad1 = can_run_list ad"
  using assms by (auto simp: preempt_to_schedule_def Let_def bindR_eq_Inr split: if_splits prod.splits)

lemma hard_stop_can_run:
  assumes "hard_stop_or_full E ops r full ad p c = Inr (st, f1, ad1, p1, c1)"
  shows "can_run_list ad1 = can_run_list ad"
  using assms by (auto simp: bindR_eq_Inr hard_stop_or_full_def Let_def preempt_can_run split: if_splits)

text \<open>
  The state of the formation for a queue of requests with ids \<open>ids\<close> after requests with ids
  \<open>base\<close> were already admitted.
\<close>

definition forming :: "string list \<Rightarrow> string list \<Rightarrow> 'c form_state \<Rightarrow> bool" where
  "forming ids base fs \<longleftrightarrow> map rid (fs_queue fs) = ids \<and> distinct (fs_admitted fs) \<and>
     set (fs_admitted fs) \<subseteq> {..<length ids} \<and> set (fs_deprioritized fs) \<subseteq> {..<length ids} \<and>
     map rid (can_run_list (fs_adder fs)) = base @ map (\<lambda>i. ids ! i) (fs_admitted fs)"

definition extends :: "'c form_state \<Rightarrow> 'c form_state \<Rightarrow> bool" where
  "extends fs fs' \<longleftrightarrow> set (fs_admitted fs) \<subseteq> set (fs_admitted fs') \<and> set (fs_deprioritized fs) \<subseteq> set (fs_deprioritized fs')"

lemma extends_refl [simp]: "extends fs fs"
  by (simp add: extends_def)

lemma extends_trans: "extends fs fs' \<Longrightarrow> extends fs' fs'' \<Longrightarrow> extends fs fs''"
  by (auto simp: extends_def)

lemma forming_set_req:
  assumes "forming ids base fs" "rid r = ids ! i" "i < length ids"
  shows "forming ids base (fs\<lparr>fs_queue := (fs_queue fs)[i := r], fs_cache := c\<rparr>)"
proof -
  have "map rid ((fs_queue fs)[i := r]) = ids"
    using assms by (auto simp: forming_def map_update)
  then show ?thesis using assms(1) by (simp add: forming_def)
qed

lemma forming_rid: "forming ids base fs \<Longrightarrow> i < length ids \<Longrightarrow> rid (fs_queue fs ! i) = ids ! i"
  by (auto simp: forming_def)

lemma init_candidate_forming:
  assumes "forming ids base fs" "i < length ids" "init_candidate E ops i fs = Inr fs'"
  shows "forming ids base fs'" "fs_admitted fs' = fs_admitted fs" "fs_deprioritized fs' = fs_deprioritized fs"
proof -
  obtain r c where i: "init_next_round_input (pf_force_miss E) (Some ops) (fs_queue fs ! i) (fs_cache fs) = Inr (r, c)"
    and fs': "fs' = fs\<lparr>fs_queue := (fs_queue fs)[i := r], fs_cache := c\<rparr>"
    using assms(3) by (auto simp: init_candidate_def bindR_eq_Inr)
  have "rid r = ids ! i" using init_next_round_result[OF i] forming_rid[OF assms(1,2)] by metis
  then show "forming ids base fs'" "fs_admitted fs' = fs_admitted fs" "fs_deprioritized fs' = fs_deprioritized fs"
    using forming_set_req[OF assms(1) _ assms(2)] by (simp_all add: fs')
qed

lemma release_unadded_forming:
  assumes "forming ids base fs" "i < length ids" "release_unadded E ops i fs = Inr fs'"
  shows "forming ids base fs'" "fs_admitted fs' = fs_admitted fs" "fs_deprioritized fs' = fs_deprioritized fs"
proof -
  obtain r c where i: "free_unadded_mamba_idx E ops (fs_queue fs ! i) (fs_adder fs) (fs_cache fs) = Inr (r, c)"
    and fs': "fs' = fs\<lparr>fs_queue := (fs_queue fs)[i := r], fs_cache := c\<rparr>"
    using assms(3) by (auto simp: release_unadded_def bindR_eq_Inr)
  have "rid r = rid (fs_queue fs ! i)"
    using i by (auto simp: free_unadded_mamba_idx_def bindR_eq_Inr split: option.splits if_splits)
  then show "forming ids base fs'" "fs_admitted fs' = fs_admitted fs" "fs_deprioritized fs' = fs_deprioritized fs"
    using forming_set_req[OF assms(1) _ assms(2)] forming_rid[OF assms(1,2)] by (simp_all add: fs')
qed

section \<open>One request\<close>

text \<open>The request that was added is the one at the position.\<close>

lemma record_admitted_forming:
  fixes e c
  assumes f: "forming ids base fs" "i < length ids" "i \<notin> set (fs_admitted fs)"
    and d: "distinct ids" "set base \<inter> set ids = {}"
    and fr: "framed (fs_queue fs ! i) (fs_adder fs) r ad"
  defines "fs1 \<equiv> record_admitted i e (fs_queue fs ! i) r (fs\<lparr>fs_queue := (fs_queue fs)[i := r], fs_adder := ad, fs_cache := c\<rparr>)"
  shows "forming ids base fs1" "extends fs fs1"
    "can_run_list ad = can_run_list (fs_adder fs) @ [r] \<Longrightarrow> req_added r (fs_adder fs1) \<and> i \<in> set (fs_admitted fs1)"
proof -
  have rid: "rid r = ids ! i" using fr forming_rid[OF f(1,2)] by (simp add: framed_def)
  have q: "map rid ((fs_queue fs)[i := r]) = ids" using f(1,2) rid by (auto simp: forming_def map_update)
  have old: "map rid (can_run_list (fs_adder fs)) = base @ map (\<lambda>i. ids ! i) (fs_admitted fs)" using f(1) by (simp add: forming_def)
  have fresh: "ids ! i \<notin> set (base @ map (\<lambda>i. ids ! i) (fs_admitted fs))"
  proof
    assume "ids ! i \<in> set (base @ map (\<lambda>i. ids ! i) (fs_admitted fs))"
    then consider "ids ! i \<in> set base" | j where "j \<in> set (fs_admitted fs)" "ids ! i = ids ! j" by auto
    then show False
    proof cases
      case 1
      then show ?thesis using d(2) f(2) by auto
    next
      case 2
      then have "j < length ids" using f(1) by (auto simp: forming_def)
      then show ?thesis using 2 d(1) f(2,3) nth_eq_iff_index_eq by metis
    qed
  qed
  have same: "\<not> req_added r ad" if "can_run_list ad = can_run_list (fs_adder fs)"
  proof
    assume "req_added r ad"
    then have "rid r \<in> rid ` set (can_run_list (fs_adder fs))" using that by (metis image_eqI last_in_set req_added_def)
    then show False using fresh rid old by (metis set_map)
  qed
  have app: "req_added r ad" if "can_run_list ad = can_run_list (fs_adder fs) @ [r]" using that by (simp add: req_added_def)
  show "forming ids base fs1"
    using f q old rid fr same app by (auto simp: fs1_def record_admitted_def forming_def framed_def)
  show "extends fs fs1" by (auto simp: fs1_def record_admitted_def extends_def)
  show "can_run_list ad = can_run_list (fs_adder fs) @ [r] \<Longrightarrow> req_added r (fs_adder fs1) \<and> i \<in> set (fs_admitted fs1)"
    using app by (simp add: fs1_def record_admitted_def)
qed

lemma admit_one_forming:
  assumes f: "forming ids base fs" "i < length ids" "i \<notin> set (fs_admitted fs)"
    and d: "distinct ids" "set base \<inter> set ids = {}" and run: "admit_one E ops i e fs = Inr (status, fs')"
  shows "forming ids base fs'" "extends fs fs'" "status = Stop \<or> status = Admitted \<and> i \<in> set (fs_admitted fs')"
proof -
  let ?r0 = "fs_queue fs ! i"
  obtain res r ad c where a: "add_one_req (pf_adder E) ops ?r0 (truncation_align_size E) (fs_adder fs) (fs_cache fs) = Inr ((res, r, ad), c)"
    using run unfolding admit_one_def bindR_eq_Inr split_paired_Ex by blast
  note fr = add_one_req_framed[OF a]
  define fs1 where "fs1 = record_admitted i e ?r0 r (fs\<lparr>fs_queue := (fs_queue fs)[i := r], fs_adder := ad, fs_cache := c\<rparr>)"
  note rec = record_admitted_forming[OF f d fr(1), of e c, folded fs1_def]
  have st: "admit_status_of E ops i res r fs1 = Inr (status, fs')" using run a by (simp add: admit_one_def fs1_def)
  have "forming ids base fs' \<and> extends fs fs' \<and> (status = Stop \<or> status = Admitted \<and> i \<in> set (fs_admitted fs'))"
  proof (cases "res = CONTINUE")
    case True
    then have "status = Admitted" "fs' = fs1" using st rec(3) fr(2) by (simp_all add: admit_status_of_def)
    then show ?thesis using rec fr(2)[OF True] by simp
  next
    case False
    then obtain fs2 where fs2: "release_unadded E ops i fs2 = Inr fs'" "status = Stop"
      "fs2 = fs1 \<or> (\<exists>b. fs2 = fs1\<lparr>fs_full := b\<rparr>)"
      using st by (auto simp: admit_status_of_def bindR_eq_Inr split: if_splits)
    have "forming ids base fs2" "fs_admitted fs2 = fs_admitted fs1" "fs_deprioritized fs2 = fs_deprioritized fs1"
      using fs2(3) rec(1) by (auto simp: forming_def)
    then show ?thesis
      using release_unadded_forming[OF _ f(2) fs2(1), of base] rec(2) fs2(2) by (auto simp: extends_def)
  qed
  then show "forming ids base fs'" "extends fs fs'" "status = Stop \<or> status = Admitted \<and> i \<in> set (fs_admitted fs')"
    by blast+
qed

text \<open>
  What a try promises: it keeps the state and its request ends up admitted, or it is held back,
  or the formation stops.
\<close>

definition tried :: "string list \<Rightarrow> string list \<Rightarrow> nat \<Rightarrow> bool \<Rightarrow> bool \<Rightarrow> 'c form_state \<Rightarrow> admit_status \<Rightarrow> 'c form_state \<Rightarrow> bool" where
  "tried ids base i enforce collect fs status fs' \<longleftrightarrow> forming ids base fs' \<and> extends fs fs' \<and>
     (status = Stop \<or> i \<in> set (fs_admitted fs') \<or>
      status = Deprioritized \<and> enforce \<and> (collect \<longrightarrow> i \<in> set (fs_deprioritized fs')))"

lemma admit_balanced_tried:
  assumes f: "forming ids base fs" "i < length ids" "i \<notin> set (fs_admitted fs)"
    and d: "distinct ids" "set base \<inter> set ids = {}"
    and run: "admit_balanced E ops i enforce collect e fs = Inr (status, e', fs')"
  shows "tried ids base i enforce collect fs status fs'"
proof -
  let ?fs = "fs\<lparr>fs_ticks := fs_ticks fs + 1\<rparr>"
  have f1: "forming ids base ?fs" using f(1) by (simp add: forming_def)
  show ?thesis
  proof (cases "enforce \<and> \<not> hybrid_bbf_should_admit E (sched_clock E (fs_ticks fs)) (fs_queue ?fs ! i) (fs_adder ?fs) (fs_bbf ?fs) e")
    case True
    then obtain fs2 where fs2: "release_unadded E ops i ?fs = Inr fs2" "status = Deprioritized"
      "fs' = (if collect then remember_deprioritized i fs2 else fs2)"
      using run by (auto simp: admit_balanced_def Let_def bindR_eq_Inr)
    note rel = release_unadded_forming[OF f1 f(2) fs2(1)]
    have "forming ids base fs'" "extends fs fs'" "collect \<longrightarrow> i \<in> set (fs_deprioritized fs')"
      using rel f(2,3) fs2(3) by (auto simp: remember_deprioritized_def forming_def extends_def)
    then show ?thesis using True fs2(2) by (simp add: tried_def)
  next
    case False
    then have "admit_one E ops i e ?fs = Inr (status, fs')" using run by (auto simp: admit_balanced_def Let_def bindR_eq_Inr)
    from admit_one_forming[OF f1 f(2) _ d this] f(3) show ?thesis by (auto simp: tried_def extends_def)
  qed
qed

lemma try_admit_tried:
  assumes f: "forming ids base fs" "i < length ids" and d: "distinct ids" "set base \<inter> set ids = {}"
    and run: "try_admit E ops ht i enforce collect pre fs = Inr (status, e', fs')"
  shows "tried ids base i enforce collect fs status fs'"
proof (cases "i \<in> set (fs_admitted fs)")
  case True
  then show ?thesis using run f(1) by (simp add: try_admit_def tried_def)
next
  case False
  obtain st full ad p c where h: "hard_stop_or_full E ops (fs_queue fs ! i) (fs_full fs) (fs_adder fs) (fs_pool fs) (fs_cache fs) = Inr (st, full, ad, p, c)"
    using run False unfolding try_admit_def if_not_P[OF False] bindR_eq_Inr split_paired_Ex by blast
  let ?fs = "fs\<lparr>fs_full := full, fs_adder := ad, fs_pool := p, fs_cache := c\<rparr>"
  note run' = run[unfolded try_admit_def if_not_P[OF False] h bindR_simps prod.case Let_def]
  have f1: "forming ids base ?fs" using f(1) hard_stop_can_run[OF h] by (simp add: forming_def)
  have ex: "extends fs ?fs" by (simp add: extends_def)
  show ?thesis
  proof (cases st)
    case True
    then show ?thesis using run' f1 ex by (simp add: tried_def)
  next
    case go: False
    show ?thesis
    proof (cases pre)
      case (Some e)
      then have "admit_balanced E ops i enforce collect e ?fs = Inr (status, e', fs')" using run' go by simp
      from admit_balanced_tried[OF f1 f(2) _ d this] False show ?thesis
        by (auto simp: tried_def extends_def)
    next
      case None
      then obtain fs2 e where i: "init_candidate E ops i ?fs = Inr fs2" "admit_balanced E ops i enforce collect e fs2 = Inr (status, e', fs')"
        using run' go by (auto simp: bindR_eq_Inr)
      note ic = init_candidate_forming[OF f1 f(2) i(1)]
      show ?thesis using admit_balanced_tried[OF ic(1) f(2) _ d i(2)] ic(2,3) False by (auto simp: tried_def extends_def)
    qed
  qed
qed

section \<open>The passes over the queue\<close>

lemma forming_length: "forming ids base fs \<Longrightarrow> length (fs_queue fs) = length ids"
  by (auto simp: forming_def)

lemma bundle_hits_forming:
  assumes d: "distinct ids" "set base \<inter> set ids = {}"
    and "prioritize_bundle_hits E ops ht anchor k fs = Inr (stop, fs')" "forming ids base fs" "k \<le> length ids"
  shows "forming ids base fs' \<and> extends fs fs'"
  using assms(3-5)
proof (induction k arbitrary: anchor fs stop fs')
  case (Suc k)
  let ?i = "length ids - Suc k"
  have i: "?i < length ids" "k \<le> length ids" using Suc.prems(3) by simp_all
  note run = Suc.prems(1)[unfolded prioritize_bundle_hits.simps Let_def forming_length[OF Suc.prems(2)]]
  show ?case
  proof (cases "load_segments anchor = [] \<or> ?i \<in> set (fs_admitted fs) \<or> ?i \<in> set (fs_deprioritized fs)")
    case True
    then show ?thesis using run Suc.IH[OF _ Suc.prems(2) i(2)] Suc.prems(2) by (auto split: if_splits)
  next
    case False
    then have c: "load_segments anchor \<noteq> []" "\<not> (?i \<in> set (fs_admitted fs) \<or> ?i \<in> set (fs_deprioritized fs))" by auto
    note run = run[unfolded if_not_P[OF c(1)] if_not_P[OF c(2)]]
    obtain fs1 where fs1: "init_candidate E ops ?i fs = Inr fs1" using run unfolding bindR_eq_Inr by blast
    note ic = init_candidate_forming[OF Suc.prems(2) i(1) fs1]
    have ex1: "extends fs fs1" using ic(2,3) by (simp add: extends_def)
    note run = run[unfolded fs1 bindR_simps]
    obtain e where e: "hybrid_bbf_estimate_req ht (fs_queue fs1 ! ?i) (fs_adder fs1) (fs_bbf fs1) (fs_cache fs1) = Inr e"
      using run unfolding bindR_eq_Inr by blast
    note run = run[unfolded e bindR_simps]
    show ?thesis
    proof (cases "hybrid_bbf_is_bundle_hit anchor e")
      case False
      then obtain fs2 where fs2: "release_unadded E ops ?i fs1 = Inr fs2" "prioritize_bundle_hits E ops ht anchor k fs2 = Inr (stop, fs')"
        using run by (auto simp: bindR_eq_Inr)
      note rel = release_unadded_forming[OF ic(1) i(1) fs2(1)]
      have "extends fs fs2" using ex1 rel(2,3) by (simp add: extends_def)
      then show ?thesis using Suc.IH[OF fs2(2) rel(1) i(2)] extends_trans by blast
    next
      case True
      note run = run[unfolded if_not_P[OF not_not[THEN iffD2, OF True]]]
      obtain status e' fs2 where t: "try_admit E ops ht ?i True True (Some e) fs1 = Inr (status, e', fs2)"
        using run unfolding bindR_eq_Inr split_paired_Ex by blast
      have tr: "forming ids base fs2" "extends fs fs2"
        using try_admit_tried[OF ic(1) i(1) d t] extends_trans[OF ex1] by (auto simp: tried_def)
      note run = run[unfolded t bindR_simps prod.case]
      show ?thesis
      proof (cases "status = Stop")
        case True
        then show ?thesis using run tr by simp
      next
        case False
        obtain st3 fs3 where inner: "(case e' of Some e' \<Rightarrow> if status = Admitted then prioritize_bundle_hits E ops ht e' k fs2 else Inr (False, fs2)
              | None \<Rightarrow> Inr (False, fs2)) = Inr (st3, fs3)"
          using run False unfolding if_not_P[OF False] bindR_eq_Inr split_paired_Ex by blast
        have f3: "forming ids base fs3" "extends fs fs3"
          using inner Suc.IH[OF _ tr(1) i(2)] tr extends_trans[OF tr(2)] by (auto split: option.splits if_splits)
        show ?thesis
          using run False f3 Suc.IH[OF _ f3(1) i(2)] extends_trans[OF f3(2)] by (auto simp: inner split: if_splits)
      qed
    qed
  qed
qed simp

lemma form_scan_covers:
  assumes d: "distinct ids" "set base \<inter> set ids = {}"
    and "form_scan E ops ht k fs = Inr (stop, fs')" "forming ids base fs" "k \<le> length ids"
    "\<forall>i < length ids - k. i \<in> set (fs_admitted fs) \<union> set (fs_deprioritized fs)"
  shows "forming ids base fs' \<and> (\<not> stop \<longrightarrow> {..<length ids} = set (fs_admitted fs') \<union> set (fs_deprioritized fs'))"
  using assms(3-6)
proof (induction k arbitrary: fs)
  case 0
  then show ?case by (auto simp: forming_def)
next
  case (Suc k)
  let ?i = "length ids - Suc k"
  have i: "?i < length ids" "k \<le> length ids" "length ids - k = Suc ?i" using Suc.prems(3) by simp_all
  note run = Suc.prems(1)[unfolded form_scan.simps Let_def forming_length[OF Suc.prems(2)]]
  have next_ok: "\<forall>j < length ids - k. j \<in> set (fs_admitted fs2) \<union> set (fs_deprioritized fs2)"
    if "extends fs fs2" "?i \<in> set (fs_admitted fs2) \<union> set (fs_deprioritized fs2)" for fs2 :: "'a form_state"
    using that Suc.prems(4) unfolding i(3) less_Suc_eq extends_def by blast
  show ?case
  proof (cases "?i \<in> set (fs_admitted fs) \<or> ?i \<in> set (fs_deprioritized fs)")
    case True
    then show ?thesis using run Suc.IH[OF _ Suc.prems(2) i(2) next_ok] by simp
  next
    case False
    note run = run[unfolded if_not_P[OF False]]
    obtain status e fs1 where t: "try_admit E ops ht ?i True True None fs = Inr (status, e, fs1)"
      using run unfolding bindR_eq_Inr split_paired_Ex by blast
    have tr: "tried ids base ?i True True fs status fs1" by (rule try_admit_tried[OF Suc.prems(2) i(1) d t])
    note run = run[unfolded t bindR_simps prod.case]
    show ?thesis
    proof (cases "status = Stop")
      case True
      then show ?thesis using run tr by (simp add: tried_def)
    next
      case ns: False
      obtain st2 fs2 where inner: "(case e of Some e \<Rightarrow> if status = Admitted then prioritize_bundle_hits E ops ht e k fs1 else Inr (False, fs1)
            | None \<Rightarrow> Inr (False, fs1)) = Inr (st2, fs2)"
        using run ns unfolding if_not_P[OF ns] bindR_eq_Inr split_paired_Ex by blast
      have f1: "forming ids base fs1" "extends fs fs1" "?i \<in> set (fs_admitted fs1) \<union> set (fs_deprioritized fs1)"
        using tr ns by (auto simp: tried_def)
      have f2: "forming ids base fs2 \<and> extends fs1 fs2"
        using inner bundle_hits_forming[OF d _ f1(1) i(2)] f1(1) by (auto split: option.splits if_splits)
      have ex: "extends fs fs2" using extends_trans[OF f1(2)] f2 by blast
      have "?i \<in> set (fs_admitted fs2) \<union> set (fs_deprioritized fs2)" using f1(3) f2 unfolding extends_def by blast
      note IH = Suc.IH[OF _ conjunct1[OF f2] i(2) next_ok[OF ex this]]
      note run = run[unfolded if_not_P[OF ns] inner bindR_simps prod.case]
      show ?thesis
      proof (cases st2)
        case True
        then show ?thesis using run f2 by simp
      next
        case False
        then show ?thesis using run IH by simp
      qed
    qed
  qed
qed

lemma backfill_covers:
  assumes d: "distinct ids" "set base \<inter> set ids = {}"
    and "backfill E ops ht is fs = Inr (stop, fs')" "forming ids base fs" "set is \<subseteq> {..<length ids}"
  shows "forming ids base fs' \<and> extends fs fs' \<and> (\<not> stop \<longrightarrow> set is \<subseteq> set (fs_admitted fs'))"
  using assms(3-5)
proof (induction "is" arbitrary: fs)
  case (Cons i "is")
  note run = Cons.prems(1)[unfolded backfill.simps]
  obtain status e fs1 where t: "try_admit E ops ht i False False None fs = Inr (status, e, fs1)"
    using run unfolding bindR_eq_Inr split_paired_Ex by blast
  have i: "i < length ids" "set is \<subseteq> {..<length ids}" using Cons.prems(3) by auto
  have tr: "forming ids base fs1" "extends fs fs1" "status = Stop \<or> i \<in> set (fs_admitted fs1)"
    using try_admit_tried[OF Cons.prems(2) i(1) d t] by (auto simp: tried_def)
  show ?case
  proof (cases "status = Stop")
    case True
    then show ?thesis using run t tr by simp
  next
    case False
    then have "backfill E ops ht is fs1 = Inr (stop, fs')" using run t by simp
    from Cons.IH[OF this tr(1) i(2)] tr False show ?thesis
      by (auto simp: extends_def)
  qed
qed simp


text \<open>Two requests and a cache of ten pages of four slots.\<close>

definition demo_ten_pages :: chunk_cache where
  "demo_ten_pages = \<lparr>cc_allocator = pg_init 40 4 False False, cc_page_size = 4, cc_protected_size = 0\<rparr>"

definition demo_pair :: "req list" where
  "demo_pair = map (init_req_max_new_tokens 4 10 40) [demo_waiting ''a'' [7, 8, 9], demo_waiting ''b'' [5, 6]]"

definition demo_ops :: "chunk_cache cache_ops" where
  "demo_ops = chunk_ops demo_launch False"

definition demo_form_adder :: adder where
  "demo_form_adder = adder_init demo_adder_env 4 (Some (init_new False [])) (1 / 2) 100 (Some 20) 0 10 0 4 None None None 2 False"

definition demo_host_tree :: "chunk_cache host_tree" where
  "demo_host_tree = se_host_tree (demo_sched demo_ops 4)"

definition demo_form_start :: "chunk_cache form_state" where
  "demo_form_start = \<lparr>fs_queue = demo_pair, fs_full = False, fs_adder = demo_form_adder, fs_pool = rp_init 4 30,
     fs_cache = demo_ten_pages, fs_bbf = \<lparr>bs_load_tokens = 0, bs_compute_tokens = 0, loaded_segment_ids = []\<rparr>,
     fs_admitted = [], fs_deprioritized = [], fs_ticks = 0\<rparr>"

definition demo_form_next :: "chunk_cache form_state" where
  "demo_form_next = snd (snd (projr (try_admit demo_prefill_env demo_ops demo_host_tree 0 True True None demo_form_start)))"

definition demo_formation :: "(bool \<times> chunk_cache form_state) result" where
  "demo_formation = form_hybrid_balanced_prefill_batch demo_prefill_env demo_ops demo_host_tree demo_pair False
     demo_form_adder (rp_init 4 30) 0 demo_ten_pages"

lemma demo_formation_runs: "\<exists>fs. demo_formation = Inr (False, fs)"
proof -
  let ?E = demo_prefill_env and ?ht = demo_host_tree
  have "case try_admit ?E demo_ops ?ht 0 True True None demo_form_start of
      Inr (st, Some e, fs) \<Rightarrow> st = Admitted \<and> load_segments e = [] | _ \<Rightarrow> False"
    by code_simp
  then obtain e where step: "try_admit ?E demo_ops ?ht 0 True True None demo_form_start = Inr (Admitted, Some e, demo_form_next)"
    "load_segments e = []"
    unfolding demo_form_next_def by (auto split: sum.splits prod.splits option.splits)
  have "case form_scan ?E demo_ops ?ht 1 demo_form_next of Inr (stop, fs) \<Rightarrow> \<not> stop \<and> fs_deprioritized fs = [] | _ \<Rightarrow> False"
    by code_simp
  then obtain fs where scan: "form_scan ?E demo_ops ?ht 1 demo_form_next = Inr (False, fs)" "fs_deprioritized fs = []"
    by (auto split: sum.splits prod.splits)
  have "prioritize_bundle_hits ?E demo_ops ?ht e 1 demo_form_next = Inr (False, demo_form_next)"
    using step(2) by (simp only: One_nat_def prioritize_bundle_hits.simps Let_def if_True simp_thms)
  then have "form_scan ?E demo_ops ?ht (Suc 1) demo_form_start = Inr (False, fs)"
    using step(1) scan(1) unfolding form_scan.simps(2)[of _ _ _ 1] by (simp add: demo_form_start_def demo_pair_def Let_def)
  then have "form_scan ?E demo_ops ?ht (length demo_pair) demo_form_start = Inr (False, fs)"
    by (simp add: demo_pair_def)
  then show ?thesis
    unfolding demo_formation_def form_hybrid_balanced_prefill_batch_def Let_def demo_form_start_def
    using scan(2) by (simp add: demo_form_adder_def adder_init_def)
qed


end
