(* ===== verification/QueueProps.thy ===== *)
theory QueueProps
  imports SchedQueue "HOL-Library.Multiset"
begin

text \<open>
  The bounded waiting queue: its length, which request gives way when it is full, and the
  timeouts.
\<close>

section \<open>The first of the greatest elements\<close>

lemma max_index_ok:
  "ks \<noteq> [] \<Longrightarrow> \<exists>i. max_index ks = Inr i \<and> i < length ks \<and> (\<forall>j < length ks. ks ! j \<le> ks ! i) \<and> (\<forall>j < i. ks ! j < ks ! i)"
proof (induction ks rule: max_index.induct)
  case (3 k k' ks)
  then obtain i where i: "max_index (k' # ks) = Inr i" "i < length (k' # ks)" "\<forall>j < length (k' # ks). (k' # ks) ! j \<le> (k' # ks) ! i"
    "\<forall>j < i. (k' # ks) ! j < (k' # ks) ! i"
    by auto
  show ?case
  proof (cases "k < (k' # ks) ! i")
    case True
    show ?thesis
    proof (intro exI conjI allI impI)
      show "max_index (k # k' # ks) = Inr (Suc i)" using i(1) True by simp
      show "Suc i < length (k # k' # ks)" using i(2) by simp
      fix j
      show "(k # k' # ks) ! j \<le> (k # k' # ks) ! Suc i" if "j < length (k # k' # ks)"
        using that i(3) True by (cases j) auto
      show "(k # k' # ks) ! j < (k # k' # ks) ! Suc i" if "j < Suc i"
        using that i(4) True by (cases j) auto
    qed
  next
    case False
    have "(k # k' # ks) ! j \<le> k" if "j < length (k # k' # ks)" for j
      using that False i(3) by (cases j) (auto intro: order_trans)
    then show ?thesis using i(1) False by auto
  qed
qed auto

section \<open>Entering the queue\<close>

text \<open>
  How late a request is served: the priority with the sign of the configuration; a request
  without a priority comes after every other.
\<close>

definition rank :: "queue_env \<Rightarrow> req \<Rightarrow> int" where
  "rank E r = direction E *
     (case rq_priority r of Some p \<Rightarrow> p | None \<Rightarrow> if schedule_low_priority_values_first E then maxsize else - maxsize - 1)"

definition prioritised :: "queue_env \<Rightarrow> req list \<Rightarrow> bool" where
  "prioritised E queue \<longleftrightarrow> (enable_priority_scheduling E \<longrightarrow> (\<forall>x \<in> set queue. rq_priority x \<noteq> None))"

definition within_limit :: "queue_env \<Rightarrow> req list \<Rightarrow> bool" where
  "within_limit E queue \<longleftrightarrow> (case max_queued_requests E of None \<Rightarrow> True | Some m \<Rightarrow> length queue \<le> m)"

lemma rank_keys:
  assumes "\<forall>x \<in> set queue. rq_priority x \<noteq> None"
  shows "mapR (\<lambda>x. bindR (the_priority x) (\<lambda>p. Inr (direction E * p, wait_queue_entry_time x))) queue
    = Inr (map (\<lambda>x. (rank E x, wait_queue_entry_time x)) queue)"
  by (rule mapR_total) (use assms in \<open>auto simp: the_priority_def rank_def\<close>)

text \<open>What happens to a request that comes to a full queue.\<close>

lemma full_queue:
  assumes "enable_priority_scheduling E" "\<not> (case max_queued_requests E of None \<Rightarrow> True | Some m \<Rightarrow> length queue + 1 \<le> m)"
    "queue \<noteq> []" "\<forall>x \<in> set queue. rq_priority x \<noteq> None" "rq_priority r \<noteq> None"
  obtains i where "i < length queue" "\<forall>x \<in> set queue. rank E x \<le> rank E (queue ! i)"
    "abort_on_queued_limit E queue r =
      (if rank E r < rank E (queue ! i)
       then Inr (rid (queue ! i) = rid r, take i queue @ drop (i + 1) queue, [(rid (queue ! i), ABORTED_BY_PRIORITY)])
       else Inr (True, queue, [(rid r, QUEUE_FULL)]))"
proof -
  let ?keys = "map (\<lambda>x. (rank E x, wait_queue_entry_time x)) queue"
  obtain i where i: "max_index ?keys = Inr i" "i < length queue" "\<forall>j < length queue. ?keys ! j \<le> ?keys ! i"
    using max_index_ok[of ?keys] assms(3) by auto
  have top: "rank E x \<le> rank E (queue ! i)" if x: "x \<in> set queue" for x
  proof -
    obtain j where j: "j < length queue" "x = queue ! j" using x by (auto simp: in_set_conv_nth)
    have "?keys ! j \<le> ?keys ! i" using i(3) j(1) by blast
    then show ?thesis using j i(2) by (auto simp: less_eq_prod_def)
  qed
  obtain p q where pq: "rq_priority r = Some p" "rq_priority (queue ! i) = Some q" using assms(4,5) i(2) by (meson nth_mem option.exhaust)
  have "abort_on_queued_limit E queue r =
      (if rank E r < rank E (queue ! i)
       then Inr (rid (queue ! i) = rid r, take i queue @ drop (i + 1) queue, [(rid (queue ! i), ABORTED_BY_PRIORITY)])
       else Inr (True, queue, [(rid r, QUEUE_FULL)]))"
    using assms(1) pq
    unfolding abort_on_queued_limit_def if_not_P[OF assms(2)] rank_keys[OF assms(4)] bindR_simps i(1) Let_def
    by (simp add: the_priority_def rank_def)
  then show thesis using that i(2) top by blast
qed

lemma mset_without: "i < length xs \<Longrightarrow> add_mset (xs ! i) (mset (take i xs @ drop (i + 1) xs)) = mset xs"
  by (metis Suc_eq_plus1 id_take_nth_drop mset.simps(2) mset_append union_mset_add_mset_right)

text \<open>The request after its priority is set.\<close>

lemma set_or_validate_priority_ok:
  obtains "set_or_validate_priority E r = (None, [(rid r, PRIORITY_DISABLED)])" "\<not> enable_priority_scheduling E"
  | r1 where "set_or_validate_priority E r = (Some r1, [])" "rid r1 = rid r" "rank E r1 = rank E r"
      "enable_priority_scheduling E \<longrightarrow> rq_priority r1 \<noteq> None"
  by (cases "rq_priority r"; cases "enable_priority_scheduling E"; cases "abort_on_priority_when_disabled E")
    (auto simp: set_or_validate_priority_def rank_def intro: that)

lemma queued_ok:
  assumes "abort_on_queued_limit E queue r1 = Inr (False, queue1, msgs)" "set_or_validate_priority E r = (Some r1, [])"
    "rid r1 = rid r" "rank E r1 = rank E r" "enable_priority_scheduling E \<longrightarrow> rq_priority r1 \<noteq> None"
    "max_queued_requests E \<noteq> None \<Longrightarrow> length queue1 < the (max_queued_requests E)" "prioritised E queue1"
    "mset (map rid queue1) + mset (map fst msgs) = mset (map rid queue)"
    "enable_priority_scheduling E \<longrightarrow>
       (\<forall>x \<in> set (r # queue). rid x \<in> fst ` set msgs \<longrightarrow> rank E r \<le> rank E x \<and> (\<forall>y \<in> set queue1. rank E y \<le> rank E x))"
  shows "\<exists>queue' msgs. add_request_to_queue E now r queue = Inr (queue', msgs) \<and> within_limit E queue' \<and> prioritised E queue' \<and>
    mset (map rid queue') + mset (map fst msgs) = mset (map rid (r # queue)) \<and>
    (enable_priority_scheduling E \<longrightarrow>
       (\<forall>x \<in> set (r # queue). rid x \<in> fst ` set msgs \<longrightarrow> (\<forall>y \<in> set queue'. rank E y \<le> rank E x)))"
proof -
  let ?r = "r1\<lparr>wait_queue_entry_time := now\<rparr>"
  have run: "add_request_to_queue E now r queue = Inr (queue1 @ [?r], msgs)"
    using assms(1,2) by (simp add: add_request_to_queue_def)
  have "rank E ?r = rank E r" using assms(4) by (simp add: rank_def)
  moreover have "within_limit E (queue1 @ [?r])" using assms(6) by (auto simp: within_limit_def split: option.splits)
  moreover have "prioritised E (queue1 @ [?r])" using assms(5,7) by (auto simp: prioritised_def)
  moreover have "mset (map rid (queue1 @ [?r])) + mset (map fst msgs) = mset (map rid (r # queue))"
    using assms(3,8) by (simp add: ac_simps)
  ultimately show ?thesis using run assms(9) by auto
qed

text \<open>The new request takes the place of the least preferred one.\<close>

lemma replaced_ok:
  assumes run: "abort_on_queued_limit E queue r1 =
      Inr (False, take i queue @ drop (i + 1) queue, [(rid (queue ! i), ABORTED_BY_PRIORITY)])"
    and r1: "set_or_validate_priority E r = (Some r1, [])" "rid r1 = rid r" "rank E r1 = rank E r"
      "enable_priority_scheduling E \<longrightarrow> rq_priority r1 \<noteq> None"
    and q: "prioritised E queue" "distinct (map rid (r # queue))" "length queue \<le> the (max_queued_requests E)"
    and i: "i < length queue" "\<forall>x \<in> set queue. rank E x \<le> rank E (queue ! i)" "rank E r1 < rank E (queue ! i)"
  shows "\<exists>queue' msgs. add_request_to_queue E now r queue = Inr (queue', msgs) \<and> within_limit E queue' \<and> prioritised E queue' \<and>
    mset (map rid queue') + mset (map fst msgs) = mset (map rid (r # queue)) \<and>
    (enable_priority_scheduling E \<longrightarrow>
       (\<forall>x \<in> set (r # queue). rid x \<in> fst ` set msgs \<longrightarrow> (\<forall>y \<in> set queue'. rank E y \<le> rank E x)))"
proof -
  let ?q = "take i queue @ drop (i + 1) queue" and ?msg = "[(rid (queue ! i), ABORTED_BY_PRIORITY)]"
  have victim: "x = queue ! i" if "x \<in> set (r # queue)" "rid x = rid (queue ! i)" for x
    using that nth_mem[OF i(1)] q(2) by (auto simp: distinct_map inj_on_def image_iff)
  have sub: "set ?q \<subseteq> set queue" by (auto dest: in_set_takeD in_set_dropD)
  have "mset (map rid queue) = image_mset rid (add_mset (queue ! i) (mset ?q))" unfolding mset_without[OF i(1)] by simp
  then have ms: "mset (map rid ?q) + mset (map fst ?msg) = mset (map rid queue)" by simp
  show ?thesis
  proof (rule queued_ok[OF run r1 _ _ ms])
    show "length ?q < the (max_queued_requests E)" using i(1) q(3) by simp
    show "prioritised E ?q" using sub q(1) by (auto simp: prioritised_def)
    show "enable_priority_scheduling E \<longrightarrow> (\<forall>x \<in> set (r # queue). rid x \<in> fst ` set ?msg \<longrightarrow>
        rank E r \<le> rank E x \<and> (\<forall>y \<in> set ?q. rank E y \<le> rank E x))"
    proof (intro impI ballI conjI)
      fix x assume "x \<in> set (r # queue)" "rid x \<in> fst ` set ?msg"
      then have x: "x = queue ! i" using victim by simp
      show "rank E r \<le> rank E x" using i(3) r1(3) x by simp
      show "rank E y \<le> rank E x" if "y \<in> set ?q" for y using that sub i(2) x by blast
    qed
  qed
qed

text \<open>
  C19. A request that enters the bounded queue: the length stays within the limit, nothing is
  lost without a message (every request is either in the queue or told that it was aborted),
  and no request that stays is less preferred than one that is aborted.
\<close>

theorem add_request_to_queue_bounded:
  assumes "max_queued_requests E \<noteq> Some 0" "within_limit E queue" "prioritised E queue" "distinct (map rid (r # queue))"
  shows "\<exists>queue' msgs. add_request_to_queue E now r queue = Inr (queue', msgs) \<and> within_limit E queue' \<and> prioritised E queue' \<and>
    mset (map rid queue') + mset (map fst msgs) = mset (map rid (r # queue)) \<and>
    (enable_priority_scheduling E \<longrightarrow>
       (\<forall>x \<in> set (r # queue). rid x \<in> fst ` set msgs \<longrightarrow> (\<forall>y \<in> set queue'. rank E y \<le> rank E x)))"
proof (rule set_or_validate_priority_ok[of E r])
  assume "set_or_validate_priority E r = (None, [(rid r, PRIORITY_DISABLED)])" "\<not> enable_priority_scheduling E"
  then show ?thesis using assms(2,3) by (simp add: add_request_to_queue_def)
next
  fix r1
  assume r1: "set_or_validate_priority E r = (Some r1, [])" "rid r1 = rid r" "rank E r1 = rank E r"
    "enable_priority_scheduling E \<longrightarrow> rq_priority r1 \<noteq> None"
  let ?room = "case max_queued_requests E of None \<Rightarrow> True | Some m \<Rightarrow> length queue + 1 \<le> m"
  have self: "x = r" if "x \<in> set (r # queue)" "rid x = rid r" for x
    using that assms(4) by (auto simp: image_iff)
  have refused: ?thesis
    if "abort_on_queued_limit E queue r1 = Inr (True, queue, [(rid r1, QUEUE_FULL)])"
      "enable_priority_scheduling E \<longrightarrow> (\<forall>y \<in> set queue. rank E y \<le> rank E r)"
    using that r1(1,2) assms(2,3) self by (auto simp: add_request_to_queue_def)
  show ?thesis
  proof (cases ?room)
    case True
    then have "abort_on_queued_limit E queue r1 = Inr (False, queue, [])" by (simp add: abort_on_queued_limit_def)
    then show ?thesis by (rule queued_ok[OF _ r1]) (use True assms(3) in \<open>auto split: option.splits\<close>)
  next
    case full: False
    show ?thesis
    proof (cases "enable_priority_scheduling E")
      case False
      then show ?thesis using full by (intro refused) (simp_all add: abort_on_queued_limit_def)
    next
      case True
      obtain m where m: "max_queued_requests E = Some m" "m < length queue + 1" "0 < m" "length queue \<le> m"
        using full assms(1,2) by (auto simp: within_limit_def split: option.splits)
      then have ne: "queue \<noteq> []" by auto
      have prio: "\<forall>x \<in> set queue. rq_priority x \<noteq> None" using assms(3) True by (simp add: prioritised_def)
      obtain i where i: "i < length queue" "\<forall>x \<in> set queue. rank E x \<le> rank E (queue ! i)"
        and run: "abort_on_queued_limit E queue r1 =
          (if rank E r1 < rank E (queue ! i)
           then Inr (rid (queue ! i) = rid r1, take i queue @ drop (i + 1) queue, [(rid (queue ! i), ABORTED_BY_PRIORITY)])
           else Inr (True, queue, [(rid r1, QUEUE_FULL)]))"
        using full_queue[OF True full ne prio, of r1] r1(4) True by metis
      show ?thesis
      proof (cases "rank E r1 < rank E (queue ! i)")
        case better: True
        have "rid (queue ! i) \<noteq> rid r1" using nth_mem[OF i(1)] assms(4) r1(2) by (auto simp: image_iff)
        then have "abort_on_queued_limit E queue r1 = Inr (False, take i queue @ drop (i + 1) queue, [(rid (queue ! i), ABORTED_BY_PRIORITY)])"
          using run better by simp
        then show ?thesis by (rule replaced_ok[OF _ r1 assms(3,4) _ i better]) (use m in simp)
      next
        case False
        then show ?thesis
          using run i(2) r1(3) by (intro refused) (auto intro: order_trans)
      qed
    qed
  qed
qed

definition demo_limits :: queue_env where
  "demo_limits = \<lparr>enable_priority_scheduling = True, schedule_low_priority_values_first = True,
     abort_on_priority_when_disabled = False, max_queued_requests = Some 2\<rparr>"

definition demo_ranked :: "string \<Rightarrow> int option \<Rightarrow> int \<Rightarrow> req" where
  "demo_ranked name prio t = (demo_req None)\<lparr>rid := name, rq_priority := prio, wait_queue_entry_time := t\<rparr>"

theorem add_request_to_queue_bounded_witness:
  "\<exists>queue' msgs. add_request_to_queue demo_limits 9 (demo_ranked ''c'' (Some 3) 0)
       [demo_ranked ''a'' (Some 1) 5, demo_ranked ''b'' (Some 5) 7] = Inr (queue', msgs) \<and>
     within_limit demo_limits queue' \<and> mset (map rid queue') + mset (map fst msgs) = {#''a'', ''b'', ''c''#}"
proof -
  let ?q = "[demo_ranked ''a'' (Some 1) 5, demo_ranked ''b'' (Some 5) 7]"
  have "max_queued_requests demo_limits \<noteq> Some 0" "within_limit demo_limits ?q" "prioritised demo_limits ?q"
    "distinct (map rid (demo_ranked ''c'' (Some 3) 0 # ?q))"
    by (simp_all add: demo_limits_def within_limit_def prioritised_def demo_ranked_def)
  from add_request_to_queue_bounded[OF this, of 9] show ?thesis
    by (auto simp: demo_ranked_def ac_simps)
qed

section \<open>Timeouts\<close>

text \<open>The requests that stay are those that have not waited too long, in their order; each of the others is told.\<close>

lemma waiting_timeout_splits:
  assumes "0 < timeout" "distinct (map rid queue)"
  shows "abort_on_waiting_timeout now timeout queue =
    (filter (\<lambda>r. \<not> timed_out now timeout r) queue, map (\<lambda>r. (rid r, WAITING_TIMEOUT)) (filter (timed_out now timeout) queue))"
  using assms by (auto simp: abort_on_waiting_timeout_def distinct_map inj_on_def intro!: filter_cong)

end
