(* ===== verification/Spec2Isabelle.thy ===== *)
theory Spec2Isabelle
  imports AllocatorProps KeyProps RadixProps OnlineProps DelayerProps SamplingProps ReqProps CommonProps BatchProps
    RoundProps DecodeProps PolicyProps BalancedProps QueueProps
begin

text \<open>
  A verification development of the Fluxfer serving engine: the scheduler, the prefix caches and
  the memory management under \<^verbatim>\<open>src/python/sglang/srt\<close>. File names below are relative to that
  directory.

  \<^bold>\<open>The program.\<close> A request waits in the queue of the scheduler (\<^verbatim>\<open>managers/scheduler.py\<close>). In every
  iteration \<^verbatim>\<open>get_next_batch_to_run\<close> merges the last prefill batch into the running batch, tries to
  form a new prefill batch (\<^verbatim>\<open>SchedulePolicy\<close> orders the queue, \<^verbatim>\<open>PrefillAdder\<close> keeps the budget, both
  in \<^verbatim>\<open>managers/schedule_policy.py\<close>) and otherwise decodes the running batch, retracting requests
  when the memory does not suffice (\<^verbatim>\<open>managers/schedule_batch.py\<close>). A batch takes rows of the request
  pool and token slots of the allocator (\<^verbatim>\<open>mem_cache/memory_pool.py\<close>, \<^verbatim>\<open>mem_cache/allocator.py\<close>,
  \<^verbatim>\<open>mem_cache/common.py\<close>); the slots of computed prefixes stay in the radix cache
  (\<^verbatim>\<open>mem_cache/radix_cache.py\<close>), from which later requests take them and which gives them up again
  by eviction.

  \<^bold>\<open>Conventions.\<close> A call that may raise has the type \<open>result\<close>, with the class of the exception on
  the left. Objects that the code mutates are records that are passed on; nodes of the radix
  tree live in a store indexed by references; requests that several containers share are
  identified by their \<^verbatim>\<open>rid\<close>. Python integers are \<open>int\<close>, floats are rationals with the rounding
  as an argument (\<open>PyFloat\<close>, \<open>PyNum\<close>). Clocks, the order of sets and of the programs of a kernel
  launch, the digest, the tokenizer, the collective operations and the events of the device are
  arguments; what a theorem needs of them (a rounding is monotone, a launch runs every program,
  a shuffle is a permutation) is a hypothesis of the theorem.

  \<^bold>\<open>Theories, with what they model and show.\<close>

  \<^item> \<open>Prelude\<close>, \<open>PyFloat\<close>, \<open>PyNum\<close>, \<open>HeapQ\<close>, \<open>PoolSpec\<close>: results and their loops, numbers, \<^verbatim>\<open>heapq\<close>, and
    the locale \<open>paged_pool\<close> of an index pool, whose clients never hold an index twice.
  \<^item> \<open>Allocator\<close> (\<^verbatim>\<open>mem_cache/allocator.py\<close>): the token and the page allocator and the kernels of
    \<^verbatim>\<open>alloc_extend\<close> and \<^verbatim>\<open>alloc_decode\<close>. \<open>AllocExtend\<close>, \<open>AllocatorInv\<close>, \<open>AllocatorProps\<close>: kernels and reference
    routine give the slots of one specification, slots are distinct, pages are handed out once;
    both allocators are interpretations of \<open>paged_pool\<close>.
  \<^item> \<open>HostPool\<close> (\<^verbatim>\<open>mem_cache/memory_pool_host.py\<close>) and \<open>ReqPool\<close> (\<^verbatim>\<open>mem_cache/memory_pool.py\<close>, the record
    \<open>req\<close> of \<^verbatim>\<open>Req\<close>): the pools of host slots and of request rows.
  \<^item> \<open>RadixKey\<close>, \<open>BlockHash\<close>, \<open>KeyProps\<close>: keys with namespaces and bigram views, page hashes
    (\<^verbatim>\<open>mem_cache/utils.py\<close>) and placement events; matching is the longest common aligned prefix, and
    splitting a node keeps the chain of hashes.
  \<^item> \<open>RadixTree\<close>, \<open>RadixOps\<close> (\<^verbatim>\<open>mem_cache/radix_cache.py\<close>, \<^verbatim>\<open>mem_cache/evict_policy.py\<close>): the cache. \<open>RadixInv\<close>,
    \<open>RadixState\<close>: its invariant, on the shape of the tree, values, locks, sizes, evictable leaves and the
    ownership of pages. \<open>RadixLocks\<close>, \<open>RadixMatch\<close>, \<open>RadixInsert\<close>, \<open>RadixEvict\<close>: every operation keeps it.
    \<open>RadixSpec\<close>, \<open>RadixReq\<close>, \<open>RadixProps\<close>: what the operations do to the abstract contents \<open>cached\<close>: the
    longest prefix is found, insertion adds exactly the new sequence, eviction frees enough and
    chooses its victim by the strategy, caching a request leaks no page, and the invariant holds
    after any history.
  \<^item> \<open>OnlineCost\<close>, \<open>OnlineProps\<close> (\<^verbatim>\<open>mem_cache/online_prefill_cost.py\<close>): the measured cost model and its
    event recorder. \<open>PrefillDelayer\<close>, \<open>DelayerProps\<close> (\<^verbatim>\<open>managers/prefill_delayer.py\<close>): the negotiation
    between ranks. \<open>SamplingParams\<close>, \<open>SamplingProps\<close> (\<^verbatim>\<open>sampling/sampling_params.py\<close>).
  \<^item> \<open>ReqLife\<close>, \<open>ReqProps\<close> (\<^verbatim>\<open>managers/schedule_batch.py\<close>, \<^verbatim>\<open>managers/utils.py\<close>): stop conditions, limits and
    incremental detokenisation of a request.
  \<^item> \<open>CacheOps\<close> (\<^verbatim>\<open>mem_cache/base_prefix_cache.py\<close>, \<^verbatim>\<open>mem_cache/chunk_cache.py\<close>): the methods of a prefix
    cache as a record, with the radix cache and the chunk cache as values. \<open>CacheCommon\<close>,
    \<open>CommonProps\<close> (\<^verbatim>\<open>mem_cache/common.py\<close>): slots for batches, the kernels on the request pool.
  \<^item> \<open>SchedBatch\<close>, \<open>BatchPrep\<close>, \<open>BatchProps\<close> (\<^verbatim>\<open>managers/schedule_batch.py\<close>): decode memory, retraction,
    filtering, and the preparation and merging of batches.
  \<^item> \<open>SchedPolicy\<close>, \<open>PrefillAdder\<close> (\<^verbatim>\<open>managers/schedule_policy.py\<close>); \<open>SchedQueue\<close>, \<open>PrefillScan\<close>, \<open>Balanced\<close>,
    \<open>Scheduler\<close> (\<^verbatim>\<open>managers/scheduler.py\<close>): the waiting queue, the scan that forms a prefill batch, the
    balanced formation for hybrid loading, and the iteration.
  \<^item> \<open>CacheSpec\<close>: the locale \<open>prefix_cache\<close> of what the scheduler relies on. \<open>AdderProps\<close>, \<open>PrefillProps\<close>,
    \<open>SchedProps\<close> prove within it that what the adder admits can be allocated, up to a whole prefill
    round; \<open>CacheInst\<close> interprets it on both caches. \<open>IdleProps\<close> extends it by \<open>bounded_locks\<close> (a lock
    costs at most the matched tokens), \<open>DecodeProps\<close> by \<open>decode_cache\<close> (partly filled pages
    survive eviction), each interpreted on both caches.
  \<^item> \<open>RoundProps\<close>: a prefill round on the radix cache never runs out of memory, and an idle
    scheduler admits its first request. \<open>DecodeProps\<close>: a decode step that \<^verbatim>\<open>check_decode_mem\<close> allows can be
    prepared. \<open>PolicyProps\<close>: ordering the queue permutes it. \<open>BalancedProps\<close>: balanced formation
    admits everything the budget allows, once. \<open>QueueProps\<close>: the limit of the queue.

  \<^bold>\<open>Bounds.\<close> Loops whose end depends on the state carry fuel, and running out of it is the
  value \<open>OutOfFuel\<close>, which is not a Python exception. The walks of the radix tree get the length
  of the key plus one (every step consumes a page), the walks to the root the number of references
  of the store, which bounds the depth of a node, and the eviction loop one more; the theorems show
  that these return. The walk over the host segments has the size of the host tree, an argument. The recursion over
  the tree in the depth-first policy has the bound \<open>walk_fuel\<close>, and the number of nodes is enough for it.

  \<^bold>\<open>Not modelled.\<close> The host and storage tiers (\<^verbatim>\<open>mem_cache/hiradix_cache.py\<close>,
  \<^verbatim>\<open>managers/cache_controller.py\<close>) are driven by streams, events and threads of the device; the scheduler's
  calls into them are arguments (\<open>hicache_hooks\<close>, \<open>host_tree\<close>). The caches for sliding windows, Mamba
  states and the unified cache are further implementations of the interface. KV buffers, model
  execution, attention and quantisation kernels, sampling of logits, speculative decoding, LoRA,
  multimodal input, grammars, distributed execution and disaggregation compute on tensors or
  exchange messages and have no state that the modelled parts read beyond the fields named in
  the records. The HTTP and gRPC servers, the tokenizer processes, the command line, metrics,
  the model gateway and the trace replayer are input and output around the engine.
\<close>

end
